(* ===== verification/Prelude.thy ===== *)
theory Prelude
  imports Main "HOL-Library.Word" "HOL-Library.List_Lexorder"
begin

text \<open>
  Shared vocabulary of the development: the machine integers of the Rust sources, the error
  type of \<^verbatim>\<open>src/src/error.rs\<close>, the two result monads in which every operation is
  written (\<open>res\<close> for code that only computes, \<open>op\<close> for code that also changes a state
  behind a mutable reference), byte slices with their bounds checks, and the little-endian
  codecs \<^verbatim>\<open>to_le_bytes\<close> / \<^verbatim>\<open>from_le_bytes\<close>. The lemmas on slices and codecs are
  collected in \<open>slice_simps\<close>, those on the monads in \<open>res_simps\<close>; the component
  theories prove their own facts on top of these two collections.
\<close>

unbundle bit_operations_syntax

named_theorems res_simps \<open>running the error and state monads\<close>
named_theorems slice_simps \<open>reads and writes of byte slices\<close>
named_theorems page_simps \<open>page accessors\<close>

section \<open>Machine integers and bytes\<close>

type_synonym u8 = "8 word"
type_synonym u16 = "16 word"
type_synonym u32 = "32 word"
type_synonym u64 = "64 word"
type_synonym bytes = "u8 list"

text \<open>
  Slices of bytes are compared by the derived \<^verbatim>\<open>Ord\<close> of \<^verbatim>\<open>[u8]\<close>: lexicographically,
  a proper prefix first. That is the order \<open>List_Lexorder\<close> gives to lists of words.
\<close>

type_synonym key = bytes
type_synonym entry = "bytes \<times> bytes"

section \<open>Errors\<close>

text \<open>
  The error enum of the engine. \<open>Io\<close> carries the kind of the operating system error; the
  only kind the modelled code can observe is the short read of \<^verbatim>\<open>read_exact\<close>.
\<close>

datatype io_error = UnexpectedEof | OsError nat

datatype error =
    Io io_error
  | PageNotFound u32
  | PageFull u32
  | KeyNotFound
  | DuplicateKey
  | WalCorrupted string
  | BufferPoolFull
  | TransactionAborted u64
  | DeadlockDetected u64
  | LockConflict u64
  | InvalidData string
  | ChecksumMismatch u32 u32

text \<open>
  How a computation can fail: with an \<open>error\<close> returned to the caller, with a panic (an
  index out of bounds, an arithmetic underflow), or, for the loops that the model runs with
  fuel, by not having finished.
\<close>

datatype fault = Err error | Panic | OutOfFuel

type_synonym 'a res = "fault + 'a"
type_synonym ('s, 'a) op = "'s \<Rightarrow> 'a res \<times> 's"

definition bindE :: "'a res \<Rightarrow> ('a \<Rightarrow> 'b res) \<Rightarrow> 'b res" where
  "bindE m f = (case m of Inl e \<Rightarrow> Inl e | Inr a \<Rightarrow> f a)"

definition retS :: "'a \<Rightarrow> ('s, 'a) op" where
  "retS a = (\<lambda>s. (Inr a, s))"

definition failS :: "fault \<Rightarrow> ('s, 'a) op" where
  "failS e = (\<lambda>s. (Inl e, s))"

definition liftE :: "'a res \<Rightarrow> ('s, 'a) op" where
  "liftE m = (\<lambda>s. (m, s))"

definition bindS :: "('s, 'a) op \<Rightarrow> ('a \<Rightarrow> ('s, 'b) op) \<Rightarrow> ('s, 'b) op" where
  "bindS m f = (\<lambda>s. case m s of (Inl e, s') \<Rightarrow> (Inl e, s') | (Inr a, s') \<Rightarrow> f a s')"

text \<open>A \<^verbatim>\<open>for\<close> loop whose body may fail, over the values the loop visits in order.\<close>

fun foldE :: "('a \<Rightarrow> 'x \<Rightarrow> 'a res) \<Rightarrow> 'a \<Rightarrow> 'x list \<Rightarrow> 'a res" where
  "foldE f a [] = Inr a"
| "foldE f a (x # xs) = bindE (f a x) (\<lambda>a'. foldE f a' xs)"

fun mapE :: "('x \<Rightarrow> 'a res) \<Rightarrow> 'x list \<Rightarrow> 'a list res" where
  "mapE f [] = Inr []"
| "mapE f (x # xs) = bindE (f x) (\<lambda>y. bindE (mapE f xs) (\<lambda>ys. Inr (y # ys)))"

fun foldS :: "('x \<Rightarrow> ('s, unit) op) \<Rightarrow> 'x list \<Rightarrow> ('s, unit) op" where
  "foldS f [] = retS ()"
| "foldS f (x # xs) = bindS (f x) (\<lambda>_. foldS f xs)"

text \<open>A program as the list of its steps, where it matters that it can be stopped between two of them.\<close>

definition runS :: "('s, unit) op list \<Rightarrow> ('s, unit) op" where
  "runS steps = foldS (\<lambda>step. step) steps"

lemma bindE_Inr [simp, res_simps]: "bindE (Inr a) f = f a"
  by (simp add: bindE_def)

lemma bindE_Inl [simp, res_simps]: "bindE (Inl e) f = Inl e"
  by (simp add: bindE_def)

lemma bindE_eq_Inr [res_simps]: "bindE m f = Inr b \<longleftrightarrow> (\<exists>a. m = Inr a \<and> f a = Inr b)"
  by (cases m) auto

lemma bindE_cong [fundef_cong]:
  "m = m' \<Longrightarrow> (\<And>a. m' = Inr a \<Longrightarrow> f a = f' a) \<Longrightarrow> bindE m f = bindE m' f'"
  by (cases m') auto

lemma foldE_append: "foldE f a (xs @ ys) = bindE (foldE f a xs) (\<lambda>b. foldE f b ys)"
  by (induction xs arbitrary: a) (auto simp: bindE_def split: sum.splits)

lemma foldE_cong [fundef_cong]:
  "xs = ys \<Longrightarrow> a = b \<Longrightarrow> (\<And>x c. x \<in> set ys \<Longrightarrow> f c x = g c x) \<Longrightarrow> foldE f a xs = foldE g b ys"
  by (induction ys arbitrary: xs a b) (auto intro!: bindE_cong)

lemma mapE_Inr_map: "(\<And>x. x \<in> set xs \<Longrightarrow> f x = Inr (g x)) \<Longrightarrow> mapE f xs = Inr (map g xs)"
  by (induction xs) auto

lemma bindS_run [res_simps]:
  "m s = (Inr a, s') \<Longrightarrow> bindS m f s = f a s'"
  "m s = (Inl e, s') \<Longrightarrow> bindS m f s = (Inl e, s')"
  by (auto simp: bindS_def)

lemma bindS_Inr_iff:
  "bindS m f s = (Inr b, s'') \<longleftrightarrow> (\<exists>a s'. m s = (Inr a, s') \<and> f a s' = (Inr b, s''))"
  by (auto simp: bindS_def split: prod.splits sum.splits)

lemma retS_run [simp, res_simps]: "retS a s = (Inr a, s)"
  by (simp add: retS_def)

lemma failS_run [simp, res_simps]: "failS e s = (Inl e, s)"
  by (simp add: failS_def)

lemma liftE_run [simp, res_simps]: "liftE m s = (m, s)"
  by (simp add: liftE_def)

lemma bindS_retS [simp, res_simps]: "bindS (retS a) f = f a"
  by (rule ext) (simp add: bindS_def)

lemma bindS_liftE_Inr [simp, res_simps]: "bindS (liftE (Inr a)) f = f a"
  by (rule ext) (simp add: bindS_def)

lemma foldS_append: "foldS f (xs @ ys) = bindS (foldS f xs) (\<lambda>_. foldS f ys)"
  by (induction xs) (auto simp: bindS_def fun_eq_iff split: prod.splits sum.splits)

lemma foldS_map: "foldS f (map g xs) = foldS (\<lambda>x. f (g x)) xs"
  by (induction xs) simp_all

lemma runS_append: "runS (xs @ ys) = bindS (runS xs) (\<lambda>_. runS ys)"
  by (simp add: runS_def foldS_append)

lemma runS_map: "runS (map f xs) = foldS f xs"
  by (simp add: runS_def foldS_map)

lemma bindS_ret: "bindS m retS = m"
  by (rule ext) (auto simp: bindS_def split: prod.splits sum.splits)

lemma runS_single [simp]: "runS [m] = m"
  using bindS_ret [of m] by (simp add: runS_def)

text \<open>An invariant that every step keeps holds wherever the program is stopped.\<close>

lemma runS_invariant:
  assumes "\<And>m s. m \<in> set ms \<Longrightarrow> I s \<Longrightarrow> \<exists>s'. m s = (Inr (), s') \<and> I s'" and "I s"
  shows "\<exists>s'. runS ms s = (Inr (), s') \<and> I s'"
  using assms
proof (induction ms arbitrary: s)
  case (Cons m ms)
  from Cons.prems(1) [of m s] Cons.prems(2) obtain s1 where s1: "m s = (Inr (), s1)" "I s1" by auto
  from Cons.IH [OF _ s1(2)] Cons.prems(1) s1(1) show ?case by (auto simp: runS_def bindS_run)
qed (simp add: runS_def)

section \<open>Byte slices\<close>

text \<open>
  \<open>slice d i n\<close> is the Rust slice \<^verbatim>\<open>d[i..i+n]\<close> and \<open>wr d i bs\<close> the array after
  \<^verbatim>\<open>d[i..i+bs.len()].copy_from_slice(bs)\<close>. The checked versions panic exactly where Rust
  does, when the range leaves the array.
\<close>

definition slice :: "bytes \<Rightarrow> nat \<Rightarrow> nat \<Rightarrow> bytes" where
  "slice d i n = take n (drop i d)"

definition wr :: "bytes \<Rightarrow> nat \<Rightarrow> bytes \<Rightarrow> bytes" where
  "wr d i bs = take i d @ bs @ drop (i + length bs) d"

definition get_range :: "bytes \<Rightarrow> nat \<Rightarrow> nat \<Rightarrow> bytes res" where
  "get_range d i j = (if i \<le> j \<and> j \<le> length d then Inr (slice d i (j - i)) else Inl Panic)"

definition copy_from_slice :: "bytes \<Rightarrow> nat \<Rightarrow> bytes \<Rightarrow> bytes res" where
  "copy_from_slice d i bs = (if i + length bs \<le> length d then Inr (wr d i bs) else Inl Panic)"

text \<open>
  Subtraction on \<^verbatim>\<open>usize\<close>. Every subtraction of the sources that can go below zero computes
  a slice bound, so that the wrapped value of a release build leaves the slice and panics too.
\<close>

definition sub_usize :: "nat \<Rightarrow> nat \<Rightarrow> nat res" where
  "sub_usize a b = (if b \<le> a then Inr (a - b) else Inl Panic)"

lemma length_slice [simp, slice_simps]: "i + n \<le> length d \<Longrightarrow> length (slice d i n) = n"
  by (simp add: slice_def)

lemma length_wr [simp, slice_simps]: "i + length bs \<le> length d \<Longrightarrow> length (wr d i bs) = length d"
  by (simp add: wr_def)

lemma nth_slice [slice_simps]: "i + n \<le> length d \<Longrightarrow> k < n \<Longrightarrow> slice d i n ! k = d ! (i + k)"
  by (simp add: slice_def)

lemma nth_wr:
  assumes "i + length bs \<le> length d" and "k < length d"
  shows "wr d i bs ! k = (if i \<le> k \<and> k < i + length bs then bs ! (k - i) else d ! k)"
  using assms by (auto simp: wr_def nth_append min_def)

lemma slice_eqI:
  assumes "i + n \<le> length d" and "j + n \<le> length e"
    and "\<And>k. k < n \<Longrightarrow> d ! (i + k) = e ! (j + k)"
  shows "slice d i n = slice e j n"
  using assms by (intro nth_equalityI) (auto simp: nth_slice)

lemma slice_wr_same [simp, slice_simps]:
  "i + length bs \<le> length d \<Longrightarrow> n = length bs \<Longrightarrow> slice (wr d i bs) i n = bs"
  by (simp add: slice_def wr_def)

lemma slice_wr_other:
  assumes "i + length bs \<le> length d" and "j + n \<le> length d"
    and "j + n \<le> i \<or> i + length bs \<le> j"
  shows "slice (wr d i bs) j n = slice d j n"
  using assms by (intro slice_eqI) (auto simp: nth_wr)

lemma slice_wr_within:
  assumes "i + length bs \<le> length d" and "i \<le> j" and "j + n \<le> i + length bs"
  shows "slice (wr d i bs) j n = slice bs (j - i) n"
proof (rule slice_eqI)
  fix k assume "k < n"
  with assms show "wr d i bs ! (j + k) = bs ! (j - i + k)"
    by (subst nth_wr) (auto intro: arg_cong [where f = "(!) bs"])
qed (use assms in auto)

lemma slice_append_left [slice_simps]: "length xs = n \<Longrightarrow> slice (xs @ ys) 0 n = xs"
  by (simp add: slice_def)

lemma slice_append_right [slice_simps]:
  "length xs = i \<Longrightarrow> length ys = n \<Longrightarrow> slice (xs @ ys) i n = ys"
  by (simp add: slice_def)

lemma slice_0 [simp]: "slice d i 0 = []"
  by (simp add: slice_def)

lemma wr_Nil [simp]: "i \<le> length d \<Longrightarrow> wr d i [] = d"
  by (simp add: wr_def)

lemma get_range_Inr [simp, res_simps]:
  "i \<le> j \<Longrightarrow> j \<le> length d \<Longrightarrow> get_range d i j = Inr (slice d i (j - i))"
  by (simp add: get_range_def)

lemma copy_from_slice_Inr [simp, res_simps]:
  "i + length bs \<le> length d \<Longrightarrow> copy_from_slice d i bs = Inr (wr d i bs)"
  by (simp add: copy_from_slice_def)

lemma sub_usize_Inr [simp, res_simps]: "b \<le> a \<Longrightarrow> sub_usize a b = Inr (a - b)"
  by (simp add: sub_usize_def)

section \<open>Little-endian codecs\<close>

definition to_le :: "nat \<Rightarrow> 'a::len word \<Rightarrow> bytes" where
  "to_le n w = map (\<lambda>i. ucast (drop_bit (8 * i) w)) [0..<n]"

fun from_le :: "bytes \<Rightarrow> 'a::len word" where
  "from_le [] = 0"
| "from_le (b # bs) = ucast b OR push_bit 8 (from_le bs)"

definition read_le :: "nat \<Rightarrow> bytes \<Rightarrow> nat \<Rightarrow> 'a::len word res" where
  "read_le n d off = (if off + n \<le> length d then Inr (from_le (slice d off n)) else Inl Panic)"

definition rd :: "nat \<Rightarrow> bytes \<Rightarrow> nat \<Rightarrow> 'a::len word" where
  "rd n d off = from_le (slice d off n)"

lemma length_to_le [simp, slice_simps]: "length (to_le n w) = n"
  by (simp add: to_le_def)

lemma bit_from_le:
  "bit (from_le bs :: 'a::len word) i \<longleftrightarrow>
     i < LENGTH('a) \<and> i div 8 < length bs \<and> bit (bs ! (i div 8)) (i mod 8)"
proof (induction bs arbitrary: i)
  case Nil
  then show ?case by simp
next
  case (Cons b bs)
  show ?case
  proof (cases "i < 8")
    case True
    then show ?thesis by (auto simp: bit_simps Cons.IH)
  next
    case False
    then obtain j where j: "i = 8 + j" by (metis le_Suc_ex not_less)
    have "\<not> bit b i" using False bit_imp_le_length [of b i] by auto
    moreover have "i div 8 = Suc (j div 8)" and "i mod 8 = j mod 8" using j by auto
    ultimately show ?thesis by (auto simp: j bit_simps Cons.IH)
  qed
qed

lemma bit_to_le_nth:
  "k < n \<Longrightarrow> bit (to_le n w ! k) i \<longleftrightarrow> i < 8 \<and> bit w (8 * k + i)"
  by (auto simp: to_le_def bit_simps)

lemma from_le_to_le [simp]:
  fixes w :: "'a::len word"
  assumes "LENGTH('a) \<le> 8 * n"
  shows "from_le (to_le n w) = w"
proof (rule bit_word_eqI)
  fix i assume i: "i < LENGTH('a)"
  with assms have "i div 8 < n" by auto
  with i show "bit (from_le (to_le n w) :: 'a word) i = bit w i"
    by (simp add: bit_from_le bit_to_le_nth)
qed

lemma to_le_from_le [simp]:
  assumes "length bs = n" and "8 * n \<le> LENGTH('a::len)"
  shows "to_le n (from_le bs :: 'a word) = bs"
proof (rule nth_equalityI)
  fix k assume "k < length (to_le n (from_le bs :: 'a word))"
  then have k: "k < n" by simp
  show "to_le n (from_le bs :: 'a word) ! k = bs ! k"
  proof (rule bit_word_eqI)
    fix i assume "i < LENGTH(8)"
    then have i: "i < 8" by simp
    have "8 * k + i < LENGTH('a)" using k i assms(2) by linarith
    with k i assms(1) show "bit (to_le n (from_le bs :: 'a word) ! k) i = bit (bs ! k) i"
      by (simp add: bit_to_le_nth bit_from_le)
  qed
qed (use assms in simp)

lemma to_le_inject: "LENGTH('a::len) \<le> 8 * n \<Longrightarrow> to_le n (v :: 'a word) = to_le n w \<longleftrightarrow> v = w"
  by (metis from_le_to_le)

lemma read_le_Inr [simp, res_simps]: "off + n \<le> length d \<Longrightarrow> read_le n d off = Inr (rd n d off)"
  by (simp add: read_le_def rd_def)

lemma rd_wr_same [simp, slice_simps]:
  fixes w :: "'a::len word"
  assumes "off + n \<le> length d" and "LENGTH('a) \<le> 8 * n"
  shows "rd n (wr d off (to_le n w)) off = w"
  using assms by (simp add: rd_def)

lemma rd_wr_other:
  assumes "i + length bs \<le> length d" and "j + n \<le> length d"
    and "j + n \<le> i \<or> i + length bs \<le> j"
  shows "rd n (wr d i bs) j = rd n d j"
  using assms by (simp add: rd_def slice_wr_other)

end
