(* ===== verification/Crc32.thy ===== *)
theory Crc32
  imports Prelude
begin

text \<open>
  The checksum of \<^verbatim>\<open>src/src/disk/page.rs\<close>: the table \<^verbatim>\<open>CRC32_TABLES\<close> and the
  slicing-by-4 routine \<^verbatim>\<open>crc32\<close>. The theory proves that the optimised routine computes
  the bit-serial CRC-32 of the reflected polynomial \<open>0xEDB88320\<close>, and that the checksum
  detects every change confined to one byte.
\<close>

section \<open>The code\<close>

definition crc_bit :: "u32 \<Rightarrow> u32" where
  "crc_bit crc = (if crc AND 1 \<noteq> 0 then drop_bit 1 crc XOR 0xEDB88320 else drop_bit 1 crc)"

definition crc_t0 :: "u32 list" where
  "crc_t0 = map (\<lambda>i. (crc_bit ^^ 8) (of_nat i)) [0..<256]"

definition slicing_table :: "u32 list \<Rightarrow> u32 list" where
  "slicing_table prev = map (\<lambda>t. drop_bit 8 t XOR crc_t0 ! unat (t AND 0xFF)) prev"

definition crc_t1 :: "u32 list" where "crc_t1 = slicing_table crc_t0"
definition crc_t2 :: "u32 list" where "crc_t2 = slicing_table crc_t1"
definition crc_t3 :: "u32 list" where "crc_t3 = slicing_table crc_t2"

definition CRC32_TABLES :: "u32 list list" where
  "CRC32_TABLES = [crc_t0, crc_t1, crc_t2, crc_t3]"

text \<open>The loop over chunks of four bytes, returning the checksum so far and the bytes left.\<close>

fun crc_chunks :: "u32 \<Rightarrow> bytes \<Rightarrow> u32 \<times> bytes" where
  "crc_chunks crc (a # b # c # e # rest) =
     (let d = crc XOR from_le [a, b, c, e]
      in crc_chunks
           (CRC32_TABLES ! 3 ! unat (d AND 0xFF)
            XOR CRC32_TABLES ! 2 ! unat (drop_bit 8 d AND 0xFF)
            XOR CRC32_TABLES ! 1 ! unat (drop_bit 16 d AND 0xFF)
            XOR CRC32_TABLES ! 0 ! unat (drop_bit 24 d AND 0xFF)) rest)"
| "crc_chunks crc rest = (crc, rest)"

fun crc_tail :: "u32 \<Rightarrow> bytes \<Rightarrow> u32" where
  "crc_tail crc [] = crc"
| "crc_tail crc (b # bs) =
     (let idx = unat ((crc XOR ucast b) AND 0xFF)
      in crc_tail (drop_bit 8 crc XOR CRC32_TABLES ! 0 ! idx) bs)"

definition crc32 :: "bytes \<Rightarrow> u32" where
  "crc32 data = (let (crc, rest) = crc_chunks 0xFFFFFFFF data in crc_tail crc rest XOR 0xFFFFFFFF)"

section \<open>Specification: one bit at a time\<close>

definition crc_byte_spec :: "u32 \<Rightarrow> u8 \<Rightarrow> u32" where
  "crc_byte_spec crc b = (crc_bit ^^ 8) (crc XOR ucast b)"

definition crc32_spec :: "bytes \<Rightarrow> u32" where
  "crc32_spec data = foldl crc_byte_spec 0xFFFFFFFF data XOR 0xFFFFFFFF"

section \<open>The bit step is linear and injective\<close>

lemma word_and_1_bit: "(x :: u32) AND 1 \<noteq> 0 \<longleftrightarrow> bit x 0"
  by (simp add: and_one_eq bit_0 odd_iff_mod_2_eq_one)

lemma crc_bit_alt: "crc_bit x = drop_bit 1 x XOR (if bit x 0 then 0xEDB88320 else 0)"
  by (simp only: crc_bit_def word_and_1_bit) simp

lemma crc_bit_xor: "crc_bit (x XOR y) = crc_bit x XOR crc_bit y"
proof -
  have "bit (x XOR y) 0 \<longleftrightarrow> bit x 0 \<noteq> bit y 0" by (simp only: bit_xor_iff)
  then show ?thesis
    by (cases "bit x 0"; cases "bit y 0")
      (simp_all add: crc_bit_alt drop_bit_xor ac_simps)
qed

lemma crc_bits_xor: "(crc_bit ^^ n) (x XOR y) = (crc_bit ^^ n) x XOR (crc_bit ^^ n) y"
  by (induction n) (simp_all add: crc_bit_xor)

lemma crc_bits_shift: "take_bit n x = 0 \<Longrightarrow> (crc_bit ^^ n) x = drop_bit n x"
proof (induction n arbitrary: x)
  case 0
  then show ?case by simp
next
  case (Suc n)
  have "\<not> bit x 0"
    using Suc.prems by (metis bit_0_eq bit_take_bit_iff zero_less_Suc bot_apply bot_bool_def)
  then have step: "crc_bit x = drop_bit 1 x" by (simp add: crc_bit_alt)
  have "take_bit n (drop_bit 1 x) = drop_bit 1 (take_bit (Suc n) x)"
    by (simp add: drop_bit_take_bit)
  then have "take_bit n (drop_bit 1 x) = 0" using Suc.prems by simp
  then have "(crc_bit ^^ n) (drop_bit 1 x) = drop_bit n (drop_bit 1 x)" by (rule Suc.IH)
  then show ?case by (simp add: funpow_Suc_right step ac_simps del: funpow.simps)
qed

lemma low_byte_split: "(x :: u32) = (x AND 0xFF) XOR push_bit 8 (drop_bit 8 x)"
proof -
  have m: "x AND 0xFF = take_bit 8 x" by (simp add: take_bit_eq_mask mask_eq_exp_minus_1)
  show ?thesis
    by (rule bit_word_eqI) (auto simp: m bit_simps)
qed

lemma crc_byte_step: "(crc_bit ^^ 8) x = drop_bit 8 x XOR (crc_bit ^^ 8) (x AND 0xFF)"
proof -
  have "(crc_bit ^^ 8) x = (crc_bit ^^ 8) ((x AND 0xFF) XOR push_bit 8 (drop_bit 8 x))"
    by (simp only: low_byte_split [symmetric])
  also have "\<dots> = (crc_bit ^^ 8) (x AND 0xFF) XOR (crc_bit ^^ 8) (push_bit 8 (drop_bit 8 x))"
    by (rule crc_bits_xor)
  also have "(crc_bit ^^ 8) (push_bit 8 (drop_bit 8 x)) = drop_bit 8 (push_bit 8 (drop_bit 8 x))"
    by (rule crc_bits_shift) (simp add: take_bit_push_bit)
  also have "drop_bit 8 (push_bit 8 (drop_bit 8 x)) = drop_bit 8 x"
    by (rule bit_word_eqI) (auto simp: bit_simps dest: bit_imp_le_length)
  finally show ?thesis by (simp add: ac_simps)
qed

lemma word_xor_cancel: "(a :: 'a::len word) XOR c = b XOR c \<longleftrightarrow> a = b"
  by (metis xor.assoc xor.right_neutral xor_self_eq)

lemma crc_bit_inject: "crc_bit x = crc_bit y \<longleftrightarrow> x = y"
proof
  assume eq: "crc_bit x = crc_bit y"
  have top: "bit (crc_bit z) 31 \<longleftrightarrow> bit z 0" for z
    using bit_imp_le_length [of z 32] by (auto simp: crc_bit_alt bit_simps)
  from eq top have low: "bit x 0 \<longleftrightarrow> bit y 0" by metis
  with eq have high: "drop_bit 1 x = drop_bit 1 y"
    by (simp add: crc_bit_alt word_xor_cancel)
  show "x = y"
  proof (rule bit_word_eqI)
    fix n assume "n < LENGTH(32)"
    show "bit x n = bit y n"
    proof (cases n)
      case 0
      with low show ?thesis by simp
    next
      case (Suc m)
      from high have "bit (drop_bit 1 x) m = bit (drop_bit 1 y) m" by simp
      with Suc show ?thesis by (simp add: bit_drop_bit_eq)
    qed
  qed
qed simp

lemma crc_bits_inject: "(crc_bit ^^ n) x = (crc_bit ^^ n) y \<longleftrightarrow> x = y"
  by (induction n) (simp_all add: crc_bit_inject)

section \<open>The tables\<close>

lemma unat_low_byte: "unat ((x :: u32) AND 0xFF) < 256"
proof -
  have "x AND 0xFF \<le> 0xFF" by (rule word_and_le1)
  then show ?thesis by (simp add: word_le_nat_alt)
qed

lemma crc_t0_nth: "unat x < 256 \<Longrightarrow> crc_t0 ! unat x = (crc_bit ^^ 8) x"
  by (simp add: crc_t0_def del: upt_rec_numeral)

lemma crc_t0_low: "crc_t0 ! unat (x AND 0xFF) = (crc_bit ^^ 8) (x AND 0xFF)"
  by (rule crc_t0_nth) (rule unat_low_byte)

lemma length_tables [simp]:
  "length crc_t0 = 256" "length crc_t1 = 256" "length crc_t2 = 256" "length crc_t3 = 256"
  by (simp_all add: crc_t0_def crc_t1_def crc_t2_def crc_t3_def slicing_table_def
      del: upt_rec_numeral)

lemma slicing_table_nth:
  assumes "unat x < length prev" and "prev ! unat x = (crc_bit ^^ n) x"
  shows "slicing_table prev ! unat x = (crc_bit ^^ (8 + n)) x"
proof -
  have "slicing_table prev ! unat x
        = drop_bit 8 ((crc_bit ^^ n) x) XOR (crc_bit ^^ 8) ((crc_bit ^^ n) x AND 0xFF)"
    using assms by (simp add: slicing_table_def crc_t0_low)
  also have "\<dots> = (crc_bit ^^ 8) ((crc_bit ^^ n) x)"
    by (rule crc_byte_step [symmetric])
  finally show ?thesis by (simp only: funpow_add o_apply)
qed

lemma crc_t1_nth: "unat x < 256 \<Longrightarrow> crc_t1 ! unat x = (crc_bit ^^ 16) x"
  using slicing_table_nth [of x crc_t0 8] by (simp add: crc_t1_def crc_t0_nth)

lemma crc_t2_nth: "unat x < 256 \<Longrightarrow> crc_t2 ! unat x = (crc_bit ^^ 24) x"
  using slicing_table_nth [of x crc_t1 16] by (simp add: crc_t2_def crc_t1_nth)

lemma crc_t3_nth: "unat x < 256 \<Longrightarrow> crc_t3 ! unat x = (crc_bit ^^ 32) x"
  using slicing_table_nth [of x crc_t2 24] by (simp add: crc_t3_def crc_t2_nth)

lemma tables_nth:
  "CRC32_TABLES ! 0 = crc_t0" "CRC32_TABLES ! 1 = crc_t1"
  "CRC32_TABLES ! 2 = crc_t2" "CRC32_TABLES ! 3 = crc_t3"
  by (simp_all add: CRC32_TABLES_def)

lemmas table_entries = crc_t0_nth crc_t1_nth crc_t2_nth crc_t3_nth unat_low_byte

section \<open>Slicing by four is four single-byte steps\<close>

lemma crc_byte_spec_table:
  "crc_byte_spec crc b = drop_bit 8 crc XOR CRC32_TABLES ! 0 ! unat ((crc XOR ucast b) AND 0xFF)"
proof -
  have "drop_bit 8 (crc XOR ucast b) = drop_bit 8 crc"
    by (rule bit_word_eqI) (auto simp: bit_simps dest: bit_imp_le_length)
  then show ?thesis
    by (simp add: crc_byte_spec_def crc_byte_step [of "crc XOR ucast b"] CRC32_TABLES_def crc_t0_low)
qed

lemma crc_tail_spec: "crc_tail crc bs = foldl crc_byte_spec crc bs"
  by (induction bs arbitrary: crc) (simp_all add: crc_byte_spec_table Let_def)

text \<open>Four bytes of a word, shifted back into place, are the word.\<close>

lemma word_bytes_xor:
  "(x :: u32) = (x AND 0xFF) XOR push_bit 8 (drop_bit 8 x AND 0xFF)
     XOR push_bit 16 (drop_bit 16 x AND 0xFF) XOR push_bit 24 (drop_bit 24 x AND 0xFF)"
proof -
  have m: "y AND 0xFF = take_bit 8 y" for y :: u32
    by (simp add: take_bit_eq_mask mask_eq_exp_minus_1)
  show ?thesis
    by (rule bit_word_eqI) (auto simp: m bit_simps)
qed

lemma crc_bits_push: 
  assumes "unat x < 256" and "k \<le> 24"
  shows "(crc_bit ^^ (k + n)) (push_bit k x) = (crc_bit ^^ n) x"
proof -
  have x: "i < 8" if "bit x i" for i
  proof -
    have "x = take_bit 8 x" using assms(1)
      by (simp add: word_unat_eq_iff unsigned_take_bit_eq take_bit_nat_eq_self)
    then have "bit x i = bit (take_bit 8 x) i" by simp
    also have "\<dots> \<longleftrightarrow> i < 8 \<and> bit x i" by (rule bit_take_bit_iff)
    finally show ?thesis using that by simp
  qed
  have "(crc_bit ^^ k) (push_bit k x) = drop_bit k (push_bit k x)"
    by (rule crc_bits_shift) (simp add: take_bit_push_bit)
  also have "\<dots> = x"
    by (rule bit_word_eqI) (use x assms(2) in \<open>force simp: bit_simps\<close>)
  finally have "(crc_bit ^^ n) ((crc_bit ^^ k) (push_bit k x)) = (crc_bit ^^ n) x" by simp
  then show ?thesis by (simp add: add.commute [of k n] funpow_add)
qed

lemma crc_slice4:
  "CRC32_TABLES ! 3 ! unat (d AND 0xFF) XOR CRC32_TABLES ! 2 ! unat (drop_bit 8 d AND 0xFF)
     XOR CRC32_TABLES ! 1 ! unat (drop_bit 16 d AND 0xFF)
     XOR CRC32_TABLES ! 0 ! unat (drop_bit 24 d AND 0xFF) = (crc_bit ^^ 32) d"
proof -
  have "(crc_bit ^^ 32) d = (crc_bit ^^ 32) (d AND 0xFF)
     XOR (crc_bit ^^ (8 + 24)) (push_bit 8 (drop_bit 8 d AND 0xFF))
     XOR (crc_bit ^^ (16 + 16)) (push_bit 16 (drop_bit 16 d AND 0xFF))
     XOR (crc_bit ^^ (24 + 8)) (push_bit 24 (drop_bit 24 d AND 0xFF))"
    by (subst word_bytes_xor [of d]) (simp only: crc_bits_xor numeral_plus_numeral arith_simps)
  then show ?thesis
    by (simp only: tables_nth table_entries crc_bits_push [OF unat_low_byte])
qed

lemma from_le_Cons_xor: "(from_le (b # bs) :: 'a::len word) = ucast b XOR push_bit 8 (from_le bs)"
  by (rule bit_word_eqI) (auto simp: bit_simps dest: bit_imp_le_length)

lemma crc_fold_le:
  assumes "length xs \<le> 4"
  shows "foldl crc_byte_spec crc xs = (crc_bit ^^ (8 * length xs)) (crc XOR from_le xs)"
  using assms
proof (induction xs arbitrary: crc)
  case Nil
  then show ?case by simp
next
  case (Cons b bs)
  have "i < 24" if "bit (from_le bs :: u32) i" for i
  proof -
    from that have "i div 8 < length bs" by (simp add: bit_from_le)
    with Cons.prems show ?thesis by simp
  qed
  then have unshift: "drop_bit 8 (push_bit 8 (from_le bs :: u32)) = from_le bs"
    by (intro bit_word_eqI) (force simp: bit_simps)
  have "(crc_bit ^^ 8) (push_bit 8 (from_le bs)) = drop_bit 8 (push_bit 8 (from_le bs :: u32))"
    by (rule crc_bits_shift) (simp add: take_bit_push_bit)
  then have "(crc_bit ^^ 8) (crc XOR from_le (b # bs))
      = (crc_bit ^^ 8) (crc XOR ucast b) XOR from_le bs"
    by (simp only: from_le_Cons_xor crc_bits_xor unshift xor.assoc)
  moreover have "foldl crc_byte_spec crc (b # bs)
      = (crc_bit ^^ (8 * length bs)) ((crc_bit ^^ 8) (crc XOR ucast b) XOR from_le bs)"
    using Cons.IH [of "crc_byte_spec crc b"] Cons.prems
    by (simp add: crc_byte_spec_def [of crc b])
  moreover have "8 * length (b # bs) = 8 * length bs + 8" by simp
  ultimately show ?case by (simp only: funpow_add o_apply)
qed

lemma crc_byte_spec_four:
  "foldl crc_byte_spec crc [a, b, c, e] = (crc_bit ^^ 32) (crc XOR from_le [a, b, c, e])"
  using crc_fold_le [of "[a, b, c, e]" crc] by (simp del: from_le.simps foldl.simps)

lemma crc_chunks_four:
  "crc_chunks crc (a # b # c # e # rest) = crc_chunks (foldl crc_byte_spec crc [a, b, c, e]) rest"
  by (simp only: crc_chunks.simps Let_def crc_slice4 crc_byte_spec_four)

lemma crc_chunks_spec:
  "crc_chunks crc data = (crc', rest) \<Longrightarrow>
     foldl crc_byte_spec crc data = foldl crc_byte_spec crc' rest"
proof (induction crc data rule: crc_chunks.induct)
  case (1 crc a b c e rest)
  from "1.IH" [OF refl] "1.prems" show ?case
    by (simp only: crc_chunks_four crc_slice4 crc_byte_spec_four [symmetric]) simp
qed simp_all

lemma crc32_eq_spec: "crc32 data = crc32_spec data"
proof -
  obtain crc rest where cr: "crc_chunks 0xFFFFFFFF data = (crc, rest)" by fastforce
  then show ?thesis
    using crc_chunks_spec [OF cr] by (simp add: crc32_def crc32_spec_def crc_tail_spec)
qed

text \<open>
  C19. The slicing-by-4 routine \<open>crc32\<close> of the page and log code computes, on every byte
  string, the CRC-32 of the reflected polynomial \<open>0xEDB88320\<close> defined one bit at a time.
\<close>

theorem crc32_correct: "crc32 data = crc32_spec data"
  by (rule crc32_eq_spec)

section \<open>Error detection\<close>

lemma crc_byte_spec_inject: "crc_byte_spec c b = crc_byte_spec c' b \<longleftrightarrow> c = c'"
  by (simp add: crc_byte_spec_def crc_bits_inject word_xor_cancel)

lemma crc_fold_inject: "foldl crc_byte_spec c xs = foldl crc_byte_spec c' xs \<longleftrightarrow> c = c'"
  by (induction xs arbitrary: c c') (simp_all add: crc_byte_spec_inject)

lemma from_le_inject:
  assumes "length xs = length ys" and "8 * length xs \<le> LENGTH('a::len)"
  shows "(from_le xs :: 'a word) = from_le ys \<longleftrightarrow> xs = ys"
  using assms to_le_from_le by metis

lemma crc32_burst:
  assumes "length xs = length ys" and "length xs \<le> 4"
  shows "crc32 (pre @ xs @ suf) = crc32 (pre @ ys @ suf) \<longleftrightarrow> xs = ys"
proof -
  define c where "c = foldl crc_byte_spec 0xFFFFFFFF pre"
  have "crc32 (pre @ xs @ suf) = crc32 (pre @ ys @ suf)
        \<longleftrightarrow> foldl crc_byte_spec c xs = foldl crc_byte_spec c ys"
    by (simp add: crc32_eq_spec crc32_spec_def c_def word_xor_cancel crc_fold_inject)
  also have "\<dots> \<longleftrightarrow> (from_le xs :: u32) = from_le ys"
    using assms by (simp add: crc_fold_le crc_bits_inject xor.commute [of c] word_xor_cancel)
  also have "\<dots> \<longleftrightarrow> xs = ys" using assms by (simp add: from_le_inject)
  finally show ?thesis .
qed

end
