(* ===== verification/Page.thy ===== *)
theory Page
  imports Crc32
begin

text \<open>
  The fixed-size page of \<^verbatim>\<open>src/src/disk/page.rs\<close>: its header layout, the accessors of
  the header fields and the page checksum. A page is a record with the struct's fields; its
  4096 bytes are a list, and \<open>page_wf\<close> says that the list has the length of the Rust array
  \<^verbatim>\<open>[u8; PAGE_SIZE]\<close>.
\<close>

section \<open>The code\<close>

definition PAGE_SIZE :: nat where "PAGE_SIZE = 4096"
definition HEADER_SIZE :: nat where "HEADER_SIZE = 16"
definition INVALID_PAGE_ID :: u32 where "INVALID_PAGE_ID = 0xFFFFFFFF"

declare PAGE_SIZE_def [simp] HEADER_SIZE_def [simp]

type_synonym page_id = u32

datatype page_type = PtInvalid | PtMeta | PtInternal | PtLeaf | PtOverflow | PtFreeList

definition page_type_from :: "u8 \<Rightarrow> page_type" where
  "page_type_from v =
     (if v = 1 then PtMeta else if v = 2 then PtInternal else if v = 3 then PtLeaf
      else if v = 4 then PtOverflow else if v = 5 then PtFreeList else PtInvalid)"

fun page_type_as_u8 :: "page_type \<Rightarrow> u8" where
  "page_type_as_u8 PtInvalid = 0"
| "page_type_as_u8 PtMeta = 1"
| "page_type_as_u8 PtInternal = 2"
| "page_type_as_u8 PtLeaf = 3"
| "page_type_as_u8 PtOverflow = 4"
| "page_type_as_u8 PtFreeList = 5"

record page =
  pg_id :: page_id
  pg_data :: bytes
  pg_dirty :: bool
  pg_pin_count :: u32

definition get_page_id :: "page \<Rightarrow> page_id" where
  "get_page_id p = rd 4 (pg_data p) 0"

definition set_page_id :: "page_id \<Rightarrow> page \<Rightarrow> page" where
  "set_page_id i p = p\<lparr>pg_data := wr (pg_data p) 0 (to_le 4 i)\<rparr>"

definition get_page_type :: "page \<Rightarrow> page_type" where
  "get_page_type p = page_type_from (pg_data p ! 4)"

definition set_page_type :: "page_type \<Rightarrow> page \<Rightarrow> page" where
  "set_page_type pt p = p\<lparr>pg_data := (pg_data p)[4 := page_type_as_u8 pt], pg_dirty := True\<rparr>"

definition get_num_slots :: "page \<Rightarrow> u16" where
  "get_num_slots p = rd 2 (pg_data p) 5"

definition set_num_slots :: "u16 \<Rightarrow> page \<Rightarrow> page" where
  "set_num_slots n p = p\<lparr>pg_data := wr (pg_data p) 5 (to_le 2 n), pg_dirty := True\<rparr>"

definition get_free_offset :: "page \<Rightarrow> u16" where
  "get_free_offset p = rd 2 (pg_data p) 7"

definition set_free_offset :: "u16 \<Rightarrow> page \<Rightarrow> page" where
  "set_free_offset off p = p\<lparr>pg_data := wr (pg_data p) 7 (to_le 2 off), pg_dirty := True\<rparr>"

definition get_checksum :: "page \<Rightarrow> u32" where
  "get_checksum p = rd 4 (pg_data p) 9"

definition set_checksum :: "u32 \<Rightarrow> page \<Rightarrow> page" where
  "set_checksum c p = p\<lparr>pg_data := wr (pg_data p) 9 (to_le 4 c)\<rparr>"

definition data_region :: "page \<Rightarrow> bytes" where
  "data_region p = drop HEADER_SIZE (pg_data p)"

definition compute_checksum :: "page \<Rightarrow> u32" where
  "compute_checksum p = crc32 (data_region p)"

definition update_checksum :: "page \<Rightarrow> page" where
  "update_checksum p = set_checksum (compute_checksum p) p"

definition verify_checksum :: "page \<Rightarrow> bool" where
  "verify_checksum p \<longleftrightarrow> get_checksum p = compute_checksum p"

definition free_space :: "page \<Rightarrow> nat res" where
  "free_space p = sub_usize PAGE_SIZE (unat (get_free_offset p))"

definition page_new :: "page_id \<Rightarrow> page" where
  "page_new i =
     set_free_offset (of_nat HEADER_SIZE)
      (set_num_slots 0
       (set_page_type PtInvalid
        (set_page_id i
         \<lparr>pg_id = i, pg_data = replicate PAGE_SIZE 0, pg_dirty = False, pg_pin_count = 0\<rparr>)))"

definition page_from_bytes :: "page_id \<Rightarrow> bytes \<Rightarrow> page" where
  "page_from_bytes i bs = \<lparr>pg_id = i, pg_data = bs, pg_dirty = False, pg_pin_count = 0\<rparr>"

section \<open>Well-formed pages and the header accessors\<close>

definition page_wf :: "page \<Rightarrow> bool" where
  "page_wf p \<longleftrightarrow> length (pg_data p) = PAGE_SIZE"

lemma page_type_roundtrip [simp]: "page_type_from (page_type_as_u8 pt) = pt"
  by (cases pt) (simp_all add: page_type_from_def)

lemmas page_defs = get_page_id_def set_page_id_def get_page_type_def set_page_type_def
  get_num_slots_def set_num_slots_def get_free_offset_def set_free_offset_def
  get_checksum_def set_checksum_def

lemma page_wf_setters [simp, page_simps]:
  "page_wf p \<Longrightarrow> page_wf (set_page_id i p)"
  "page_wf p \<Longrightarrow> page_wf (set_page_type t p)"
  "page_wf p \<Longrightarrow> page_wf (set_num_slots n p)"
  "page_wf p \<Longrightarrow> page_wf (set_free_offset n p)"
  "page_wf p \<Longrightarrow> page_wf (set_checksum c p)"
  "page_wf p \<Longrightarrow> page_wf (update_checksum p)"
  by (simp_all add: page_wf_def page_defs update_checksum_def)

lemma page_wf_blank:
  "page_wf \<lparr>pg_id = i, pg_data = replicate PAGE_SIZE 0, pg_dirty = b, pg_pin_count = c\<rparr>"
  by (simp add: page_wf_def)

lemma page_wf_new [simp]: "page_wf (page_new i)"
  using page_wf_blank by (simp add: page_new_def)

lemma page_wf_from_bytes [simp]: "page_wf (page_from_bytes i bs) \<longleftrightarrow> length bs = PAGE_SIZE"
  by (simp add: page_wf_def page_from_bytes_def)

lemma pg_id_setters [simp, page_simps]:
  "pg_id (set_page_id i p) = pg_id p" "pg_id (set_page_type t p) = pg_id p"
  "pg_id (set_num_slots n p) = pg_id p" "pg_id (set_free_offset n p) = pg_id p"
  "pg_id (set_checksum c p) = pg_id p" "pg_id (update_checksum p) = pg_id p"
  by (simp_all add: page_defs update_checksum_def)

lemma pg_id_new [simp]: "pg_id (page_new i) = i"
  by (simp add: page_new_def)

lemma get_same [simp, page_simps]:
  "page_wf p \<Longrightarrow> get_page_id (set_page_id i p) = i"
  "page_wf p \<Longrightarrow> get_page_type (set_page_type t p) = t"
  "page_wf p \<Longrightarrow> get_num_slots (set_num_slots n p) = n"
  "page_wf p \<Longrightarrow> get_free_offset (set_free_offset n p) = n"
  "page_wf p \<Longrightarrow> get_checksum (set_checksum c p) = c"
  by (simp_all add: page_wf_def page_defs)

lemma rd_list_update_other:
  "k < off \<or> off + n \<le> k \<Longrightarrow> rd n (d[k := b]) off = rd n d off"
  by (auto simp: rd_def slice_def drop_update_swap take_update_cancel)

lemma get_page_id_other [simp, page_simps]:
  "page_wf p \<Longrightarrow> get_page_id (set_page_type t p) = get_page_id p"
  "page_wf p \<Longrightarrow> get_page_id (set_num_slots n p) = get_page_id p"
  "page_wf p \<Longrightarrow> get_page_id (set_free_offset n p) = get_page_id p"
  "page_wf p \<Longrightarrow> get_page_id (set_checksum c p) = get_page_id p"
  by (simp_all add: page_wf_def page_defs rd_wr_other rd_list_update_other)

lemma get_page_type_other [simp, page_simps]:
  "page_wf p \<Longrightarrow> get_page_type (set_page_id i p) = get_page_type p"
  "page_wf p \<Longrightarrow> get_page_type (set_num_slots n p) = get_page_type p"
  "page_wf p \<Longrightarrow> get_page_type (set_free_offset n p) = get_page_type p"
  "page_wf p \<Longrightarrow> get_page_type (set_checksum c p) = get_page_type p"
  by (simp_all add: page_wf_def page_defs nth_wr)

lemma get_num_slots_other [simp, page_simps]:
  "page_wf p \<Longrightarrow> get_num_slots (set_page_id i p) = get_num_slots p"
  "page_wf p \<Longrightarrow> get_num_slots (set_page_type t p) = get_num_slots p"
  "page_wf p \<Longrightarrow> get_num_slots (set_free_offset n p) = get_num_slots p"
  "page_wf p \<Longrightarrow> get_num_slots (set_checksum c p) = get_num_slots p"
  by (simp_all add: page_wf_def page_defs rd_wr_other rd_list_update_other)

lemma get_free_offset_other [simp, page_simps]:
  "page_wf p \<Longrightarrow> get_free_offset (set_page_id i p) = get_free_offset p"
  "page_wf p \<Longrightarrow> get_free_offset (set_page_type t p) = get_free_offset p"
  "page_wf p \<Longrightarrow> get_free_offset (set_num_slots n p) = get_free_offset p"
  "page_wf p \<Longrightarrow> get_free_offset (set_checksum c p) = get_free_offset p"
  by (simp_all add: page_wf_def page_defs rd_wr_other rd_list_update_other)

lemma get_checksum_other [simp, page_simps]:
  "page_wf p \<Longrightarrow> get_checksum (set_page_id i p) = get_checksum p"
  "page_wf p \<Longrightarrow> get_checksum (set_page_type t p) = get_checksum p"
  "page_wf p \<Longrightarrow> get_checksum (set_num_slots n p) = get_checksum p"
  "page_wf p \<Longrightarrow> get_checksum (set_free_offset n p) = get_checksum p"
  by (simp_all add: page_wf_def page_defs rd_wr_other rd_list_update_other)

lemma drop_wr: "i + length bs \<le> k \<Longrightarrow> k \<le> length d \<Longrightarrow> drop k (wr d i bs) = drop k d"
  by (simp add: wr_def drop_append)

lemma data_region_setters [simp, page_simps]:
  "page_wf p \<Longrightarrow> data_region (set_page_id i p) = data_region p"
  "page_wf p \<Longrightarrow> data_region (set_page_type t p) = data_region p"
  "page_wf p \<Longrightarrow> data_region (set_num_slots n p) = data_region p"
  "page_wf p \<Longrightarrow> data_region (set_free_offset n p) = data_region p"
  "page_wf p \<Longrightarrow> data_region (set_checksum c p) = data_region p"
  by (simp_all add: page_wf_def page_defs data_region_def drop_wr)

lemma data_region_new: "data_region (page_new i) = replicate 4080 0"
  using page_wf_blank by (simp add: page_new_def) (simp add: data_region_def)

lemma compute_checksum_set [simp]: "page_wf p \<Longrightarrow> compute_checksum (set_checksum c p) = compute_checksum p"
  by (simp add: compute_checksum_def)

section \<open>Properties\<close>

text \<open>
  The five header fields and the data region do not overlap: after all five fields have
  been written, each reads back as written and the data region is what it was.
\<close>

theorem page_header_roundtrip:
  assumes "page_wf p"
    and "q = set_checksum c (set_free_offset f (set_num_slots n (set_page_type t (set_page_id i p))))"
  shows "page_wf q \<and> get_page_id q = i \<and> get_page_type q = t \<and> get_num_slots q = n
    \<and> get_free_offset q = f \<and> get_checksum q = c \<and> data_region q = data_region p \<and> pg_id q = pg_id p"
  using assms by simp

text \<open>
  C30. A page whose checksum was just updated verifies, and any later change confined to at
  most four consecutive bytes of its data region is detected.
\<close>

theorem checksum_detects_page_corruption:
  assumes "page_wf p" and "data_region p = pre @ xs @ suf"
    and "length ys = length xs" and "length xs \<le> 4"
    and "page_wf q" and "get_checksum q = get_checksum (update_checksum p)"
    and "data_region q = pre @ ys @ suf"
  shows "verify_checksum (update_checksum p) \<and> (verify_checksum q \<longleftrightarrow> xs = ys)"
proof
  show "verify_checksum (update_checksum p)"
    using assms(1) by (simp add: verify_checksum_def update_checksum_def)
  have "verify_checksum q \<longleftrightarrow> crc32 (pre @ xs @ suf) = crc32 (pre @ ys @ suf)"
    using assms by (simp add: verify_checksum_def update_checksum_def compute_checksum_def)
  also have "\<dots> \<longleftrightarrow> xs = ys" using assms by (simp add: crc32_burst)
  finally show "verify_checksum q \<longleftrightarrow> xs = ys" .
qed

theorem checksum_detects_page_corruption_witness:
  "\<not> verify_checksum
     ((update_checksum (page_new 1))\<lparr>pg_data := wr (pg_data (update_checksum (page_new 1))) 16 [0xFF]\<rparr>)"
proof -
  let ?p = "page_new 1"
  let ?d = "pg_data (update_checksum ?p)"
  let ?q = "(update_checksum ?p)\<lparr>pg_data := wr ?d 16 [0xFF]\<rparr>"
  have wf: "page_wf (update_checksum ?p)" by simp
  then have len: "length ?d = 4096" by (simp add: page_wf_def)
  have "replicate (4080 :: nat) (0 :: u8) = 0 # replicate 4079 0"
  proof -
    have "(4080 :: nat) = Suc 4079" by simp
    then show ?thesis by (simp only: replicate_Suc)
  qed
  then have p: "data_region ?p = [] @ [0] @ replicate 4079 0"
    by (simp add: data_region_new)
  have "drop 17 ?d = drop 1 (data_region (update_checksum ?p))"
    by (simp add: data_region_def)
  also have "data_region (update_checksum ?p) = data_region ?p"
    by (simp add: update_checksum_def)
  finally have "drop 17 ?d = replicate 4079 0" by (simp only: p) simp
  then have q: "data_region ?q = [] @ [0xFF] @ replicate 4079 0"
    using len by (simp add: data_region_def wr_def)
  have "page_wf ?q" using len by (simp add: page_wf_def)
  moreover have "get_checksum ?q = get_checksum (update_checksum ?p)"
    using len by (simp add: get_checksum_def rd_wr_other)
  ultimately show ?thesis
    using checksum_detects_page_corruption [OF page_wf_new p _ _ _ _ q] by simp
qed

end
