(* ===== verification/Kv.thy ===== *)
theory Kv
  imports Prelude
begin

text \<open>
  The abstract contents of a B+ tree node or of the whole index: a list of entries whose keys
  are strictly increasing in the order of byte strings. \<open>kv_insert\<close> and \<open>kv_delete\<close> are
  the specifications of insert and delete, and a lookup is \<open>map_of\<close>. The positions that the
  binary searches of the node code return are related to these operations here, once for leaf
  and internal nodes.
\<close>

section \<open>Sorted association lists\<close>

definition sorted_kv :: "('k::linorder \<times> 'v) list \<Rightarrow> bool" where
  "sorted_kv xs \<longleftrightarrow> sorted_wrt (<) (map fst xs)"

definition kv_insert :: "'k::linorder \<Rightarrow> 'v \<Rightarrow> ('k \<times> 'v) list \<Rightarrow> ('k \<times> 'v) list" where
  "kv_insert k v xs = takeWhile (\<lambda>e. fst e < k) xs @ (k, v) # dropWhile (\<lambda>e. fst e \<le> k) xs"

definition kv_delete :: "'k \<Rightarrow> ('k \<times> 'v) list \<Rightarrow> ('k \<times> 'v) list" where
  "kv_delete k xs = filter (\<lambda>e. fst e \<noteq> k) xs"

lemma sorted_kv_Nil [simp]: "sorted_kv []"
  by (simp add: sorted_kv_def)

lemma sorted_kv_Cons [simp]:
  "sorted_kv (e # xs) \<longleftrightarrow> (\<forall>x \<in> set xs. fst e < fst x) \<and> sorted_kv xs"
  by (auto simp: sorted_kv_def)

lemma sorted_kv_append:
  "sorted_kv (xs @ ys) \<longleftrightarrow>
     sorted_kv xs \<and> sorted_kv ys \<and> (\<forall>x \<in> set xs. \<forall>y \<in> set ys. fst x < fst y)"
  by (auto simp: sorted_kv_def sorted_wrt_append)

lemma sorted_kv_nth:
  "sorted_kv xs \<longleftrightarrow> (\<forall>i j. i < j \<longrightarrow> j < length xs \<longrightarrow> fst (xs ! i) < fst (xs ! j))"
  by (auto simp: sorted_kv_def sorted_wrt_iff_nth_less)

text \<open>What one probe of a binary search says of the entries on one side of it.\<close>

lemma sorted_kv_probe:
  assumes "sorted_kv xs" and "mid < length xs"
  shows "fst (xs ! mid) < key \<Longrightarrow> j \<le> mid \<Longrightarrow> fst (xs ! j) < key"
    and "fst (xs ! mid) \<le> key \<Longrightarrow> j \<le> mid \<Longrightarrow> fst (xs ! j) \<le> key"
    and "key < fst (xs ! mid) \<Longrightarrow> mid \<le> j \<Longrightarrow> j < length xs \<Longrightarrow> key < fst (xs ! j)"
  using assms(1) [unfolded sorted_kv_nth, rule_format, of j mid] assms(1) [unfolded sorted_kv_nth, rule_format, of mid j] assms(2)
  by (cases "j = mid"; auto simp: order_le_less intro: less_trans)+

lemma sorted_kv_distinct: "sorted_kv xs \<Longrightarrow> distinct (map fst xs)"
  by (auto simp: sorted_kv_def strict_sorted_iff)

lemma sorted_kv_take: "sorted_kv xs \<Longrightarrow> sorted_kv (take n xs)"
  by (metis append_take_drop_id sorted_kv_append)

lemma sorted_kv_drop: "sorted_kv xs \<Longrightarrow> sorted_kv (drop n xs)"
  by (metis append_take_drop_id sorted_kv_append)

lemma map_of_kv_delete: "map_of (kv_delete k xs) = (map_of xs)(k := None)"
  by (induction xs) (auto simp: kv_delete_def)

lemma sorted_kv_delete: "sorted_kv xs \<Longrightarrow> sorted_kv (kv_delete k xs)"
  by (induction xs) (auto simp: kv_delete_def)

lemma kv_insert_Cons:
  "kv_insert k v (e # xs) =
     (if fst e < k then e # kv_insert k v xs
      else if fst e = k then (k, v) # dropWhile (\<lambda>e. fst e \<le> k) xs
      else (k, v) # e # xs)"
  by (auto simp: kv_insert_def)

lemma dropWhile_sorted_kv: "sorted_kv (e # xs) \<Longrightarrow> k \<le> fst e \<Longrightarrow> dropWhile (\<lambda>e. fst e \<le> k) xs = xs"
  by (cases xs) (auto simp: leD order_le_less_trans)

lemma map_of_kv_insert: "sorted_kv xs \<Longrightarrow> map_of (kv_insert k v xs) = (map_of xs)(k \<mapsto> v)"
proof (induction xs)
  case Nil
  then show ?case by (simp add: kv_insert_def)
next
  case (Cons e xs)
  then show ?case
    using dropWhile_sorted_kv [of e xs k] by (auto simp: kv_insert_Cons fun_eq_iff)
qed

lemma set_kv_insert: "set (kv_insert k v xs) \<subseteq> insert (k, v) (set xs)"
  by (auto simp: kv_insert_def dest: set_takeWhileD set_dropWhileD)

lemma sorted_kv_insert: "sorted_kv xs \<Longrightarrow> sorted_kv (kv_insert k v xs)"
proof (induction xs)
  case Nil
  then show ?case by (simp add: kv_insert_def)
next
  case (Cons e xs)
  then show ?case
    using set_kv_insert [of k v xs] dropWhile_sorted_kv [of e xs k]
    by (fastforce simp: kv_insert_Cons)
qed

section \<open>Positions\<close>

text \<open>
  \<open>kv_pos xs k i\<close>: entry \<open>i\<close> is where \<open>k\<close> belongs and \<open>k\<close> is absent.
\<close>

definition kv_pos :: "('k::linorder \<times> 'v) list \<Rightarrow> 'k \<Rightarrow> nat \<Rightarrow> bool" where
  "kv_pos xs k i \<longleftrightarrow> i \<le> length xs \<and> (\<forall>j < i. fst (xs ! j) < k) \<and> (\<forall>j. i \<le> j \<longrightarrow> j < length xs \<longrightarrow> k < fst (xs ! j))"

lemma kv_pos_insert:
  assumes "kv_pos xs k i"
  shows "kv_insert k v xs = take i xs @ (k, v) # drop i xs"
proof -
  have a: "\<forall>x \<in> set (take i xs). fst x < k"
    using assms unfolding kv_pos_def by (metis in_set_conv_nth length_take min_less_iff_conj nth_take)
  have b: "\<forall>x \<in> set (drop i xs). k < fst x"
  proof
    fix x assume "x \<in> set (drop i xs)"
    then obtain j where "j < length (drop i xs)" and x: "x = drop i xs ! j"
      by (auto simp: in_set_conv_nth)
    then have "i + j < length xs" by simp
    with assms x show "k < fst x" by (auto simp: kv_pos_def)
  qed
  have "takeWhile (\<lambda>e. fst e < k) (take i xs @ drop i xs) = take i xs"
  proof (cases "drop i xs")
    case (Cons x ys)
    with b have "\<not> fst x < k" by auto
    with a Cons show ?thesis by (subst takeWhile_append2) auto
  qed (use a in \<open>simp add: takeWhile_eq_all_conv\<close>)
  moreover have "dropWhile (\<lambda>e. fst e \<le> k) (take i xs @ drop i xs) = drop i xs"
  proof -
    have "dropWhile (\<lambda>e. fst e \<le> k) (take i xs @ drop i xs) = dropWhile (\<lambda>e. fst e \<le> k) (drop i xs)"
      using a by (intro dropWhile_append2) auto
    also have "\<dots> = drop i xs" using b by (cases "drop i xs") auto
    finally show ?thesis .
  qed
  ultimately show ?thesis by (simp add: kv_insert_def)
qed

lemma kv_pos_absent: "kv_pos xs k i \<Longrightarrow> map_of xs k = None"
  unfolding kv_pos_def map_of_eq_None_iff in_set_conv_nth set_map image_iff
  by (metis in_set_conv_nth less_irrefl linorder_not_le)

lemma kv_found_lookup: "sorted_kv xs \<Longrightarrow> i < length xs \<Longrightarrow> map_of xs (fst (xs ! i)) = Some (snd (xs ! i))"
  using sorted_kv_distinct by (metis map_of_eq_Some_iff nth_mem prod.collapse)

lemma kv_found_insert:
  assumes "sorted_kv xs" and "i < length xs"
  shows "kv_insert (fst (xs ! i)) v xs = xs[i := (fst (xs ! i), v)]"
  using assms
proof (induction xs arbitrary: i)
  case (Cons e xs)
  show ?case
  proof (cases i)
    case 0
    then show ?thesis using Cons.prems dropWhile_sorted_kv [of e xs "fst e"] by (auto simp: kv_insert_Cons)
  next
    case (Suc j)
    with Cons.prems have "fst e < fst (xs ! j)" by auto
    with Suc Cons show ?thesis by (simp add: kv_insert_Cons)
  qed
qed simp

lemma kv_found_delete:
  assumes "sorted_kv xs" and "i < length xs"
  shows "kv_delete (fst (xs ! i)) xs = take i xs @ drop (Suc i) xs"
  using assms
proof (induction xs arbitrary: i)
  case (Cons e xs)
  show ?case
  proof (cases i)
    case 0
    then show ?thesis using Cons.prems by (auto simp: kv_delete_def filter_id_conv)
  next
    case (Suc j)
    with Cons.prems have "fst e < fst (xs ! j)" by auto
    with Suc Cons show ?thesis by (auto simp: kv_delete_def)
  qed
qed simp

lemma kv_absent_delete: "map_of xs k = None \<Longrightarrow> kv_delete k xs = xs"
  by (auto simp: kv_delete_def map_of_eq_None_iff filter_id_conv)

section \<open>Splitting\<close>

lemma kv_lookup_append:
  assumes "sorted_kv (xs @ ys)" and "ys \<noteq> []"
  shows "map_of (xs @ ys) k = (if k < fst (hd ys) then map_of xs k else map_of ys k)"
proof (cases "k < fst (hd ys)")
  case True
  have "map_of ys k = None"
  proof -
    from assms have "\<forall>y \<in> set ys. fst (hd ys) \<le> fst y"
      by (cases ys) (auto simp: sorted_kv_append)
    with True show ?thesis by (force simp: map_of_eq_None_iff)
  qed
  with True show ?thesis by (simp add: map_add_def split: option.splits)
next
  case False
  have "map_of xs k = None"
  proof -
    from assms have "\<forall>x \<in> set xs. fst x < fst (hd ys)"
      by (cases ys) (auto simp: sorted_kv_append)
    with False show ?thesis by (force simp: map_of_eq_None_iff)
  qed
  with False show ?thesis by (simp add: map_add_def split: option.splits)
qed

end
