(* ===== verification/Slotted.thy ===== *)
theory Slotted
  imports Prelude
begin

text \<open>
  The slot directory shared by the two kinds of B+ tree nodes: fixed-size slots that grow
  forward from a base offset of the page. Leaf and internal nodes differ only in the base, the
  slot size and the slot codec, which are the parameters of the locale \<open>slot_dir\<close>; what
  shifting the directory and writing a slot do to the slots and to the bytes outside of the
  directory is proved here once and interpreted twice in the node theories.
\<close>

lemma slice_slice: "j + m \<le> n \<Longrightarrow> slice (slice d i n) j m = slice d (i + j) m"
  by (simp add: slice_def drop_take min_def ac_simps)

lemma wr_append:
  "i + length xs + length ys \<le> length d \<Longrightarrow> wr (wr d i xs) (i + length xs) ys = wr d i (xs @ ys)"
  by (simp add: wr_def ac_simps)

lemma list_insert_nth:
  assumes "length ys = Suc (length xs)" and "p \<le> length xs"
    and "\<And>j. j < p \<Longrightarrow> ys ! j = xs ! j" and "ys ! p = x"
    and "\<And>j. p < j \<Longrightarrow> j \<le> length xs \<Longrightarrow> ys ! j = xs ! (j - 1)"
  shows "ys = take p xs @ x # drop p xs"
proof (rule nth_equalityI)
  show "length ys = length (take p xs @ x # drop p xs)" using assms(1,2) by simp
next
  fix j assume j: "j < length ys"
  show "ys ! j = (take p xs @ x # drop p xs) ! j"
  proof (cases j p rule: linorder_cases)
    case greater
    then have "(take p xs @ x # drop p xs) ! j = xs ! (j - 1)"
      using assms(2) by (simp add: nth_append min_def nth_Cons')
    with greater j assms(1,5) show ?thesis by simp
  qed (use assms in \<open>simp_all add: nth_append min_def\<close>)
qed

locale slot_dir =
  fixes base :: nat and size :: nat and enc :: "'s \<Rightarrow> bytes" and dec :: "bytes \<Rightarrow> 's"
  assumes length_enc [simp]: "length (enc s) = size"
    and dec_enc [simp]: "dec (enc s) = s"
    and size_pos: "0 < size"
begin

definition slot_at :: "nat \<Rightarrow> nat" where
  "slot_at i = base + i * size"

definition rslot :: "bytes \<Rightarrow> nat \<Rightarrow> 's" where
  "rslot d i = dec (slice d (slot_at i) size)"

definition wslot :: "bytes \<Rightarrow> nat \<Rightarrow> 's \<Rightarrow> bytes" where
  "wslot d i s = wr d (slot_at i) (enc s)"

definition slots :: "bytes \<Rightarrow> nat \<Rightarrow> 's list" where
  "slots d n = map (rslot d) [0..<n]"

definition shift :: "bytes \<Rightarrow> nat \<Rightarrow> nat \<Rightarrow> bytes" where
  "shift d p n = foldl (\<lambda>d i. wslot d (Suc i) (rslot d i)) d (rev [p..<n])"

lemma slot_at_Suc: "slot_at (Suc i) = slot_at i + size"
  by (simp add: slot_at_def)

lemma slot_at_mono: "i \<le> j \<Longrightarrow> slot_at i \<le> slot_at j"
  by (simp add: slot_at_def)

lemma slot_at_less: "i < j \<Longrightarrow> slot_at i + size \<le> slot_at j"
  using slot_at_mono [of "Suc i" j] by (simp add: slot_at_Suc)

lemma length_slots [simp]: "length (slots d n) = n"
  by (simp add: slots_def)

lemma nth_slots [simp]: "i < n \<Longrightarrow> slots d n ! i = rslot d i"
  by (simp add: slots_def)

lemma length_wslot [simp]: "slot_at (Suc i) \<le> length d \<Longrightarrow> length (wslot d i s) = length d"
  by (simp add: wslot_def slot_at_Suc)

lemma rslot_wslot_same [simp]: "slot_at (Suc i) \<le> length d \<Longrightarrow> rslot (wslot d i s) i = s"
  by (simp add: rslot_def wslot_def slot_at_Suc)

lemma rslot_wslot_other:
  assumes "i \<noteq> j" and "slot_at (Suc i) \<le> length d" and "slot_at (Suc j) \<le> length d"
  shows "rslot (wslot d i s) j = rslot d j"
proof -
  have "slot_at j + size \<le> slot_at i \<or> slot_at i + size \<le> slot_at j"
    using assms(1) slot_at_less by (meson nat_neq_iff)
  with assms show ?thesis by (simp add: rslot_def wslot_def slot_at_Suc slice_wr_other)
qed

lemma slice_wslot_other:
  assumes "slot_at (Suc i) \<le> length d" and "a + m \<le> length d"
    and "a + m \<le> base \<or> slot_at (Suc i) \<le> a"
  shows "slice (wslot d i s) a m = slice d a m"
  using assms by (auto simp: wslot_def slot_at_Suc slot_at_def intro!: slice_wr_other)

lemma rslot_wr_other:
  assumes "i + length bs \<le> length d" and "slot_at (Suc j) \<le> length d"
    and "i + length bs \<le> base \<or> slot_at (Suc j) \<le> i"
  shows "rslot (wr d i bs) j = rslot d j"
proof -
  have "slice (wr d i bs) (slot_at j) size = slice d (slot_at j) size"
    using assms by (intro slice_wr_other) (auto simp: slot_at_Suc slot_at_def)
  then show ?thesis by (simp add: rslot_def)
qed

lemma shift_step:
  "p < n \<Longrightarrow> shift d p n = shift (wslot d n (rslot d (n - 1))) p (n - 1)"
  by (cases n) (simp_all add: shift_def)

lemma shift_done [simp]: "n \<le> p \<Longrightarrow> shift d p n = d"
  by (simp add: shift_def)

lemma length_shift [simp]: "slot_at (Suc n) \<le> length d \<Longrightarrow> length (shift d p n) = length d"
proof (induction n arbitrary: d)
  case (Suc n)
  then show ?case
    by (cases "p < Suc n") (simp_all add: shift_step slot_at_Suc)
qed simp

lemma slice_shift_other:
  assumes "slot_at (Suc n) \<le> length d" and "a + m \<le> length d"
    and "a + m \<le> base \<or> slot_at (Suc n) \<le> a"
  shows "slice (shift d p n) a m = slice d a m"
  using assms
proof (induction n arbitrary: d)
  case (Suc n)
  show ?case
  proof (cases "p < Suc n")
    case True
    have "slice (wslot d (Suc n) (rslot d n)) a m = slice d a m"
      using Suc.prems by (rule slice_wslot_other)
    with True Suc show ?thesis by (auto simp: shift_step slot_at_Suc)
  qed simp
qed simp

lemma rslot_shift:
  assumes "slot_at (Suc n) \<le> length d" and "j \<le> n"
  shows "rslot (shift d p n) j = (if j \<le> p then rslot d j else rslot d (j - 1))"
  using assms
proof (induction n arbitrary: d j)
  case 0
  then show ?case by simp
next
  case (Suc n)
  show ?case
  proof (cases "p < Suc n")
    case False
    then show ?thesis using Suc.prems by simp
  next
    case True
    let ?d = "wslot d (Suc n) (rslot d n)"
    have fits: "slot_at (Suc i) \<le> length d" if "i \<le> Suc n" for i
      using that Suc.prems(1) slot_at_mono [of "Suc i" "Suc (Suc n)"] by simp
    have other: "rslot ?d i = rslot d i" if "i \<le> n" for i
      using that fits by (intro rslot_wslot_other) auto
    have step: "shift d p (Suc n) = shift ?d p n" using True by (simp add: shift_step)
    have len: "slot_at (Suc n) \<le> length ?d" using fits by simp
    show ?thesis
    proof (cases "j = Suc n")
      case j: True
      have "rslot (shift ?d p n) (Suc n) = rslot ?d (Suc n)"
        unfolding rslot_def using len fits [of "Suc n"]
        by (subst slice_shift_other) (simp_all add: slot_at_Suc)
      with j True fits step show ?thesis by simp
    next
      case False
      with Suc.prems have j: "j \<le> n" by simp
      from Suc.IH [OF len j] step j other show ?thesis by auto
    qed
  qed
qed

text \<open>Inserting a slot: shift the directory from the position on, then write the slot.\<close>

lemma slots_insert:
  assumes "slot_at (Suc n) \<le> length d" and "p \<le> n"
  shows "slots (wslot (shift d p n) p s) (Suc n) = take p (slots d n) @ s # drop p (slots d n)"
proof (rule list_insert_nth)
  let ?e = "wslot (shift d p n) p s"
  have fits: "slot_at (Suc i) \<le> length (shift d p n)" if "i \<le> n" for i
    using that assms(1) slot_at_mono [of "Suc i" "Suc n"] by simp
  show "slots ?e (Suc n) ! p = s" using assms fits by simp
  have other: "slots ?e (Suc n) ! j = rslot (shift d p n) j" if "j \<le> n" "j \<noteq> p" for j
    using that assms fits by (simp add: rslot_wslot_other)
  show "slots ?e (Suc n) ! j = slots d n ! j" if "j < p" for j
    using that assms other [of j] by (simp add: rslot_shift)
  show "slots ?e (Suc n) ! j = slots d n ! (j - 1)" if "p < j" "j \<le> length (slots d n)" for j
    using that assms other [of j] by (simp add: rslot_shift)
qed (use assms in simp_all)

lemma slice_insert_other:
  assumes "slot_at (Suc n) \<le> length d" and "p \<le> n" and "a + m \<le> length d"
    and "a + m \<le> base \<or> slot_at (Suc n) \<le> a"
  shows "slice (wslot (shift d p n) p s) a m = slice d a m"
proof -
  have "slot_at (Suc p) \<le> slot_at (Suc n)" using assms(2) by (intro slot_at_mono) simp
  with assms show ?thesis by (subst slice_wslot_other) (auto simp: slice_shift_other)
qed

lemma length_slot_insert [simp]:
  "slot_at (Suc n) \<le> length d \<Longrightarrow> p \<le> n \<Longrightarrow> length (wslot (shift d p n) p s) = length d"
  using slot_at_mono [of "Suc p" "Suc n"] by simp

end

text \<open>
  A slotted page: each slot also says where its data lies. Data is added just below the lowest
  offset in use, and the number of slots is kept in two bytes of the page header.
\<close>

locale data_dir = slot_dir base size enc dec
  for base :: nat and size :: nat and enc :: "'s \<Rightarrow> bytes" and dec :: "bytes \<Rightarrow> 's" +
  fixes off :: "'s \<Rightarrow> nat" and len :: "'s \<Rightarrow> nat"
  assumes header: "7 \<le> base"
begin

definition lowest :: "nat \<Rightarrow> 's list \<Rightarrow> nat" where
  "lowest hi ss = Min (insert hi (off ` set ss))"

definition in_page :: "nat \<Rightarrow> nat \<Rightarrow> 's \<Rightarrow> bool" where
  "in_page lim hi s \<longleftrightarrow> lim \<le> off s \<and> off s + len s \<le> hi"

definition page_insert :: "bytes \<Rightarrow> nat \<Rightarrow> nat \<Rightarrow> nat \<Rightarrow> 's \<Rightarrow> bytes \<Rightarrow> bytes" where
  "page_insert d i n lo s bs = wslot (shift (wr d (lo - length bs) bs) i n) i s"

lemma lowest_le: "lowest hi ss \<le> hi" "s \<in> set ss \<Longrightarrow> lowest hi ss \<le> off s"
  by (simp_all add: lowest_def)

lemma lowest_insert: "lowest hi (xs @ s # ys) = min (off s) (lowest hi (xs @ ys))"
  by (simp add: lowest_def insert_commute [of hi] image_Un)

lemma page_insert_bytes:
  assumes fits: "slot_at (Suc n) + length bs \<le> lo" "lo \<le> length d" and i: "i \<le> n"
  shows "length (page_insert d i n lo s bs) = length d"
    and "slice (page_insert d i n lo s bs) 0 base = slice d 0 base"
    and "slots (page_insert d i n lo s bs) (Suc n) = take i (slots d n) @ s # drop i (slots d n)"
    and "slot_at (Suc n) \<le> a \<Longrightarrow> a + m \<le> length d \<Longrightarrow>
      slice (page_insert d i n lo s bs) a m = slice (wr d (lo - length bs) bs) a m"
proof -
  let ?d = "wr d (lo - length bs) bs"
  have low: "lo - length bs + length bs \<le> length d" "slot_at (Suc n) \<le> lo - length bs"
    using fits by linarith+
  then have dir: "slot_at (Suc n) \<le> length ?d" by simp
  have base: "base \<le> slot_at (Suc n)" by (simp add: slot_at_def)
  show "length (page_insert d i n lo s bs) = length d"
    using dir i low by (simp add: page_insert_def)
  show "slice (page_insert d i n lo s bs) 0 base = slice d 0 base"
    unfolding page_insert_def using dir i low base
    by (subst slice_insert_other) (auto intro!: slice_wr_other)
  show "slice (page_insert d i n lo s bs) a m = slice ?d a m"
    if "slot_at (Suc n) \<le> a" "a + m \<le> length d"
    unfolding page_insert_def using dir i low that by (intro slice_insert_other) auto
  have "slot_at (Suc j) \<le> lo - length bs \<and> slot_at (Suc j) \<le> length d" if "j < n" for j
    using that low slot_at_mono [of "Suc j" "Suc n"] by simp
  then have "slots ?d n = slots d n"
    using low by (auto intro!: nth_equalityI rslot_wr_other)
  then show "slots (page_insert d i n lo s bs) (Suc n) = take i (slots d n) @ s # drop i (slots d n)"
    unfolding page_insert_def using slots_insert [OF dir i] by simp
qed

text \<open>Afterwards the slot count is written into the header at offset 5.\<close>

lemma page_insert_count:
  fixes c :: u16
  assumes fits: "slot_at (Suc n) + length bs \<le> lo" "lo \<le> length d" and i: "i \<le> n"
    and s: "off s = lo - length bs" "len s = length bs"
    and old: "\<forall>t \<in> set (slots d n). lo \<le> off t \<and> off t + len t \<le> length d"
  defines "f \<equiv> wr (page_insert d i n lo s bs) 5 (to_le 2 c)"
  shows "length f = length d"
    and "slots f (Suc n) = take i (slots d n) @ s # drop i (slots d n)"
    and "\<forall>t \<in> set (slots d n). slice f (off t) (len t) = slice d (off t) (len t)"
    and "slice f (off s) (len s) = bs"
    and "in_page (slot_at (Suc n)) (length d) s"
proof -
  let ?e = "page_insert d i n lo s bs"
  note bytes = page_insert_bytes [OF fits i]
  have base: "7 \<le> slot_at (Suc n)" using header by (simp add: slot_at_def)
  have lene: "5 + length (to_le 2 c) \<le> length ?e" using base fits bytes(1) by simp
  then show "length f = length d" by (simp add: f_def bytes(1))
  have "rslot f j = rslot ?e j" if "j < Suc n" for j
    unfolding f_def
  proof (rule rslot_wr_other [OF lene])
    have "slot_at (Suc j) \<le> slot_at (Suc n)" using that by (intro slot_at_mono) simp
    then show "slot_at (Suc j) \<le> length ?e" using fits bytes(1) by simp
  qed (use header in simp)
  then have "slots f (Suc n) = slots ?e (Suc n)" by (intro nth_equalityI) auto
  then show "slots f (Suc n) = take i (slots d n) @ s # drop i (slots d n)"
    by (simp add: bytes(3))
  have high: "slice f a m = slice (wr d (lo - length bs) bs) a m"
    if "slot_at (Suc n) \<le> a" "a + m \<le> length d" for a m
  proof -
    have "slice f a m = slice ?e a m"
      unfolding f_def using that base lene bytes(1) by (intro slice_wr_other) auto
    with bytes(4) [OF that] show ?thesis by simp
  qed
  show "\<forall>t \<in> set (slots d n). slice f (off t) (len t) = slice d (off t) (len t)"
  proof
    fix t assume "t \<in> set (slots d n)"
    with old have t: "lo \<le> off t" "off t + len t \<le> length d" by auto
    with fits have "slice f (off t) (len t) = slice (wr d (lo - length bs) bs) (off t) (len t)"
      by (intro high) auto
    also have "\<dots> = slice d (off t) (len t)" using t fits by (intro slice_wr_other) auto
    finally show "slice f (off t) (len t) = slice d (off t) (len t)" .
  qed
  show "slice f (off s) (len s) = bs"
    using high [of "off s" "len s"] fits s by simp
  show "in_page (slot_at (Suc n)) (length d) s" using fits s by (auto simp: in_page_def)
qed

end

end
