(* ===== verification/Node.thy ===== *)
theory Node
  imports Page Kv Slotted
begin

text \<open>
  The B+ tree node code of \<^verbatim>\<open>src/src/btree/node.rs\<close>, byte for byte: the node header in
  the data region, the slotted leaf page (slots grow forward, key and value bytes grow backward)
  and the slotted internal page. \<^verbatim>\<open>BTreeNode\<close> is a wrapper around a page, so a node is a
  page here. Every index into the page that the code computes at run time goes through the
  checked reads and writes of the prelude: an index out of bounds is a \<open>Panic\<close>.

  \<^verbatim>\<open>leaf_insert\<close> and \<^verbatim>\<open>leaf_update\<close> call each other; the model runs the pair with
  fuel. On well-formed pages the nesting is two deep (theory \<open>Leaf\<close> proves the results for
  every fuel of at least two), so that the fuel \<open>PAGE_SIZE\<close> of \<open>leaf_insert\<close> is ample.
\<close>

type_synonym btree_node = page

definition MAX_KEY_SIZE :: nat where "MAX_KEY_SIZE = 256"
definition MAX_VALUE_SIZE :: nat where "MAX_VALUE_SIZE = 256"
definition LEAF_SLOT_SIZE :: nat where "LEAF_SLOT_SIZE = 6"
definition INTERNAL_SLOT_SIZE :: nat where "INTERNAL_SLOT_SIZE = 8"
definition BTREE_HEADER_SIZE :: nat where "BTREE_HEADER_SIZE = 10"

declare LEAF_SLOT_SIZE_def [simp] INTERNAL_SLOT_SIZE_def [simp] BTREE_HEADER_SIZE_def [simp]

section \<open>Helpers and the node header\<close>

definition read_u16_le :: "bytes \<Rightarrow> nat \<Rightarrow> u16 res" where
  "read_u16_le data off = read_le 2 data off"

definition read_u32_le :: "bytes \<Rightarrow> nat \<Rightarrow> u32 res" where
  "read_u32_le data off = read_le 4 data off"

definition get_right_sibling :: "btree_node \<Rightarrow> page_id" where
  "get_right_sibling nd = rd 4 (pg_data nd) HEADER_SIZE"

definition set_right_sibling :: "page_id \<Rightarrow> btree_node \<Rightarrow> btree_node" where
  "set_right_sibling pid nd =
     nd\<lparr>pg_data := wr (pg_data nd) HEADER_SIZE (to_le 4 pid), pg_dirty := True\<rparr>"

definition get_parent :: "btree_node \<Rightarrow> page_id" where
  "get_parent nd = rd 4 (pg_data nd) (HEADER_SIZE + 4)"

definition set_parent :: "page_id \<Rightarrow> btree_node \<Rightarrow> btree_node" where
  "set_parent pid nd =
     nd\<lparr>pg_data := wr (pg_data nd) (HEADER_SIZE + 4) (to_le 4 pid), pg_dirty := True\<rparr>"

definition get_level :: "btree_node \<Rightarrow> u16" where
  "get_level nd = rd 2 (pg_data nd) (HEADER_SIZE + 8)"

definition set_level :: "u16 \<Rightarrow> btree_node \<Rightarrow> btree_node" where
  "set_level level nd =
     nd\<lparr>pg_data := wr (pg_data nd) (HEADER_SIZE + 8) (to_le 2 level), pg_dirty := True\<rparr>"

definition new_leaf :: "page_id \<Rightarrow> btree_node" where
  "new_leaf pid =
     set_level 0 (set_parent INVALID_PAGE_ID (set_right_sibling INVALID_PAGE_ID
       (set_free_offset (of_nat (HEADER_SIZE + BTREE_HEADER_SIZE))
         (set_num_slots 0 (set_page_type PtLeaf (page_new pid))))))"

definition new_internal :: "page_id \<Rightarrow> btree_node" where
  "new_internal pid =
     set_level 1 (set_parent INVALID_PAGE_ID (set_right_sibling INVALID_PAGE_ID
       (set_free_offset (of_nat (HEADER_SIZE + BTREE_HEADER_SIZE))
         (set_num_slots 0 (set_page_type PtInternal (page_new pid))))))"

definition is_leaf :: "btree_node \<Rightarrow> bool" where
  "is_leaf nd \<longleftrightarrow> get_page_type nd = PtLeaf"

definition num_keys :: "btree_node \<Rightarrow> nat" where
  "num_keys nd = unat (get_num_slots nd)"

section \<open>Leaf nodes\<close>

definition leaf_slots_start :: nat where
  "leaf_slots_start = HEADER_SIZE + BTREE_HEADER_SIZE"

definition leaf_slot_offset :: "nat \<Rightarrow> nat" where
  "leaf_slot_offset idx = leaf_slots_start + idx * LEAF_SLOT_SIZE"

definition read_leaf_slot :: "btree_node \<Rightarrow> nat \<Rightarrow> (u16 \<times> u16 \<times> u16) res" where
  "read_leaf_slot nd idx =
     (let off = leaf_slot_offset idx; data = pg_data nd
      in bindE (read_u16_le data off) (\<lambda>data_offset.
         bindE (read_u16_le data (off + 2)) (\<lambda>key_len.
         bindE (read_u16_le data (off + 4)) (\<lambda>val_len.
         Inr (data_offset, key_len, val_len)))))"

definition write_leaf_slot :: "btree_node \<Rightarrow> nat \<Rightarrow> u16 \<times> u16 \<times> u16 \<Rightarrow> btree_node res" where
  "write_leaf_slot nd idx slot =
     (case slot of (data_offset, key_len, val_len) \<Rightarrow>
       let off = leaf_slot_offset idx
       in bindE (copy_from_slice (pg_data nd) off (to_le 2 data_offset)) (\<lambda>d1.
          bindE (copy_from_slice d1 (off + 2) (to_le 2 key_len)) (\<lambda>d2.
          bindE (copy_from_slice d2 (off + 4) (to_le 2 val_len)) (\<lambda>d3.
          Inr (nd\<lparr>pg_data := d3, pg_dirty := True\<rparr>)))))"

definition leaf_key :: "btree_node \<Rightarrow> nat \<Rightarrow> key res" where
  "leaf_key nd idx =
     bindE (read_leaf_slot nd idx) (\<lambda>(data_offset, key_len, _).
       let start = unat data_offset in get_range (pg_data nd) start (start + unat key_len))"

definition leaf_value :: "btree_node \<Rightarrow> nat \<Rightarrow> bytes res" where
  "leaf_value nd idx =
     bindE (read_leaf_slot nd idx) (\<lambda>(data_offset, key_len, val_len).
       let start = unat data_offset + unat key_len
       in get_range (pg_data nd) start (start + unat val_len))"

text \<open>The loop of \<^verbatim>\<open>leaf_find_slot\<close>: binary search between \<open>lo\<close> and \<open>hi\<close>.\<close>

function leaf_find_loop :: "btree_node \<Rightarrow> key \<Rightarrow> nat \<Rightarrow> nat \<Rightarrow> (nat \<times> bool) res" where
  "leaf_find_loop nd key lo hi =
     (if lo < hi then
        let mid = (lo + hi) div 2
        in bindE (leaf_key nd mid) (\<lambda>mid_key.
             if mid_key < key then leaf_find_loop nd key (mid + 1) hi
             else if key < mid_key then leaf_find_loop nd key lo mid
             else Inr (mid, True))
      else Inr (lo, False))"
  by pat_completeness auto
termination
  by (relation "measure (\<lambda>(nd, key, lo, hi). hi - lo)") auto

definition leaf_find_slot :: "btree_node \<Rightarrow> key \<Rightarrow> (nat \<times> bool) res" where
  "leaf_find_slot nd key =
     (let n = num_keys nd in if n = 0 then Inr (0, False) else leaf_find_loop nd key 0 n)"

definition leaf_data_frontier :: "btree_node \<Rightarrow> nat res" where
  "leaf_data_frontier nd =
     (let n = num_keys nd
      in if n = 0 then Inr PAGE_SIZE
         else bindE (read_leaf_slot nd (n - 1)) (\<lambda>(last_off, _, _).
              bindE (read_leaf_slot nd 0) (\<lambda>(first_off, _, _).
              foldE (\<lambda>m i. bindE (read_leaf_slot nd i) (\<lambda>(off, _, _).
                             Inr (if unat off < m then unat off else m)))
                (if unat first_off < unat last_off then unat first_off else unat last_off)
                [1..<n - 1])))"

definition leaf_available_space :: "btree_node \<Rightarrow> nat res" where
  "leaf_available_space nd =
     (let n = num_keys nd; slots_end = leaf_slots_start + (n + 1) * LEAF_SLOT_SIZE
      in bindE (leaf_data_frontier nd) (\<lambda>data_start.
           Inr (if data_start > slots_end then data_start - slots_end else 0)))"

definition leaf_can_fit :: "btree_node \<Rightarrow> key \<Rightarrow> bytes \<Rightarrow> bool res" where
  "leaf_can_fit nd key value =
     (let needed = LEAF_SLOT_SIZE + length key + length value
      in bindE (leaf_available_space nd) (\<lambda>space. Inr (space \<ge> needed)))"

text \<open>
  The part of \<^verbatim>\<open>leaf_insert\<close> that adds a new entry at \<open>slot_idx\<close>: write the key and
  value bytes below the data frontier, shift the slots from the right, write the new slot.
\<close>

definition leaf_insert_at :: "btree_node \<Rightarrow> nat \<Rightarrow> key \<Rightarrow> bytes \<Rightarrow> btree_node res" where
  "leaf_insert_at nd slot_idx key value =
     (let n = num_keys nd; kv_len = length key + length value
      in bindE (leaf_data_frontier nd) (\<lambda>current_data_start.
         bindE (sub_usize current_data_start kv_len) (\<lambda>new_data_offset.
         bindE (copy_from_slice (pg_data nd) new_data_offset key) (\<lambda>d1.
         bindE (copy_from_slice d1 (new_data_offset + length key) value) (\<lambda>d2.
         bindE (foldE (\<lambda>nd i. bindE (read_leaf_slot nd i) (write_leaf_slot nd (i + 1)))
                  (nd\<lparr>pg_data := d2\<rparr>) (rev [slot_idx..<n])) (\<lambda>nd'.
         bindE (write_leaf_slot nd' slot_idx
                  (of_nat new_data_offset, of_nat (length key), of_nat (length value))) (\<lambda>nd''.
         Inr ((set_num_slots (of_nat n + 1) nd'')\<lparr>pg_dirty := True\<rparr>))))))))"

text \<open>The page reset shared by \<^verbatim>\<open>leaf_update\<close> and \<^verbatim>\<open>leaf_delete\<close>: a fresh leaf page
  that keeps the id, the sibling, the parent and the level.\<close>

definition leaf_reset :: "btree_node \<Rightarrow> btree_node" where
  "leaf_reset nd =
     set_level (get_level nd) (set_parent (get_parent nd) (set_right_sibling (get_right_sibling nd)
       (set_free_offset (of_nat (HEADER_SIZE + BTREE_HEADER_SIZE))
         (set_num_slots 0 (set_page_type PtLeaf (page_new (pg_id nd)))))))"

text \<open>Re-inserting collected entries one by one, for a given insert function.\<close>

definition leaf_refill ::
    "(btree_node \<Rightarrow> key \<Rightarrow> bytes \<Rightarrow> (btree_node \<times> bool) res) \<Rightarrow> btree_node \<Rightarrow> entry list \<Rightarrow> btree_node res" where
  "leaf_refill ins nd entries = foldE (\<lambda>nd (k, v). bindE (ins nd k v) (\<lambda>(nd', _). Inr nd')) nd entries"

definition leaf_update_with ::
    "(btree_node \<Rightarrow> key \<Rightarrow> bytes \<Rightarrow> (btree_node \<times> bool) res) \<Rightarrow> btree_node \<Rightarrow> nat \<Rightarrow> bytes \<Rightarrow> btree_node res" where
  "leaf_update_with ins nd idx new_value =
     (let n = num_keys nd
      in bindE (mapE (\<lambda>i. bindE (leaf_key nd i) (\<lambda>key.
                          bindE (if i = idx then Inr new_value else leaf_value nd i) (\<lambda>val.
                          Inr (key, val)))) [0..<n]) (\<lambda>entries.
         leaf_refill ins (leaf_reset nd) entries))"

fun leaf_insert_fuel :: "nat \<Rightarrow> btree_node \<Rightarrow> key \<Rightarrow> bytes \<Rightarrow> (btree_node \<times> bool) res" where
  "leaf_insert_fuel 0 nd key value = Inl OutOfFuel"
| "leaf_insert_fuel (Suc fuel) nd key value =
     bindE (leaf_find_slot nd key) (\<lambda>(slot_idx, found).
       if found then bindE (leaf_update_with (leaf_insert_fuel fuel) nd slot_idx value) (\<lambda>nd'. Inr (nd', False))
       else bindE (leaf_insert_at nd slot_idx key value) (\<lambda>nd'. Inr (nd', True)))"

definition leaf_insert :: "btree_node \<Rightarrow> key \<Rightarrow> bytes \<Rightarrow> (btree_node \<times> bool) res" where
  "leaf_insert = leaf_insert_fuel PAGE_SIZE"

definition leaf_delete :: "btree_node \<Rightarrow> key \<Rightarrow> (btree_node \<times> bytes option) res" where
  "leaf_delete nd key =
     bindE (leaf_find_slot nd key) (\<lambda>(idx, found).
       if \<not> found then Inr (nd, None)
       else bindE (leaf_value nd idx) (\<lambda>old_val.
            bindE (mapE (\<lambda>i. bindE (leaf_key nd i) (\<lambda>k. bindE (leaf_value nd i) (\<lambda>v. Inr (k, v))))
                     (filter (\<lambda>i. i \<noteq> idx) [0..<num_keys nd])) (\<lambda>entries.
            bindE (leaf_refill leaf_insert (leaf_reset nd) entries) (\<lambda>nd'.
            Inr (nd', Some old_val)))))"

definition leaf_entries :: "btree_node \<Rightarrow> entry list res" where
  "leaf_entries nd =
     mapE (\<lambda>i. bindE (leaf_key nd i) (\<lambda>k. bindE (leaf_value nd i) (\<lambda>v. Inr (k, v)))) [0..<num_keys nd]"

section \<open>Internal nodes\<close>

definition internal_leftmost_child_offset :: nat where
  "internal_leftmost_child_offset = HEADER_SIZE + BTREE_HEADER_SIZE"

definition get_leftmost_child :: "btree_node \<Rightarrow> page_id" where
  "get_leftmost_child nd = rd 4 (pg_data nd) internal_leftmost_child_offset"

definition set_leftmost_child :: "page_id \<Rightarrow> btree_node \<Rightarrow> btree_node" where
  "set_leftmost_child pid nd =
     nd\<lparr>pg_data := wr (pg_data nd) internal_leftmost_child_offset (to_le 4 pid), pg_dirty := True\<rparr>"

definition internal_slots_start :: nat where
  "internal_slots_start = internal_leftmost_child_offset + 4"

definition internal_slot_offset :: "nat \<Rightarrow> nat" where
  "internal_slot_offset idx = internal_slots_start + idx * INTERNAL_SLOT_SIZE"

definition read_internal_slot :: "btree_node \<Rightarrow> nat \<Rightarrow> (u16 \<times> u16 \<times> u32) res" where
  "read_internal_slot nd idx =
     (let off = internal_slot_offset idx; d = pg_data nd
      in bindE (read_u16_le d off) (\<lambda>key_offset.
         bindE (read_u16_le d (off + 2)) (\<lambda>key_len.
         bindE (read_u32_le d (off + 4)) (\<lambda>right_child.
         Inr (key_offset, key_len, right_child)))))"

definition write_internal_slot :: "btree_node \<Rightarrow> nat \<Rightarrow> u16 \<times> u16 \<times> u32 \<Rightarrow> btree_node res" where
  "write_internal_slot nd idx slot =
     (case slot of (key_offset, key_len, right_child) \<Rightarrow>
       let off = internal_slot_offset idx
       in bindE (copy_from_slice (pg_data nd) off (to_le 2 key_offset)) (\<lambda>d1.
          bindE (copy_from_slice d1 (off + 2) (to_le 2 key_len)) (\<lambda>d2.
          bindE (copy_from_slice d2 (off + 4) (to_le 4 right_child)) (\<lambda>d3.
          Inr (nd\<lparr>pg_data := d3, pg_dirty := True\<rparr>)))))"

definition internal_key :: "btree_node \<Rightarrow> nat \<Rightarrow> key res" where
  "internal_key nd idx =
     bindE (read_internal_slot nd idx) (\<lambda>(key_offset, key_len, _).
       let start = unat key_offset in get_range (pg_data nd) start (start + unat key_len))"

definition internal_child :: "btree_node \<Rightarrow> nat \<Rightarrow> page_id res" where
  "internal_child nd idx =
     (if idx = 0 then Inr (get_leftmost_child nd)
      else bindE (read_internal_slot nd (idx - 1)) (\<lambda>(_, _, right_child). Inr right_child))"

definition num_children :: "btree_node \<Rightarrow> nat" where
  "num_children nd = num_keys nd + 1"

text \<open>The binary search shared by \<^verbatim>\<open>internal_find_child\<close> and \<^verbatim>\<open>internal_insert\<close>.\<close>

function internal_find_loop :: "btree_node \<Rightarrow> key \<Rightarrow> nat \<Rightarrow> nat \<Rightarrow> nat res" where
  "internal_find_loop nd key lo hi =
     (if lo < hi then
        let mid = (lo + hi) div 2
        in bindE (internal_key nd mid) (\<lambda>k.
             if key < k then internal_find_loop nd key lo mid
             else internal_find_loop nd key (mid + 1) hi)
      else Inr lo)"
  by pat_completeness auto
termination
  by (relation "measure (\<lambda>(nd, key, lo, hi). hi - lo)") auto

definition internal_find_child :: "btree_node \<Rightarrow> key \<Rightarrow> nat res" where
  "internal_find_child nd key =
     (let n = num_keys nd in if n = 0 then Inr 0 else internal_find_loop nd key 0 n)"

definition internal_data_frontier :: "btree_node \<Rightarrow> nat res" where
  "internal_data_frontier nd =
     (let n = num_keys nd
      in if n = 0 then Inr PAGE_SIZE
         else foldE (\<lambda>min_off i. bindE (read_internal_slot nd i) (\<lambda>(off, _, _).
                      Inr (if unat off < min_off then unat off else min_off))) PAGE_SIZE [0..<n])"

definition internal_available_space :: "btree_node \<Rightarrow> nat res" where
  "internal_available_space nd =
     (let n = num_keys nd; slots_end = internal_slots_start + (n + 1) * INTERNAL_SLOT_SIZE
      in bindE (internal_data_frontier nd) (\<lambda>data_start.
           Inr (if data_start > slots_end then data_start - slots_end else 0)))"

definition internal_can_fit :: "btree_node \<Rightarrow> key \<Rightarrow> bool res" where
  "internal_can_fit nd key =
     (let needed = INTERNAL_SLOT_SIZE + length key
      in bindE (internal_available_space nd) (\<lambda>space. Inr (space \<ge> needed)))"

definition internal_insert :: "btree_node \<Rightarrow> key \<Rightarrow> page_id \<Rightarrow> btree_node res" where
  "internal_insert nd key right_child =
     (let n = num_keys nd
      in bindE (internal_find_loop nd key 0 n) (\<lambda>pos.
         bindE (internal_data_frontier nd) (\<lambda>current_data_start.
         bindE (sub_usize current_data_start (length key)) (\<lambda>new_data_offset.
         bindE (copy_from_slice (pg_data nd) new_data_offset key) (\<lambda>d1.
         bindE (foldE (\<lambda>nd i. bindE (read_internal_slot nd i) (write_internal_slot nd (i + 1)))
                  (nd\<lparr>pg_data := d1\<rparr>) (rev [pos..<n])) (\<lambda>nd'.
         bindE (write_internal_slot nd' pos (of_nat new_data_offset, of_nat (length key), right_child)) (\<lambda>nd''.
         Inr ((set_num_slots (of_nat n + 1) nd'')\<lparr>pg_dirty := True\<rparr>))))))))"

definition internal_entries :: "btree_node \<Rightarrow> (page_id \<times> (key \<times> page_id) list) res" where
  "internal_entries nd =
     (let leftmost = get_leftmost_child nd
      in bindE (mapE (\<lambda>i. bindE (read_internal_slot nd i) (\<lambda>(_, _, right_child).
                          bindE (internal_key nd i) (\<lambda>k. Inr (k, right_child)))) [0..<num_keys nd])
           (\<lambda>entries. Inr (leftmost, entries)))"

definition internal_reset :: "btree_node \<Rightarrow> page_id \<Rightarrow> btree_node" where
  "internal_reset nd leftmost =
     set_leftmost_child leftmost
      (set_level (get_level nd) (set_parent (get_parent nd) (set_right_sibling (get_right_sibling nd)
        (set_free_offset (of_nat (HEADER_SIZE + BTREE_HEADER_SIZE))
          (set_num_slots 0 (set_page_type PtInternal (page_new (pg_id nd))))))))"

definition internal_rebuild :: "btree_node \<Rightarrow> page_id \<Rightarrow> (key \<times> page_id) list \<Rightarrow> btree_node res" where
  "internal_rebuild nd leftmost entries =
     foldE (\<lambda>nd (k, child). internal_insert nd k child) (internal_reset nd leftmost) entries"

section \<open>Header accessors on well-formed pages\<close>

declare leaf_find_loop.simps [simp del] internal_find_loop.simps [simp del]

lemmas node_header_defs = get_right_sibling_def set_right_sibling_def get_parent_def set_parent_def
  get_level_def set_level_def

lemma page_wf_node_setters [simp, page_simps]:
  "page_wf p \<Longrightarrow> page_wf (set_right_sibling s p)"
  "page_wf p \<Longrightarrow> page_wf (set_parent s p)"
  "page_wf p \<Longrightarrow> page_wf (set_level l p)"
  "page_wf p \<Longrightarrow> page_wf (set_leftmost_child c p)"
  by (simp_all add: page_wf_def node_header_defs set_leftmost_child_def internal_leftmost_child_offset_def)

lemma pg_id_node_setters [simp, page_simps]:
  "pg_id (set_right_sibling s p) = pg_id p" "pg_id (set_parent s p) = pg_id p"
  "pg_id (set_level l p) = pg_id p" "pg_id (set_leftmost_child c p) = pg_id p"
  by (simp_all add: node_header_defs set_leftmost_child_def)

lemma node_get_same [simp, page_simps]:
  "page_wf p \<Longrightarrow> get_right_sibling (set_right_sibling s p) = s"
  "page_wf p \<Longrightarrow> get_parent (set_parent s p) = s"
  "page_wf p \<Longrightarrow> get_level (set_level l p) = l"
  "page_wf p \<Longrightarrow> get_leftmost_child (set_leftmost_child c p) = c"
  by (simp_all add: page_wf_def node_header_defs get_leftmost_child_def set_leftmost_child_def
      internal_leftmost_child_offset_def)

lemma node_get_other [simp, page_simps]:
  "page_wf p \<Longrightarrow> get_right_sibling (set_parent s p) = get_right_sibling p"
  "page_wf p \<Longrightarrow> get_right_sibling (set_level l p) = get_right_sibling p"
  "page_wf p \<Longrightarrow> get_right_sibling (set_leftmost_child c p) = get_right_sibling p"
  "page_wf p \<Longrightarrow> get_parent (set_right_sibling s p) = get_parent p"
  "page_wf p \<Longrightarrow> get_parent (set_level l p) = get_parent p"
  "page_wf p \<Longrightarrow> get_parent (set_leftmost_child c p) = get_parent p"
  "page_wf p \<Longrightarrow> get_level (set_right_sibling s p) = get_level p"
  "page_wf p \<Longrightarrow> get_level (set_parent s p) = get_level p"
  "page_wf p \<Longrightarrow> get_level (set_leftmost_child c p) = get_level p"
  "page_wf p \<Longrightarrow> get_leftmost_child (set_right_sibling s p) = get_leftmost_child p"
  "page_wf p \<Longrightarrow> get_leftmost_child (set_parent s p) = get_leftmost_child p"
  "page_wf p \<Longrightarrow> get_leftmost_child (set_level l p) = get_leftmost_child p"
  by (simp_all add: page_wf_def node_header_defs get_leftmost_child_def set_leftmost_child_def
      internal_leftmost_child_offset_def rd_wr_other)

lemma page_get_node_set [simp, page_simps]:
  "page_wf p \<Longrightarrow> get_page_type (set_right_sibling s p) = get_page_type p"
  "page_wf p \<Longrightarrow> get_page_type (set_parent s p) = get_page_type p"
  "page_wf p \<Longrightarrow> get_page_type (set_level l p) = get_page_type p"
  "page_wf p \<Longrightarrow> get_page_type (set_leftmost_child c p) = get_page_type p"
  "page_wf p \<Longrightarrow> get_num_slots (set_right_sibling s p) = get_num_slots p"
  "page_wf p \<Longrightarrow> get_num_slots (set_parent s p) = get_num_slots p"
  "page_wf p \<Longrightarrow> get_num_slots (set_level l p) = get_num_slots p"
  "page_wf p \<Longrightarrow> get_num_slots (set_leftmost_child c p) = get_num_slots p"
  by (simp_all add: page_wf_def node_header_defs get_page_type_def get_num_slots_def
      set_leftmost_child_def internal_leftmost_child_offset_def rd_wr_other nth_wr)

lemma node_get_page_set [simp, page_simps]:
  "page_wf p \<Longrightarrow> get_right_sibling (set_num_slots n p) = get_right_sibling p"
  "page_wf p \<Longrightarrow> get_right_sibling (set_checksum x p) = get_right_sibling p"
  "page_wf p \<Longrightarrow> get_parent (set_num_slots n p) = get_parent p"
  "page_wf p \<Longrightarrow> get_parent (set_checksum x p) = get_parent p"
  "page_wf p \<Longrightarrow> get_level (set_num_slots n p) = get_level p"
  "page_wf p \<Longrightarrow> get_level (set_checksum x p) = get_level p"
  "page_wf p \<Longrightarrow> get_leftmost_child (set_num_slots n p) = get_leftmost_child p"
  "page_wf p \<Longrightarrow> get_leftmost_child (set_checksum x p) = get_leftmost_child p"
  by (simp_all add: page_wf_def node_header_defs set_num_slots_def set_checksum_def
      get_leftmost_child_def internal_leftmost_child_offset_def rd_wr_other)

end
