(* ===== verification/Leaf.thy ===== *)
theory Leaf
  imports Node
begin

text \<open>
  Correctness of the leaf page code of theory \<open>Node\<close>. \<open>leaf_abs\<close> reads the entries of a
  leaf page; \<open>leaf_wf\<close> is the page invariant: every slot points between the end of the
  directory and the end of the page, the key and value bytes are packed at the end of the page,
  and the keys are strictly increasing. Under the invariant no operation panics, search is
  lookup in the abstract entries, and insert, update and delete are \<open>kv_insert\<close> and
  \<open>kv_delete\<close> whenever the resulting entries fit into a page.
\<close>

section \<open>The slot directory of a leaf\<close>

definition leaf_enc :: "u16 \<times> u16 \<times> u16 \<Rightarrow> bytes" where
  "leaf_enc s = (case s of (off, kl, vl) \<Rightarrow> to_le 2 off @ to_le 2 kl @ to_le 2 vl)"

definition leaf_dec :: "bytes \<Rightarrow> u16 \<times> u16 \<times> u16" where
  "leaf_dec bs = (from_le (slice bs 0 2), from_le (slice bs 2 2), from_le (slice bs 4 2))"

definition leaf_off :: "u16 \<times> u16 \<times> u16 \<Rightarrow> nat" where
  "leaf_off s = unat (fst s)"

definition leaf_len :: "u16 \<times> u16 \<times> u16 \<Rightarrow> nat" where
  "leaf_len s = unat (fst (snd s)) + unat (snd (snd s))"

interpretation ldir: data_dir 26 6 leaf_enc leaf_dec leaf_off leaf_len
proof
  show "length (leaf_enc s) = 6" for s by (simp add: leaf_enc_def split: prod.splits)
  show "leaf_dec (leaf_enc s) = s" for s
    by (cases s) (simp add: leaf_enc_def leaf_dec_def slice_def)
qed simp_all

lemma ldir_slot_at [simp]: "ldir.slot_at i = 26 + 6 * i"
  by (simp add: ldir.slot_at_def)

lemma leaf_slot_offset_eq [simp]: "leaf_slot_offset i = 26 + 6 * i"
  by (simp add: leaf_slot_offset_def leaf_slots_start_def)

lemma read_leaf_slot_ok:
  assumes "page_wf nd" and "26 + 6 * Suc i \<le> 4096"
  shows "read_leaf_slot nd i = Inr (ldir.rslot (pg_data nd) i)"
  using assms
  by (simp add: read_leaf_slot_def read_u16_le_def page_wf_def ldir.rslot_def leaf_dec_def
      slice_slice rd_def Let_def)

lemma write_leaf_slot_ok:
  assumes "page_wf nd" and "26 + 6 * Suc i \<le> 4096"
  shows "write_leaf_slot nd i s = Inr (nd\<lparr>pg_data := ldir.wslot (pg_data nd) i s, pg_dirty := True\<rparr>)"
proof -
  obtain a b c where s: "s = (a, b, c)" by (cases s)
  let ?o = "26 + 6 * i"
  have "wr (wr (pg_data nd) ?o (to_le 2 a)) (?o + length (to_le 2 a)) (to_le 2 b)
      = wr (pg_data nd) ?o (to_le 2 a @ to_le 2 b)"
    using assms by (intro wr_append) (simp add: page_wf_def)
  moreover have "wr (wr (pg_data nd) ?o (to_le 2 a @ to_le 2 b)) (?o + length (to_le 2 a @ to_le 2 b)) (to_le 2 c)
      = wr (pg_data nd) ?o ((to_le 2 a @ to_le 2 b) @ to_le 2 c)"
    using assms by (intro wr_append) (simp add: page_wf_def)
  ultimately show ?thesis
    using assms by (simp add: s write_leaf_slot_def page_wf_def ldir.wslot_def leaf_enc_def ac_simps)
qed

lemma leaf_shift_ok:
  assumes "page_wf nd" and "26 + 6 * Suc n \<le> 4096"
  shows "\<exists>b. foldE (\<lambda>nd i. bindE (read_leaf_slot nd i) (write_leaf_slot nd (i + 1))) nd (rev [p..<n])
       = Inr (nd\<lparr>pg_data := ldir.shift (pg_data nd) p n, pg_dirty := b\<rparr>)"
  using assms
proof (induction n arbitrary: nd)
  case 0
  then show ?case by (auto intro!: exI [of _ "pg_dirty nd"])
next
  case (Suc n)
  show ?case
  proof (cases "p < Suc n")
    case False
    then show ?thesis by (auto intro!: exI [of _ "pg_dirty nd"])
  next
    case True
    let ?d = "ldir.wslot (pg_data nd) (Suc n) (ldir.rslot (pg_data nd) n)"
    let ?nd = "nd\<lparr>pg_data := ?d, pg_dirty := True\<rparr>"
    have wf: "page_wf ?nd" using Suc.prems by (simp add: page_wf_def)
    with Suc.IH [of ?nd] Suc.prems(2) obtain b where
      "foldE (\<lambda>nd i. bindE (read_leaf_slot nd i) (write_leaf_slot nd (i + 1))) ?nd (rev [p..<n])
       = Inr (?nd\<lparr>pg_data := ldir.shift ?d p n, pg_dirty := b\<rparr>)" by auto
    with True Suc.prems show ?thesis
      by (auto simp: read_leaf_slot_ok write_leaf_slot_ok ldir.shift_step)
  qed
qed

section \<open>Abstraction and invariant\<close>

definition leaf_ent :: "bytes \<Rightarrow> u16 \<times> u16 \<times> u16 \<Rightarrow> entry" where
  "leaf_ent d s = (case s of (off, kl, vl) \<Rightarrow>
     (slice d (unat off) (unat kl), slice d (unat off + unat kl) (unat vl)))"

definition leaf_slots :: "btree_node \<Rightarrow> (u16 \<times> u16 \<times> u16) list" where
  "leaf_slots nd = ldir.slots (pg_data nd) (num_keys nd)"

definition leaf_abs :: "btree_node \<Rightarrow> entry list" where
  "leaf_abs nd = map (leaf_ent (pg_data nd)) (leaf_slots nd)"

definition leaf_lo :: "btree_node \<Rightarrow> nat" where
  "leaf_lo nd = ldir.lowest PAGE_SIZE (leaf_slots nd)"

definition kv_bytes :: "entry list \<Rightarrow> nat" where
  "kv_bytes xs = sum_list (map (\<lambda>(k, v). length k + length v) xs)"

text \<open>Bytes of a leaf page that the entries take, slots included, and how many there are.\<close>

definition leaf_size :: "entry list \<Rightarrow> nat" where
  "leaf_size xs = LEAF_SLOT_SIZE * length xs + kv_bytes xs"

definition LEAF_CAPACITY :: nat where
  "LEAF_CAPACITY = PAGE_SIZE - HEADER_SIZE - BTREE_HEADER_SIZE"

definition leaf_wf :: "btree_node \<Rightarrow> bool" where
  "leaf_wf nd \<longleftrightarrow> page_wf nd \<and> is_leaf nd
     \<and> (\<forall>s \<in> set (leaf_slots nd). ldir.in_page (26 + 6 * num_keys nd) PAGE_SIZE s)
     \<and> leaf_lo nd + kv_bytes (leaf_abs nd) = PAGE_SIZE
     \<and> leaf_size (leaf_abs nd) \<le> LEAF_CAPACITY
     \<and> sorted_kv (leaf_abs nd)"

definition node_hdr :: "btree_node \<Rightarrow> page_id \<times> page_type \<times> page_id \<times> page_id \<times> u16" where
  "node_hdr nd = (pg_id nd, get_page_type nd, get_right_sibling nd, get_parent nd, get_level nd)"

lemma leaf_capacity [simp]: "LEAF_CAPACITY = 4070"
  by (simp add: LEAF_CAPACITY_def)

lemma kv_bytes_simps [simp]:
  "kv_bytes [] = 0" "kv_bytes (e # xs) = length (fst e) + length (snd e) + kv_bytes xs"
  "kv_bytes (xs @ ys) = kv_bytes xs + kv_bytes ys"
  by (simp_all add: kv_bytes_def split: prod.splits)

lemma leaf_size_simps [simp]:
  "leaf_size [] = 0" "leaf_size (e # xs) = 6 + length (fst e) + length (snd e) + leaf_size xs"
  "leaf_size (xs @ ys) = leaf_size xs + leaf_size ys"
  by (simp_all add: leaf_size_def)

lemma leaf_size_insert:
  "kv_pos xs k i \<Longrightarrow> leaf_size (kv_insert k v xs) = leaf_size xs + 6 + length k + length v"
proof -
  assume "kv_pos xs k i"
  then have "leaf_size (kv_insert k v xs) = leaf_size (take i xs) + (6 + length k + length v + leaf_size (drop i xs))"
    by (simp add: kv_pos_insert)
  moreover have "leaf_size xs = leaf_size (take i xs) + leaf_size (drop i xs)"
    by (metis append_take_drop_id leaf_size_simps(3))
  ultimately show ?thesis by simp
qed

lemma kv_bytes_insert:
  "kv_pos xs k i \<Longrightarrow> kv_bytes (kv_insert k v xs) = kv_bytes xs + (length k + length v)"
proof -
  assume "kv_pos xs k i"
  then have "kv_bytes (kv_insert k v xs) = kv_bytes (take i xs) + (length k + length v + kv_bytes (drop i xs))"
    by (simp add: kv_pos_insert)
  moreover have "kv_bytes xs = kv_bytes (take i xs) + kv_bytes (drop i xs)"
    by (metis append_take_drop_id kv_bytes_simps(3))
  ultimately show ?thesis by simp
qed

lemma length_leaf_slots [simp]: "length (leaf_slots nd) = num_keys nd"
  by (simp add: leaf_slots_def)

lemma length_leaf_abs [simp]: "length (leaf_abs nd) = num_keys nd"
  by (simp add: leaf_abs_def)

lemma nth_leaf_slots [simp]: "i < num_keys nd \<Longrightarrow> leaf_slots nd ! i = ldir.rslot (pg_data nd) i"
  by (simp add: leaf_slots_def)

lemma nth_leaf_abs: "i < num_keys nd \<Longrightarrow> leaf_abs nd ! i = leaf_ent (pg_data nd) (ldir.rslot (pg_data nd) i)"
  by (simp add: leaf_abs_def)

lemma leaf_wf_dir: "leaf_wf nd \<Longrightarrow> 26 + 6 * num_keys nd \<le> leaf_lo nd"
proof -
  assume wf: "leaf_wf nd"
  then have "6 * num_keys nd + kv_bytes (leaf_abs nd) \<le> 4070"
    by (simp add: leaf_wf_def leaf_size_def)
  with wf show ?thesis by (simp add: leaf_wf_def)
qed

lemma leaf_wf_slot:
  assumes "leaf_wf nd" and "i < num_keys nd"
  shows "26 + 6 * Suc i \<le> 4096" and "ldir.in_page (26 + 6 * num_keys nd) PAGE_SIZE (ldir.rslot (pg_data nd) i)"
proof -
  have "ldir.rslot (pg_data nd) i \<in> set (leaf_slots nd)"
    using assms(2) by (metis nth_leaf_slots length_leaf_slots nth_mem)
  then show "ldir.in_page (26 + 6 * num_keys nd) PAGE_SIZE (ldir.rslot (pg_data nd) i)"
    using assms(1) by (simp add: leaf_wf_def)
  have "leaf_lo nd \<le> 4096" using ldir.lowest_le(1) [of PAGE_SIZE] by (simp add: leaf_lo_def)
  with leaf_wf_dir [OF assms(1)] assms(2) show "26 + 6 * Suc i \<le> 4096" by simp
qed

lemma leaf_key_ok:
  assumes "leaf_wf nd" and "i < num_keys nd"
  shows "leaf_key nd i = Inr (fst (leaf_abs nd ! i))"
proof -
  have wf: "page_wf nd" using assms by (simp add: leaf_wf_def)
  obtain a b c where s: "ldir.rslot (pg_data nd) i = (a, b, c)" by (cases "ldir.rslot (pg_data nd) i")
  with leaf_wf_slot [OF assms] wf assms(2) show ?thesis
    by (simp add: nth_leaf_abs leaf_key_def read_leaf_slot_ok ldir.in_page_def leaf_off_def leaf_len_def leaf_ent_def page_wf_def)
qed

lemma leaf_value_ok:
  assumes "leaf_wf nd" and "i < num_keys nd"
  shows "leaf_value nd i = Inr (snd (leaf_abs nd ! i))"
proof -
  have wf: "page_wf nd" using assms by (simp add: leaf_wf_def)
  obtain a b c where s: "ldir.rslot (pg_data nd) i = (a, b, c)" by (cases "ldir.rslot (pg_data nd) i")
  with leaf_wf_slot [OF assms] wf assms(2) show ?thesis
    by (simp add: nth_leaf_abs leaf_value_def read_leaf_slot_ok ldir.in_page_def leaf_off_def leaf_len_def leaf_ent_def page_wf_def)
qed

lemma leaf_entries_ok: "leaf_wf nd \<Longrightarrow> leaf_entries nd = Inr (leaf_abs nd)"
proof -
  assume wf: "leaf_wf nd"
  have "leaf_entries nd = Inr (map (\<lambda>i. leaf_abs nd ! i) [0..<num_keys nd])"
    unfolding leaf_entries_def
    by (rule mapE_Inr_map) (simp add: leaf_key_ok [OF wf] leaf_value_ok [OF wf])
  also have "map (\<lambda>i. leaf_abs nd ! i) [0..<num_keys nd] = leaf_abs nd"
    by (metis length_leaf_abs map_nth)
  finally show ?thesis .
qed

section \<open>Search\<close>

lemma leaf_find_loop_ok:
  assumes "leaf_wf nd" and "lo \<le> hi" and "hi \<le> num_keys nd"
    and "\<forall>j < lo. fst (leaf_abs nd ! j) < key"
    and "\<forall>j. hi \<le> j \<longrightarrow> j < num_keys nd \<longrightarrow> key < fst (leaf_abs nd ! j)"
  shows "\<exists>i b. leaf_find_loop nd key lo hi = Inr (i, b)
    \<and> (if b then i < num_keys nd \<and> fst (leaf_abs nd ! i) = key else kv_pos (leaf_abs nd) key i)"
  using assms
proof (induction nd key lo hi rule: leaf_find_loop.induct)
  case (1 nd key lo hi)
  show ?case
  proof (cases "lo < hi")
    case False
    with "1.prems" show ?thesis
      by (subst leaf_find_loop.simps) (auto simp: kv_pos_def)
  next
    case True
    define mid where "mid = (lo + hi) div 2"
    have mid: "lo \<le> mid" "mid < hi" using True by (auto simp: mid_def)
    let ?k = "fst (leaf_abs nd ! mid)"
    have key: "leaf_key nd mid = Inr ?k" using "1.prems" mid by (simp add: leaf_key_ok)
    have "sorted_kv (leaf_abs nd)" "mid < length (leaf_abs nd)" using "1.prems" mid by (simp_all add: leaf_wf_def)
    note probe = sorted_kv_probe [OF this, where key = key]
    have unfold: "leaf_find_loop nd key lo hi =
       (if ?k < key then leaf_find_loop nd key (mid + 1) hi
        else if key < ?k then leaf_find_loop nd key lo mid else Inr (mid, True))"
      using True key by (subst leaf_find_loop.simps) (simp add: mid_def [symmetric])
    consider "?k < key" | "key < ?k" | "key = ?k" by fastforce
    then show ?thesis
    proof cases
      case 1
      then have "\<forall>j < mid + 1. fst (leaf_abs nd ! j) < key" using probe(1) by simp
      with "1.IH"(1) [OF True mid_def key 1] "1.prems" mid unfold 1 show ?thesis by auto
    next
      case 2
      then have "\<forall>j. mid \<le> j \<longrightarrow> j < num_keys nd \<longrightarrow> key < fst (leaf_abs nd ! j)" "\<not> ?k < key" using probe(3) by auto
      then show ?thesis using "1.IH"(2) [OF True mid_def key _ 2] "1.prems" mid unfold 2 by auto
    next
      case 3
      then show ?thesis using unfold mid "1.prems"(3) by auto
    qed
  qed
qed

lemma leaf_find_slot_ok:
  assumes "leaf_wf nd"
  obtains (found) i where "leaf_find_slot nd key = Inr (i, True)" "i < num_keys nd"
      "fst (leaf_abs nd ! i) = key"
    | (absent) i where "leaf_find_slot nd key = Inr (i, False)" "kv_pos (leaf_abs nd) key i"
proof (cases "num_keys nd = 0")
  case True
  then have "leaf_find_slot nd key = Inr (0, False)" "kv_pos (leaf_abs nd) key 0"
    by (simp_all add: leaf_find_slot_def kv_pos_def)
  then show thesis by (rule absent)
next
  case False
  from leaf_find_loop_ok [OF assms, of 0 "num_keys nd" key] obtain i b where
    "leaf_find_loop nd key 0 (num_keys nd) = Inr (i, b)"
    "if b then i < num_keys nd \<and> fst (leaf_abs nd ! i) = key else kv_pos (leaf_abs nd) key i" by auto
  with False found absent show thesis
    by (cases b) (auto simp: leaf_find_slot_def)
qed

section \<open>Free space\<close>

lemma leaf_frontier_fold:
  assumes "page_wf nd" and "\<forall>i \<in> set js. 26 + 6 * Suc i \<le> 4096"
  shows "foldE (\<lambda>m i. bindE (read_leaf_slot nd i) (\<lambda>(off, _, _). Inr (if unat off < m then unat off else m))) m js
     = Inr (Min (insert m ((\<lambda>i. unat (fst (ldir.rslot (pg_data nd) i))) ` set js)))"
  using assms(2)
proof (induction js arbitrary: m)
  case (Cons j js)
  obtain a b c where s: "ldir.rslot (pg_data nd) j = (a, b, c)" by (cases "ldir.rslot (pg_data nd) j")
  let ?f = "\<lambda>i. unat (fst (ldir.rslot (pg_data nd) i))"
  have "Min (insert (if unat a < m then unat a else m) (?f ` set js)) = Min (insert m (insert (unat a) (?f ` set js)))"
    by (cases "set js = {}") (auto simp: min_def)
  with Cons assms(1) s show ?case by (simp add: read_leaf_slot_ok)
qed simp

lemma leaf_data_frontier_ok: "leaf_wf nd \<Longrightarrow> leaf_data_frontier nd = Inr (leaf_lo nd)"
proof (cases "num_keys nd = 0")
  case True
  then show ?thesis
    by (simp add: leaf_data_frontier_def leaf_lo_def leaf_slots_def ldir.slots_def ldir.lowest_def)
next
  case False
  assume wf: "leaf_wf nd"
  let ?n = "num_keys nd"
  let ?f = "\<lambda>i. unat (fst (ldir.rslot (pg_data nd) i))"
  have page: "page_wf nd" using wf by (simp add: leaf_wf_def)
  have fits: "26 + 6 * Suc i \<le> 4096" if "i < ?n" for i using leaf_wf_slot(1) [OF wf that] .
  have bound: "?f i \<le> 4096" if "i < ?n" for i
    using leaf_wf_slot(2) [OF wf that] by (auto simp: ldir.in_page_def leaf_off_def leaf_len_def)
  have fold: "leaf_data_frontier nd
     = Inr (Min (insert (if ?f 0 < ?f (?n - 1) then ?f 0 else ?f (?n - 1)) (?f ` {1..<?n - 1})))"
  proof -
    obtain a b c where l: "ldir.rslot (pg_data nd) (?n - 1) = (a, b, c)"
      by (cases "ldir.rslot (pg_data nd) (?n - 1)")
    obtain a' b' c' where f: "ldir.rslot (pg_data nd) 0 = (a', b', c')"
      by (cases "ldir.rslot (pg_data nd) 0")
    have "read_leaf_slot nd (?n - 1) = Inr (a, b, c)" "read_leaf_slot nd 0 = Inr (a', b', c')"
      using False page fits [of "?n - 1"] fits [of 0] l f by (simp_all add: read_leaf_slot_ok)
    moreover have "\<forall>i \<in> set [1..<?n - 1]. 26 + 6 * Suc i \<le> 4096" using fits by auto
    ultimately show ?thesis
      using False l f leaf_frontier_fold [OF page, of "[1..<?n - 1]"]
      by (simp add: leaf_data_frontier_def Let_def)
  qed
  have set: "set (leaf_slots nd) = (ldir.rslot (pg_data nd)) ` {0..<?n}"
    by (simp add: leaf_slots_def ldir.slots_def)
  have split: "{0..<?n} = insert 0 (insert (?n - 1) {1..<?n - 1})" using False by auto
  have "Min (insert (if ?f 0 < ?f (?n - 1) then ?f 0 else ?f (?n - 1)) (?f ` {1..<?n - 1}))
      = Min (insert (?f 0) (insert (?f (?n - 1)) (?f ` {1..<?n - 1})))"
    by (cases "{1..<?n - 1} = {}") (auto simp: min_def)
  also have "\<dots> = Min (insert 4096 (insert (?f 0) (insert (?f (?n - 1)) (?f ` {1..<?n - 1}))))"
  proof -
    have "Min (insert (?f 0) (insert (?f (?n - 1)) (?f ` {1..<?n - 1}))) \<le> ?f 0" by simp
    also have "?f 0 \<le> 4096" using bound False by simp
    finally show ?thesis by (subst Min_insert [of _ 4096]) auto
  qed
  also have "\<dots> = leaf_lo nd" unfolding leaf_lo_def ldir.lowest_def set split
    by (simp add: image_image leaf_off_def)
  finally show ?thesis using fold by simp
qed

lemma leaf_can_fit_ok:
  assumes "leaf_wf nd"
  shows "leaf_can_fit nd k v = Inr (leaf_size (leaf_abs nd) + 12 + length k + length v \<le> LEAF_CAPACITY)"
proof -
  have "leaf_lo nd + kv_bytes (leaf_abs nd) = 4096" using assms by (simp add: leaf_wf_def)
  then show ?thesis
    by (auto simp: leaf_can_fit_def leaf_available_space_def leaf_data_frontier_ok [OF assms]
        leaf_slots_start_def leaf_size_def Let_def)
qed

section \<open>Inserting a new entry\<close>

lemma node_hdr_data:
  assumes "page_wf nd" and "length d = PAGE_SIZE" and "slice d 0 26 = slice (pg_data nd) 0 26"
  shows "node_hdr (nd\<lparr>pg_data := d, pg_dirty := b\<rparr>) = node_hdr nd"
proof -
  have "d ! 4 = pg_data nd ! 4"
    using assms nth_slice [of 0 26 d 4] nth_slice [of 0 26 "pg_data nd" 4] by (simp add: page_wf_def)
  moreover have "slice d j m = slice (pg_data nd) j m" if "j + m \<le> 26" for j m
    using assms(3) slice_slice [OF that, of d 0] slice_slice [OF that, of "pg_data nd" 0] by simp
  ultimately show ?thesis
    by (simp add: node_hdr_def get_page_type_def node_header_defs rd_def)
qed

lemma node_hdr_set_num_slots: "page_wf nd \<Longrightarrow> node_hdr (set_num_slots n nd) = node_hdr nd"
  by (simp add: node_hdr_def)

lemma node_hdr_dirty [simp]: "node_hdr (nd\<lparr>pg_dirty := b\<rparr>) = node_hdr nd"
  by (simp add: node_hdr_def get_page_type_def node_header_defs)

lemma num_keys_dirty [simp]: "num_keys (nd\<lparr>pg_dirty := b\<rparr>) = num_keys nd"
  by (simp add: num_keys_def get_num_slots_def)

lemma num_keys_set: "page_wf nd \<Longrightarrow> n < 2 ^ 16 \<Longrightarrow> num_keys (set_num_slots (of_nat n) nd) = n"
  by (simp add: num_keys_def unsigned_of_nat take_bit_nat_eq_self)

definition leaf_new_slot :: "btree_node \<Rightarrow> key \<Rightarrow> bytes \<Rightarrow> u16 \<times> u16 \<times> u16" where
  "leaf_new_slot nd key value =
     (of_nat (leaf_lo nd - length (key @ value)), of_nat (length key), of_nat (length value))"

definition leaf_inserted :: "btree_node \<Rightarrow> nat \<Rightarrow> key \<Rightarrow> bytes \<Rightarrow> btree_node" where
  "leaf_inserted nd i key value =
     (set_num_slots (of_nat (Suc (num_keys nd)))
        (nd\<lparr>pg_data := ldir.page_insert (pg_data nd) i (num_keys nd) (leaf_lo nd)
                        (leaf_new_slot nd key value) (key @ value), pg_dirty := True\<rparr>))\<lparr>pg_dirty := True\<rparr>"

lemma leaf_insert_at_eq:
  assumes wf: "leaf_wf nd" and "i \<le> num_keys nd"
    and space: "26 + 6 * Suc (num_keys nd) + length (key @ value) \<le> leaf_lo nd"
  shows "leaf_insert_at nd i key value = Inr (leaf_inserted nd i key value)"
proof -
  let ?n = "num_keys nd" and ?d = "pg_data nd" and ?lo = "leaf_lo nd"
  let ?off = "?lo - (length key + length value)"
  have len: "length ?d = 4096" using wf by (simp add: leaf_wf_def page_wf_def)
  have lo: "?lo \<le> 4096" using ldir.lowest_le(1) [of PAGE_SIZE] by (simp add: leaf_lo_def)
  have off: "?off + length key + length value = ?lo" using space by simp
  have data: "wr (wr ?d ?off key) (?off + length key) value = wr ?d ?off (key @ value)"
    using len lo off by (intro wr_append) simp
  define nd2 where "nd2 = nd\<lparr>pg_data := wr ?d ?off (key @ value)\<rparr>"
  have wf2: "page_wf nd2" using len lo off by (simp add: nd2_def page_wf_def)
  have dir: "26 + 6 * Suc ?n \<le> 4096" using space lo by simp
  from leaf_shift_ok [OF wf2 dir] obtain b where
    shift: "foldE (\<lambda>nd i. bindE (read_leaf_slot nd i) (write_leaf_slot nd (i + 1))) nd2 (rev [i..<?n])
       = Inr (nd2\<lparr>pg_data := ldir.shift (pg_data nd2) i ?n, pg_dirty := b\<rparr>)" by blast
  have wf3: "page_wf (nd2\<lparr>pg_data := ldir.shift (pg_data nd2) i ?n, pg_dirty := b\<rparr>)"
    using wf2 dir by (simp add: page_wf_def)
  have slot: "26 + 6 * Suc i \<le> 4096" using dir assms(2) by simp
  show ?thesis
    using off len lo data shift write_leaf_slot_ok [OF wf3 slot]
    by (simp add: leaf_insert_at_def leaf_inserted_def leaf_data_frontier_ok [OF wf] Let_def
        nd2_def [symmetric])
      (simp add: nd2_def ldir.page_insert_def leaf_new_slot_def add.commute)
qed

lemma leaf_ent_cong:
  assumes "slice f (leaf_off s) (leaf_len s) = slice d (leaf_off s) (leaf_len s)"
  shows "leaf_ent f s = leaf_ent d s"
proof -
  obtain a b c where s: "s = (a, b, c)" by (cases s)
  with assms have "slice (slice f (unat a) (unat b + unat c)) j m = slice (slice d (unat a) (unat b + unat c)) j m" for j m
    by (simp add: leaf_off_def leaf_len_def)
  from this [of 0 "unat b"] this [of "unat b" "unat c"] show ?thesis
    by (simp add: s leaf_ent_def slice_slice)
qed

lemma leaf_ent_new:
  assumes "slice f (leaf_off s) (leaf_len s) = k @ v" and "s = (a, b, c)"
    and "unat b = length k" and "unat c = length v"
  shows "leaf_ent f s = (k, v)"
proof -
  have "slice f (unat a) (length k) = slice (slice f (unat a) (length k + length v)) 0 (length k)"
    "slice f (unat a + length k) (length v) = slice (slice f (unat a) (length k + length v)) (length k) (length v)"
    by (simp_all add: slice_slice)
  with assms show ?thesis by (simp add: leaf_ent_def leaf_off_def leaf_len_def slice_def)
qed

text \<open>The bytes of the page after the insertion, and what they mean.\<close>

lemma leaf_inserted_slots:
  assumes wf: "leaf_wf nd" and i: "i \<le> num_keys nd"
    and space: "26 + 6 * Suc (num_keys nd) + length (key @ value) \<le> leaf_lo nd"
  defines "nd' \<equiv> leaf_inserted nd i key value" and "s \<equiv> leaf_new_slot nd key value"
  shows "page_wf nd'" and "num_keys nd' = Suc (num_keys nd)" and "node_hdr nd' = node_hdr nd"
    and "leaf_slots nd' = take i (leaf_slots nd) @ s # drop i (leaf_slots nd)"
    and "leaf_abs nd' = take i (leaf_abs nd) @ (key, value) # drop i (leaf_abs nd)"
    and "leaf_off s = leaf_lo nd - length (key @ value)"
    and "ldir.in_page (26 + 6 * Suc (num_keys nd)) PAGE_SIZE s"
proof -
  let ?n = "num_keys nd" and ?d = "pg_data nd"
  let ?e = "ldir.page_insert ?d i ?n (leaf_lo nd) s (key @ value)"
  let ?f = "wr ?e 5 (to_le 2 (of_nat (Suc ?n) :: u16))"
  have page: "page_wf nd" and len: "length ?d = 4096" using wf by (simp_all add: leaf_wf_def page_wf_def)
  have lo: "leaf_lo nd \<le> 4096" using ldir.lowest_le(1) [of PAGE_SIZE] by (simp add: leaf_lo_def)
  have u: "unat (of_nat m :: u16) = m" if "m \<le> 4096" for m
    using that by (simp add: unsigned_of_nat take_bit_nat_eq_self)
  have s: "leaf_off s = leaf_lo nd - length (key @ value)" "leaf_len s = length (key @ value)"
    unfolding s_def leaf_new_slot_def leaf_off_def leaf_len_def fst_conv snd_conv
    using space lo u [of "leaf_lo nd - length (key @ value)"] u [of "length key"] u [of "length value"]
    by (linarith, simp)
  then show "leaf_off s = leaf_lo nd - length (key @ value)" by simp
  have fits: "ldir.slot_at (Suc ?n) + length (key @ value) \<le> leaf_lo nd" "leaf_lo nd \<le> length ?d"
    using space lo len by simp_all
  have old: "\<forall>t \<in> set (ldir.slots ?d ?n). leaf_lo nd \<le> leaf_off t \<and> leaf_off t + leaf_len t \<le> length ?d"
    using wf len by (auto simp: leaf_wf_def leaf_lo_def leaf_slots_def ldir.in_page_def intro!: ldir.lowest_le)
  note bytes = ldir.page_insert_bytes [OF fits i]
  note count = ldir.page_insert_count [OF fits i s old]
  let ?nd2 = "nd\<lparr>pg_data := ?e, pg_dirty := True\<rparr>"
  have page2: "page_wf ?nd2" using bytes(1) len by (simp add: page_wf_def)
  have nd': "nd' = (set_num_slots (of_nat (Suc ?n)) ?nd2)\<lparr>pg_dirty := True\<rparr>"
    by (simp add: nd'_def s_def leaf_inserted_def)
  then have data': "pg_data nd' = ?f" by (simp add: set_num_slots_def)
  with count(1) len show "page_wf nd'" by (simp add: page_wf_def)
  have "Suc ?n < 2 ^ 16" using space lo by simp
  from num_keys_set [OF page2 this] show keys': "num_keys nd' = Suc ?n" by (simp only: nd' num_keys_dirty)
  have hdr2: "node_hdr ?nd2 = node_hdr nd"
    using bytes(1,2) len page by (intro node_hdr_data) simp_all
  show "node_hdr nd' = node_hdr nd"
    using hdr2 node_hdr_set_num_slots [OF page2, of "of_nat (Suc ?n)"] by (simp only: nd' node_hdr_dirty)
  show slots': "leaf_slots nd' = take i (leaf_slots nd) @ s # drop i (leaf_slots nd)"
    unfolding leaf_slots_def keys' data' by (rule count(2))
  have "map (leaf_ent ?f) (leaf_slots nd) = leaf_abs nd"
    using count(3) by (auto simp: leaf_abs_def leaf_slots_def intro!: leaf_ent_cong)
  moreover have "leaf_ent ?f s = (key, value)"
    using s(2) u space lo
    by (intro leaf_ent_new [OF count(4) s_def [unfolded leaf_new_slot_def, THEN meta_eq_to_obj_eq]]) simp_all
  ultimately show "leaf_abs nd' = take i (leaf_abs nd) @ (key, value) # drop i (leaf_abs nd)"
    unfolding leaf_abs_def [of nd'] slots' data' by (simp add: take_map [symmetric] drop_map [symmetric])
  show "ldir.in_page (26 + 6 * Suc ?n) PAGE_SIZE s" using count(5) len by simp
qed

lemma leaf_insert_at_ok:
  assumes wf: "leaf_wf nd" and pos: "kv_pos (leaf_abs nd) key i"
    and room: "leaf_size (kv_insert key value (leaf_abs nd)) \<le> LEAF_CAPACITY"
  shows "\<exists>nd'. leaf_insert_at nd i key value = Inr nd' \<and> leaf_wf nd'
    \<and> leaf_abs nd' = kv_insert key value (leaf_abs nd) \<and> node_hdr nd' = node_hdr nd"
proof -
  let ?n = "num_keys nd" and ?nd' = "leaf_inserted nd i key value"
  have i: "i \<le> ?n" using pos by (simp add: kv_pos_def)
  have lo: "leaf_lo nd + kv_bytes (leaf_abs nd) = 4096" using wf by (simp add: leaf_wf_def)
  with room pos have space: "26 + 6 * Suc ?n + length (key @ value) \<le> leaf_lo nd"
    by (simp add: leaf_size_insert) (simp add: leaf_size_def)
  note ins = leaf_inserted_slots [OF wf i space]
  have abs': "leaf_abs ?nd' = kv_insert key value (leaf_abs nd)"
    by (simp add: ins(5) kv_pos_insert [OF pos])
  have "leaf_lo ?nd' = min (leaf_lo nd - length (key @ value)) (leaf_lo nd)"
    unfolding leaf_lo_def [of ?nd'] ins(4) ldir.lowest_insert ins(6) by (simp add: leaf_lo_def)
  then have lo': "leaf_lo ?nd' + kv_bytes (leaf_abs ?nd') = 4096"
    using lo space by (simp add: abs' kv_bytes_insert [OF pos])
  have "ldir.in_page (26 + 6 * Suc ?n) PAGE_SIZE t" if "t \<in> set (leaf_slots nd)" for t
    using that wf space ldir.lowest_le(2) [OF that, of PAGE_SIZE]
    by (auto simp: leaf_wf_def ldir.in_page_def leaf_lo_def)
  with ins(7) have "\<forall>t \<in> set (leaf_slots ?nd'). ldir.in_page (26 + 6 * num_keys ?nd') PAGE_SIZE t"
    unfolding ins(2,4) by (auto dest: in_set_takeD in_set_dropD)
  moreover have "is_leaf ?nd'" using ins(3) wf by (simp add: is_leaf_def node_hdr_def leaf_wf_def)
  moreover have "sorted_kv (leaf_abs ?nd')" using wf by (simp add: abs' sorted_kv_insert leaf_wf_def)
  ultimately have "leaf_wf ?nd'" using ins(1) lo' room abs' by (simp add: leaf_wf_def)
  then show ?thesis using leaf_insert_at_eq [OF wf i space] abs' ins(3) by blast
qed

section \<open>Insert, update and delete\<close>

declare leaf_insert_fuel.simps [simp del]

lemma leaf_wf_empty:
  assumes "page_wf nd" and "is_leaf nd" and "get_num_slots nd = 0"
  shows "leaf_wf nd" and "leaf_abs nd = []"
proof -
  have "num_keys nd = 0" using assms(3) by (simp add: num_keys_def)
  then have "leaf_slots nd = []" by (metis length_0_conv length_leaf_slots)
  then show "leaf_abs nd = []" "leaf_wf nd"
    using assms by (simp_all add: leaf_abs_def leaf_wf_def leaf_lo_def ldir.lowest_def)
qed

lemma new_leaf_ok [simp]:
  "leaf_wf (new_leaf pid)" "leaf_abs (new_leaf pid) = []"
  "node_hdr (new_leaf pid) = (pid, PtLeaf, INVALID_PAGE_ID, INVALID_PAGE_ID, 0)"
proof -
  have *: "page_wf (new_leaf pid)" "is_leaf (new_leaf pid)" "get_num_slots (new_leaf pid) = 0"
    by (simp_all add: new_leaf_def is_leaf_def)
  then show "leaf_wf (new_leaf pid)" "leaf_abs (new_leaf pid) = []" by (rule leaf_wf_empty)+
  show "node_hdr (new_leaf pid) = (pid, PtLeaf, INVALID_PAGE_ID, INVALID_PAGE_ID, 0)"
    by (simp add: new_leaf_def node_hdr_def)
qed

lemma leaf_reset_ok:
  assumes "page_wf nd"
  shows "leaf_wf (leaf_reset nd)" and "leaf_abs (leaf_reset nd) = []"
    and "is_leaf nd \<Longrightarrow> node_hdr (leaf_reset nd) = node_hdr nd"
proof -
  have *: "page_wf (leaf_reset nd)" "is_leaf (leaf_reset nd)" "get_num_slots (leaf_reset nd) = 0"
    by (simp_all add: leaf_reset_def is_leaf_def)
  then show "leaf_wf (leaf_reset nd)" "leaf_abs (leaf_reset nd) = []" by (rule leaf_wf_empty)+
  show "node_hdr (leaf_reset nd) = node_hdr nd" if "is_leaf nd"
    using that by (simp add: leaf_reset_def node_hdr_def is_leaf_def)
qed

lemma leaf_insert_fuel_new:
  assumes wf: "leaf_wf nd" and "map_of (leaf_abs nd) key = None"
    and "leaf_size (kv_insert key value (leaf_abs nd)) \<le> LEAF_CAPACITY"
  shows "\<exists>nd'. leaf_insert_fuel (Suc f) nd key value = Inr (nd', True) \<and> leaf_wf nd'
    \<and> leaf_abs nd' = kv_insert key value (leaf_abs nd) \<and> node_hdr nd' = node_hdr nd"
proof (cases rule: leaf_find_slot_ok [OF wf, of key, case_names found absent])
  case (found i)
  then have "map_of (leaf_abs nd) key = Some (snd (leaf_abs nd ! i))"
    using kv_found_lookup [of "leaf_abs nd" i] wf by (simp add: leaf_wf_def)
  with assms(2) show ?thesis by simp
next
  case (absent i)
  with leaf_insert_at_ok [OF wf absent(2) assms(3)] show ?thesis
    by (auto simp: leaf_insert_fuel.simps)
qed

lemma kv_insert_last:
  assumes "sorted_kv (xs @ [(k, v)])"
  shows "kv_insert k v xs = xs @ [(k, v)]" and "map_of xs k = None"
proof -
  have "\<forall>x \<in> set xs. fst x < k" using assms by (auto simp: sorted_kv_append)
  then have pos: "kv_pos xs k (length xs)" by (auto simp: kv_pos_def)
  show "kv_insert k v xs = xs @ [(k, v)]" using kv_pos_insert [OF pos, of v] by simp
  show "map_of xs k = None" using pos by (rule kv_pos_absent)
qed

lemma leaf_refill_ok:
  assumes "leaf_wf nd" and "sorted_kv (leaf_abs nd @ es)" and "leaf_size (leaf_abs nd @ es) \<le> LEAF_CAPACITY"
  shows "\<exists>nd'. leaf_refill (leaf_insert_fuel (Suc f)) nd es = Inr nd' \<and> leaf_wf nd'
    \<and> leaf_abs nd' = leaf_abs nd @ es \<and> node_hdr nd' = node_hdr nd"
  using assms
proof (induction es arbitrary: nd)
  case Nil
  then show ?case by (simp add: leaf_refill_def)
next
  case (Cons e es)
  obtain k v where e: "e = (k, v)" by (cases e)
  have "sorted_kv (leaf_abs nd @ [(k, v)])" using Cons.prems(2) by (simp add: e sorted_kv_append)
  note last = kv_insert_last [OF this]
  have "leaf_size (kv_insert k v (leaf_abs nd)) \<le> LEAF_CAPACITY"
    using Cons.prems(3) by (simp add: last e)
  from leaf_insert_fuel_new [OF Cons.prems(1) last(2) this] obtain nd1 where
    nd1: "leaf_insert_fuel (Suc f) nd k v = Inr (nd1, True)" "leaf_wf nd1"
      "leaf_abs nd1 = leaf_abs nd @ [(k, v)]" "node_hdr nd1 = node_hdr nd"
    by (auto simp: last)
  from Cons.IH [OF nd1(2)] Cons.prems(2,3) obtain nd' where
    "leaf_refill (leaf_insert_fuel (Suc f)) nd1 es = Inr nd'" "leaf_wf nd'"
    "leaf_abs nd' = leaf_abs nd1 @ es" "node_hdr nd' = node_hdr nd1"
    by (auto simp: nd1(3) e)
  with nd1 show ?case by (auto simp: leaf_refill_def e)
qed

lemma leaf_rebuild_ok:
  assumes "leaf_wf nd" and "sorted_kv es" and "leaf_size es \<le> LEAF_CAPACITY"
  shows "\<exists>nd'. leaf_refill (leaf_insert_fuel (Suc f)) (leaf_reset nd) es = Inr nd' \<and> leaf_wf nd'
    \<and> leaf_abs nd' = es \<and> node_hdr nd' = node_hdr nd"
proof -
  have "page_wf nd" "is_leaf nd" using assms(1) by (simp_all add: leaf_wf_def)
  note r = leaf_reset_ok(1,2) [OF this(1)] leaf_reset_ok(3) [OF this]
  from leaf_refill_ok [OF r(1)] assms(2,3) show ?thesis by (simp add: r)
qed

lemma leaf_update_ok:
  assumes wf: "leaf_wf nd" and idx: "idx < num_keys nd" "fst (leaf_abs nd ! idx) = key"
    and "leaf_size (kv_insert key value (leaf_abs nd)) \<le> LEAF_CAPACITY"
  shows "\<exists>nd'. leaf_update_with (leaf_insert_fuel (Suc f)) nd idx value = Inr nd' \<and> leaf_wf nd'
    \<and> leaf_abs nd' = kv_insert key value (leaf_abs nd) \<and> node_hdr nd' = node_hdr nd"
proof -
  let ?es = "kv_insert key value (leaf_abs nd)"
  have sorted: "sorted_kv (leaf_abs nd)" using wf by (simp add: leaf_wf_def)
  have es: "?es = (leaf_abs nd)[idx := (key, value)]"
    using kv_found_insert [OF sorted, of idx] idx by simp
  have "mapE (\<lambda>i. bindE (leaf_key nd i) (\<lambda>key.
          bindE (if i = idx then Inr value else leaf_value nd i) (\<lambda>val. Inr (key, val)))) [0..<num_keys nd]
      = Inr (map (\<lambda>i. ?es ! i) [0..<num_keys nd])"
    by (rule mapE_Inr_map) (use idx in \<open>auto simp: leaf_key_ok [OF wf] leaf_value_ok [OF wf] es\<close>)
  also have "map (\<lambda>i. ?es ! i) [0..<num_keys nd] = ?es"
    using map_nth [of ?es] by (simp add: es)
  finally show ?thesis
    using leaf_rebuild_ok [OF wf sorted_kv_insert [OF sorted] assms(4)]
    by (simp add: leaf_update_with_def)
qed

text \<open>Insert on a well-formed leaf, for every fuel of at least two.\<close>

lemma leaf_insert_fuel_ok:
  assumes wf: "leaf_wf nd"
    and room: "leaf_size (kv_insert key value (leaf_abs nd)) \<le> LEAF_CAPACITY"
  shows "\<exists>nd'. leaf_insert_fuel (Suc (Suc f)) nd key value = Inr (nd', map_of (leaf_abs nd) key = None)
    \<and> leaf_wf nd' \<and> leaf_abs nd' = kv_insert key value (leaf_abs nd) \<and> node_hdr nd' = node_hdr nd"
proof (cases rule: leaf_find_slot_ok [OF wf, of key, case_names found absent])
  case (found i)
  then have "map_of (leaf_abs nd) key = Some (snd (leaf_abs nd ! i))"
    using kv_found_lookup [of "leaf_abs nd" i] wf by (simp add: leaf_wf_def)
  with leaf_update_ok [OF wf found(2,3) room, of f] found(1) show ?thesis
    by (subst leaf_insert_fuel.simps) auto
next
  case (absent i)
  then show ?thesis
    using leaf_insert_fuel_new [OF wf kv_pos_absent [OF absent(2)] room] kv_pos_absent [OF absent(2)]
    by simp
qed

lemma leaf_insert_ok:
  assumes "leaf_wf nd" and "leaf_size (kv_insert key value (leaf_abs nd)) \<le> LEAF_CAPACITY"
  obtains nd' where "leaf_insert nd key value = Inr (nd', map_of (leaf_abs nd) key = None)"
    "leaf_wf nd'" "leaf_abs nd' = kv_insert key value (leaf_abs nd)" "node_hdr nd' = node_hdr nd"
proof -
  have "PAGE_SIZE = Suc (Suc 4094)" by simp
  then show thesis
    using leaf_insert_fuel_ok [OF assms, of 4094] that by (auto simp only: leaf_insert_def)
qed

lemma map_nth_except:
  "i < length xs \<Longrightarrow> map ((!) xs) (filter (\<lambda>j. j \<noteq> i) [0..<length xs]) = take i xs @ drop (Suc i) xs"
proof -
  assume i: "i < length xs"
  then have "[0..<length xs] = [0..<i] @ i # [Suc i..<length xs]"
    using upt_add_eq_append [of 0 i "length xs - i"] upt_conv_Cons [of i "length xs"] by simp
  then have "filter (\<lambda>j. j \<noteq> i) [0..<length xs] = [0..<i] @ [Suc i..<length xs]"
    by (simp add: filter_id_conv)
  moreover have "map ((!) xs) [0..<i] = take i xs"
    using i by (intro nth_equalityI) auto
  moreover have "map ((!) xs) [Suc i..<length xs] = drop (Suc i) xs"
    using i by (intro nth_equalityI) auto
  ultimately show ?thesis by simp
qed

lemma leaf_delete_ok:
  assumes wf: "leaf_wf nd"
  obtains nd' where "leaf_delete nd key = Inr (nd', map_of (leaf_abs nd) key)"
    "leaf_wf nd'" "leaf_abs nd' = kv_delete key (leaf_abs nd)" "node_hdr nd' = node_hdr nd"
proof (cases rule: leaf_find_slot_ok [OF wf, of key, case_names found absent])
  case (absent i)
  from kv_pos_absent [OF absent(2)] show thesis
    using that [of nd] absent wf by (simp add: leaf_delete_def kv_absent_delete)
next
  case (found i)
  have sorted: "sorted_kv (leaf_abs nd)" using wf by (simp add: leaf_wf_def)
  have look: "map_of (leaf_abs nd) key = Some (snd (leaf_abs nd ! i))"
    using kv_found_lookup [OF sorted, of i] found by simp
  let ?es = "kv_delete key (leaf_abs nd)"
  have es: "?es = take i (leaf_abs nd) @ drop (Suc i) (leaf_abs nd)"
    using kv_found_delete [OF sorted, of i] found by simp
  have "mapE (\<lambda>i. bindE (leaf_key nd i) (\<lambda>k. bindE (leaf_value nd i) (\<lambda>v. Inr (k, v))))
          (filter (\<lambda>j. j \<noteq> i) [0..<num_keys nd])
      = Inr (map ((!) (leaf_abs nd)) (filter (\<lambda>j. j \<noteq> i) [0..<num_keys nd]))"
    by (rule mapE_Inr_map) (auto simp: leaf_key_ok [OF wf] leaf_value_ok [OF wf])
  also have "map ((!) (leaf_abs nd)) (filter (\<lambda>j. j \<noteq> i) [0..<num_keys nd]) = ?es"
    unfolding es using map_nth_except [of i "leaf_abs nd"] found(2) by simp
  finally have collect: "mapE (\<lambda>i. bindE (leaf_key nd i) (\<lambda>k. bindE (leaf_value nd i) (\<lambda>v. Inr (k, v))))
          (filter (\<lambda>j. j \<noteq> i) [0..<num_keys nd]) = Inr ?es" .
  have "leaf_size ?es \<le> leaf_size (leaf_abs nd)"
    using id_take_nth_drop [of i "leaf_abs nd"] found(2) unfolding es
    by (metis add_le_mono1 leaf_size_simps(2,3) le_add2 length_leaf_abs add_left_mono)
  then have size: "leaf_size ?es \<le> LEAF_CAPACITY" using wf by (simp add: leaf_wf_def)
  from leaf_rebuild_ok [OF wf sorted_kv_delete [OF sorted] size, of 4095] obtain nd' where
    nd': "leaf_refill leaf_insert (leaf_reset nd) ?es = Inr nd'" "leaf_wf nd'" "leaf_abs nd' = ?es"
      "node_hdr nd' = node_hdr nd"
    by (auto simp: leaf_insert_def)
  show thesis
    using that [OF _ nd'(2-4)] nd'(1) found collect look
    by (simp add: leaf_delete_def leaf_value_ok [OF wf])
qed

section \<open>Entries that do not fit\<close>

lemma leaf_insert_fuel_overflow:
  assumes wf: "leaf_wf nd" and none: "map_of (leaf_abs nd) key = None"
    and big: "PAGE_SIZE < kv_bytes (leaf_abs nd) + length key + length value"
  shows "leaf_insert_fuel (Suc f) nd key value = Inl Panic"
proof (cases rule: leaf_find_slot_ok [OF wf, of key, case_names found absent])
  case (found i)
  then show ?thesis using kv_found_lookup [of "leaf_abs nd" i] wf none by (simp add: leaf_wf_def)
next
  case (absent i)
  have "leaf_lo nd + kv_bytes (leaf_abs nd) = PAGE_SIZE" using wf by (simp add: leaf_wf_def)
  then have "sub_usize (leaf_lo nd) (length key + length value) = Inl Panic" using big by (simp add: sub_usize_def)
  with absent show ?thesis by (simp add: leaf_insert_fuel.simps leaf_insert_at_def leaf_data_frontier_ok [OF wf] Let_def)
qed

text \<open>Replacing the only value of a leaf by one that does not fit into a page.\<close>

lemma leaf_update_overflow:
  assumes wf: "leaf_wf nd" and abs: "leaf_abs nd = [(key, old)]" and big: "PAGE_SIZE < length key + length value"
  shows "leaf_insert nd key value = Inl Panic"
proof (cases rule: leaf_find_slot_ok [OF wf, of key, case_names found absent])
  case (absent i)
  from kv_pos_absent [OF this(2)] show ?thesis using abs by simp
next
  case (found i)
  have n: "num_keys nd = 1" using length_leaf_abs [of nd] abs by simp
  then have i: "i = 0" using found(2) by simp
  have "page_wf nd" using wf by (simp add: leaf_wf_def)
  note r = leaf_reset_ok(1,2) [OF this]
  have "leaf_insert_fuel (Suc f) (leaf_reset nd) key value = Inl Panic" for f
    by (rule leaf_insert_fuel_overflow [OF r(1)]) (use r(2) big in simp_all)
  then have "leaf_update_with (leaf_insert_fuel (Suc f)) nd 0 value = Inl Panic" for f
    using leaf_key_ok [OF wf, of 0] n abs by (simp add: leaf_update_with_def leaf_refill_def)
  then have "leaf_insert_fuel (Suc (Suc f)) nd key value = Inl Panic" for f
    using found(1) i by (simp add: leaf_insert_fuel.simps(2) [of "Suc f"])
  moreover have "PAGE_SIZE = Suc (Suc 4094)" by simp
  ultimately show ?thesis unfolding leaf_insert_def by metis
qed

section \<open>Properties\<close>

text \<open>
  C15. The bytes of a leaf page implement a sorted map: on a well-formed page, insert (new key or new
  value), delete and listing act on the entries as on a sorted list, reading back exactly what
  was stored; they keep the page well-formed and its sibling, parent and level fields, if the
  result fits into the page.
\<close>

theorem leaf_page_refines:
  assumes "leaf_wf nd" and "leaf_size (kv_insert key val (leaf_abs nd)) \<le> LEAF_CAPACITY"
  shows "\<exists>nd1 nd2. leaf_insert nd key val = Inr (nd1, map_of (leaf_abs nd) key = None) \<and> leaf_wf nd1
      \<and> leaf_entries nd1 = Inr (kv_insert key val (leaf_abs nd)) \<and> node_hdr nd1 = node_hdr nd
    \<and> leaf_delete nd key = Inr (nd2, map_of (leaf_abs nd) key) \<and> leaf_wf nd2
      \<and> leaf_entries nd2 = Inr (kv_delete key (leaf_abs nd)) \<and> node_hdr nd2 = node_hdr nd"
proof (rule leaf_insert_ok [OF assms])
  fix nd1 assume 1: "leaf_insert nd key val = Inr (nd1, map_of (leaf_abs nd) key = None)"
    "leaf_wf nd1" "leaf_abs nd1 = kv_insert key val (leaf_abs nd)" "node_hdr nd1 = node_hdr nd"
  show ?thesis
  proof (rule leaf_delete_ok [OF assms(1), of key])
    fix nd2 assume "leaf_delete nd key = Inr (nd2, map_of (leaf_abs nd) key)"
      "leaf_wf nd2" "leaf_abs nd2 = kv_delete key (leaf_abs nd)" "node_hdr nd2 = node_hdr nd"
    with 1 leaf_entries_ok [of nd1] leaf_entries_ok [of nd2] show ?thesis by auto
  qed
qed

theorem leaf_page_refines_witness:
  "\<exists>nd1. leaf_insert (new_leaf 7) [1, 2] [3] = Inr (nd1, True) \<and> leaf_entries nd1 = Inr [([1, 2], [3])]"
  using leaf_page_refines [of "new_leaf 7" "[1, 2]" "[3]"] by (auto simp: kv_insert_def)

end
