(* ===== verification/Internal.thy ===== *)
theory Internal
  imports Leaf
begin

text \<open>
  Correctness of the internal page code of theory \<open>Node\<close>. \<open>int_abs\<close> reads the separator
  keys with their right children; together with the leftmost child they are the routing table of
  the node. Under the invariant \<open>int_wf\<close> no operation panics, the binary search of
  \<open>internal_find_child\<close> counts the separators not above the key, and inserting a separator is
  \<open>kv_insert\<close> on the routing table.
\<close>

section \<open>The slot directory of an internal node\<close>

definition int_enc :: "u16 \<times> u16 \<times> u32 \<Rightarrow> bytes" where
  "int_enc s = (case s of (off, kl, child) \<Rightarrow> to_le 2 off @ to_le 2 kl @ to_le 4 child)"

definition int_dec :: "bytes \<Rightarrow> u16 \<times> u16 \<times> u32" where
  "int_dec bs = (from_le (slice bs 0 2), from_le (slice bs 2 2), from_le (slice bs 4 4))"

definition int_off :: "u16 \<times> u16 \<times> u32 \<Rightarrow> nat" where
  "int_off s = unat (fst s)"

definition int_len :: "u16 \<times> u16 \<times> u32 \<Rightarrow> nat" where
  "int_len s = unat (fst (snd s))"

interpretation idir: data_dir 30 8 int_enc int_dec int_off int_len
proof
  show "length (int_enc s) = 8" for s by (simp add: int_enc_def split: prod.splits)
  show "int_dec (int_enc s) = s" for s
    by (cases s) (simp add: int_enc_def int_dec_def slice_def)
qed simp_all

lemma idir_slot_at [simp]: "idir.slot_at i = 30 + 8 * i"
  by (simp add: idir.slot_at_def)

lemma internal_slot_offset_eq [simp]: "internal_slot_offset i = 30 + 8 * i"
  by (simp add: internal_slot_offset_def internal_slots_start_def internal_leftmost_child_offset_def)

lemma read_internal_slot_ok:
  assumes "page_wf nd" and "30 + 8 * Suc i \<le> 4096"
  shows "read_internal_slot nd i = Inr (idir.rslot (pg_data nd) i)"
  using assms
  by (simp add: read_internal_slot_def read_u16_le_def read_u32_le_def page_wf_def idir.rslot_def
      int_dec_def slice_slice rd_def Let_def)

lemma write_internal_slot_ok:
  assumes "page_wf nd" and "30 + 8 * Suc i \<le> 4096"
  shows "write_internal_slot nd i s = Inr (nd\<lparr>pg_data := idir.wslot (pg_data nd) i s, pg_dirty := True\<rparr>)"
proof -
  obtain a b c where s: "s = (a, b, c)" by (cases s)
  let ?o = "30 + 8 * i"
  have "wr (wr (pg_data nd) ?o (to_le 2 a)) (?o + length (to_le 2 a)) (to_le 2 b)
      = wr (pg_data nd) ?o (to_le 2 a @ to_le 2 b)"
    using assms by (intro wr_append) (simp add: page_wf_def)
  moreover have "wr (wr (pg_data nd) ?o (to_le 2 a @ to_le 2 b)) (?o + length (to_le 2 a @ to_le 2 b)) (to_le 4 c)
      = wr (pg_data nd) ?o ((to_le 2 a @ to_le 2 b) @ to_le 4 c)"
    using assms by (intro wr_append) (simp add: page_wf_def)
  ultimately show ?thesis
    using assms by (simp add: s write_internal_slot_def page_wf_def idir.wslot_def int_enc_def ac_simps)
qed

lemma internal_shift_ok:
  assumes "page_wf nd" and "30 + 8 * Suc n \<le> 4096"
  shows "\<exists>b. foldE (\<lambda>nd i. bindE (read_internal_slot nd i) (write_internal_slot nd (i + 1))) nd (rev [p..<n])
       = Inr (nd\<lparr>pg_data := idir.shift (pg_data nd) p n, pg_dirty := b\<rparr>)"
  using assms
proof (induction n arbitrary: nd)
  case 0
  then show ?case by (auto intro!: exI [of _ "pg_dirty nd"])
next
  case (Suc n)
  show ?case
  proof (cases "p < Suc n")
    case False
    then show ?thesis by (auto intro!: exI [of _ "pg_dirty nd"])
  next
    case True
    let ?d = "idir.wslot (pg_data nd) (Suc n) (idir.rslot (pg_data nd) n)"
    let ?nd = "nd\<lparr>pg_data := ?d, pg_dirty := True\<rparr>"
    have wf: "page_wf ?nd" using Suc.prems by (simp add: page_wf_def)
    with Suc.IH [of ?nd] Suc.prems(2) obtain b where
      "foldE (\<lambda>nd i. bindE (read_internal_slot nd i) (write_internal_slot nd (i + 1))) ?nd (rev [p..<n])
       = Inr (?nd\<lparr>pg_data := idir.shift ?d p n, pg_dirty := b\<rparr>)" by auto
    with True Suc.prems show ?thesis
      by (auto simp: read_internal_slot_ok write_internal_slot_ok idir.shift_step)
  qed
qed

section \<open>Abstraction and invariant\<close>

definition int_ent :: "bytes \<Rightarrow> u16 \<times> u16 \<times> u32 \<Rightarrow> key \<times> page_id" where
  "int_ent d s = (slice d (int_off s) (int_len s), snd (snd s))"

definition int_slots :: "btree_node \<Rightarrow> (u16 \<times> u16 \<times> u32) list" where
  "int_slots nd = idir.slots (pg_data nd) (num_keys nd)"

definition int_abs :: "btree_node \<Rightarrow> (key \<times> page_id) list" where
  "int_abs nd = map (int_ent (pg_data nd)) (int_slots nd)"

definition int_lo :: "btree_node \<Rightarrow> nat" where
  "int_lo nd = idir.lowest PAGE_SIZE (int_slots nd)"

definition key_bytes :: "(key \<times> page_id) list \<Rightarrow> nat" where
  "key_bytes xs = sum_list (map (\<lambda>e. length (fst e)) xs)"

definition int_size :: "(key \<times> page_id) list \<Rightarrow> nat" where
  "int_size xs = INTERNAL_SLOT_SIZE * length xs + key_bytes xs"

definition INTERNAL_CAPACITY :: nat where
  "INTERNAL_CAPACITY = PAGE_SIZE - HEADER_SIZE - BTREE_HEADER_SIZE - 4"

definition int_wf :: "btree_node \<Rightarrow> bool" where
  "int_wf nd \<longleftrightarrow> page_wf nd \<and> get_page_type nd = PtInternal
     \<and> (\<forall>s \<in> set (int_slots nd). idir.in_page (30 + 8 * num_keys nd) PAGE_SIZE s)
     \<and> int_lo nd + key_bytes (int_abs nd) = PAGE_SIZE
     \<and> int_size (int_abs nd) \<le> INTERNAL_CAPACITY
     \<and> sorted_kv (int_abs nd)"

definition int_hdr :: "btree_node \<Rightarrow> (page_id \<times> page_type \<times> page_id \<times> page_id \<times> u16) \<times> page_id" where
  "int_hdr nd = (node_hdr nd, get_leftmost_child nd)"

lemma internal_capacity [simp]: "INTERNAL_CAPACITY = 4066"
  by (simp add: INTERNAL_CAPACITY_def)

lemma key_bytes_simps [simp]:
  "key_bytes [] = 0" "key_bytes (e # xs) = length (fst e) + key_bytes xs"
  "key_bytes (xs @ ys) = key_bytes xs + key_bytes ys"
  by (simp_all add: key_bytes_def)

lemma int_size_simps [simp]:
  "int_size [] = 0" "int_size (e # xs) = 8 + length (fst e) + int_size xs"
  "int_size (xs @ ys) = int_size xs + int_size ys"
  by (simp_all add: int_size_def)

lemma int_size_insert:
  assumes "kv_pos xs k i"
  shows "int_size (kv_insert k c xs) = int_size xs + 8 + length k"
    and "key_bytes (kv_insert k c xs) = key_bytes xs + length k"
proof -
  have "int_size xs = int_size (take i xs) + int_size (drop i xs)"
    "key_bytes xs = key_bytes (take i xs) + key_bytes (drop i xs)"
    by (metis append_take_drop_id int_size_simps(3) key_bytes_simps(3))+
  then show "int_size (kv_insert k c xs) = int_size xs + 8 + length k"
    "key_bytes (kv_insert k c xs) = key_bytes xs + length k"
    by (simp_all add: kv_pos_insert [OF assms])
qed

lemma length_int_slots [simp]: "length (int_slots nd) = num_keys nd"
  by (simp add: int_slots_def)

lemma length_int_abs [simp]: "length (int_abs nd) = num_keys nd"
  by (simp add: int_abs_def)

lemma nth_int_slots [simp]: "i < num_keys nd \<Longrightarrow> int_slots nd ! i = idir.rslot (pg_data nd) i"
  by (simp add: int_slots_def)

lemma nth_int_abs: "i < num_keys nd \<Longrightarrow> int_abs nd ! i = int_ent (pg_data nd) (idir.rslot (pg_data nd) i)"
  by (simp add: int_abs_def)

lemma int_lo_le: "int_lo nd \<le> 4096"
  using idir.lowest_le(1) [of PAGE_SIZE] by (simp add: int_lo_def)

lemma int_wf_slot:
  assumes wf: "int_wf nd" and "i < num_keys nd"
  shows "30 + 8 * Suc i \<le> 4096" and "idir.in_page (30 + 8 * num_keys nd) PAGE_SIZE (idir.rslot (pg_data nd) i)"
proof -
  have "idir.rslot (pg_data nd) i \<in> set (int_slots nd)"
    using assms(2) by (metis nth_int_slots length_int_slots nth_mem)
  then show "idir.in_page (30 + 8 * num_keys nd) PAGE_SIZE (idir.rslot (pg_data nd) i)"
    using wf by (simp add: int_wf_def)
  have "8 * num_keys nd + key_bytes (int_abs nd) \<le> 4066" using wf by (simp add: int_wf_def int_size_def)
  with assms(2) show "30 + 8 * Suc i \<le> 4096" by simp
qed

lemma internal_key_ok:
  assumes "int_wf nd" and "i < num_keys nd"
  shows "internal_key nd i = Inr (fst (int_abs nd ! i))"
proof -
  have wf: "page_wf nd" using assms by (simp add: int_wf_def)
  obtain a b c where s: "idir.rslot (pg_data nd) i = (a, b, c)" by (cases "idir.rslot (pg_data nd) i")
  with int_wf_slot [OF assms] wf assms(2) show ?thesis
    by (simp add: nth_int_abs internal_key_def read_internal_slot_ok idir.in_page_def int_off_def
        int_len_def int_ent_def page_wf_def)
qed

lemma internal_child_ok:
  assumes "int_wf nd" and "i \<le> num_keys nd"
  shows "internal_child nd i = Inr (if i = 0 then get_leftmost_child nd else snd (int_abs nd ! (i - 1)))"
proof (cases i)
  case (Suc j)
  have wf: "page_wf nd" using assms by (simp add: int_wf_def)
  with Suc assms int_wf_slot(1) [OF assms(1), of j] show ?thesis
    by (simp add: internal_child_def read_internal_slot_ok nth_int_abs int_ent_def split_beta)
qed (simp add: internal_child_def)

lemma internal_entries_ok: "int_wf nd \<Longrightarrow> internal_entries nd = Inr (get_leftmost_child nd, int_abs nd)"
proof -
  assume wf: "int_wf nd"
  have "mapE (\<lambda>i. bindE (read_internal_slot nd i) (\<lambda>(_, _, right_child).
              bindE (internal_key nd i) (\<lambda>k. Inr (k, right_child)))) [0..<num_keys nd]
      = Inr (map (\<lambda>i. int_abs nd ! i) [0..<num_keys nd])"
  proof (rule mapE_Inr_map)
    fix i assume "i \<in> set [0..<num_keys nd]"
    then have i: "i < num_keys nd" by simp
    have "page_wf nd" using wf by (simp add: int_wf_def)
    with int_wf_slot(1) [OF wf i] i show "bindE (read_internal_slot nd i) (\<lambda>(_, _, right_child).
          bindE (internal_key nd i) (\<lambda>k. Inr (k, right_child))) = Inr (int_abs nd ! i)"
      by (simp add: read_internal_slot_ok internal_key_ok [OF wf] split_beta nth_int_abs int_ent_def)
  qed
  moreover have "map (\<lambda>i. int_abs nd ! i) [0..<num_keys nd] = int_abs nd"
    by (metis length_int_abs map_nth)
  ultimately show ?thesis by (simp add: internal_entries_def)
qed

section \<open>Routing\<close>

text \<open>The child that covers a key: the right child of the last separator not above it.\<close>

definition route :: "page_id \<Rightarrow> (key \<times> page_id) list \<Rightarrow> key \<Rightarrow> page_id" where
  "route leftmost es key = last (leftmost # map snd (takeWhile (\<lambda>e. fst e \<le> key) es))"

definition up_to :: "('k::linorder \<times> 'v) list \<Rightarrow> 'k \<Rightarrow> nat \<Rightarrow> bool" where
  "up_to xs k i \<longleftrightarrow> i \<le> length xs \<and> (\<forall>j < i. fst (xs ! j) \<le> k) \<and> (\<forall>j. i \<le> j \<longrightarrow> j < length xs \<longrightarrow> k < fst (xs ! j))"

lemma up_to_takeWhile:
  assumes "up_to xs k i"
  shows "takeWhile (\<lambda>e. fst e \<le> k) xs = take i xs"
proof (rule takeWhile_eq_take_P_nth)
  show "\<And>j. j < i \<Longrightarrow> j < length xs \<Longrightarrow> fst (xs ! j) \<le> k" using assms by (simp add: up_to_def)
  show "i < length xs \<Longrightarrow> \<not> fst (xs ! i) \<le> k" using assms by (auto simp: up_to_def not_le)
qed

lemma up_to_kv_pos: "up_to xs k i \<Longrightarrow> map_of xs k = None \<Longrightarrow> kv_pos xs k i"
  unfolding up_to_def kv_pos_def map_of_eq_None_iff
  by (metis image_eqI in_set_conv_nth less_le_trans order_le_less set_map)

lemma internal_find_loop_ok:
  assumes "int_wf nd" and "lo \<le> hi" and "hi \<le> num_keys nd"
    and "\<forall>j < lo. fst (int_abs nd ! j) \<le> key"
    and "\<forall>j. hi \<le> j \<longrightarrow> j < num_keys nd \<longrightarrow> key < fst (int_abs nd ! j)"
  shows "\<exists>i. internal_find_loop nd key lo hi = Inr i \<and> up_to (int_abs nd) key i"
  using assms
proof (induction nd key lo hi rule: internal_find_loop.induct)
  case (1 nd key lo hi)
  show ?case
  proof (cases "lo < hi")
    case False
    with "1.prems" show ?thesis
      by (subst internal_find_loop.simps) (auto simp: up_to_def)
  next
    case True
    define mid where "mid = (lo + hi) div 2"
    have mid: "lo \<le> mid" "mid < hi" using True by (auto simp: mid_def)
    let ?k = "fst (int_abs nd ! mid)"
    have key: "internal_key nd mid = Inr ?k" using "1.prems" mid by (simp add: internal_key_ok)
    have "sorted_kv (int_abs nd)" "mid < length (int_abs nd)" using "1.prems" mid by (simp_all add: int_wf_def)
    note probe = sorted_kv_probe [OF this, where key = key]
    have unfold: "internal_find_loop nd key lo hi =
       (if key < ?k then internal_find_loop nd key lo mid else internal_find_loop nd key (mid + 1) hi)"
      using True key by (subst internal_find_loop.simps) (simp add: mid_def [symmetric])
    show ?thesis
    proof (cases "key < ?k")
      case less: True
      then have "\<forall>j. mid \<le> j \<longrightarrow> j < num_keys nd \<longrightarrow> key < fst (int_abs nd ! j)" using probe(3) by simp
      with "1.IH"(1) [OF True mid_def key less] "1.prems" mid unfold less show ?thesis by auto
    next
      case False
      then have "\<forall>j < mid + 1. fst (int_abs nd ! j) \<le> key" using probe(2) by simp
      with "1.IH"(2) [OF True mid_def key False] "1.prems" mid unfold False show ?thesis by auto
    qed
  qed
qed

lemma internal_find_all:
  assumes "int_wf nd"
  obtains i where "internal_find_loop nd key 0 (num_keys nd) = Inr i" "up_to (int_abs nd) key i"
  using internal_find_loop_ok [OF assms, of 0 "num_keys nd" key] by auto

lemma internal_find_child_ok:
  assumes wf: "int_wf nd"
  obtains i where "internal_find_child nd key = Inr i"
    "internal_child nd i = Inr (route (get_leftmost_child nd) (int_abs nd) key)"
proof (rule internal_find_all [OF wf, of key])
  fix i assume i: "internal_find_loop nd key 0 (num_keys nd) = Inr i" "up_to (int_abs nd) key i"
  then have le: "i \<le> num_keys nd" by (simp add: up_to_def)
  have find: "internal_find_child nd key = Inr i"
  proof (cases "num_keys nd = 0")
    case True
    with le show ?thesis by (simp add: internal_find_child_def)
  next
    case False
    with i show ?thesis by (simp add: internal_find_child_def)
  qed
  have "route (get_leftmost_child nd) (int_abs nd) key
      = (if i = 0 then get_leftmost_child nd else snd (int_abs nd ! (i - 1)))"
  proof (cases i)
    case (Suc j)
    with le have "int_abs nd \<noteq> []" using length_int_abs [of nd] by (auto simp del: length_int_abs)
    moreover have "length (take i (int_abs nd)) = i" using le by simp
    ultimately show ?thesis using Suc by (simp add: route_def up_to_takeWhile [OF i(2)] last_map last_conv_nth)
  qed (simp add: route_def up_to_takeWhile [OF i(2)])
  with find internal_child_ok [OF wf le] that show thesis by simp
qed

section \<open>Free space\<close>

lemma int_wf_dir: "int_wf nd \<Longrightarrow> 30 + 8 * num_keys nd \<le> int_lo nd"
proof -
  assume wf: "int_wf nd"
  then have "8 * num_keys nd + key_bytes (int_abs nd) \<le> 4066"
    by (simp add: int_wf_def int_size_def)
  with wf show ?thesis by (simp add: int_wf_def)
qed

lemma internal_frontier_fold:
  assumes "page_wf nd" and "\<forall>i \<in> set js. 30 + 8 * Suc i \<le> 4096"
  shows "foldE (\<lambda>m i. bindE (read_internal_slot nd i) (\<lambda>(off, _, _). Inr (if unat off < m then unat off else m))) m js
     = Inr (Min (insert m ((\<lambda>i. unat (fst (idir.rslot (pg_data nd) i))) ` set js)))"
  using assms(2)
proof (induction js arbitrary: m)
  case (Cons j js)
  obtain a b c where s: "idir.rslot (pg_data nd) j = (a, b, c)" by (cases "idir.rslot (pg_data nd) j")
  let ?f = "\<lambda>i. unat (fst (idir.rslot (pg_data nd) i))"
  have "Min (insert (if unat a < m then unat a else m) (?f ` set js)) = Min (insert m (insert (unat a) (?f ` set js)))"
    by (cases "set js = {}") (auto simp: min_def)
  with Cons assms(1) s show ?case by (simp add: read_internal_slot_ok)
qed simp

lemma internal_data_frontier_ok: "int_wf nd \<Longrightarrow> internal_data_frontier nd = Inr (int_lo nd)"
proof (cases "num_keys nd = 0")
  case True
  then show ?thesis
    by (simp add: internal_data_frontier_def int_lo_def int_slots_def idir.slots_def idir.lowest_def)
next
  case False
  assume wf: "int_wf nd"
  have "page_wf nd" using wf by (simp add: int_wf_def)
  moreover have "\<forall>i \<in> set [0..<num_keys nd]. 30 + 8 * Suc i \<le> 4096" using int_wf_slot(1) [OF wf] by auto
  ultimately show ?thesis
    using False internal_frontier_fold [of nd "[0..<num_keys nd]" PAGE_SIZE]
    by (simp add: internal_data_frontier_def int_lo_def idir.lowest_def int_slots_def
        idir.slots_def image_image int_off_def)
qed

lemma internal_can_fit_ok:
  assumes "int_wf nd"
  shows "internal_can_fit nd k = Inr (int_size (int_abs nd) + 16 + length k \<le> INTERNAL_CAPACITY)"
proof -
  have "int_lo nd + key_bytes (int_abs nd) = 4096" using assms by (simp add: int_wf_def)
  then show ?thesis
    by (auto simp: internal_can_fit_def internal_available_space_def internal_data_frontier_ok [OF assms]
        internal_slots_start_def internal_leftmost_child_offset_def int_size_def Let_def)
qed

section \<open>Inserting a separator\<close>

lemma int_hdr_data:
  assumes "page_wf nd" and "length d = PAGE_SIZE" and "slice d 0 30 = slice (pg_data nd) 0 30"
  shows "int_hdr (nd\<lparr>pg_data := d, pg_dirty := b\<rparr>) = int_hdr nd"
proof -
  have *: "slice d j m = slice (pg_data nd) j m" if "j + m \<le> 30" for j m
    using assms(3) slice_slice [OF that, of d 0] slice_slice [OF that, of "pg_data nd" 0] by simp
  from node_hdr_data [OF assms(1,2) *] * show ?thesis
    by (simp add: int_hdr_def get_leftmost_child_def internal_leftmost_child_offset_def rd_def)
qed

lemma int_hdr_set_num_slots: "page_wf nd \<Longrightarrow> int_hdr (set_num_slots n nd) = int_hdr nd"
  by (simp add: int_hdr_def node_hdr_set_num_slots)

lemma int_hdr_dirty [simp]: "int_hdr (nd\<lparr>pg_dirty := b\<rparr>) = int_hdr nd"
  by (simp add: int_hdr_def get_leftmost_child_def)

definition int_new_slot :: "btree_node \<Rightarrow> key \<Rightarrow> page_id \<Rightarrow> u16 \<times> u16 \<times> u32" where
  "int_new_slot nd key child = (of_nat (int_lo nd - length key), of_nat (length key), child)"

definition int_inserted :: "btree_node \<Rightarrow> nat \<Rightarrow> key \<Rightarrow> page_id \<Rightarrow> btree_node" where
  "int_inserted nd i key child =
     (set_num_slots (of_nat (Suc (num_keys nd)))
        (nd\<lparr>pg_data := idir.page_insert (pg_data nd) i (num_keys nd) (int_lo nd)
                        (int_new_slot nd key child) key, pg_dirty := True\<rparr>))\<lparr>pg_dirty := True\<rparr>"

lemma internal_insert_eq:
  assumes wf: "int_wf nd" and find: "internal_find_loop nd key 0 (num_keys nd) = Inr i"
    and "i \<le> num_keys nd" and space: "30 + 8 * Suc (num_keys nd) + length key \<le> int_lo nd"
  shows "internal_insert nd key child = Inr (int_inserted nd i key child)"
proof -
  let ?n = "num_keys nd" and ?d = "pg_data nd" and ?lo = "int_lo nd"
  let ?off = "?lo - length key"
  have len: "length ?d = 4096" using wf by (simp add: int_wf_def page_wf_def)
  have lo: "?lo \<le> 4096" by (rule int_lo_le)
  have off: "?off + length key = ?lo" using space by simp
  define nd2 where "nd2 = nd\<lparr>pg_data := wr ?d ?off key\<rparr>"
  have wf2: "page_wf nd2" using len lo off by (simp add: nd2_def page_wf_def)
  have dir: "30 + 8 * Suc ?n \<le> 4096" using space lo by simp
  from internal_shift_ok [OF wf2 dir] obtain b where
    shift: "foldE (\<lambda>nd i. bindE (read_internal_slot nd i) (write_internal_slot nd (i + 1))) nd2 (rev [i..<?n])
       = Inr (nd2\<lparr>pg_data := idir.shift (pg_data nd2) i ?n, pg_dirty := b\<rparr>)" by blast
  have wf3: "page_wf (nd2\<lparr>pg_data := idir.shift (pg_data nd2) i ?n, pg_dirty := b\<rparr>)"
    using wf2 dir by (simp add: page_wf_def)
  have slot: "30 + 8 * Suc i \<le> 4096" using dir assms(3) by simp
  show ?thesis
    using off len lo find shift write_internal_slot_ok [OF wf3 slot]
    by (simp add: internal_insert_def int_inserted_def internal_data_frontier_ok [OF wf] Let_def
        nd2_def [symmetric])
      (simp add: nd2_def idir.page_insert_def int_new_slot_def add.commute)
qed

lemma int_ent_cong:
  "slice f (int_off s) (int_len s) = slice d (int_off s) (int_len s) \<Longrightarrow> int_ent f s = int_ent d s"
  by (simp add: int_ent_def)

lemma int_inserted_slots:
  fixes child :: page_id
  assumes wf: "int_wf nd" and i: "i \<le> num_keys nd"
    and space: "30 + 8 * Suc (num_keys nd) + length key \<le> int_lo nd"
  defines "nd' \<equiv> int_inserted nd i key child" and "s \<equiv> int_new_slot nd key child"
  shows "page_wf nd'" and "num_keys nd' = Suc (num_keys nd)" and "int_hdr nd' = int_hdr nd"
    and "int_slots nd' = take i (int_slots nd) @ s # drop i (int_slots nd)"
    and "int_abs nd' = take i (int_abs nd) @ (key, child) # drop i (int_abs nd)"
    and "int_off s = int_lo nd - length key"
    and "idir.in_page (30 + 8 * Suc (num_keys nd)) PAGE_SIZE s"
proof -
  let ?n = "num_keys nd" and ?d = "pg_data nd"
  let ?e = "idir.page_insert ?d i ?n (int_lo nd) s key"
  let ?f = "wr ?e 5 (to_le 2 (of_nat (Suc ?n) :: u16))"
  have page: "page_wf nd" and len: "length ?d = 4096" using wf by (simp_all add: int_wf_def page_wf_def)
  have lo: "int_lo nd \<le> 4096" by (rule int_lo_le)
  have u: "unat (of_nat m :: u16) = m" if "m \<le> 4096" for m
    using that by (simp add: unsigned_of_nat take_bit_nat_eq_self)
  have s: "int_off s = int_lo nd - length key" "int_len s = length key"
    unfolding s_def int_new_slot_def int_off_def int_len_def fst_conv snd_conv
    using space lo u [of "int_lo nd - length key"] u [of "length key"] by (linarith, simp)
  then show "int_off s = int_lo nd - length key" by simp
  have fits: "idir.slot_at (Suc ?n) + length key \<le> int_lo nd" "int_lo nd \<le> length ?d"
    using space lo len by simp_all
  have old: "\<forall>t \<in> set (idir.slots ?d ?n). int_lo nd \<le> int_off t \<and> int_off t + int_len t \<le> length ?d"
    using wf len by (auto simp: int_wf_def int_lo_def int_slots_def idir.in_page_def intro!: idir.lowest_le)
  note bytes = idir.page_insert_bytes [OF fits i]
  note count = idir.page_insert_count [OF fits i s old]
  let ?nd2 = "nd\<lparr>pg_data := ?e, pg_dirty := True\<rparr>"
  have page2: "page_wf ?nd2" using bytes(1) len by (simp add: page_wf_def)
  have nd': "nd' = (set_num_slots (of_nat (Suc ?n)) ?nd2)\<lparr>pg_dirty := True\<rparr>"
    by (simp add: nd'_def s_def int_inserted_def)
  then have data': "pg_data nd' = ?f" by (simp add: set_num_slots_def)
  with count(1) len show "page_wf nd'" by (simp add: page_wf_def)
  have "Suc ?n < 2 ^ 16" using space lo by simp
  from num_keys_set [OF page2 this] show keys': "num_keys nd' = Suc ?n" by (simp only: nd' num_keys_dirty)
  have hdr2: "int_hdr ?nd2 = int_hdr nd"
    using bytes(1,2) len page by (intro int_hdr_data) simp_all
  show "int_hdr nd' = int_hdr nd"
    using hdr2 int_hdr_set_num_slots [OF page2, of "of_nat (Suc ?n)"] by (simp only: nd' int_hdr_dirty)
  show slots': "int_slots nd' = take i (int_slots nd) @ s # drop i (int_slots nd)"
    unfolding int_slots_def keys' data' by (rule count(2))
  have "map (int_ent ?f) (int_slots nd) = int_abs nd"
    using count(3) by (auto simp: int_abs_def int_slots_def intro!: int_ent_cong)
  moreover have "int_ent ?f s = (key, child)"
    using count(4) unfolding int_ent_def by (simp add: s_def int_new_slot_def)
  ultimately show "int_abs nd' = take i (int_abs nd) @ (key, child) # drop i (int_abs nd)"
    unfolding int_abs_def [of nd'] slots' data' by (simp add: take_map [symmetric] drop_map [symmetric])
  show "idir.in_page (30 + 8 * Suc ?n) PAGE_SIZE s" using count(5) len by simp
qed

lemma internal_insert_ok:
  assumes wf: "int_wf nd" and fresh: "map_of (int_abs nd) key = None"
    and room: "int_size (kv_insert key child (int_abs nd)) \<le> INTERNAL_CAPACITY"
  obtains nd' where "internal_insert nd key child = Inr nd'" "int_wf nd'"
    "int_abs nd' = kv_insert key child (int_abs nd)" "int_hdr nd' = int_hdr nd"
proof (rule internal_find_all [OF wf, of key])
  fix i assume find: "internal_find_loop nd key 0 (num_keys nd) = Inr i" "up_to (int_abs nd) key i"
  let ?n = "num_keys nd" and ?nd' = "int_inserted nd i key child"
  have pos: "kv_pos (int_abs nd) key i" using up_to_kv_pos [OF find(2) fresh] .
  have i: "i \<le> ?n" using find(2) by (simp add: up_to_def)
  have lo: "int_lo nd + key_bytes (int_abs nd) = 4096" using wf by (simp add: int_wf_def)
  with room pos have space: "30 + 8 * Suc ?n + length key \<le> int_lo nd"
    by (simp add: int_size_insert) (simp add: int_size_def)
  note ins = int_inserted_slots [OF wf i space]
  have abs': "int_abs ?nd' = kv_insert key child (int_abs nd)"
    by (simp add: ins(5) kv_pos_insert [OF pos])
  have "int_lo ?nd' = min (int_lo nd - length key) (int_lo nd)"
    unfolding int_lo_def [of ?nd'] ins(4) idir.lowest_insert ins(6) by (simp add: int_lo_def)
  then have lo': "int_lo ?nd' + key_bytes (int_abs ?nd') = 4096"
    using lo space by (simp add: abs' int_size_insert [OF pos])
  have "idir.in_page (30 + 8 * Suc ?n) PAGE_SIZE t" if "t \<in> set (int_slots nd)" for t
    using that wf space idir.lowest_le(2) [OF that, of PAGE_SIZE]
    by (auto simp: int_wf_def idir.in_page_def int_lo_def)
  with ins(7) have "\<forall>t \<in> set (int_slots ?nd'). idir.in_page (30 + 8 * num_keys ?nd') PAGE_SIZE t"
    unfolding ins(2,4) by (auto dest: in_set_takeD in_set_dropD)
  moreover have "get_page_type ?nd' = PtInternal"
    using ins(3) wf by (simp add: int_hdr_def node_hdr_def int_wf_def)
  moreover have "sorted_kv (int_abs ?nd')" using wf by (simp add: abs' sorted_kv_insert int_wf_def)
  ultimately have "int_wf ?nd'" using ins(1) lo' room abs' by (simp add: int_wf_def)
  then show thesis using that internal_insert_eq [OF wf find(1) i space] abs' ins(3) by blast
qed

section \<open>Rebuilding a node\<close>

lemma int_wf_empty:
  assumes "page_wf nd" and "get_page_type nd = PtInternal" and "get_num_slots nd = 0"
  shows "int_wf nd" and "int_abs nd = []"
proof -
  have "num_keys nd = 0" using assms(3) by (simp add: num_keys_def)
  then have "int_slots nd = []" by (metis length_0_conv length_int_slots)
  then show "int_abs nd = []" "int_wf nd"
    using assms by (simp_all add: int_abs_def int_wf_def int_lo_def idir.lowest_def)
qed

lemma new_internal_ok [simp]:
  "int_wf (set_leftmost_child c (new_internal pid))" "int_abs (set_leftmost_child c (new_internal pid)) = []"
  "int_hdr (set_leftmost_child c (new_internal pid))
     = ((pid, PtInternal, INVALID_PAGE_ID, INVALID_PAGE_ID, 1), c)"
proof -
  let ?nd = "set_leftmost_child c (new_internal pid)"
  have *: "page_wf ?nd" "get_page_type ?nd = PtInternal" "get_num_slots ?nd = 0"
    by (simp_all add: new_internal_def)
  then show "int_wf ?nd" "int_abs ?nd = []" by (rule int_wf_empty)+
  show "int_hdr ?nd = ((pid, PtInternal, INVALID_PAGE_ID, INVALID_PAGE_ID, 1), c)"
    by (simp add: new_internal_def int_hdr_def node_hdr_def)
qed

lemma internal_reset_ok:
  assumes "page_wf nd"
  shows "int_wf (internal_reset nd c)" and "int_abs (internal_reset nd c) = []"
    and "get_page_type nd = PtInternal \<Longrightarrow> int_hdr (internal_reset nd c) = (node_hdr nd, c)"
proof -
  let ?nd = "internal_reset nd c"
  have *: "page_wf ?nd" "get_page_type ?nd = PtInternal" "get_num_slots ?nd = 0"
    by (simp_all add: internal_reset_def)
  then show "int_wf ?nd" "int_abs ?nd = []" by (rule int_wf_empty)+
  show "int_hdr ?nd = (node_hdr nd, c)" if "get_page_type nd = PtInternal"
    using that by (simp add: internal_reset_def int_hdr_def node_hdr_def)
qed

lemma internal_refill_ok:
  assumes "int_wf nd" and "sorted_kv (int_abs nd @ es)" and "int_size (int_abs nd @ es) \<le> INTERNAL_CAPACITY"
  shows "\<exists>nd'. foldE (\<lambda>nd (k, child). internal_insert nd k child) nd es = Inr nd' \<and> int_wf nd'
    \<and> int_abs nd' = int_abs nd @ es \<and> int_hdr nd' = int_hdr nd"
  using assms
proof (induction es arbitrary: nd)
  case Nil
  then show ?case by simp
next
  case (Cons e es)
  obtain k c where e: "e = (k, c)" by (cases e)
  have "sorted_kv (int_abs nd @ [(k, c)])" using Cons.prems(2) by (simp add: e sorted_kv_append)
  note last = kv_insert_last [OF this]
  have "int_size (kv_insert k c (int_abs nd)) \<le> INTERNAL_CAPACITY"
    using Cons.prems(3) by (simp add: last e)
  from internal_insert_ok [OF Cons.prems(1) last(2) this] obtain nd1 where
    nd1: "internal_insert nd k c = Inr nd1" "int_wf nd1"
      "int_abs nd1 = int_abs nd @ [(k, c)]" "int_hdr nd1 = int_hdr nd"
    by (auto simp: last)
  from Cons.IH [OF nd1(2)] Cons.prems(2,3) obtain nd' where
    "foldE (\<lambda>nd (k, child). internal_insert nd k child) nd1 es = Inr nd'" "int_wf nd'"
    "int_abs nd' = int_abs nd1 @ es" "int_hdr nd' = int_hdr nd1"
    by (auto simp: nd1(3) e)
  with nd1 show ?case by (auto simp: e)
qed

lemma internal_rebuild_ok:
  assumes "page_wf nd" and "get_page_type nd = PtInternal" and "sorted_kv es"
    and "int_size es \<le> INTERNAL_CAPACITY"
  obtains nd' where "internal_rebuild nd c es = Inr nd'" "int_wf nd'" "int_abs nd' = es"
    "int_hdr nd' = (node_hdr nd, c)"
  using internal_refill_ok [OF internal_reset_ok(1) [OF assms(1), of c], of es] assms
    internal_reset_ok(2,3) [OF assms(1), of c]
  by (auto simp: internal_rebuild_def)

end
