(* ===== verification/Disk.thy ===== *)
theory Disk
  imports Page
begin

text \<open>
  The disk manager of \<^verbatim>\<open>src/src/disk/disk_manager.rs\<close>. The open file is its contents,
  a byte list; \<^verbatim>\<open>seek\<close> followed by \<^verbatim>\<open>write_all\<close> or \<^verbatim>\<open>read_exact\<close> is
  \<open>file_write\<close> or \<open>file_read_exact\<close> at that offset. Writing past the end zero-fills the
  gap, as the operating system does; the one I/O failure of the model is the short read of
  \<^verbatim>\<open>read_exact\<close>. The locale \<open>block_store\<close> is the contract the buffer pool relies on,
  and the disk manager is its interpretation.
\<close>

section \<open>Files\<close>

definition file_write :: "bytes \<Rightarrow> nat \<Rightarrow> bytes \<Rightarrow> bytes" where
  "file_write f off bs =
     (if off \<le> length f then take off f @ bs @ drop (off + length bs) f
      else f @ replicate (off - length f) 0 @ bs)"

definition file_read_exact :: "bytes \<Rightarrow> nat \<Rightarrow> nat \<Rightarrow> bytes res" where
  "file_read_exact f off n =
     (if off + n \<le> length f then Inr (slice f off n) else Inl (Err (Io UnexpectedEof)))"

section \<open>The code\<close>

record disk_manager =
  dm_file :: bytes
  dm_num_pages :: u32
  dm_file_path :: string

definition dm_open :: "string \<Rightarrow> bytes \<Rightarrow> disk_manager" where
  "dm_open path f =
     (let file_len = length f;
          num_pages = (if file_len = 0 then 0 else of_nat (file_len div PAGE_SIZE))
      in \<lparr>dm_file = f, dm_num_pages = num_pages, dm_file_path = path\<rparr>)"

definition dm_read_page :: "page_id \<Rightarrow> (disk_manager, page) op" where
  "dm_read_page pid dm =
     (let offset = unat pid * PAGE_SIZE
      in case file_read_exact (dm_file dm) offset PAGE_SIZE of
           Inl e \<Rightarrow> (Inl e, dm)
         | Inr buf \<Rightarrow> (Inr (page_from_bytes pid buf), dm))"

definition dm_write_page :: "page \<Rightarrow> (disk_manager, unit) op" where
  "dm_write_page p dm =
     (let offset = unat (pg_id p) * PAGE_SIZE
      in (Inr (), dm\<lparr>dm_file := file_write (dm_file dm) offset (pg_data p)\<rparr>))"

definition dm_allocate_page :: "(disk_manager, page_id) op" where
  "dm_allocate_page dm =
     (let pid = dm_num_pages dm;
          dm' = dm\<lparr>dm_num_pages := pid + 1\<rparr>;
          end_offset = (unat pid + 1) * PAGE_SIZE
      in (Inr pid, dm'\<lparr>dm_file := file_write (dm_file dm') (end_offset - 1) [0]\<rparr>))"

text \<open>\<^verbatim>\<open>sync_data\<close> makes the written contents durable; the contents do not change.\<close>

definition dm_sync :: "(disk_manager, unit) op" where
  "dm_sync = retS ()"

section \<open>The contract: a growing store of numbered blocks\<close>

locale block_store =
  fixes read_blk :: "page_id \<Rightarrow> ('d, page) op"
    and write_blk :: "page \<Rightarrow> ('d, unit) op"
    and alloc_blk :: "('d, page_id) op"
    and count :: "'d \<Rightarrow> u32"
    and pages :: "'d \<Rightarrow> page_id \<Rightarrow> bytes option"
    and invar :: "'d \<Rightarrow> bool"
  assumes pages_dom: "invar d \<Longrightarrow> pages d i \<noteq> None \<longleftrightarrow> i < count d"
    and pages_length: "invar d \<Longrightarrow> pages d i = Some b \<Longrightarrow> length b = PAGE_SIZE"
    and read_hit: "invar d \<Longrightarrow> pages d i = Some b \<Longrightarrow> read_blk i d = (Inr (page_from_bytes i b), d)"
    and read_miss: "invar d \<Longrightarrow> pages d i = None \<Longrightarrow> read_blk i d = (Inl (Err (Io UnexpectedEof)), d)"
    and write_ok: "invar d \<Longrightarrow> page_wf p \<Longrightarrow> pg_id p < count d \<Longrightarrow>
      \<exists>d'. write_blk p d = (Inr (), d') \<and> invar d' \<and> count d' = count d
        \<and> pages d' = (pages d)(pg_id p \<mapsto> pg_data p)"
    and alloc_ok: "invar d \<Longrightarrow> count d \<noteq> 0xFFFFFFFF \<Longrightarrow>
      \<exists>d'. alloc_blk d = (Inr (count d), d') \<and> invar d' \<and> count d' = count d + 1
        \<and> pages d' = (pages d)(count d \<mapsto> replicate PAGE_SIZE 0)"
begin

lemma read_other_after_write:
  assumes "invar d" and "page_wf p" and "pg_id p < count d" and "write_blk p d = (r, d')"
    and "i \<noteq> pg_id p"
  shows "fst (read_blk i d') = fst (read_blk i d)"
proof -
  from write_ok [OF assms(1-3)] assms(4)
  have d': "invar d'" "pages d' = (pages d)(pg_id p \<mapsto> pg_data p)" by auto
  show ?thesis
  proof (cases "pages d i")
    case None
    with d' assms(5) have "pages d' i = None" by simp
    with None d' assms(1) show ?thesis by (simp add: read_miss)
  next
    case (Some b)
    with d' assms(5) have "pages d' i = Some b" by simp
    with Some d' assms(1) show ?thesis by (simp add: read_hit)
  qed
qed

lemma read_after_write:
  assumes "invar d" and "page_wf p" and "pg_id p < count d" and "write_blk p d = (r, d')"
  shows "read_blk (pg_id p) d' = (Inr (page_from_bytes (pg_id p) (pg_data p)), d')"
proof -
  from write_ok [OF assms(1-3)] assms(4)
  have d': "invar d'" "pages d' (pg_id p) = Some (pg_data p)" by auto
  then show ?thesis by (rule read_hit)
qed

lemma write_many:
  assumes "invar d" and "\<And>p. p \<in> set ps \<Longrightarrow> page_wf p \<and> pg_id p < count d"
  shows "\<exists>d'. foldS write_blk ps d = (Inr (), d') \<and> invar d' \<and> count d' = count d
     \<and> pages d' = pages d ++ map_of (map (\<lambda>p. (pg_id p, pg_data p)) (rev ps))"
  using assms
proof (induction ps arbitrary: d)
  case Nil
  then show ?case by simp
next
  case (Cons p ps)
  from write_ok [of d p] Cons.prems obtain d1 where
    d1: "write_blk p d = (Inr (), d1)" "invar d1" "count d1 = count d"
        "pages d1 = (pages d)(pg_id p \<mapsto> pg_data p)" by auto
  from Cons.IH [of d1] Cons.prems d1(2,3) obtain d2 where
    "foldS write_blk ps d1 = (Inr (), d2)" "invar d2" "count d2 = count d1"
    "pages d2 = pages d1 ++ map_of (map (\<lambda>p. (pg_id p, pg_data p)) (rev ps))" by auto
  with d1 show ?case
    by (auto simp: bindS_run map_add_def fun_eq_iff split: option.splits)
qed

end

section \<open>The disk manager keeps the contract\<close>

definition dm_inv :: "disk_manager \<Rightarrow> bool" where
  "dm_inv dm \<longleftrightarrow> length (dm_file dm) = unat (dm_num_pages dm) * PAGE_SIZE"

definition dm_pages :: "disk_manager \<Rightarrow> page_id \<Rightarrow> bytes option" where
  "dm_pages dm i =
     (if unat i * PAGE_SIZE + PAGE_SIZE \<le> length (dm_file dm)
      then Some (slice (dm_file dm) (unat i * PAGE_SIZE) PAGE_SIZE) else None)"

lemma page_range: "unat (i :: u32) * 4096 + 4096 \<le> unat n * 4096 \<longleftrightarrow> i < (n :: u32)"
  unfolding word_less_nat_alt by arith

lemma file_write_wr: "off + length bs \<le> length f \<Longrightarrow> file_write f off bs = wr f off bs"
  by (simp add: file_write_def wr_def)

lemma slice_append_first: "i + n \<le> length f \<Longrightarrow> slice (f @ g) i n = slice f i n"
  by (simp add: slice_def)

lemma dm_read_hit:
  "dm_pages dm i = Some b \<Longrightarrow> dm_read_page i dm = (Inr (page_from_bytes i b), dm)"
  by (auto simp: dm_pages_def dm_read_page_def file_read_exact_def split: if_splits)

lemma dm_read_miss:
  "dm_pages dm i = None \<Longrightarrow> dm_read_page i dm = (Inl (Err (Io UnexpectedEof)), dm)"
  by (auto simp: dm_pages_def dm_read_page_def file_read_exact_def split: if_splits)

lemma dm_write_ok:
  assumes "dm_inv dm" and "page_wf p" and "pg_id p < dm_num_pages dm"
  shows "\<exists>dm'. dm_write_page p dm = (Inr (), dm') \<and> dm_inv dm'
    \<and> dm_num_pages dm' = dm_num_pages dm \<and> dm_pages dm' = (dm_pages dm)(pg_id p \<mapsto> pg_data p)"
proof -
  let ?off = "unat (pg_id p) * PAGE_SIZE"
  let ?f = "wr (dm_file dm) ?off (pg_data p)"
  have fits: "?off + length (pg_data p) \<le> length (dm_file dm)"
    using assms page_range [of "pg_id p" "dm_num_pages dm"]
    by (simp add: dm_inv_def page_wf_def)
  have slot: "slice ?f (unat i * 4096) 4096
      = (if i = pg_id p then pg_data p else slice (dm_file dm) (unat i * 4096) 4096)"
    if "unat i * 4096 + 4096 \<le> length (dm_file dm)" for i
  proof (cases "i = pg_id p")
    case True
    then show ?thesis using fits assms(2) by (simp add: page_wf_def)
  next
    case False
    then have "unat i \<noteq> unat (pg_id p)" by (simp add: word_unat_eq_iff)
    then have "unat i * 4096 + 4096 \<le> unat (pg_id p) * 4096
        \<or> unat (pg_id p) * 4096 + 4096 \<le> unat i * 4096" by linarith
    then show ?thesis
      using False fits that assms(2) by (auto simp: page_wf_def intro!: slice_wr_other)
  qed
  have "dm_pages (dm\<lparr>dm_file := ?f\<rparr>) = (dm_pages dm)(pg_id p \<mapsto> pg_data p)"
    using fits slot assms(2) by (auto simp: dm_pages_def fun_eq_iff page_wf_def)
  then show ?thesis
    using fits assms(1) by (simp add: dm_write_page_def dm_inv_def file_write_wr)
qed

lemma dm_allocate_ok:
  assumes "dm_inv dm" and "dm_num_pages dm \<noteq> 0xFFFFFFFF"
  shows "\<exists>dm'. dm_allocate_page dm = (Inr (dm_num_pages dm), dm') \<and> dm_inv dm'
    \<and> dm_num_pages dm' = dm_num_pages dm + 1
    \<and> dm_pages dm' = (dm_pages dm)(dm_num_pages dm \<mapsto> replicate PAGE_SIZE 0)"
proof -
  let ?n = "dm_num_pages dm"
  let ?f = "dm_file dm @ replicate 4096 0"
  have len: "length (dm_file dm) = unat ?n * 4096" using assms(1) by (simp add: dm_inv_def)
  have "1 + ?n \<noteq> 0"
  proof
    assume "1 + ?n = 0"
    then have "?n = - 1" by (simp add: add_eq_0_iff)
    with assms(2) show False by simp
  qed
  then have inc: "unat (?n + 1) = unat ?n + 1" by (simp add: unatSuc add.commute)
  have "replicate (4095 :: nat) (0 :: u8) @ [0] = replicate (Suc 4095) 0"
    by (simp only: replicate_append_same replicate_Suc)
  then have grown: "file_write (dm_file dm) ((unat ?n + 1) * 4096 - 1) [0] = ?f"
    by (simp add: file_write_def len)
  have old: "slice ?f (unat i * 4096) 4096 = slice (dm_file dm) (unat i * 4096) 4096"
    if "i < ?n" for i
    using that len by (intro slice_append_first) (simp add: word_less_nat_alt)
  have new: "slice ?f (unat ?n * 4096) 4096 = replicate 4096 0"
    using len by (simp add: slice_def)
  have upto: "i < ?n \<or> i = ?n \<longleftrightarrow> unat i < Suc (unat ?n)" for i
    by (auto simp: word_less_nat_alt word_unat_eq_iff)
  have "dm_pages (dm\<lparr>dm_num_pages := ?n + 1, dm_file := ?f\<rparr>) = (dm_pages dm)(?n \<mapsto> replicate PAGE_SIZE 0)"
  proof
    fix i
    show "dm_pages (dm\<lparr>dm_num_pages := ?n + 1, dm_file := ?f\<rparr>) i
        = ((dm_pages dm)(?n \<mapsto> replicate PAGE_SIZE 0)) i"
    proof (cases "i = ?n")
      case True
      then show ?thesis using len new by (simp add: dm_pages_def)
    next
      case False
      with upto [of i] show ?thesis
        using len old [of i] by (auto simp: dm_pages_def word_less_nat_alt)
    qed
  qed
  then show ?thesis
    using len inc by (simp add: dm_allocate_page_def dm_inv_def Let_def grown [simplified])
qed

interpretation disk: block_store dm_read_page dm_write_page dm_allocate_page dm_num_pages dm_pages dm_inv
proof (unfold_locales, goal_cases)
  case (1 d i)
  then show ?case using page_range [of i "dm_num_pages d"] by (simp add: dm_pages_def dm_inv_def)
next
  case (2 d i b)
  then show ?case by (auto simp: dm_pages_def split: if_splits)
next
  case (6 d)
  then show ?case by (rule dm_allocate_ok)
qed (simp_all add: dm_read_hit dm_read_miss dm_write_ok)

lemma dm_inv_open_empty [simp]: "dm_inv (dm_open path [])" "dm_num_pages (dm_open path []) = 0"
  by (simp_all add: dm_open_def dm_inv_def)

lemma dm_open_inv:
  assumes "length f = n * PAGE_SIZE" and "n < 2 ^ 32"
  shows "dm_inv (dm_open path f)" and "unat (dm_num_pages (dm_open path f)) = n"
  using assms by (auto simp: dm_open_def dm_inv_def Let_def unsigned_of_nat take_bit_nat_eq_self)

lemma dm_allocate_first:
  "dm_allocate_page (dm_open path []) = (r, d) \<Longrightarrow> dm_inv d \<and> dm_num_pages d = 1"
  using dm_allocate_ok [of "dm_open path []"] by auto

section \<open>Properties\<close>

text \<open>
  Writing a page of an intact database file succeeds, keeps the file intact, makes the
  page read back with the written bytes, and leaves what every other page id reads as it was.
\<close>

theorem disk_read_after_write:
  assumes "dm_inv dm" and "page_wf p" and "pg_id p < dm_num_pages dm"
    and "dm_write_page p dm = (r, dm')"
  shows "r = Inr () \<and> dm_inv dm'
    \<and> dm_read_page (pg_id p) dm' = (Inr (page_from_bytes (pg_id p) (pg_data p)), dm')
    \<and> (\<forall>i. i \<noteq> pg_id p \<longrightarrow> fst (dm_read_page i dm') = fst (dm_read_page i dm))"
  using dm_write_ok [OF assms(1-3)] assms(4) disk.read_after_write [OF assms]
    disk.read_other_after_write [OF assms] by auto

text \<open>
  Allocating a page of an intact database file that is not at the limit of page ids
  returns the previous page count as the new id, keeps the file intact, makes the new page
  read as zeros, and leaves what every smaller page id reads as it was.
\<close>

theorem disk_allocate_fresh:
  assumes "dm_inv dm" and "dm_num_pages dm \<noteq> 0xFFFFFFFF" and "dm_allocate_page dm = (r, dm')"
  shows "r = Inr (dm_num_pages dm) \<and> dm_inv dm' \<and> dm_num_pages dm' = dm_num_pages dm + 1
    \<and> dm_read_page (dm_num_pages dm) dm'
        = (Inr (page_from_bytes (dm_num_pages dm) (replicate PAGE_SIZE 0)), dm')
    \<and> (\<forall>i. i < dm_num_pages dm \<longrightarrow> fst (dm_read_page i dm') = fst (dm_read_page i dm))"
proof -
  let ?n = "dm_num_pages dm"
  from dm_allocate_ok [OF assms(1,2)] assms(3)
  have a: "r = Inr ?n" "dm_inv dm'" "dm_num_pages dm' = ?n + 1"
      "dm_pages dm' = (dm_pages dm)(?n \<mapsto> replicate PAGE_SIZE 0)" by auto
  have "fst (dm_read_page i dm') = fst (dm_read_page i dm)" if "i < ?n" for i
  proof -
    from that assms(1) disk.pages_dom obtain b where b: "dm_pages dm i = Some b" by blast
    moreover from that b a(4) have "dm_pages dm' i = Some b" by auto
    ultimately show ?thesis by (simp add: dm_read_hit)
  qed
  with a show ?thesis by (simp add: dm_read_hit)
qed

end
