(* ===== verification/Pool.thy ===== *)
theory Pool
  imports Disk
begin

text \<open>
  The buffer pool of \<^verbatim>\<open>src/src/buffer/pool.rs\<close>: a fixed number of frames in front of
  the disk manager, a page table, a free list and CLOCK eviction. A reference into the pool is
  the index of the frame it points to: \<^verbatim>\<open>fetch_page\<close> and \<^verbatim>\<open>fetch_page_mut\<close> return
  it, and what the caller does through the reference is \<open>bp_page_at\<close> or \<open>bp_update_page\<close>.
  Pin counts are 32-bit words that wrap, as in a release build.

  The main loop of \<^verbatim>\<open>get_free_frame\<close> runs until the clock hand is back at its start;
  the model gives it \<open>bp_capacity\<close> steps, and \<open>get_free_frame_ok\<close> shows that this is
  always enough. The view of a pool is the map from page ids to page contents that a reader
  observes, the cached copy before the one on disk; the operations are specified by what they
  do to the view, to the pinned frames and to the free frames.
\<close>

section \<open>The code\<close>

record buffer_frame =
  bf_page :: page
  bf_pin_count :: u32
  bf_dirty :: bool
  bf_ref_bit :: bool

record buffer_pool =
  bp_frames :: "buffer_frame option list"
  bp_page_table :: "page_id \<rightharpoonup> nat"
  bp_free_list :: "nat list"
  bp_clock_hand :: nat
  bp_capacity :: nat
  bp_disk :: disk_manager

definition bp_new :: "disk_manager \<Rightarrow> nat \<Rightarrow> buffer_pool" where
  "bp_new disk capacity =
     \<lparr>bp_frames = replicate capacity None, bp_page_table = Map.empty, bp_free_list = [0..<capacity],
      bp_clock_hand = 0, bp_capacity = capacity, bp_disk = disk\<rparr>"

text \<open>Running a disk operation on the disk manager inside the pool.\<close>

definition on_disk :: "(disk_manager, 'a) op \<Rightarrow> (buffer_pool, 'a) op" where
  "on_disk m bp = (case m (bp_disk bp) of (r, d) \<Rightarrow> (r, bp\<lparr>bp_disk := d\<rparr>))"

text \<open>\<^verbatim>\<open>self.frames[idx]\<close>, and the same with \<^verbatim>\<open>.unwrap()\<close>.\<close>

definition frame_at :: "nat \<Rightarrow> (buffer_pool, buffer_frame option) op" where
  "frame_at idx bp = (if idx < length (bp_frames bp) then Inr (bp_frames bp ! idx) else Inl Panic, bp)"

definition frame_unwrap :: "nat \<Rightarrow> (buffer_pool, buffer_frame) op" where
  "frame_unwrap idx = bindS (frame_at idx) (\<lambda>f. case f of None \<Rightarrow> failS Panic | Some fr \<Rightarrow> retS fr)"

definition set_frame :: "nat \<Rightarrow> buffer_frame option \<Rightarrow> (buffer_pool, unit) op" where
  "set_frame idx f bp =
     (if idx < length (bp_frames bp) then (Inr (), bp\<lparr>bp_frames := (bp_frames bp)[idx := f]\<rparr>)
      else (Inl Panic, bp))"

definition advance_hand :: "(buffer_pool, unit) op" where
  "advance_hand bp =
     (if bp_capacity bp = 0 then (Inl Panic, bp)
      else (Inr (), bp\<lparr>bp_clock_hand := (bp_clock_hand bp + 1) mod bp_capacity bp\<rparr>))"

text \<open>The eviction of the frame under the clock hand, the same code in both passes.\<close>

definition evict_frame :: "buffer_frame \<Rightarrow> (buffer_pool, nat) op" where
  "evict_frame frame =
     (let evicted_page_id = pg_id (bf_page frame)
      in bindS (if bf_dirty frame then on_disk (dm_write_page (bf_page frame)) else retS ()) (\<lambda>_.
         bindS (\<lambda>bp. (Inr (bp_clock_hand bp),
                      bp\<lparr>bp_page_table := (bp_page_table bp)(evicted_page_id := None)\<rparr>)) (\<lambda>idx.
         bindS (set_frame idx None) (\<lambda>_.
         bindS advance_hand (\<lambda>_. retS idx)))))"

fun final_pass :: "nat \<Rightarrow> (buffer_pool, nat) op" where
  "final_pass 0 bp = (Inl (Err BufferPoolFull), bp)"
| "final_pass (Suc n) bp =
     bindS (frame_at (bp_clock_hand bp)) (\<lambda>f.
       case f of
         None \<Rightarrow> bindS advance_hand (\<lambda>_. final_pass n)
       | Some frame \<Rightarrow>
           if bf_pin_count frame = 0 then evict_frame frame
           else bindS advance_hand (\<lambda>_. final_pass n)) bp"

fun clock_loop :: "nat \<Rightarrow> nat \<Rightarrow> (buffer_pool, nat) op" where
  "clock_loop 0 start bp = (Inl OutOfFuel, bp)"
| "clock_loop (Suc fuel) start bp =
     bindS (frame_at (bp_clock_hand bp)) (\<lambda>f.
       let next = bindS advance_hand (\<lambda>_ bp.
             if bp_clock_hand bp = start then final_pass (bp_capacity bp) bp
             else clock_loop fuel start bp)
       in case f of
            None \<Rightarrow> next
          | Some frame \<Rightarrow>
              if bf_pin_count frame = 0 then
                if \<not> bf_ref_bit frame then evict_frame frame
                else bindS (set_frame (bp_clock_hand bp) (Some (frame\<lparr>bf_ref_bit := False\<rparr>))) (\<lambda>_. next)
              else next) bp"

definition get_free_frame :: "(buffer_pool, nat) op" where
  "get_free_frame bp =
     (case bp_free_list bp of
        idx # rest \<Rightarrow> (Inr idx, bp\<lparr>bp_free_list := rest\<rparr>)
      | [] \<Rightarrow> clock_loop (bp_capacity bp) (bp_clock_hand bp) bp)"

text \<open>Putting a page into a frame and into the page table.\<close>

definition install_frame :: "nat \<Rightarrow> page_id \<Rightarrow> buffer_frame \<Rightarrow> (buffer_pool, unit) op" where
  "install_frame frame_idx pid frame =
     bindS (set_frame frame_idx (Some frame)) (\<lambda>_ bp.
       (Inr (), bp\<lparr>bp_page_table := (bp_page_table bp)(pid \<mapsto> frame_idx)\<rparr>))"

definition bp_fetch_page :: "page_id \<Rightarrow> (buffer_pool, nat) op" where
  "bp_fetch_page pid bp =
     (case bp_page_table bp pid of
        Some frame_idx \<Rightarrow>
          bindS (frame_unwrap frame_idx) (\<lambda>frame.
          bindS (set_frame frame_idx
                  (Some (frame\<lparr>bf_pin_count := bf_pin_count frame + 1, bf_ref_bit := True\<rparr>))) (\<lambda>_.
          retS frame_idx)) bp
      | None \<Rightarrow>
          bindS get_free_frame (\<lambda>frame_idx.
          bindS (on_disk (dm_read_page pid)) (\<lambda>page.
          bindS (install_frame frame_idx pid
                  \<lparr>bf_page = page, bf_pin_count = 1, bf_dirty = False, bf_ref_bit = True\<rparr>) (\<lambda>_.
          retS frame_idx))) bp)"

definition bp_fetch_page_mut :: "page_id \<Rightarrow> (buffer_pool, nat) op" where
  "bp_fetch_page_mut pid =
     bindS (\<lambda>bp.
       if bp_page_table bp pid = None then
         bindS get_free_frame (\<lambda>frame_idx.
         bindS (on_disk (dm_read_page pid)) (\<lambda>page.
         install_frame frame_idx pid
           \<lparr>bf_page = page, bf_pin_count = 0, bf_dirty = False, bf_ref_bit = True\<rparr>)) bp
       else (Inr (), bp)) (\<lambda>_ bp.
     case bp_page_table bp pid of
       None \<Rightarrow> (Inl Panic, bp)
     | Some frame_idx \<Rightarrow>
         bindS (frame_unwrap frame_idx) (\<lambda>frame.
         bindS (set_frame frame_idx
                 (Some (frame\<lparr>bf_pin_count := bf_pin_count frame + 1, bf_dirty := True, bf_ref_bit := True\<rparr>))) (\<lambda>_.
         retS frame_idx)) bp)"

text \<open>Reading and writing through the reference that a fetch returned.\<close>

definition bp_page_at :: "nat \<Rightarrow> (buffer_pool, page) op" where
  "bp_page_at idx = bindS (frame_unwrap idx) (\<lambda>frame. retS (bf_page frame))"

definition bp_update_page :: "nat \<Rightarrow> (page \<Rightarrow> page) \<Rightarrow> (buffer_pool, unit) op" where
  "bp_update_page idx f =
     bindS (frame_unwrap idx) (\<lambda>frame. set_frame idx (Some (frame\<lparr>bf_page := f (bf_page frame)\<rparr>)))"

definition bp_unpin_page :: "page_id \<Rightarrow> bool \<Rightarrow> (buffer_pool, unit) op" where
  "bp_unpin_page pid dirty bp =
     (case bp_page_table bp pid of
        Some frame_idx \<Rightarrow>
          bindS (frame_unwrap frame_idx) (\<lambda>frame.
            set_frame frame_idx
              (Some (frame\<lparr>bf_pin_count := (if bf_pin_count frame > 0 then bf_pin_count frame - 1
                                           else bf_pin_count frame),
                          bf_dirty := (dirty \<or> bf_dirty frame)\<rparr>))) bp
      | None \<Rightarrow> (Inl (Err (PageNotFound pid)), bp))"

definition bp_new_page :: "(buffer_pool, page_id) op" where
  "bp_new_page =
     bindS (on_disk dm_allocate_page) (\<lambda>pid.
     bindS get_free_frame (\<lambda>frame_idx.
     bindS (install_frame frame_idx pid
             \<lparr>bf_page = page_new pid, bf_pin_count = 1, bf_dirty = True, bf_ref_bit = True\<rparr>) (\<lambda>_.
     retS pid)))"

definition bp_flush_page :: "page_id \<Rightarrow> (buffer_pool, unit) op" where
  "bp_flush_page pid bp =
     (case bp_page_table bp pid of
        Some frame_idx \<Rightarrow>
          bindS (frame_unwrap frame_idx) (\<lambda>frame.
            if bf_dirty frame then
              bindS (on_disk (dm_write_page (bf_page frame))) (\<lambda>_.
              set_frame frame_idx (Some (frame\<lparr>bf_dirty := False\<rparr>)))
            else retS ()) bp
      | None \<Rightarrow> (Inr (), bp))"

definition flush_frame :: "nat \<Rightarrow> (buffer_pool, unit) op" where
  "flush_frame i =
     bindS (frame_at i) (\<lambda>f.
       case f of
         None \<Rightarrow> retS ()
       | Some frame \<Rightarrow>
           bindS (if bf_dirty frame then on_disk (dm_write_page (bf_page frame)) else retS ()) (\<lambda>_.
           set_frame i (Some (frame\<lparr>bf_dirty := False\<rparr>))))"

text \<open>The steps of \<^verbatim>\<open>flush_all\<close>, one for each frame.\<close>

definition flush_steps :: "buffer_pool \<Rightarrow> (buffer_pool, unit) op list" where
  "flush_steps bp = map flush_frame [0..<bp_capacity bp] @ [on_disk dm_sync]"

definition bp_flush_all :: "(buffer_pool, unit) op" where
  "bp_flush_all bp = runS (flush_steps bp) bp"

record buffer_pool_stats =
  bs_capacity :: nat
  bs_occupied :: nat
  bs_pinned :: nat
  bs_dirty :: nat
  bs_free :: nat

definition bp_stats :: "buffer_pool \<Rightarrow> buffer_pool_stats" where
  "bp_stats bp =
     (let fs = List.map_filter id (bp_frames bp)
      in \<lparr>bs_capacity = bp_capacity bp, bs_occupied = length fs,
          bs_pinned = length (filter (\<lambda>f. bf_pin_count f > 0) fs),
          bs_dirty = length (filter bf_dirty fs), bs_free = length (bp_free_list bp)\<rparr>)"

section \<open>Invariant and view\<close>

definition frame_ok :: "disk_manager \<Rightarrow> buffer_frame \<Rightarrow> bool" where
  "frame_ok d fr \<longleftrightarrow> page_wf (bf_page fr) \<and> pg_id (bf_page fr) < dm_num_pages d
     \<and> (bf_dirty fr \<or> dm_pages d (pg_id (bf_page fr)) = Some (pg_data (bf_page fr)))"

definition pool_inv :: "buffer_pool \<Rightarrow> bool" where
  "pool_inv bp \<longleftrightarrow> dm_inv (bp_disk bp) \<and> length (bp_frames bp) = bp_capacity bp
     \<and> bp_clock_hand bp < bp_capacity bp
     \<and> (\<forall>pid i. bp_page_table bp pid = Some i \<longleftrightarrow>
          i < bp_capacity bp \<and> (\<exists>fr. bp_frames bp ! i = Some fr \<and> pg_id (bf_page fr) = pid))
     \<and> (\<forall>i < bp_capacity bp. \<forall>fr. bp_frames bp ! i = Some fr \<longrightarrow> frame_ok (bp_disk bp) fr)
     \<and> distinct (bp_free_list bp)
     \<and> (\<forall>i \<in> set (bp_free_list bp). i < bp_capacity bp \<and> bp_frames bp ! i = None)"

definition bp_view :: "buffer_pool \<Rightarrow> page_id \<rightharpoonup> bytes" where
  "bp_view bp pid = (case bp_page_table bp pid of
     None \<Rightarrow> dm_pages (bp_disk bp) pid
   | Some i \<Rightarrow> map_option (\<lambda>fr. pg_data (bf_page fr)) (bp_frames bp ! i))"

text \<open>Frames that hold no page. Without a leak all of them are on the free list.\<close>

definition unused :: "buffer_pool \<Rightarrow> nat set" where
  "unused bp = {i. i < bp_capacity bp \<and> bp_frames bp ! i = None}"

definition no_leak :: "buffer_pool \<Rightarrow> bool" where
  "no_leak bp \<longleftrightarrow> set (bp_free_list bp) = unused bp"

definition evictable :: "buffer_frame option \<Rightarrow> bool" where
  "evictable f \<longleftrightarrow> (\<exists>fr. f = Some fr \<and> bf_pin_count fr = 0)"

definition available :: "buffer_pool \<Rightarrow> bool" where
  "available bp \<longleftrightarrow> bp_free_list bp \<noteq> [] \<or> (\<exists>i < bp_capacity bp. evictable (bp_frames bp ! i))"

text \<open>What the clock may do to a frame it passes: clear the reference bit of an unpinned frame.\<close>

fun passed :: "buffer_frame option \<Rightarrow> buffer_frame option \<Rightarrow> bool" where
  "passed None g = (g = None)"
| "passed (Some a) g = (g = Some a \<or> bf_pin_count a = 0 \<and> g = Some (a\<lparr>bf_ref_bit := False\<rparr>))"

lemma passed_refl [simp]: "passed f f"
  by (cases f) auto

lemma passed_trans: "passed f g \<Longrightarrow> passed g h \<Longrightarrow> passed f h"
  by (cases f) auto

lemma passed_Some: "passed f (Some b) \<Longrightarrow> \<exists>a. f = Some a \<and> bf_page b = bf_page a
    \<and> bf_pin_count b = bf_pin_count a \<and> bf_dirty b = bf_dirty a"
  by (cases f) auto

lemma passed_None [simp]: "passed f None \<longleftrightarrow> f = None"
  by (cases f) auto

lemma passed_pinned: "passed (Some a) g \<Longrightarrow> bf_pin_count a \<noteq> 0 \<Longrightarrow> g = Some a"
  by auto

lemma passed_evictable: "passed f g \<Longrightarrow> evictable g \<longleftrightarrow> evictable f"
  by (cases f) (auto simp: evictable_def)

lemma pool_inv_frame:
  assumes "pool_inv bp" and "i < bp_capacity bp" and "bp_frames bp ! i = Some fr"
  shows "frame_ok (bp_disk bp) fr" and "bp_page_table bp (pg_id (bf_page fr)) = Some i"
  using assms by (auto simp: pool_inv_def)

lemma pool_inv_table:
  assumes "pool_inv bp" and "bp_page_table bp pid = Some i"
  obtains fr where "i < bp_capacity bp" "bp_frames bp ! i = Some fr" "pg_id (bf_page fr) = pid"
    "frame_ok (bp_disk bp) fr" "i < length (bp_frames bp)"
  using assms by (auto simp: pool_inv_def)

lemma bp_view_uncached: "bp_page_table bp pid = None \<Longrightarrow> bp_view bp pid = dm_pages (bp_disk bp) pid"
  by (simp add: bp_view_def)

lemma bp_view_cached:
  "bp_page_table bp pid = Some i \<Longrightarrow> bp_frames bp ! i = Some fr \<Longrightarrow> bp_view bp pid = Some (pg_data (bf_page fr))"
  by (simp add: bp_view_def)

lemma bp_view_dom: "pool_inv bp \<Longrightarrow> bp_view bp pid \<noteq> None \<longleftrightarrow> pid < dm_num_pages (bp_disk bp)"
proof (cases "bp_page_table bp pid")
  case None
  assume "pool_inv bp"
  then show ?thesis using None disk.pages_dom [of "bp_disk bp" pid] by (simp add: bp_view_def pool_inv_def)
next
  case (Some i)
  assume "pool_inv bp"
  from pool_inv_table [OF this Some] obtain fr where "bp_frames bp ! i = Some fr" "pg_id (bf_page fr) = pid"
    "frame_ok (bp_disk bp) fr" .
  with Some show ?thesis by (simp add: bp_view_def frame_ok_def)
qed

lemma bp_view_length: "pool_inv bp \<Longrightarrow> bp_view bp pid = Some b \<Longrightarrow> length b = PAGE_SIZE"
proof (cases "bp_page_table bp pid")
  case None
  assume "pool_inv bp" "bp_view bp pid = Some b"
  then show ?thesis
    using None disk.pages_length [of "bp_disk bp" pid b] by (simp add: bp_view_def pool_inv_def)
next
  case (Some i)
  assume inv: "pool_inv bp" and b: "bp_view bp pid = Some b"
  from pool_inv_table [OF inv Some] obtain fr where "bp_frames bp ! i = Some fr" "frame_ok (bp_disk bp) fr" .
  with Some b show ?thesis by (auto simp: bp_view_def frame_ok_def page_wf_def)
qed

section \<open>Finding a free frame\<close>

text \<open>
  The contract of \<^verbatim>\<open>get_free_frame\<close>: the pool afterwards holds the same view, the frame
  it hands out is empty and on no list, and every other frame is as before up to the reference
  bit of unpinned frames; the frame handed out was empty or unpinned.
\<close>

text \<open>The pages on disk afterwards are those before, or the current ones.\<close>

definition spills :: "buffer_pool \<Rightarrow> buffer_pool \<Rightarrow> bool" where
  "spills bp bp' \<longleftrightarrow> (\<forall>p. dm_pages (bp_disk bp') p = dm_pages (bp_disk bp) p \<or> dm_pages (bp_disk bp') p = bp_view bp p)"

definition got :: "buffer_pool \<Rightarrow> nat \<Rightarrow> buffer_pool \<Rightarrow> bool" where
  "got bp idx bp' \<longleftrightarrow> pool_inv bp' \<and> bp_view bp' = bp_view bp \<and> bp_capacity bp' = bp_capacity bp
     \<and> dm_num_pages (bp_disk bp') = dm_num_pages (bp_disk bp)
     \<and> idx < bp_capacity bp \<and> bp_frames bp' ! idx = None
     \<and> idx \<notin> set (bp_free_list bp') \<and> set (bp_free_list bp') = set (bp_free_list bp) - {idx}
     \<and> (\<forall>i < bp_capacity bp. i \<noteq> idx \<longrightarrow> passed (bp_frames bp ! i) (bp_frames bp' ! i))
     \<and> (bp_frames bp ! idx = None \<or> evictable (bp_frames bp ! idx)) \<and> spills bp bp'"

text \<open>A pool in which the clock has moved on, some reference bits cleared.\<close>

definition ticked :: "buffer_pool \<Rightarrow> buffer_pool \<Rightarrow> bool" where
  "ticked bp bp' \<longleftrightarrow> (\<exists>h fs. bp' = bp\<lparr>bp_frames := fs, bp_clock_hand := h\<rparr> \<and> h < bp_capacity bp
     \<and> length fs = bp_capacity bp \<and> (\<forall>i < bp_capacity bp. passed (bp_frames bp ! i) (fs ! i)))"

lemma ticked_simps:
  assumes "ticked bp bp'"
  shows "bp_capacity bp' = bp_capacity bp" "bp_disk bp' = bp_disk bp" "bp_free_list bp' = bp_free_list bp"
    "bp_page_table bp' = bp_page_table bp"
    "i < bp_capacity bp \<Longrightarrow> passed (bp_frames bp ! i) (bp_frames bp' ! i)"
  using assms by (auto simp: ticked_def)

lemma passed_page:
  assumes "passed f g"
  shows "(\<exists>fr. g = Some fr \<and> P (bf_page fr)) \<longleftrightarrow> (\<exists>fr. f = Some fr \<and> P (bf_page fr))"
  using assms by (cases f) auto

lemma ticked_inv:
  assumes inv: "pool_inv bp" and t: "ticked bp bp'"
  shows "pool_inv bp'" and "bp_view bp' = bp_view bp"
proof -
  from t obtain h fs where bp': "bp' = bp\<lparr>bp_frames := fs, bp_clock_hand := h\<rparr>" "h < bp_capacity bp"
    "length fs = bp_capacity bp" and p: "\<And>i. i < bp_capacity bp \<Longrightarrow> passed (bp_frames bp ! i) (fs ! i)"
    by (auto simp: ticked_def)
  have ok: "frame_ok (bp_disk bp) fr" if "i < bp_capacity bp" "fs ! i = Some fr" for i fr
  proof -
    from passed_Some [of "bp_frames bp ! i" fr] p [OF that(1)] that(2) obtain a where
      "bp_frames bp ! i = Some a" "bf_page fr = bf_page a" "bf_dirty fr = bf_dirty a" by auto
    with pool_inv_frame(1) [OF inv that(1)] show ?thesis by (simp add: frame_ok_def)
  qed
  have pid: "(\<exists>fr. fs ! i = Some fr \<and> pg_id (bf_page fr) = pid)
      \<longleftrightarrow> (\<exists>fr. bp_frames bp ! i = Some fr \<and> pg_id (bf_page fr) = pid)" if "i < bp_capacity bp" for i pid
    using passed_page [OF p [OF that], of "\<lambda>x. pg_id x = pid"] .
  have none: "fs ! i = None \<longleftrightarrow> bp_frames bp ! i = None" if "i < bp_capacity bp" for i
    using p [OF that] by (cases "bp_frames bp ! i") auto
  show "pool_inv bp'"
    unfolding pool_inv_def using inv ok pid none by (simp add: bp' pool_inv_def) blast
  show "bp_view bp' = bp_view bp"
  proof
    fix pid
    show "bp_view bp' pid = bp_view bp pid"
    proof (cases "bp_page_table bp pid")
      case (Some i)
      then have i: "i < bp_capacity bp" using inv by (simp add: pool_inv_def)
      from p [OF i] Some show ?thesis by (cases "bp_frames bp ! i") (auto simp: bp_view_def bp')
    qed (simp add: bp_view_def bp')
  qed
qed

lemma ticked_got:
  assumes t: "ticked bp bp1" and g: "got bp1 idx bp'" and inv: "pool_inv bp"
  shows "got bp idx bp'"
proof -
  note s = ticked_simps [OF t]
  have "passed (bp_frames bp ! i) (bp_frames bp' ! i)" if "i < bp_capacity bp" "i \<noteq> idx" for i
    using passed_trans [OF s(5) [OF that(1)]] g that s(1) by (simp add: got_def)
  moreover have "bp_frames bp ! idx = None \<or> evictable (bp_frames bp ! idx)"
    using g s(1) s(5) [of idx] passed_evictable [OF s(5) [of idx]] by (auto simp: got_def)
  ultimately show ?thesis
    using g s(1-3) ticked_inv(2) [OF inv t] by (simp add: got_def spills_def)
qed

lemma ticked_hand: "pool_inv bp \<Longrightarrow> h < bp_capacity bp \<Longrightarrow> ticked bp (bp\<lparr>bp_clock_hand := h\<rparr>)"
  by (auto simp: ticked_def pool_inv_def intro!: exI [of _ "bp_frames bp"])

lemma ticked_step:
  assumes "pool_inv bp" and "bp_frames bp ! bp_clock_hand bp = Some fr" and "bf_pin_count fr = 0"
    and "h < bp_capacity bp"
  shows "ticked bp (bp\<lparr>bp_frames := (bp_frames bp)[bp_clock_hand bp := Some (fr\<lparr>bf_ref_bit := False\<rparr>)],
                      bp_clock_hand := h\<rparr>)"
  unfolding ticked_def
  by (rule exI [of _ h], rule exI [of _ "(bp_frames bp)[bp_clock_hand bp := Some (fr\<lparr>bf_ref_bit := False\<rparr>)]"])
    (use assms in \<open>auto simp: pool_inv_def nth_list_update\<close>)

lemma advance_hand_ok:
  "pool_inv bp \<Longrightarrow> advance_hand bp = (Inr (), bp\<lparr>bp_clock_hand := Suc (bp_clock_hand bp) mod bp_capacity bp\<rparr>)"
  by (auto simp: advance_hand_def pool_inv_def)

lemma frame_at_ok: "pool_inv bp \<Longrightarrow> i < bp_capacity bp \<Longrightarrow> frame_at i bp = (Inr (bp_frames bp ! i), bp)"
  by (simp add: frame_at_def pool_inv_def)

text \<open>Writing a frame's page to disk: the view is the same, all other clean frames stay clean.\<close>

lemma write_back_ok:
  assumes inv: "pool_inv bp" and i: "i < bp_capacity bp" "bp_frames bp ! i = Some fr"
  obtains d where "dm_write_page (bf_page fr) (bp_disk bp) = (Inr (), d)" "dm_inv d"
    "dm_num_pages d = dm_num_pages (bp_disk bp)"
    "dm_pages d = (dm_pages (bp_disk bp))(pg_id (bf_page fr) \<mapsto> pg_data (bf_page fr))"
    "\<And>j g. j < bp_capacity bp \<Longrightarrow> bp_frames bp ! j = Some g \<Longrightarrow> frame_ok d g"
    "frame_ok d (fr\<lparr>bf_dirty := False\<rparr>)"
proof -
  have fr: "frame_ok (bp_disk bp) fr" using pool_inv_frame(1) [OF inv i] .
  then have "dm_inv (bp_disk bp)" "page_wf (bf_page fr)" "pg_id (bf_page fr) < dm_num_pages (bp_disk bp)"
    using inv by (simp_all add: pool_inv_def frame_ok_def)
  from dm_write_ok [OF this] obtain d where
    d: "dm_write_page (bf_page fr) (bp_disk bp) = (Inr (), d)" "dm_inv d"
      "dm_num_pages d = dm_num_pages (bp_disk bp)"
      "dm_pages d = (dm_pages (bp_disk bp))(pg_id (bf_page fr) \<mapsto> pg_data (bf_page fr))" by blast
  have "frame_ok d g" if j: "j < bp_capacity bp" "bp_frames bp ! j = Some g" for j g
  proof (cases "j = i")
    case True
    with j i fr d show ?thesis by (simp add: frame_ok_def)
  next
    case False
    have "pg_id (bf_page g) \<noteq> pg_id (bf_page fr)"
    proof
      assume "pg_id (bf_page g) = pg_id (bf_page fr)"
      with pool_inv_frame(2) [OF inv i] pool_inv_frame(2) [OF inv j] False show False by simp
    qed
    with pool_inv_frame(1) [OF inv j] d show ?thesis by (simp add: frame_ok_def)
  qed
  moreover have "frame_ok d (fr\<lparr>bf_dirty := False\<rparr>)" using fr d by (simp add: frame_ok_def)
  ultimately show thesis using that d by blast
qed

lemma drop_frame_inv:
  assumes inv: "pool_inv bp" and i: "i < bp_capacity bp" "bp_frames bp ! i = Some fr"
    and d: "dm_inv d" "dm_num_pages d = dm_num_pages (bp_disk bp)"
      "dm_pages d = (dm_pages (bp_disk bp))(pg_id (bf_page fr) \<mapsto> pg_data (bf_page fr))"
      "\<forall>j < bp_capacity bp. \<forall>g. bp_frames bp ! j = Some g \<longrightarrow> frame_ok d g"
    and h: "h < bp_capacity bp"
  defines "bp' \<equiv> bp\<lparr>bp_disk := d, bp_page_table := (bp_page_table bp)(pg_id (bf_page fr) := None),
                    bp_frames := (bp_frames bp)[i := None], bp_clock_hand := h\<rparr>"
  shows "pool_inv bp'" and "bp_view bp' = bp_view bp"
proof -
  have len: "length (bp_frames bp) = bp_capacity bp" using inv by (simp add: pool_inv_def)
  have uniq: "j = i" if "j < bp_capacity bp" "bp_frames bp ! j = Some g"
    "pg_id (bf_page g) = pg_id (bf_page fr)" for j g
    using pool_inv_frame(2) [OF inv i] pool_inv_frame(2) [OF inv that(1,2)] that(3) by simp
  have table: "bp_page_table bp pid = Some j \<longleftrightarrow>
      j < bp_capacity bp \<and> (\<exists>fr. bp_frames bp ! j = Some fr \<and> pg_id (bf_page fr) = pid)" for pid j
    using inv by (simp add: pool_inv_def)
  have free: "distinct (bp_free_list bp)"
    "\<forall>j \<in> set (bp_free_list bp). j < bp_capacity bp \<and> bp_frames bp ! j = None"
    using inv by (simp_all add: pool_inv_def)
  have "bp_page_table bp' pid = Some j \<longleftrightarrow>
      j < bp_capacity bp' \<and> (\<exists>fr. bp_frames bp' ! j = Some fr \<and> pg_id (bf_page fr) = pid)" for pid j
  proof (cases "j = i")
    case True
    have "\<not> (bp_page_table bp pid = Some i \<and> pid \<noteq> pg_id (bf_page fr))" using table [of pid i] i by auto
    with True i len show ?thesis by (auto simp: bp'_def)
  next
    case False
    then have "bp_frames bp' ! j = bp_frames bp ! j" by (simp add: bp'_def)
    moreover have "pid \<noteq> pg_id (bf_page fr)" if "bp_page_table bp pid = Some j"
      using that False table [of pid j] uniq [of j] by blast
    ultimately show ?thesis using table [of pid j] by (auto simp: bp'_def)
  qed
  moreover have "frame_ok (bp_disk bp') g" if "j < bp_capacity bp'" "bp_frames bp' ! j = Some g" for j g
    using that d(4) len by (cases "j = i") (auto simp: bp'_def)
  moreover have "\<forall>j \<in> set (bp_free_list bp'). j < bp_capacity bp' \<and> bp_frames bp' ! j = None"
    using free len i(1) by (auto simp: bp'_def nth_list_update)
  ultimately show "pool_inv bp'"
    unfolding pool_inv_def using d(1) h len free(1) by (simp add: bp'_def)
  show "bp_view bp' = bp_view bp"
  proof
    fix pid
    show "bp_view bp' pid = bp_view bp pid"
    proof (cases "pid = pg_id (bf_page fr)")
      case True
      then show ?thesis using pool_inv_frame(2) [OF inv i] i d(3) by (simp add: bp_view_def bp'_def)
    next
      case False
      show ?thesis
      proof (cases "bp_page_table bp pid")
        case (Some j)
        with False i table [of pid j] have "j \<noteq> i" by auto
        with False Some show ?thesis by (simp add: bp_view_def bp'_def)
      qed (use False d(3) in \<open>simp add: bp_view_def bp'_def\<close>)
    qed
  qed
qed

lemma evict_ok:
  assumes inv: "pool_inv bp" and fr: "bp_frames bp ! bp_clock_hand bp = Some fr" "bf_pin_count fr = 0"
  shows "\<exists>bp'. evict_frame fr bp = (Inr (bp_clock_hand bp), bp') \<and> got bp (bp_clock_hand bp) bp'"
proof -
  let ?i = "bp_clock_hand bp" and ?pid = "pg_id (bf_page fr)"
  let ?h = "Suc ?i mod bp_capacity bp"
  have i: "?i < bp_capacity bp" and len: "length (bp_frames bp) = bp_capacity bp"
    using inv by (simp_all add: pool_inv_def)
  have h: "?h < bp_capacity bp" using i by simp
  have ok: "frame_ok (bp_disk bp) fr" using pool_inv_frame(1) [OF inv i fr(1)] .
  define out where "out d = bp\<lparr>bp_disk := d, bp_page_table := (bp_page_table bp)(?pid := None),
                    bp_frames := (bp_frames bp)[?i := None], bp_clock_hand := ?h\<rparr>" for d
  have run: "bindS (\<lambda>bp. (Inr (bp_clock_hand bp), bp\<lparr>bp_page_table := (bp_page_table bp)(?pid := None)\<rparr>))
      (\<lambda>idx. bindS (set_frame idx None) (\<lambda>_. bindS advance_hand (\<lambda>_. retS idx))) (bp\<lparr>bp_disk := d\<rparr>)
      = (Inr ?i, out d)" for d
    using i len by (simp add: bindS_def set_frame_def advance_hand_def out_def)
  obtain d where d: "(if bf_dirty fr then on_disk (dm_write_page (bf_page fr)) else retS ()) bp
        = (Inr (), bp\<lparr>bp_disk := d\<rparr>)"
      "dm_inv d" "dm_num_pages d = dm_num_pages (bp_disk bp)"
      "dm_pages d = (dm_pages (bp_disk bp))(?pid \<mapsto> pg_data (bf_page fr))"
      "\<And>j g. j < bp_capacity bp \<Longrightarrow> bp_frames bp ! j = Some g \<Longrightarrow> frame_ok d g"
  proof (cases "bf_dirty fr")
    case True
    show thesis
      by (rule write_back_ok [OF inv i fr(1)]) (rule that, simp_all add: True on_disk_def)
  next
    case False
    with ok have "dm_pages (bp_disk bp) ?pid = Some (pg_data (bf_page fr))" by (simp add: frame_ok_def)
    then have same: "dm_pages (bp_disk bp) = (dm_pages (bp_disk bp))(?pid \<mapsto> pg_data (bf_page fr))"
      by (simp add: fun_upd_idem)
    have "dm_inv (bp_disk bp)" using inv by (simp add: pool_inv_def)
    with False same pool_inv_frame(1) [OF inv] show thesis
      by (intro that [of "bp_disk bp"]) simp_all
  qed
  have eq: "evict_frame fr bp = (Inr ?i, out d)"
    using d(1) run [of d] by (simp add: evict_frame_def bindS_run)
  have "\<forall>j < bp_capacity bp. \<forall>g. bp_frames bp ! j = Some g \<longrightarrow> frame_ok d g" using d(5) by blast
  note out = drop_frame_inv [OF inv i fr(1) d(2-4) this h, folded out_def]
  have "\<forall>j \<in> set (bp_free_list bp). bp_frames bp ! j = None" using inv by (simp add: pool_inv_def)
  with fr(1) have "?i \<notin> set (bp_free_list bp)" by auto
  moreover have "spills bp (out d)"
    using d(4) bp_view_cached [OF pool_inv_frame(2) [OF inv i fr(1)] fr(1)] by (auto simp: spills_def out_def)
  ultimately have "got bp ?i (out d)"
    unfolding got_def using out d(3) i len fr by (simp add: out_def evictable_def)
  with eq show ?thesis by blast
qed

lemma final_pass_ok:
  assumes "pool_inv bp"
  shows "if \<exists>j < n. evictable (bp_frames bp ! ((bp_clock_hand bp + j) mod bp_capacity bp))
    then \<exists>idx bp'. final_pass n bp = (Inr idx, bp') \<and> got bp idx bp'
    else final_pass n bp = (Inl (Err BufferPoolFull), bp\<lparr>bp_clock_hand := (bp_clock_hand bp + n) mod bp_capacity bp\<rparr>)"
  using assms
proof (induction n arbitrary: bp)
  case 0
  then show ?case by (simp add: pool_inv_def)
next
  case (Suc n)
  let ?h = "bp_clock_hand bp" and ?c = "bp_capacity bp"
  have h: "?h < ?c" using Suc.prems by (simp add: pool_inv_def)
  show ?case
  proof (cases "evictable (bp_frames bp ! ?h)")
    case True
    then obtain fr where fr: "bp_frames bp ! ?h = Some fr" "bf_pin_count fr = 0"
      by (auto simp: evictable_def)
    have "\<exists>j < Suc n. evictable (bp_frames bp ! ((?h + j) mod ?c))" using True h by (auto intro!: exI [of _ 0])
    moreover have "final_pass (Suc n) bp = evict_frame fr bp"
      using fr frame_at_ok [OF Suc.prems h] by (simp add: bindS_run)
    ultimately show ?thesis using evict_ok [OF Suc.prems fr] by auto
  next
    case False
    let ?bp = "bp\<lparr>bp_clock_hand := Suc ?h mod ?c\<rparr>"
    have tick: "ticked bp ?bp" using ticked_hand [OF Suc.prems] h by simp
    have step: "final_pass (Suc n) bp = final_pass n ?bp"
      using False frame_at_ok [OF Suc.prems h] advance_hand_ok [OF Suc.prems]
      by (cases "bp_frames bp ! ?h") (auto simp: bindS_run evictable_def)
    have shift: "(Suc ?h mod ?c + j) mod ?c = (?h + Suc j) mod ?c" for j by (simp add: mod_add_left_eq)
    have "(\<exists>j < Suc n. evictable (bp_frames bp ! ((?h + j) mod ?c)))
        \<longleftrightarrow> (\<exists>j < n. evictable (bp_frames bp ! ((?h + Suc j) mod ?c)))"
      using False h by (subst Ex_less_Suc2) simp
    with Suc.IH [OF ticked_inv(1) [OF Suc.prems tick]] ticked_got [OF tick _ Suc.prems] step
    show ?thesis by (auto simp: shift split: if_splits)
  qed
qed

lemma mod_reach: "h < c \<Longrightarrow> i < c \<Longrightarrow> \<exists>j < c. (h + j) mod c = (i :: nat)"
proof (cases "h \<le> i")
  case True
  assume "i < c"
  with True show ?thesis by (intro exI [of _ "i - h"]) simp
next
  case False
  assume "h < c" "i < c"
  with False show ?thesis by (intro exI [of _ "i + c - h"]) simp
qed

lemma final_pass_all:
  assumes inv: "pool_inv bp"
  shows "\<exists>i < bp_capacity bp. evictable (bp_frames bp ! i) \<Longrightarrow>
      \<exists>idx bp'. final_pass (bp_capacity bp) bp = (Inr idx, bp') \<and> got bp idx bp'"
    and "\<not> (\<exists>i < bp_capacity bp. evictable (bp_frames bp ! i)) \<Longrightarrow>
      final_pass (bp_capacity bp) bp = (Inl (Err BufferPoolFull), bp)"
proof -
  have h: "bp_clock_hand bp < bp_capacity bp" using inv by (simp add: pool_inv_def)
  have ev: "(\<exists>i < bp_capacity bp. evictable (bp_frames bp ! i)) \<longleftrightarrow>
      (\<exists>j < bp_capacity bp. evictable (bp_frames bp ! ((bp_clock_hand bp + j) mod bp_capacity bp)))"
    using mod_reach [OF h] h by (metis mod_less_divisor gr_implies_not0 neq0_conv)
  note fp = final_pass_ok [OF inv, of "bp_capacity bp", folded ev]
  show "\<exists>idx bp'. final_pass (bp_capacity bp) bp = (Inr idx, bp') \<and> got bp idx bp'"
    if "\<exists>i < bp_capacity bp. evictable (bp_frames bp ! i)"
    using fp unfolding if_P [OF that] .
  show "final_pass (bp_capacity bp) bp = (Inl (Err BufferPoolFull), bp)"
    if "\<not> (\<exists>i < bp_capacity bp. evictable (bp_frames bp ! i))"
    using fp h unfolding if_not_P [OF that] by simp
qed

text \<open>One round of the main loop: evict the frame under the hand, or move on.\<close>

lemma clock_step:
  assumes inv: "pool_inv bp"
  obtains (evict) fr where "bp_frames bp ! bp_clock_hand bp = Some fr" "bf_pin_count fr = 0"
      "clock_loop (Suc fuel) start bp = evict_frame fr bp"
    | (tick) bp1 where "ticked bp bp1" "bp_clock_hand bp1 = Suc (bp_clock_hand bp) mod bp_capacity bp"
      "\<not> evictable (bp_frames bp ! bp_clock_hand bp) \<Longrightarrow>
         bp1 = bp\<lparr>bp_clock_hand := Suc (bp_clock_hand bp) mod bp_capacity bp\<rparr>"
      "clock_loop (Suc fuel) start bp =
         (if bp_clock_hand bp1 = start then final_pass (bp_capacity bp1) bp1 else clock_loop fuel start bp1)"
proof -
  let ?h = "bp_clock_hand bp" and ?c = "bp_capacity bp" and ?fs = "bp_frames bp"
  have h: "?h < ?c" "?h < length ?fs" using inv by (simp_all add: pool_inv_def)
  note run = frame_at_ok [OF inv h(1)] advance_hand_ok [OF inv]
  let ?bp = "bp\<lparr>bp_clock_hand := Suc ?h mod ?c\<rparr>"
  have hand: "ticked bp ?bp" using ticked_hand [OF inv] h by simp
  show thesis
  proof (cases "evictable (?fs ! ?h)")
    case False
    with run hand show thesis
      by (intro tick [of ?bp]) (auto simp: bindS_run evictable_def Let_def split: option.splits)
  next
    case True
    then obtain fr where fr: "?fs ! ?h = Some fr" "bf_pin_count fr = 0" by (auto simp: evictable_def)
    show thesis
    proof (cases "bf_ref_bit fr")
      case False
      with run fr show thesis by (intro evict) (auto simp: bindS_run Let_def)
    next
      case ref: True
      let ?bp1 = "bp\<lparr>bp_frames := ?fs[?h := Some (fr\<lparr>bf_ref_bit := False\<rparr>)], bp_clock_hand := Suc ?h mod ?c\<rparr>"
      have "ticked bp ?bp1" using ticked_step [OF inv fr] h by simp
      moreover have "advance_hand (bp\<lparr>bp_frames := fs\<rparr>) = (Inr (), bp\<lparr>bp_frames := fs, bp_clock_hand := Suc ?h mod ?c\<rparr>)" for fs
        using h by (simp add: advance_hand_def)
      ultimately show thesis
        using run fr ref h True by (intro tick [of ?bp1]) (auto simp: bindS_run set_frame_def Let_def)
    qed
  qed
qed

declare clock_loop.simps [simp del] final_pass.simps [simp del]

text \<open>The main loop, with as many steps left as the hand needs to be back at its start.\<close>

text \<open>What the search of the clock promises, and that it may move on first.\<close>

definition clock_result :: "buffer_pool \<Rightarrow> nat \<Rightarrow> nat res \<times> buffer_pool \<Rightarrow> bool" where
  "clock_result bp start r \<longleftrightarrow>
     (if \<exists>i < bp_capacity bp. evictable (bp_frames bp ! i) then \<exists>idx bp'. r = (Inr idx, bp') \<and> got bp idx bp'
      else r = (Inl (Err BufferPoolFull), bp\<lparr>bp_clock_hand := start\<rparr>))"

lemma clock_result_tick:
  assumes inv: "pool_inv bp" and t: "ticked bp bp1" and r: "clock_result bp1 start r"
    and same: "\<not> evictable (bp_frames bp ! bp_clock_hand bp) \<Longrightarrow> bp1 = bp\<lparr>bp_clock_hand := h\<rparr>"
  shows "clock_result bp start r"
proof -
  have ev: "(\<exists>i < bp_capacity bp1. evictable (bp_frames bp1 ! i)) \<longleftrightarrow> (\<exists>i < bp_capacity bp. evictable (bp_frames bp ! i))"
    using passed_evictable [OF ticked_simps(5) [OF t]] ticked_simps(1) [OF t] by auto
  show ?thesis
  proof (cases "\<exists>i < bp_capacity bp. evictable (bp_frames bp ! i)")
    case True
    with r ev ticked_got [OF t _ inv] show ?thesis by (auto simp: clock_result_def)
  next
    case False
    moreover have "bp_clock_hand bp < bp_capacity bp" using inv by (simp add: pool_inv_def)
    ultimately have "bp1 = bp\<lparr>bp_clock_hand := h\<rparr>" using same by blast
    with False r ev show ?thesis by (simp add: clock_result_def)
  qed
qed

lemma evict_result:
  assumes inv: "pool_inv bp" and fr: "bp_frames bp ! bp_clock_hand bp = Some fr" "bf_pin_count fr = 0" and r: "r = evict_frame fr bp"
  shows "clock_result bp start r"
proof -
  have "bp_clock_hand bp < bp_capacity bp" using inv by (simp add: pool_inv_def)
  then have "\<exists>i < bp_capacity bp. evictable (bp_frames bp ! i)" using fr by (auto simp: evictable_def)
  with evict_ok [OF inv fr] r show ?thesis by (auto simp: clock_result_def)
qed

lemma clock_loop_ok:
  assumes "pool_inv bp" and "start = (bp_clock_hand bp + Suc k) mod bp_capacity bp" and "k < bp_capacity bp"
  shows "clock_result bp start (clock_loop (Suc k) start bp)"
  using assms
proof (induction k arbitrary: bp)
  case (0 bp)
  show ?case
  proof (cases rule: clock_step [OF "0.prems"(1), of 0 start, case_names evict tick])
    case (evict fr)
    from evict_result [OF "0.prems"(1) evict] show ?thesis .
  next
    case (tick bp1)
    have hand: "bp_clock_hand bp1 = start" using tick(2) "0.prems"(2) by simp
    have "clock_result bp1 start (final_pass (bp_capacity bp1) bp1)"
      using final_pass_all [OF ticked_inv(1) [OF "0.prems"(1) tick(1)]] hand by (auto simp: clock_result_def)
    moreover have "clock_loop (Suc 0) start bp = final_pass (bp_capacity bp1) bp1" using tick(4) hand by simp
    ultimately show ?thesis using clock_result_tick [OF "0.prems"(1) tick(1) _ tick(3)] by simp
  qed
next
  case (Suc k bp)
  let ?h = "bp_clock_hand bp" and ?c = "bp_capacity bp"
  have h: "?h < ?c" using Suc.prems by (simp add: pool_inv_def)
  show ?case
  proof (cases rule: clock_step [OF Suc.prems(1), of "Suc k" start, case_names evict tick])
    case (evict fr)
    from evict_result [OF Suc.prems(1) evict] show ?thesis .
  next
    case (tick bp1)
    have c: "bp_capacity bp1 = ?c" using ticked_simps(1) [OF tick(1)] .
    have start: "start = (bp_clock_hand bp1 + Suc k) mod ?c"
      using Suc.prems(2) tick(2) mod_add_left_eq [of "Suc ?h" ?c "Suc k"] by simp
    have "bp_clock_hand bp1 < ?c" using tick(2) h by simp
    then have "bp_clock_hand bp1 \<noteq> start" using start Suc.prems(3)
      by (cases "bp_clock_hand bp1 + Suc k < ?c") (auto simp: mod_if split: if_splits)
    with tick(4) have "clock_loop (Suc (Suc k)) start bp = clock_loop (Suc k) start bp1" by simp
    moreover have "clock_result bp1 start (clock_loop (Suc k) start bp1)"
      using Suc.IH [OF ticked_inv(1) [OF Suc.prems(1) tick(1)], unfolded c, OF start] Suc.prems(3) by simp
    ultimately show ?thesis using clock_result_tick [OF Suc.prems(1) tick(1) _ tick(3)] by simp
  qed
qed

lemma get_free_frame_ok:
  assumes inv: "pool_inv bp"
  shows "if available bp then \<exists>idx bp'. get_free_frame bp = (Inr idx, bp') \<and> got bp idx bp'
    else get_free_frame bp = (Inl (Err BufferPoolFull), bp)"
proof (cases "bp_free_list bp")
  case (Cons idx rest)
  let ?bp = "bp\<lparr>bp_free_list := rest\<rparr>"
  have "pool_inv ?bp" using inv Cons by (simp add: pool_inv_def)
  moreover have "bp_view ?bp = bp_view bp" by (simp add: bp_view_def fun_eq_iff split: option.splits)
  ultimately have "got bp idx ?bp"
    using inv Cons unfolding got_def spills_def by (auto simp: pool_inv_def)
  with Cons show ?thesis by (simp add: get_free_frame_def available_def)
next
  case Nil
  let ?h = "bp_clock_hand bp" and ?c = "bp_capacity bp"
  have h: "?h < ?c" using inv by (simp add: pool_inv_def)
  then obtain k where k: "?c = Suc k" by (cases ?c) auto
  have "?h = (?h + Suc k) mod ?c" using h k by (metis mod_add_self2 mod_less)
  from clock_loop_ok [OF inv this] k have
    "(\<exists>i < ?c. evictable (bp_frames bp ! i)) \<Longrightarrow>
       \<exists>idx bp'. clock_loop ?c ?h bp = (Inr idx, bp') \<and> got bp idx bp'"
    "\<not> (\<exists>i < ?c. evictable (bp_frames bp ! i)) \<Longrightarrow> clock_loop ?c ?h bp = (Inl (Err BufferPoolFull), bp)"
    by (auto simp: clock_result_def split: if_splits)
  with Nil show ?thesis by (simp add: get_free_frame_def available_def)
qed

section \<open>The operations on view and pins\<close>

definition bp_pins :: "buffer_pool \<Rightarrow> page_id \<Rightarrow> u32" where
  "bp_pins bp pid = (case bp_page_table bp pid of
     None \<Rightarrow> 0
   | Some i \<Rightarrow> (case bp_frames bp ! i of None \<Rightarrow> 0 | Some fr \<Rightarrow> bf_pin_count fr))"

text \<open>A step of the pool to a given view and given pin counts.\<close>

definition moves :: "buffer_pool \<Rightarrow> buffer_pool \<Rightarrow> (page_id \<rightharpoonup> bytes) \<Rightarrow> (page_id \<Rightarrow> u32) \<Rightarrow> bool" where
  "moves bp bp' v ps \<longleftrightarrow> pool_inv bp' \<and> (no_leak bp \<longrightarrow> no_leak bp') \<and> bp_view bp' = v \<and> bp_pins bp' = ps
     \<and> bp_capacity bp' = bp_capacity bp"

lemma pool_inv_table_iff:
  "pool_inv bp \<Longrightarrow> bp_page_table bp pid = Some i \<longleftrightarrow>
     i < bp_capacity bp \<and> (\<exists>fr. bp_frames bp ! i = Some fr \<and> pg_id (bf_page fr) = pid)"
  by (simp add: pool_inv_def)

lemma got_table:
  assumes inv: "pool_inv bp" and g: "got bp idx bp'"
  shows "bp_page_table bp' pid = Some i \<longleftrightarrow> bp_page_table bp pid = Some i \<and> i \<noteq> idx"
proof (cases "i \<noteq> idx \<and> i < bp_capacity bp")
  case True
  with g have "passed (bp_frames bp ! i) (bp_frames bp' ! i)" by (simp add: got_def)
  from passed_page [OF this, of "\<lambda>p. pg_id p = pid"] True g inv show ?thesis
    by (simp add: got_def pool_inv_table_iff)
next
  case False
  with g inv show ?thesis by (auto simp: got_def pool_inv_table_iff)
qed

lemma got_uncached:
  "pool_inv bp \<Longrightarrow> got bp idx bp' \<Longrightarrow> bp_page_table bp pid = None \<Longrightarrow> bp_page_table bp' pid = None"
  using got_table [of bp idx bp' pid] by (metis not_Some_eq)

lemma got_pins:
  assumes inv: "pool_inv bp" and g: "got bp idx bp'"
  shows "bp_pins bp' = bp_pins bp"
proof
  fix pid
  show "bp_pins bp' pid = bp_pins bp pid"
  proof (cases "bp_page_table bp pid")
    case None
    then show ?thesis using got_uncached [OF inv g] by (simp add: bp_pins_def)
  next
    case (Some i)
    from pool_inv_table [OF inv Some] obtain fr where i: "i < bp_capacity bp" "bp_frames bp ! i = Some fr" by blast
    show ?thesis
    proof (cases "i = idx")
      case True
      with i g have "bf_pin_count fr = 0" by (auto simp: got_def evictable_def)
      moreover have "bp_page_table bp' pid = None" using got_table [OF inv g] Some True by (metis not_Some_eq option.inject)
      ultimately show ?thesis using Some i by (simp add: bp_pins_def)
    next
      case False
      with g i have "passed (Some fr) (bp_frames bp' ! i)" by (metis got_def)
      moreover have "bp_page_table bp' pid = Some i" using got_table [OF inv g] Some False by simp
      ultimately show ?thesis using Some i by (auto simp: bp_pins_def)
    qed
  qed
qed

lemma got_unused:
  assumes "got bp idx bp'" shows "unused bp' = insert idx (unused bp)"
proof -
  have "bp_frames bp' ! i = None \<longleftrightarrow> bp_frames bp ! i = None" if "i < bp_capacity bp" "i \<noteq> idx" for i
  proof -
    have "passed (bp_frames bp ! i) (bp_frames bp' ! i)" using assms that by (simp add: got_def)
    then show ?thesis by (cases "bp_frames bp ! i") auto
  qed
  with assms show ?thesis by (auto simp: unused_def got_def)
qed

text \<open>Replacing a frame by one for the same page.\<close>

lemma change_frame_ok:
  assumes inv: "pool_inv bp" and i: "bp_page_table bp pid = Some i"
    and fr: "frame_ok (bp_disk bp) fr" "pg_id (bf_page fr) = pid"
  defines "bp' \<equiv> bp\<lparr>bp_frames := (bp_frames bp)[i := Some fr]\<rparr>"
  shows "moves bp bp' ((bp_view bp)(pid \<mapsto> pg_data (bf_page fr))) ((bp_pins bp)(pid := bf_pin_count fr))"
    and "bp_page_table bp' pid = Some i" and "bp_frames bp' ! i = Some fr"
proof -
  from pool_inv_table [OF inv i] obtain old where
    old: "i < bp_capacity bp" "bp_frames bp ! i = Some old" "pg_id (bf_page old) = pid" by blast
  have len: "length (bp_frames bp) = bp_capacity bp" using inv by (simp add: pool_inv_def)
  have at: "bp_frames bp' ! j = (if j = i then Some fr else bp_frames bp ! j)" for j
    using old(1) len by (simp add: bp'_def nth_list_update)
  show "bp_page_table bp' pid = Some i" "bp_frames bp' ! i = Some fr" using i at by (simp_all add: bp'_def)
  have "bp_page_table bp p = Some j \<longleftrightarrow>
      j < bp_capacity bp \<and> (\<exists>g. bp_frames bp' ! j = Some g \<and> pg_id (bf_page g) = p)" for p j
    using pool_inv_table_iff [OF inv, of p j] old fr(2) by (auto simp: at)
  moreover have "\<forall>j < bp_capacity bp. \<forall>g. bp_frames bp' ! j = Some g \<longrightarrow> frame_ok (bp_disk bp) g"
    using fr(1) pool_inv_frame(1) [OF inv] by (simp add: at)
  moreover have "\<forall>j \<in> set (bp_free_list bp). j < bp_capacity bp \<and> bp_frames bp' ! j = None"
    using inv old(2) by (auto simp: at pool_inv_def)
  ultimately have inv': "pool_inv bp'"
    using inv unfolding pool_inv_def by (simp add: bp'_def)
  have other: "bp_page_table bp p = Some j \<Longrightarrow> p \<noteq> pid \<Longrightarrow> j \<noteq> i" for p j
    using pool_inv_table_iff [OF inv, of p j] old by auto
  have view: "bp_view bp' = (bp_view bp)(pid \<mapsto> pg_data (bf_page fr))"
    using i other by (auto simp: bp_view_def fun_eq_iff bp'_def at [unfolded bp'_def, simplified] split: option.splits)
  have pins: "bp_pins bp' = (bp_pins bp)(pid := bf_pin_count fr)"
    using i other by (auto simp: bp_pins_def fun_eq_iff bp'_def at [unfolded bp'_def, simplified] split: option.splits)
  have "unused bp' = unused bp" using old by (auto simp: unused_def at) (auto simp: bp'_def)
  then show "moves bp bp' ((bp_view bp)(pid \<mapsto> pg_data (bf_page fr))) ((bp_pins bp)(pid := bf_pin_count fr))"
    using inv' view pins by (simp add: moves_def no_leak_def) (simp add: bp'_def)
qed

text \<open>Installing a page into a frame that \<^verbatim>\<open>get_free_frame\<close> handed out.\<close>

lemma install_frame_ok:
  assumes inv: "pool_inv bp" and i: "i < bp_capacity bp" "bp_frames bp ! i = None" "i \<notin> set (bp_free_list bp)"
    and pid: "bp_page_table bp pid = None"
    and fr: "frame_ok (bp_disk bp) fr" "pg_id (bf_page fr) = pid"
  defines "bp' \<equiv> bp\<lparr>bp_frames := (bp_frames bp)[i := Some fr], bp_page_table := (bp_page_table bp)(pid \<mapsto> i)\<rparr>"
  shows "install_frame i pid fr bp = (Inr (), bp')" and "pool_inv bp'"
    and "bp_view bp' = (bp_view bp)(pid \<mapsto> pg_data (bf_page fr))"
    and "bp_pins bp' = (bp_pins bp)(pid := bf_pin_count fr)"
    and "unused bp' = unused bp - {i}"
proof -
  have len: "length (bp_frames bp) = bp_capacity bp" using inv by (simp add: pool_inv_def)
  then show "install_frame i pid fr bp = (Inr (), bp')"
    using i by (simp add: install_frame_def bindS_def set_frame_def bp'_def)
  have at: "bp_frames bp' ! j = (if j = i then Some fr else bp_frames bp ! j)" for j
    using i(1) len by (simp add: bp'_def nth_list_update)
  have fresh: "bp_frames bp ! j = Some g \<Longrightarrow> j < bp_capacity bp \<Longrightarrow> pg_id (bf_page g) \<noteq> pid" for j g
    using pool_inv_frame(2) [OF inv, of j g] pid by auto
  have "bp_page_table bp' p = Some j \<longleftrightarrow>
      j < bp_capacity bp \<and> (\<exists>g. bp_frames bp' ! j = Some g \<and> pg_id (bf_page g) = p)" for p j
  proof (cases "p = pid")
    case True
    then show ?thesis using i fr(2) fresh [of j] by (auto simp: at) (auto simp: bp'_def)
  next
    case False
    then show ?thesis using pool_inv_table_iff [OF inv, of p j] i fr(2) by (auto simp: at) (auto simp: bp'_def)
  qed
  moreover have "\<forall>j < bp_capacity bp. \<forall>g. bp_frames bp' ! j = Some g \<longrightarrow> frame_ok (bp_disk bp) g"
    using fr(1) pool_inv_frame(1) [OF inv] by (simp add: at)
  moreover have "\<forall>j \<in> set (bp_free_list bp). j < bp_capacity bp \<and> bp_frames bp' ! j = None"
    using inv i(3) by (auto simp: at pool_inv_def)
  ultimately show "pool_inv bp'"
    using inv unfolding pool_inv_def by (simp add: bp'_def)
  have other: "bp_page_table bp p = Some j \<Longrightarrow> j \<noteq> i" for p j
    using pool_inv_table_iff [OF inv, of p j] i by auto
  show "bp_view bp' = (bp_view bp)(pid \<mapsto> pg_data (bf_page fr))"
    using i other by (auto simp: bp_view_def fun_eq_iff bp'_def at [unfolded bp'_def, simplified] split: option.splits)
  show "bp_pins bp' = (bp_pins bp)(pid := bf_pin_count fr)"
    using i other by (auto simp: bp_pins_def fun_eq_iff bp'_def at [unfolded bp'_def, simplified] split: option.splits)
  show "unused bp' = unused bp - {i}" by (auto simp: unused_def at) (auto simp: bp'_def)
qed

lemma frame_unwrap_ok:
  "pool_inv bp \<Longrightarrow> bp_page_table bp pid = Some i \<Longrightarrow> bp_frames bp ! i = Some fr \<Longrightarrow> frame_unwrap i bp = (Inr fr, bp)"
  by (auto simp: frame_unwrap_def bindS_def frame_at_def pool_inv_def)

lemma set_frame_ok:
  "pool_inv bp \<Longrightarrow> bp_page_table bp pid = Some i \<Longrightarrow>
     set_frame i f bp = (Inr (), bp\<lparr>bp_frames := (bp_frames bp)[i := f]\<rparr>)"
  by (auto simp: set_frame_def pool_inv_def)

text \<open>Loading an uncached page into a frame, the common part of the two fetch operations.\<close>

lemma load_page_ok:
  assumes inv: "pool_inv bp" and un: "bp_page_table bp pid = None" and b: "bp_view bp pid = Some b"
    and av: "available bp"
  defines "fr p \<equiv> \<lparr>bf_page = page_from_bytes pid b, bf_pin_count = p, bf_dirty = False, bf_ref_bit = True\<rparr>"
  obtains i bp1 bp' where "get_free_frame bp = (Inr i, bp1)"
    "on_disk (dm_read_page pid) bp1 = (Inr (page_from_bytes pid b), bp1)"
    "install_frame i pid (fr p) bp1 = (Inr (), bp')"
    "moves bp bp' (bp_view bp) ((bp_pins bp)(pid := p))" "bp_page_table bp' pid = Some i"
    "bp_frames bp' ! i = Some (fr p)" "dm_num_pages (bp_disk bp') = dm_num_pages (bp_disk bp)"
proof -
  from get_free_frame_ok [OF inv] av obtain i bp1 where
    i: "get_free_frame bp = (Inr i, bp1)" and g: "got bp i bp1" by auto
  have inv1: "pool_inv bp1" and n1: "dm_num_pages (bp_disk bp1) = dm_num_pages (bp_disk bp)"
    and cap: "bp_capacity bp1 = bp_capacity bp" and view1: "bp_view bp1 = bp_view bp"
    using g by (simp_all add: got_def)
  have un1: "bp_page_table bp1 pid = None" using got_uncached [OF inv g un] .
  then have d1: "dm_pages (bp_disk bp1) pid = Some b" using b view1 by (metis bp_view_uncached)
  then have rd: "on_disk (dm_read_page pid) bp1 = (Inr (page_from_bytes pid b), bp1)"
    by (simp add: on_disk_def dm_read_hit)
  have "length b = PAGE_SIZE" using bp_view_length [OF inv b] .
  moreover have "pid < dm_num_pages (bp_disk bp1)" using bp_view_dom [OF inv, of pid] b n1 by simp
  ultimately have fr: "frame_ok (bp_disk bp1) (fr p)" "pg_id (bf_page (fr p)) = pid" "pg_data (bf_page (fr p)) = b"
    using d1 by (simp_all add: fr_def frame_ok_def page_from_bytes_def page_wf_def)
  have free: "i < bp_capacity bp1" "bp_frames bp1 ! i = None" "i \<notin> set (bp_free_list bp1)"
    using g by (simp_all add: got_def)
  note ins = install_frame_ok [OF inv1 free un1 fr(1,2)]
  let ?bp = "bp1\<lparr>bp_frames := (bp_frames bp1)[i := Some (fr p)], bp_page_table := (bp_page_table bp1)(pid \<mapsto> i)\<rparr>"
  have view: "bp_view ?bp = bp_view bp" using ins(3) fr(3) b view1 by (simp add: fun_upd_idem)
  have pins: "bp_pins ?bp = (bp_pins bp)(pid := p)"
    using ins(4) got_pins [OF inv g] by (simp add: fr_def)
  have "no_leak ?bp" if "no_leak bp"
    using that g free got_unused [OF g] ins(5) by (auto simp: no_leak_def got_def)
  then have m: "moves bp ?bp (bp_view bp) ((bp_pins bp)(pid := p))"
    using ins(2) view pins cap by (simp add: moves_def)
  have "length (bp_frames bp1) = bp_capacity bp1" using inv1 by (simp add: pool_inv_def)
  then have "bp_frames ?bp ! i = Some (fr p)" using free by simp
  from that [OF i rd ins(1) m _ this] n1 show thesis by simp
qed

lemma moves_trans:
  "moves bp bp1 v ps \<Longrightarrow> moves bp1 bp2 v' ps' \<Longrightarrow> moves bp bp2 v' ps'"
  by (simp add: moves_def)

text \<open>A cached page is pinned once more, by a reader or a writer.\<close>

lemma pin_cached:
  assumes inv: "pool_inv bp" and t: "bp_page_table bp pid = Some i" and fr: "bp_frames bp ! i = Some fr" and b: "bp_view bp pid = Some b"
    and fr': "bf_page fr' = bf_page fr" "bf_pin_count fr' = bf_pin_count fr + 1" "bf_dirty fr \<Longrightarrow> bf_dirty fr'"
  defines "bp' \<equiv> bp\<lparr>bp_frames := (bp_frames bp)[i := Some fr']\<rparr>"
  shows "moves bp bp' (bp_view bp) ((bp_pins bp)(pid := bp_pins bp pid + 1))"
    and "bp_page_table bp' pid = Some i" "bp_frames bp' ! i = Some fr'" "pg_data (bf_page fr') = b"
    and "frame_unwrap i bp = (Inr fr, bp)" "set_frame i (Some fr') bp = (Inr (), bp')"
proof -
  from pool_inv_table [OF inv t] fr have ok: "pg_id (bf_page fr) = pid" "frame_ok (bp_disk bp) fr" by auto
  have "frame_ok (bp_disk bp) fr'" "pg_id (bf_page fr') = pid" using ok fr' by (auto simp: frame_ok_def)
  note ch = change_frame_ok [OF inv t this, folded bp'_def]
  show data: "pg_data (bf_page fr') = b" using b bp_view_cached [OF t fr] fr'(1) by simp
  have "bp_pins bp pid = bf_pin_count fr" using t fr by (simp add: bp_pins_def)
  then show "moves bp bp' (bp_view bp) ((bp_pins bp)(pid := bp_pins bp pid + 1))"
    using ch(1) data b fr'(2) by (simp add: fun_upd_idem)
  show "bp_page_table bp' pid = Some i" "bp_frames bp' ! i = Some fr'" by (rule ch)+
  show "frame_unwrap i bp = (Inr fr, bp)" by (rule frame_unwrap_ok [OF inv t fr])
  show "set_frame i (Some fr') bp = (Inr (), bp')" using set_frame_ok [OF inv t] by (simp add: bp'_def)
qed

lemma bp_fetch_page_ok:
  assumes inv: "pool_inv bp" and b: "bp_view bp pid = Some b"
    and av: "bp_page_table bp pid \<noteq> None \<or> available bp"
  obtains i bp' fr where "bp_fetch_page pid bp = (Inr i, bp')"
    "moves bp bp' (bp_view bp) ((bp_pins bp)(pid := bp_pins bp pid + 1))"
    "bp_page_table bp' pid = Some i" "bp_frames bp' ! i = Some fr" "pg_data (bf_page fr) = b"
    "dm_num_pages (bp_disk bp') = dm_num_pages (bp_disk bp)"
proof (cases "bp_page_table bp pid")
  case (Some i)
  from pool_inv_table [OF inv Some] obtain fr where fr: "bp_frames bp ! i = Some fr" by blast
  let ?fr = "fr\<lparr>bf_pin_count := bf_pin_count fr + 1, bf_ref_bit := True\<rparr>"
  have "bf_page ?fr = bf_page fr" "bf_pin_count ?fr = bf_pin_count fr + 1" "bf_dirty fr \<Longrightarrow> bf_dirty ?fr" by simp_all
  note pin = pin_cached [OF inv Some fr b this]
  have "bp_fetch_page pid bp = (Inr i, bp\<lparr>bp_frames := (bp_frames bp)[i := Some ?fr]\<rparr>)"
    using Some pin(5,6) by (simp add: bp_fetch_page_def bindS_def)
  then show thesis by (rule that [OF _ pin(1-4)]) simp_all
next
  case None
  have "available bp" using av None by simp
  then show thesis
  proof (rule load_page_ok [OF inv None b, where p = 1])
    fix i bp1 bp'
    assume run: "get_free_frame bp = (Inr i, bp1)"
      "on_disk (dm_read_page pid) bp1 = (Inr (page_from_bytes pid b), bp1)"
      "install_frame i pid \<lparr>bf_page = page_from_bytes pid b, bf_pin_count = 1, bf_dirty = False, bf_ref_bit = True\<rparr> bp1
         = (Inr (), bp')"
      and m: "moves bp bp' (bp_view bp) ((bp_pins bp)(pid := 1))" "bp_page_table bp' pid = Some i"
        "bp_frames bp' ! i = Some \<lparr>bf_page = page_from_bytes pid b, bf_pin_count = 1, bf_dirty = False, bf_ref_bit = True\<rparr>"
        "dm_num_pages (bp_disk bp') = dm_num_pages (bp_disk bp)"
    have "bp_fetch_page pid bp = (Inr i, bp')" using run None by (simp add: bp_fetch_page_def bindS_def)
    moreover have "bp_pins bp pid = 0" using None by (simp add: bp_pins_def)
    ultimately show thesis using that [of i bp'] m by (simp add: page_from_bytes_def)
  qed
qed

lemma load_cached:
  assumes inv: "pool_inv bp" and b: "bp_view bp pid = Some b"
    and av: "bp_page_table bp pid \<noteq> None \<or> available bp"
  obtains i bp1 fr where "(if bp_page_table bp pid = None then
         bindS get_free_frame (\<lambda>frame_idx.
         bindS (on_disk (dm_read_page pid)) (\<lambda>page.
         install_frame frame_idx pid
           \<lparr>bf_page = page, bf_pin_count = 0, bf_dirty = False, bf_ref_bit = True\<rparr>)) bp
       else (Inr (), bp)) = (Inr (), bp1)"
    "moves bp bp1 (bp_view bp) (bp_pins bp)" "bp_page_table bp1 pid = Some i"
    "bp_frames bp1 ! i = Some fr" "dm_num_pages (bp_disk bp1) = dm_num_pages (bp_disk bp)"
proof (cases "bp_page_table bp pid")
  case (Some i)
  from pool_inv_table [OF inv Some] obtain fr where "bp_frames bp ! i = Some fr" by blast
  with Some inv show thesis by (intro that) (auto simp: moves_def)
next
  case None
  have "available bp" using av None by simp
  have "bp_pins bp pid = 0" using None by (simp add: bp_pins_def)
  then have same: "(bp_pins bp)(pid := 0) = bp_pins bp" by (simp add: fun_upd_idem)
  let ?fr = "\<lparr>bf_page = page_from_bytes pid b, bf_pin_count = 0, bf_dirty = False, bf_ref_bit = True\<rparr>"
  from \<open>available bp\<close> show thesis
  proof (rule load_page_ok [OF inv None b, where p = 0])
    fix i bp1 bp'
    assume run: "get_free_frame bp = (Inr i, bp1)"
      "on_disk (dm_read_page pid) bp1 = (Inr (page_from_bytes pid b), bp1)"
      "install_frame i pid ?fr bp1 = (Inr (), bp')"
      and m: "moves bp bp' (bp_view bp) ((bp_pins bp)(pid := 0))" "bp_page_table bp' pid = Some i"
        "bp_frames bp' ! i = Some ?fr" "dm_num_pages (bp_disk bp') = dm_num_pages (bp_disk bp)"
    from run None m same show thesis by (intro that [of bp' i ?fr]) (simp_all add: bindS_def)
  qed
qed

lemma bp_fetch_page_mut_ok:
  assumes inv: "pool_inv bp" and b: "bp_view bp pid = Some b"
    and av: "bp_page_table bp pid \<noteq> None \<or> available bp"
  obtains i bp' fr where "bp_fetch_page_mut pid bp = (Inr i, bp')"
    "moves bp bp' (bp_view bp) ((bp_pins bp)(pid := bp_pins bp pid + 1))"
    "bp_page_table bp' pid = Some i" "bp_frames bp' ! i = Some fr" "pg_data (bf_page fr) = b" "bf_dirty fr"
    "dm_num_pages (bp_disk bp') = dm_num_pages (bp_disk bp)"
proof (rule load_cached [OF assms])
  fix i bp1 fr assume load: "(if bp_page_table bp pid = None then
         bindS get_free_frame (\<lambda>frame_idx.
         bindS (on_disk (dm_read_page pid)) (\<lambda>page.
         install_frame frame_idx pid
           \<lparr>bf_page = page, bf_pin_count = 0, bf_dirty = False, bf_ref_bit = True\<rparr>)) bp
       else (Inr (), bp)) = (Inr (), bp1)"
    and m: "moves bp bp1 (bp_view bp) (bp_pins bp)" "bp_page_table bp1 pid = Some i"
      "bp_frames bp1 ! i = Some fr" "dm_num_pages (bp_disk bp1) = dm_num_pages (bp_disk bp)"
  have inv1: "pool_inv bp1" and view1: "bp_view bp1 = bp_view bp" and pins1: "bp_pins bp1 = bp_pins bp"
    using m(1) by (simp_all add: moves_def)
  let ?fr = "fr\<lparr>bf_pin_count := bf_pin_count fr + 1, bf_dirty := True, bf_ref_bit := True\<rparr>"
  have "bf_page ?fr = bf_page fr" "bf_pin_count ?fr = bf_pin_count fr + 1" "bf_dirty fr \<Longrightarrow> bf_dirty ?fr" by simp_all
  note pin = pin_cached [OF inv1 m(2,3) b [folded view1] this, unfolded view1 pins1]
  have "bp_fetch_page_mut pid bp = (Inr i, bp1\<lparr>bp_frames := (bp_frames bp1)[i := Some ?fr]\<rparr>)"
    using load m(2) pin(5,6) by (simp add: bp_fetch_page_mut_def bindS_def)
  then show thesis by (rule that [OF _ moves_trans [OF m(1) pin(1)] pin(2-4)]) (use m(4) in simp_all)
qed

lemma bp_unpin_page_ok:
  assumes inv: "pool_inv bp" and i: "bp_page_table bp pid = Some i"
  obtains bp' where "bp_unpin_page pid dirty bp = (Inr (), bp')"
    "moves bp bp' (bp_view bp) ((bp_pins bp)(pid := (if bp_pins bp pid > 0 then bp_pins bp pid - 1 else 0)))"
    "dm_num_pages (bp_disk bp') = dm_num_pages (bp_disk bp)" "bp_page_table bp' = bp_page_table bp"
proof -
  from pool_inv_table [OF inv i] obtain fr where fr: "bp_frames bp ! i = Some fr"
    "pg_id (bf_page fr) = pid" "frame_ok (bp_disk bp) fr" by blast
  define fr' where "fr' = fr\<lparr>bf_pin_count := (if bf_pin_count fr > 0 then bf_pin_count fr - 1 else bf_pin_count fr),
                          bf_dirty := (dirty \<or> bf_dirty fr)\<rparr>"
  have "frame_ok (bp_disk bp) fr'" "pg_id (bf_page fr') = pid" using fr by (auto simp: fr'_def frame_ok_def)
  note ch = change_frame_ok [OF inv i this]
  let ?bp = "bp\<lparr>bp_frames := (bp_frames bp)[i := Some fr']\<rparr>"
  have "(bp_view bp)(pid \<mapsto> pg_data (bf_page fr')) = bp_view bp"
    using bp_view_cached [OF i fr(1)] by (simp add: fr'_def fun_upd_idem)
  moreover have "bf_pin_count fr' = (if bp_pins bp pid > 0 then bp_pins bp pid - 1 else 0)"
    using i fr by (auto simp: fr'_def bp_pins_def word_gt_0)
  ultimately have "moves bp ?bp (bp_view bp) ((bp_pins bp)(pid := (if bp_pins bp pid > 0 then bp_pins bp pid - 1 else 0)))"
    using ch(1) by simp
  moreover have "bp_unpin_page pid dirty bp = (Inr (), ?bp)"
    using i frame_unwrap_ok [OF inv i fr(1)] set_frame_ok [OF inv i]
    by (simp add: bp_unpin_page_def bindS_def fr'_def)
  ultimately show thesis using that by simp
qed

lemma bp_update_page_ok:
  assumes inv: "pool_inv bp" and i: "bp_page_table bp pid = Some i" "bp_frames bp ! i = Some fr" "bf_dirty fr"
    and f: "page_wf (f (bf_page fr))" "pg_id (f (bf_page fr)) = pg_id (bf_page fr)"
  obtains bp' where "bp_update_page i f bp = (Inr (), bp')"
    "moves bp bp' ((bp_view bp)(pid \<mapsto> pg_data (f (bf_page fr)))) (bp_pins bp)"
    "bp_page_table bp' = bp_page_table bp" "dm_num_pages (bp_disk bp') = dm_num_pages (bp_disk bp)"
proof -
  from pool_inv_table [OF inv i(1)] i(2) have fr: "pg_id (bf_page fr) = pid" "frame_ok (bp_disk bp) fr" by auto
  define fr' where "fr' = fr\<lparr>bf_page := f (bf_page fr)\<rparr>"
  have "frame_ok (bp_disk bp) fr'" "pg_id (bf_page fr') = pid" using fr f i(3) by (auto simp: fr'_def frame_ok_def)
  note ch = change_frame_ok [OF inv i(1) this]
  have "(bp_pins bp)(pid := bf_pin_count fr') = bp_pins bp"
    using i by (simp add: bp_pins_def fr'_def fun_upd_idem)
  moreover have "bp_update_page i f bp = (Inr (), bp\<lparr>bp_frames := (bp_frames bp)[i := Some fr']\<rparr>)"
    using frame_unwrap_ok [OF inv i(1,2)] set_frame_ok [OF inv i(1)]
    by (simp add: bp_update_page_def bindS_def fr'_def)
  ultimately show thesis using that ch(1) by (simp add: fr'_def)
qed

lemma bp_page_at_ok:
  "pool_inv bp \<Longrightarrow> bp_page_table bp pid = Some i \<Longrightarrow> bp_frames bp ! i = Some fr \<Longrightarrow>
     bp_page_at i bp = (Inr (bf_page fr), bp) \<and> pg_id (bf_page fr) = pid \<and> page_wf (bf_page fr)"
  using frame_unwrap_ok [of bp pid i fr] pool_inv_frame(1) [of bp i fr]
  by (auto simp: bp_page_at_def bindS_def pool_inv_table_iff frame_ok_def)

lemma bp_new_ok:
  assumes "dm_inv d" and "0 < c"
  shows "pool_inv (bp_new d c)" "no_leak (bp_new d c)" "bp_view (bp_new d c) = dm_pages d"
    "bp_pins (bp_new d c) = (\<lambda>_. 0)" "bp_capacity (bp_new d c) = c" "bp_disk (bp_new d c) = d"
    "bp_page_table (bp_new d c) = Map.empty" "bp_free_list (bp_new d c) = [0..<c]"
  using assms by (auto simp: bp_new_def pool_inv_def no_leak_def unused_def bp_view_def bp_pins_def)

lemma swap_disk_inv:
  assumes inv: "pool_inv bp" and "dm_inv d"
    and "\<forall>i < bp_capacity bp. \<forall>fr. bp_frames bp ! i = Some fr \<longrightarrow> frame_ok d fr"
  shows "pool_inv (bp\<lparr>bp_disk := d\<rparr>)"
  unfolding pool_inv_def using assms by (simp add: pool_inv_def)

lemma allocate_in_pool_ok:
  assumes inv: "pool_inv bp" and n: "dm_num_pages (bp_disk bp) \<noteq> 0xFFFFFFFF"
  defines "n \<equiv> dm_num_pages (bp_disk bp)"
  obtains d where "on_disk dm_allocate_page bp = (Inr n, bp\<lparr>bp_disk := d\<rparr>)" "dm_num_pages d = n + 1"
    "pool_inv (bp\<lparr>bp_disk := d\<rparr>)" "bp_view (bp\<lparr>bp_disk := d\<rparr>) = (bp_view bp)(n \<mapsto> replicate PAGE_SIZE 0)"
    "bp_page_table bp n = None" "n < n + 1"
proof -
  have "dm_inv (bp_disk bp)" using inv by (simp add: pool_inv_def)
  from dm_allocate_ok [OF this n] obtain d where
    d: "dm_allocate_page (bp_disk bp) = (Inr n, d)" "dm_inv d" "dm_num_pages d = n + 1"
      "dm_pages d = (dm_pages (bp_disk bp))(n \<mapsto> replicate PAGE_SIZE 0)"
    unfolding n_def by blast
  have lt: "n < n + 1" using n unfolding n_def
    by (metis add.commute add.right_neutral disk.pages_dom d(2-4) fun_upd_same n_def option.distinct(1))
  have small: "pg_id (bf_page fr) < n" if "i < bp_capacity bp" "bp_frames bp ! i = Some fr" for i fr
    using pool_inv_frame(1) [OF inv that] by (simp add: frame_ok_def n_def)
  have frames: "\<forall>i < bp_capacity bp. \<forall>fr. bp_frames bp ! i = Some fr \<longrightarrow> frame_ok d fr"
  proof (intro allI impI)
    fix i fr assume i: "i < bp_capacity bp" "bp_frames bp ! i = Some fr"
    from small [OF i] pool_inv_frame(1) [OF inv i] d(3,4) lt show "frame_ok d fr"
      by (auto simp: frame_ok_def)
  qed
  have un: "bp_page_table bp n = None"
  proof (rule ccontr)
    assume "bp_page_table bp n \<noteq> None"
    then obtain i where "bp_page_table bp n = Some i" by blast
    from pool_inv_table [OF inv this] obtain fr where "i < bp_capacity bp" "bp_frames bp ! i = Some fr"
      "pg_id (bf_page fr) = n" by blast
    with small show False by blast
  qed
  have "bp_view (bp\<lparr>bp_disk := d\<rparr>) = (bp_view bp)(n \<mapsto> replicate PAGE_SIZE 0)"
    using d(4) un by (auto simp: bp_view_def fun_eq_iff split: option.splits)
  then show thesis
    using that [of d] d(1,3) un lt swap_disk_inv [OF inv d(2) frames] by (simp add: on_disk_def)
qed

lemma bp_new_page_ok:
  assumes inv: "pool_inv bp" and "dm_num_pages (bp_disk bp) \<noteq> 0xFFFFFFFF" and av: "available bp"
  defines "n \<equiv> dm_num_pages (bp_disk bp)"
  obtains bp' where "bp_new_page bp = (Inr n, bp')"
    "moves bp bp' ((bp_view bp)(n \<mapsto> pg_data (page_new n))) ((bp_pins bp)(n := 1))"
    "dm_num_pages (bp_disk bp') = n + 1" "bp_page_table bp' n \<noteq> None"
proof (rule allocate_in_pool_ok [OF inv assms(2), folded n_def])
  fix d assume d: "on_disk dm_allocate_page bp = (Inr n, bp\<lparr>bp_disk := d\<rparr>)" "dm_num_pages d = n + 1"
    "pool_inv (bp\<lparr>bp_disk := d\<rparr>)" "bp_view (bp\<lparr>bp_disk := d\<rparr>) = (bp_view bp)(n \<mapsto> replicate PAGE_SIZE 0)"
    "bp_page_table bp n = None" "n < n + 1"
  let ?ini = "bp\<lparr>bp_disk := d\<rparr>"
  have pins0: "bp_pins ?ini = bp_pins bp" by (auto simp: bp_pins_def fun_eq_iff split: option.splits)
  have "available ?ini" using av by (simp add: available_def)
  with get_free_frame_ok [OF d(3)] obtain i bp1 where
    i: "get_free_frame ?ini = (Inr i, bp1)" and g: "got ?ini i bp1" by auto
  have inv1: "pool_inv bp1" and n1: "dm_num_pages (bp_disk bp1) = n + 1"
    and cap: "bp_capacity bp1 = bp_capacity bp" and view1: "bp_view bp1 = bp_view ?ini"
    using g d(2) by (simp_all add: got_def)
  have un1: "bp_page_table bp1 n = None" using got_uncached [OF d(3) g] d(5) by simp
  define fr where "fr = \<lparr>bf_page = page_new n, bf_pin_count = 1, bf_dirty = True, bf_ref_bit = True\<rparr>"
  have fr: "frame_ok (bp_disk bp1) fr" "pg_id (bf_page fr) = n" using n1 d(6) by (simp_all add: fr_def frame_ok_def)
  have free: "i < bp_capacity bp1" "bp_frames bp1 ! i = None" "i \<notin> set (bp_free_list bp1)"
    using g by (simp_all add: got_def)
  note ins = install_frame_ok [OF inv1 free un1 fr]
  let ?bp = "bp1\<lparr>bp_frames := (bp_frames bp1)[i := Some fr], bp_page_table := (bp_page_table bp1)(n \<mapsto> i)\<rparr>"
  have view: "bp_view ?bp = (bp_view bp)(n \<mapsto> pg_data (page_new n))"
    using ins(3) view1 d(4) by (simp add: fr_def)
  have pins: "bp_pins ?bp = (bp_pins bp)(n := 1)"
    using ins(4) got_pins [OF d(3) g] pins0 by (simp add: fr_def)
  have "no_leak ?bp" if "no_leak bp"
  proof -
    have "set (bp_free_list ?ini) = unused ?ini" using that by (simp add: no_leak_def unused_def)
    then show ?thesis using g free got_unused [OF g] ins(5) by (auto simp: no_leak_def got_def)
  qed
  then have "moves bp ?bp ((bp_view bp)(n \<mapsto> pg_data (page_new n))) ((bp_pins bp)(n := 1))"
    using ins(2) view pins cap by (simp add: moves_def)
  moreover have "bp_new_page bp = (Inr n, ?bp)"
    using d(1) i ins(1) by (simp add: bp_new_page_def bindS_def fr_def)
  ultimately show thesis using that n1 by simp
qed

text \<open>Writing back one frame: the view stays, the page on disk is the cached one.\<close>

lemma write_clean_ok:
  assumes inv: "pool_inv bp" and i: "i < bp_capacity bp" "bp_frames bp ! i = Some fr"
  obtains d where "dm_write_page (bf_page fr) (bp_disk bp) = (Inr (), d)"
    "dm_pages d = (dm_pages (bp_disk bp))(pg_id (bf_page fr) \<mapsto> pg_data (bf_page fr))"
    "dm_num_pages d = dm_num_pages (bp_disk bp)"
    "moves bp (bp\<lparr>bp_disk := d, bp_frames := (bp_frames bp)[i := Some (fr\<lparr>bf_dirty := False\<rparr>)]\<rparr>) (bp_view bp) (bp_pins bp)"
proof (rule write_back_ok [OF inv i])
  fix d assume d: "dm_write_page (bf_page fr) (bp_disk bp) = (Inr (), d)" "dm_inv d"
    "dm_num_pages d = dm_num_pages (bp_disk bp)"
    "dm_pages d = (dm_pages (bp_disk bp))(pg_id (bf_page fr) \<mapsto> pg_data (bf_page fr))"
    "\<And>j g. j < bp_capacity bp \<Longrightarrow> bp_frames bp ! j = Some g \<Longrightarrow> frame_ok d g"
    "frame_ok d (fr\<lparr>bf_dirty := False\<rparr>)"
  let ?ini = "bp\<lparr>bp_disk := d\<rparr>" and ?pid = "pg_id (bf_page fr)"
  have t: "bp_page_table bp ?pid = Some i" using pool_inv_frame(2) [OF inv i] .
  have inv0: "pool_inv ?ini" using swap_disk_inv [OF inv d(2)] d(5) by blast
  have same: "bp_view ?ini = bp_view bp"
  proof
    fix pid
    show "bp_view ?ini pid = bp_view bp pid"
      using d(4) t by (cases "bp_page_table bp pid") (auto simp: bp_view_def)
  qed
  have pins: "bp_pins ?ini = bp_pins bp" by (auto simp: bp_pins_def fun_eq_iff split: option.splits)
  have "moves ?ini (?ini\<lparr>bp_frames := (bp_frames ?ini)[i := Some (fr\<lparr>bf_dirty := False\<rparr>)]\<rparr>)
      ((bp_view ?ini)(?pid \<mapsto> pg_data (bf_page (fr\<lparr>bf_dirty := False\<rparr>))))
      ((bp_pins ?ini)(?pid := bf_pin_count (fr\<lparr>bf_dirty := False\<rparr>)))"
    by (rule change_frame_ok(1) [OF inv0]) (use t d(6) in simp_all)
  moreover have "(bp_view bp)(?pid \<mapsto> pg_data (bf_page fr)) = bp_view bp"
    using bp_view_cached [OF t i(2)] by (simp add: fun_upd_idem)
  moreover have "(bp_pins bp)(?pid := bf_pin_count fr) = bp_pins bp"
    using t i(2) by (simp add: bp_pins_def fun_upd_idem)
  ultimately have "moves ?ini (bp\<lparr>bp_disk := d, bp_frames := (bp_frames bp)[i := Some (fr\<lparr>bf_dirty := False\<rparr>)]\<rparr>)
      (bp_view bp) (bp_pins bp)"
    using same pins by simp
  then have "moves bp (bp\<lparr>bp_disk := d, bp_frames := (bp_frames bp)[i := Some (fr\<lparr>bf_dirty := False\<rparr>)]\<rparr>) (bp_view bp) (bp_pins bp)"
    by (simp add: moves_def no_leak_def unused_def)
  with that d(1,3,4) show thesis by blast
qed

lemma bp_flush_page_ok:
  assumes inv: "pool_inv bp"
  obtains bp' where "bp_flush_page pid bp = (Inr (), bp')" "moves bp bp' (bp_view bp) (bp_pins bp)"
    "dm_pages (bp_disk bp') pid = bp_view bp pid"
    "\<And>q. q \<noteq> pid \<Longrightarrow> dm_pages (bp_disk bp') q = dm_pages (bp_disk bp) q"
proof (cases "bp_page_table bp pid")
  case None
  with inv that [of bp] show thesis by (simp add: bp_flush_page_def bp_view_def moves_def)
next
  case (Some i)
  from pool_inv_table [OF inv Some] obtain fr where fr: "i < bp_capacity bp" "bp_frames bp ! i = Some fr"
    "pg_id (bf_page fr) = pid" "frame_ok (bp_disk bp) fr" by blast
  note unwrap = frame_unwrap_ok [OF inv Some fr(2)]
  have view: "bp_view bp pid = Some (pg_data (bf_page fr))" using bp_view_cached [OF Some fr(2)] .
  show thesis
  proof (cases "bf_dirty fr")
    case False
    with fr view inv Some unwrap that [of bp] show thesis
      by (simp add: bp_flush_page_def bindS_def moves_def frame_ok_def)
  next
    case True
    show thesis
    proof (rule write_clean_ok [OF inv fr(1,2)])
      fix d assume d: "dm_write_page (bf_page fr) (bp_disk bp) = (Inr (), d)"
        "dm_pages d = (dm_pages (bp_disk bp))(pg_id (bf_page fr) \<mapsto> pg_data (bf_page fr))"
        "moves bp (bp\<lparr>bp_disk := d, bp_frames := (bp_frames bp)[i := Some (fr\<lparr>bf_dirty := False\<rparr>)]\<rparr>) (bp_view bp) (bp_pins bp)"
      have "length (bp_frames bp) = bp_capacity bp" using inv by (simp add: pool_inv_def)
      then have "bp_flush_page pid bp
          = (Inr (), bp\<lparr>bp_disk := d, bp_frames := (bp_frames bp)[i := Some (fr\<lparr>bf_dirty := False\<rparr>)]\<rparr>)"
        using True Some unwrap d(1) fr(1)
        by (simp add: bp_flush_page_def bindS_def on_disk_def set_frame_def)
      from that [OF this d(3)] d(2) view fr(3) show thesis by simp
    qed
  qed
qed

text \<open>One round of \<^verbatim>\<open>flush_all\<close>, and what the loop has established after some rounds.\<close>

lemma flush_frame_ok:
  assumes inv: "pool_inv bp" and i: "i < bp_capacity bp"
  obtains bp' where "flush_frame i bp = (Inr (), bp')" "moves bp bp' (bp_view bp) (bp_pins bp)"
    "bp_page_table bp' = bp_page_table bp" "dm_num_pages (bp_disk bp') = dm_num_pages (bp_disk bp)"
    "\<And>pid. bp_page_table bp pid = Some i \<or> dm_pages (bp_disk bp) pid = bp_view bp pid
        \<Longrightarrow> dm_pages (bp_disk bp') pid = bp_view bp pid"
proof (cases "bp_frames bp ! i")
  case None
  have "bp_page_table bp pid \<noteq> Some i" for pid using None by (simp add: pool_inv_table_iff [OF inv])
  with None inv that [of bp] frame_at_ok [OF inv i] show thesis
    by (auto simp: flush_frame_def bindS_def moves_def)
next
  case (Some fr)
  note at = frame_at_ok [OF inv i]
  have len: "length (bp_frames bp) = bp_capacity bp" using inv by (simp add: pool_inv_def)
  have t: "bp_page_table bp (pg_id (bf_page fr)) = Some i" using pool_inv_frame(2) [OF inv i Some] .
  have view: "bp_view bp (pg_id (bf_page fr)) = Some (pg_data (bf_page fr))" using bp_view_cached [OF t Some] .
  have only: "pid = pg_id (bf_page fr)" if "bp_page_table bp pid = Some i" for pid
    using that Some by (simp add: pool_inv_table_iff [OF inv])
  show thesis
  proof (cases "bf_dirty fr")
    case False
    have ok: "frame_ok (bp_disk bp) fr" using pool_inv_frame(1) [OF inv i Some] .
    from False have "fr\<lparr>bf_dirty := False\<rparr> = fr" by simp
    then have "bp\<lparr>bp_frames := (bp_frames bp)[i := Some (fr\<lparr>bf_dirty := False\<rparr>)]\<rparr> = bp"
      using Some by (simp add: list_update_id [of "bp_frames bp" i, unfolded Some])
    then have "flush_frame i bp = (Inr (), bp)"
      using at Some False len i by (simp add: flush_frame_def bindS_def set_frame_def)
    moreover have "dm_pages (bp_disk bp) pid = bp_view bp pid" if "bp_page_table bp pid = Some i" for pid
      using only [OF that] ok False view by (simp add: frame_ok_def)
    ultimately show thesis using inv by (intro that [of bp]) (auto simp: moves_def)
  next
    case True
    show thesis
    proof (rule write_clean_ok [OF inv i Some])
      fix d assume d: "dm_write_page (bf_page fr) (bp_disk bp) = (Inr (), d)"
        "dm_pages d = (dm_pages (bp_disk bp))(pg_id (bf_page fr) \<mapsto> pg_data (bf_page fr))"
        "dm_num_pages d = dm_num_pages (bp_disk bp)"
        "moves bp (bp\<lparr>bp_disk := d, bp_frames := (bp_frames bp)[i := Some (fr\<lparr>bf_dirty := False\<rparr>)]\<rparr>) (bp_view bp) (bp_pins bp)"
      have "flush_frame i bp
          = (Inr (), bp\<lparr>bp_disk := d, bp_frames := (bp_frames bp)[i := Some (fr\<lparr>bf_dirty := False\<rparr>)]\<rparr>)"
        using True Some at d(1) i len by (simp add: flush_frame_def bindS_def on_disk_def set_frame_def)
      moreover have "dm_pages d pid = bp_view bp pid"
        if "bp_page_table bp pid = Some i \<or> dm_pages (bp_disk bp) pid = bp_view bp pid" for pid
        using that d(2) view only [of pid] by auto
      ultimately show thesis using d(3) by (intro that [OF _ d(4)]) simp_all
    qed
  qed
qed

lemma flush_frames_ok:
  assumes "pool_inv bp" and "\<forall>i \<in> set js. i < bp_capacity bp"
  shows "\<exists>bp'. foldS flush_frame js bp = (Inr (), bp') \<and> moves bp bp' (bp_view bp) (bp_pins bp)
    \<and> bp_page_table bp' = bp_page_table bp \<and> dm_num_pages (bp_disk bp') = dm_num_pages (bp_disk bp)
    \<and> (\<forall>pid. (\<exists>i \<in> set js. bp_page_table bp pid = Some i) \<or> dm_pages (bp_disk bp) pid = bp_view bp pid
        \<longrightarrow> dm_pages (bp_disk bp') pid = bp_view bp pid)"
  using assms
proof (induction js arbitrary: bp)
  case Nil
  then show ?case by (simp add: moves_def)
next
  case (Cons j js)
  have j: "j < bp_capacity bp" using Cons.prems by simp
  show ?case
  proof (rule flush_frame_ok [OF Cons.prems(1) j])
    fix bp1 assume 1: "flush_frame j bp = (Inr (), bp1)" "moves bp bp1 (bp_view bp) (bp_pins bp)"
      "bp_page_table bp1 = bp_page_table bp" "dm_num_pages (bp_disk bp1) = dm_num_pages (bp_disk bp)"
      "\<And>pid. bp_page_table bp pid = Some j \<or> dm_pages (bp_disk bp) pid = bp_view bp pid
        \<Longrightarrow> dm_pages (bp_disk bp1) pid = bp_view bp pid"
    then have inv1: "pool_inv bp1" "\<forall>i \<in> set js. i < bp_capacity bp1"
      and same: "bp_view bp1 = bp_view bp" "bp_pins bp1 = bp_pins bp"
      using Cons.prems by (simp_all add: moves_def)
    from Cons.IH [OF inv1] 1(3,4) same obtain bp2 where 2: "foldS flush_frame js bp1 = (Inr (), bp2)"
      "moves bp1 bp2 (bp_view bp) (bp_pins bp)" "bp_page_table bp2 = bp_page_table bp"
      "dm_num_pages (bp_disk bp2) = dm_num_pages (bp_disk bp)"
      "\<forall>pid. (\<exists>i \<in> set js. bp_page_table bp pid = Some i) \<or> dm_pages (bp_disk bp1) pid = bp_view bp pid
        \<longrightarrow> dm_pages (bp_disk bp2) pid = bp_view bp pid" by auto
    have "foldS flush_frame (j # js) bp = (Inr (), bp2)" using 1(1) 2(1) by (simp add: bindS_def)
    moreover have "moves bp bp2 (bp_view bp) (bp_pins bp)" using moves_trans [OF 1(2) 2(2)] .
    ultimately show ?thesis using 1(5) 2(3,4,5) by auto
  qed
qed

lemma bp_flush_all_ok:
  assumes inv: "pool_inv bp"
  obtains bp' where "bp_flush_all bp = (Inr (), bp')" "moves bp bp' (bp_view bp) (bp_pins bp)"
    "dm_pages (bp_disk bp') = bp_view bp" "dm_num_pages (bp_disk bp') = dm_num_pages (bp_disk bp)"
proof -
  from flush_frames_ok [OF inv, of "[0..<bp_capacity bp]"] obtain bp' where
    bp': "foldS flush_frame [0..<bp_capacity bp] bp = (Inr (), bp')"
      "moves bp bp' (bp_view bp) (bp_pins bp)" "dm_num_pages (bp_disk bp') = dm_num_pages (bp_disk bp)"
    and all: "\<And>pid. (\<exists>i \<in> set [0..<bp_capacity bp]. bp_page_table bp pid = Some i)
        \<or> dm_pages (bp_disk bp) pid = bp_view bp pid \<Longrightarrow> dm_pages (bp_disk bp') pid = bp_view bp pid"
    by auto
  have "dm_pages (bp_disk bp') pid = bp_view bp pid" for pid
  proof (cases "bp_page_table bp pid")
    case None
    then show ?thesis by (intro all) (simp add: bp_view_def)
  next
    case (Some i)
    then have "i < bp_capacity bp" by (simp add: pool_inv_table_iff [OF inv])
    with Some show ?thesis by (intro all) auto
  qed
  then have "dm_pages (bp_disk bp') = bp_view bp" by blast
  moreover have "bp_flush_all bp = (Inr (), bp')"
    using bp'(1) by (simp add: bp_flush_all_def flush_steps_def runS_append runS_map bindS_def on_disk_def dm_sync_def)
  ultimately show thesis using that bp'(2,3) by blast
qed

section \<open>Which pages reach the disk\<close>

text \<open>
  While a page is changed in the pool, the only write to disk is the one of an evicted frame; while the
  pool is flushed, each step writes at most the page of one frame.
\<close>

lemma disk_bind:
  "(\<And>a s. bp_disk (snd (f a s)) = bp_disk s) \<Longrightarrow> bp_disk (snd (bindS m f s)) = bp_disk (snd (m s))"
  by (auto simp: bindS_def split: prod.splits sum.splits)

lemma disk_kept [simp]:
  "bp_disk (snd (set_frame i f bp)) = bp_disk bp" "bp_disk (snd (frame_at i bp)) = bp_disk bp"
  "bp_disk (snd (install_frame i pid fr bp)) = bp_disk bp" "bp_disk (snd (on_disk (dm_read_page pid) bp)) = bp_disk bp"
  by (auto simp: set_frame_def frame_at_def install_frame_def bindS_def on_disk_def dm_read_page_def Let_def split: prod.splits sum.splits)

lemma unwrap_disk [simp]: "bp_disk (snd (frame_unwrap i bp)) = bp_disk bp"
  unfolding frame_unwrap_def by (subst disk_bind) (simp_all split: option.splits)

lemma update_disk [simp]: "bp_disk (snd (bp_update_page i f bp)) = bp_disk bp" "bp_disk (snd (bp_unpin_page pid dirty bp)) = bp_disk bp"
  unfolding bp_update_page_def bp_unpin_page_def by (simp_all add: disk_bind split: option.splits)

lemma fetch_mut_disk:
  "bp_disk (snd (bp_fetch_page_mut pid bp)) = bp_disk (if bp_page_table bp pid = None then snd (get_free_frame bp) else bp)"
  unfolding bp_fetch_page_mut_def by (simp add: disk_bind split: option.splits)

lemma update_spills:
  assumes "pool_inv bp"
  shows "spills bp (snd (bindS (bp_fetch_page_mut pid) (\<lambda>page. bindS (bp_update_page page f) (\<lambda>_. bp_unpin_page pid True)) bp))"
proof -
  have "spills bp (snd (get_free_frame bp))"
    using get_free_frame_ok [OF assms] by (auto simp: got_def spills_def split: if_splits)
  then show ?thesis unfolding spills_def by (subst disk_bind, simp add: disk_bind)+ (simp add: fetch_mut_disk)
qed

lemma flush_frame_spills:
  assumes inv: "pool_inv bp" and i: "i < bp_capacity bp"
  shows "spills bp (snd (flush_frame i bp))"
proof (cases "bp_frames bp ! i")
  case None
  then show ?thesis using frame_at_ok [OF inv i] by (simp add: flush_frame_def bindS_def spills_def)
next
  case (Some fr)
  have view: "bp_view bp (pg_id (bf_page fr)) = Some (pg_data (bf_page fr))"
    by (rule bp_view_cached [OF pool_inv_frame(2) [OF inv i Some] Some])
  obtain d where "dm_write_page (bf_page fr) (bp_disk bp) = (Inr (), d)"
    "dm_pages d = (dm_pages (bp_disk bp))(pg_id (bf_page fr) \<mapsto> pg_data (bf_page fr))" by (rule write_back_ok [OF inv i Some])
  with view have "spills bp (snd ((if bf_dirty fr then on_disk (dm_write_page (bf_page fr)) else retS ()) bp))"
    by (auto simp: spills_def on_disk_def)
  then show ?thesis using frame_at_ok [OF inv i] Some unfolding spills_def by (simp add: flush_frame_def bindS_run disk_bind)
qed

section \<open>A missing page\<close>

text \<open>Fetching a page that does not exist takes a frame first and never gives it back.\<close>

lemma bp_fetch_missing:
  assumes inv: "pool_inv bp" and "bp_view bp pid = None" and "available bp"
  obtains idx bp' where "get_free_frame bp = (Inr idx, bp')" "got bp idx bp'"
    "bp_fetch_page pid bp = (Inl (Err (Io UnexpectedEof)), bp')"
proof -
  from get_free_frame_ok [OF inv] assms(3) obtain i bp1 where
    i: "get_free_frame bp = (Inr i, bp1)" and g: "got bp i bp1" by auto
  have un: "bp_page_table bp pid = None"
  proof (rule ccontr)
    assume "bp_page_table bp pid \<noteq> None"
    then obtain j where j: "bp_page_table bp pid = Some j" by blast
    from pool_inv_table [OF inv j] obtain fr where "bp_frames bp ! j = Some fr" by blast
    with bp_view_cached [OF j] assms(2) show False by simp
  qed
  have "bp_view bp1 pid = None" using g assms(2) by (simp add: got_def)
  then have "dm_pages (bp_disk bp1) pid = None"
    using bp_view_uncached [OF got_uncached [OF inv g un]] by simp
  then have "on_disk (dm_read_page pid) bp1 = (Inl (Err (Io UnexpectedEof)), bp1)"
    by (simp add: on_disk_def dm_read_miss)
  with i un have "bp_fetch_page pid bp = (Inl (Err (Io UnexpectedEof)), bp1)"
    by (simp add: bp_fetch_page_def bindS_def)
  with that i g show thesis by blast
qed

section \<open>Properties\<close>

lemma pool_example:
  obtains bp where "bp_new_page (bp_new (dm_open ''d'' []) 1) = (Inr 0, bp)" "pool_inv bp" "no_leak bp"
    "bp_view bp 0 = Some (pg_data (page_new 0))" "bp_page_table bp 0 \<noteq> None"
    "dm_num_pages (bp_disk bp) = 1" "bp_capacity bp = 1" "bp_pins bp = (\<lambda>_. 0)(0 := 1)"
proof -
  note new = bp_new_ok [OF dm_inv_open_empty(1) zero_less_one, of "''d''"]
  have av: "available (bp_new (dm_open ''d'' []) 1)" using new(8) by (simp add: available_def)
  have n: "dm_num_pages (bp_disk (bp_new (dm_open ''d'' []) 1)) \<noteq> 0xFFFFFFFF" using new(6) by simp
  show thesis
  proof (rule bp_new_page_ok [OF new(1) n av, unfolded new(3,4,6) dm_inv_open_empty(2)])
    fix bp assume "bp_new_page (bp_new (dm_open ''d'' []) 1) = (Inr 0, bp)"
      "moves (bp_new (dm_open ''d'' []) 1) bp ((dm_pages (dm_open ''d'' []))(0 \<mapsto> pg_data (page_new 0))) ((\<lambda>_. 0)(0 := 1))"
      "dm_num_pages (bp_disk bp) = 0 + 1" "bp_page_table bp 0 \<noteq> None"
    with new(2,5) show thesis by (intro that [of bp]) (simp_all add: moves_def)
  qed
qed

text \<open>
  C21. Finding a free frame: if a frame is on the free list or some cached page is unpinned, the
  search ends with an empty frame, no page content changes and every pinned frame stays exactly
  as it is; otherwise the pool is unchanged and the error is \<^verbatim>\<open>BufferPoolFull\<close>.
\<close>

theorem get_free_frame_contract:
  assumes "pool_inv bp"
  shows "if available bp
    then \<exists>idx bp'. get_free_frame bp = (Inr idx, bp') \<and> pool_inv bp' \<and> bp_view bp' = bp_view bp
       \<and> idx < bp_capacity bp \<and> bp_frames bp' ! idx = None
       \<and> (\<forall>i < bp_capacity bp. \<forall>fr. bp_frames bp ! i = Some fr \<and> bf_pin_count fr \<noteq> 0
            \<longrightarrow> i \<noteq> idx \<and> bp_frames bp' ! i = Some fr)
    else get_free_frame bp = (Inl (Err BufferPoolFull), bp)"
proof -
  have keep: "i \<noteq> idx \<and> bp_frames bp' ! i = Some fr"
    if g: "got bp idx bp'" and i: "i < bp_capacity bp" "bp_frames bp ! i = Some fr" "bf_pin_count fr \<noteq> 0"
    for idx bp' i fr
  proof
    from g i show "i \<noteq> idx" by (auto simp: got_def evictable_def)
    with g i(1) have "passed (bp_frames bp ! i) (bp_frames bp' ! i)" by (simp add: got_def)
    with i(2,3) show "bp_frames bp' ! i = Some fr" by auto
  qed
  have "\<exists>idx bp'. get_free_frame bp = (Inr idx, bp') \<and> pool_inv bp' \<and> bp_view bp' = bp_view bp
       \<and> idx < bp_capacity bp \<and> bp_frames bp' ! idx = None
       \<and> (\<forall>i < bp_capacity bp. \<forall>fr. bp_frames bp ! i = Some fr \<and> bf_pin_count fr \<noteq> 0
            \<longrightarrow> i \<noteq> idx \<and> bp_frames bp' ! i = Some fr)" if "available bp"
  proof -
    from get_free_frame_ok [OF assms] that obtain idx bp' where
      "get_free_frame bp = (Inr idx, bp')" and g: "got bp idx bp'" by auto
    moreover have "pool_inv bp'" "bp_view bp' = bp_view bp" "idx < bp_capacity bp" "bp_frames bp' ! idx = None"
      using g by (simp_all add: got_def)
    ultimately show ?thesis using keep [OF g] by blast
  qed
  with get_free_frame_ok [OF assms] show ?thesis by simp
qed

theorem get_free_frame_contract_witness:
  "\<exists>bp. pool_inv bp \<and> bp_capacity bp = 1 \<and> \<not> available bp
     \<and> get_free_frame bp = (Inl (Err BufferPoolFull), bp)"
proof (rule pool_example)
  fix bp assume bp: "pool_inv bp" "no_leak bp" "bp_page_table bp 0 \<noteq> None" "bp_capacity bp = 1"
    "bp_pins bp = (\<lambda>_. 0)(0 := 1)"
  from bp(3) obtain i where i: "bp_page_table bp 0 = Some i" by blast
  from pool_inv_table [OF bp(1) i] bp(4) obtain fr where fr: "i = 0" "bp_frames bp ! 0 = Some fr" by auto
  have "bf_pin_count fr = bp_pins bp 0" using i fr by (simp add: bp_pins_def)
  then have "bf_pin_count fr = 1" using bp(5) by simp
  moreover have "j \<notin> unused bp" for j using bp(4) fr by (cases j) (simp_all add: unused_def)
  then have "unused bp = {}" by blast
  then have "bp_free_list bp = []" using bp(2) by (simp add: no_leak_def)
  ultimately have na: "\<not> available bp" using fr bp(4) by (simp add: available_def evictable_def)
  from get_free_frame_contract [OF bp(1)] have "get_free_frame bp = (Inl (Err BufferPoolFull), bp)"
    unfolding if_not_P [OF na] .
  with na bp(1,4) show ?thesis by blast
qed

text \<open>
  Fetching a page that exists, when it is cached or a frame is available, returns a frame
  with exactly the current content of that page, changes no page content, keeps the pool
  invariant and adds one pin to this page only.
\<close>

theorem fetch_page_reads_view:
  assumes "pool_inv bp" and "bp_view bp pid = Some b" and "bp_page_table bp pid \<noteq> None \<or> available bp"
    and "bp_fetch_page pid bp = (r, bp')"
  shows "\<exists>i p. r = Inr i \<and> bp_page_at i bp' = (Inr p, bp') \<and> pg_id p = pid \<and> pg_data p = b
    \<and> pool_inv bp' \<and> bp_view bp' = bp_view bp \<and> bp_pins bp' = (bp_pins bp)(pid := bp_pins bp pid + 1)"
proof (rule bp_fetch_page_ok [OF assms(1-3)])
  fix i bp1 fr assume f: "bp_fetch_page pid bp = (Inr i, bp1)"
    "moves bp bp1 (bp_view bp) ((bp_pins bp)(pid := bp_pins bp pid + 1))"
    "bp_page_table bp1 pid = Some i" "bp_frames bp1 ! i = Some fr" "pg_data (bf_page fr) = b"
  have "pool_inv bp1" using f(2) by (simp add: moves_def)
  from bp_page_at_ok [OF this f(3,4)] f assms(4) show ?thesis by (auto simp: moves_def)
qed

text \<open>
  C22. Flushing the whole pool succeeds and makes the database file hold the current content of
  every page: a new pool of any size opened on that file reads exactly what the old pool read.
\<close>

theorem flush_all_durable:
  assumes "pool_inv bp" and "bp_flush_all bp = (r, bp')" and "0 < c"
  shows "r = Inr () \<and> pool_inv bp' \<and> bp_view bp' = bp_view bp \<and> bp_pins bp' = bp_pins bp
    \<and> dm_pages (bp_disk bp') = bp_view bp \<and> bp_view (bp_new (bp_disk bp') c) = bp_view bp"
proof (rule bp_flush_all_ok [OF assms(1)])
  fix bp1 assume f: "bp_flush_all bp = (Inr (), bp1)" "moves bp bp1 (bp_view bp) (bp_pins bp)"
    "dm_pages (bp_disk bp1) = bp_view bp"
  have "dm_inv (bp_disk bp1)" using f(2) by (simp add: moves_def pool_inv_def)
  from bp_new_ok(3) [OF this assms(3)] f assms(2) show ?thesis by (simp add: moves_def)
qed

theorem flush_all_durable_witness:
  "\<exists>bp bp'. pool_inv bp \<and> bp_flush_all bp = (Inr (), bp')
     \<and> bp_view (bp_new (bp_disk bp') 4) 0 = Some (pg_data (page_new 0))"
proof (rule pool_example)
  fix bp assume bp: "pool_inv bp" "bp_view bp 0 = Some (pg_data (page_new 0))"
  obtain r bp' where run: "bp_flush_all bp = (r, bp')" by fastforce
  from flush_all_durable [OF bp(1) run, of 4] run bp show ?thesis by auto
qed

text \<open>
  A fetch of a page that does not exist on disk fails, but it keeps the frame it took: the
  frame is empty and no longer on the free list. In a pool without leaked frames it leaks one.
\<close>

theorem fetch_missing_leaks_frame:
  assumes "pool_inv bp" and "no_leak bp" and "bp_view bp pid = None" and "available bp"
    and "bp_fetch_page pid bp = (r, bp')"
  shows "r = Inl (Err (Io UnexpectedEof)) \<and> pool_inv bp' \<and> bp_view bp' = bp_view bp
    \<and> (\<exists>idx. idx < bp_capacity bp' \<and> bp_frames bp' ! idx = None \<and> idx \<notin> set (bp_free_list bp')) \<and> \<not> no_leak bp'"
proof (rule bp_fetch_missing [OF assms(1,3,4)])
  fix idx bp1 assume "got bp idx bp1" "bp_fetch_page pid bp = (Inl (Err (Io UnexpectedEof)), bp1)"
  with assms(5) show ?thesis by (auto simp: got_def no_leak_def unused_def)
qed

end
