(* ===== verification/Tree.thy ===== *)
theory Tree
  imports Internal Pool
begin

text \<open>
  The B+ tree code of \<^verbatim>\<open>src/src/btree/tree.rs\<close>, statement by statement, on top of the
  node code (theory \<open>Node\<close>) and the buffer pool (theory \<open>Pool\<close>). A method that takes
  \<^verbatim>\<open>&self\<close> and the pool is an operation on the pool with the tree as an argument; a method
  that takes \<^verbatim>\<open>&mut self\<close> is an operation on the pair of tree and pool.

  Every loop of the tree follows page ids stored in pages, so on a damaged database it may run
  forever; the model gives each loop \<open>loop_fuel\<close> rounds, one more than there are pages. A
  descent or a chain of siblings that visits more pages than exist has visited one of them twice
  and never ends, so that the fuel only cuts off runs that do not return; on well-formed trees it
  is proved to be enough. The mutual recursion of an insert goes up along parent pointers and is
  given the same number of rounds, which is more than the height of the tree: it can run out only
  where parent pointers form a cycle.
\<close>

section \<open>Nodes in the buffer pool\<close>

record bplus_tree =
  root_page_id :: page_id

type_synonym tree_pool = "bplus_tree \<times> buffer_pool"

definition in_pool :: "(buffer_pool, 'a) op \<Rightarrow> (tree_pool, 'a) op" where
  "in_pool m = (\<lambda>(t, bp). case m bp of (r, bp') \<Rightarrow> (r, (t, bp')))"

definition get_tree :: "(tree_pool, bplus_tree) op" where
  "get_tree = (\<lambda>(t, bp). (Inr t, (t, bp)))"

definition set_root_page_id :: "page_id \<Rightarrow> (tree_pool, unit) op" where
  "set_root_page_id pid = (\<lambda>(t, bp). (Inr (), (t\<lparr>root_page_id := pid\<rparr>, bp)))"

text \<open>\<^verbatim>\<open>page.data.copy_from_slice(&node.page.data); page.dirty = true;\<close>\<close>

definition copy_node :: "btree_node \<Rightarrow> page \<Rightarrow> page" where
  "copy_node nd p = p\<lparr>pg_data := pg_data nd, pg_dirty := True\<rparr>"

definition bt_create :: "(buffer_pool, bplus_tree) op" where
  "bt_create =
     bindS bp_new_page (\<lambda>root_id.
     bindS (bp_fetch_page_mut root_id) (\<lambda>page.
     bindS (bp_update_page page (copy_node (update_checksum (new_leaf root_id)))) (\<lambda>_.
     bindS (bp_unpin_page root_id True) (\<lambda>_.
     bindS (bp_unpin_page root_id False) (\<lambda>_.
     retS \<lparr>root_page_id = root_id\<rparr>)))))"

definition bt_open :: "page_id \<Rightarrow> bplus_tree" where
  "bt_open pid = \<lparr>root_page_id = pid\<rparr>"

definition read_node :: "page_id \<Rightarrow> (buffer_pool, btree_node) op" where
  "read_node pid =
     bindS (bp_fetch_page pid) (\<lambda>page.
     bindS (bp_page_at page) (\<lambda>node.
     bindS (bp_unpin_page pid False) (\<lambda>_.
     retS node)))"

definition write_node :: "btree_node \<Rightarrow> (buffer_pool, unit) op" where
  "write_node nd =
     (let nd = update_checksum nd; pid = pg_id nd
      in bindS (bp_fetch_page_mut pid) (\<lambda>page.
         bindS (bp_update_page page (copy_node nd)) (\<lambda>_.
         bp_unpin_page pid True)))"

definition allocate_page :: "(buffer_pool, page_id) op" where
  "allocate_page =
     bindS bp_new_page (\<lambda>pid.
     bindS (bp_unpin_page pid False) (\<lambda>_.
     retS pid))"

definition loop_fuel :: "buffer_pool \<Rightarrow> nat" where
  "loop_fuel bp = Suc (unat (dm_num_pages (bp_disk bp)))"

section \<open>Search\<close>

fun find_leaf_loop :: "nat \<Rightarrow> key \<Rightarrow> page_id \<Rightarrow> (buffer_pool, page_id) op" where
  "find_leaf_loop 0 key current_id = failS OutOfFuel"
| "find_leaf_loop (Suc fuel) key current_id =
     bindS (read_node current_id) (\<lambda>node.
       if is_leaf node then retS current_id
       else bindS (liftE (internal_find_child node key)) (\<lambda>child_idx.
            bindS (liftE (internal_child node child_idx)) (\<lambda>next_id.
            find_leaf_loop fuel key next_id)))"

definition find_leaf :: "bplus_tree \<Rightarrow> key \<Rightarrow> (buffer_pool, page_id) op" where
  "find_leaf t key bp = find_leaf_loop (loop_fuel bp) key (root_page_id t) bp"

definition bt_search :: "bplus_tree \<Rightarrow> key \<Rightarrow> (buffer_pool, bytes option) op" where
  "bt_search t key =
     bindS (find_leaf t key) (\<lambda>leaf_id.
     bindS (read_node leaf_id) (\<lambda>node.
     bindS (liftE (leaf_find_slot node key)) (\<lambda>(idx, found).
       if found then bindS (liftE (leaf_value node idx)) (\<lambda>v. retS (Some v))
       else retS None)))"

section \<open>Insert\<close>

text \<open>
  \<^verbatim>\<open>binary_search_by(..).unwrap_or_else(|i| i)\<close> on a strictly sorted list: the position of
  the key, or where it belongs; then \<^verbatim>\<open>Vec::insert\<close>.
\<close>

definition search_pos :: "key \<Rightarrow> (key \<times> 'v) list \<Rightarrow> nat" where
  "search_pos key es = length (takeWhile (\<lambda>e. fst e < key) es)"

definition vec_insert :: "nat \<Rightarrow> 'a \<Rightarrow> 'a list \<Rightarrow> 'a list" where
  "vec_insert pos x xs = take pos xs @ x # drop pos xs"

definition update_children_parent :: "page_id \<Rightarrow> (buffer_pool, unit) op" where
  "update_children_parent parent_id =
     bindS (read_node parent_id) (\<lambda>parent.
     foldS (\<lambda>i.
       bindS (liftE (internal_child parent i)) (\<lambda>child_id.
       bindS (read_node child_id) (\<lambda>child.
       write_node (set_parent parent_id child)))) [0..<num_children parent])"

text \<open>The new root of \<^verbatim>\<open>insert_into_parent\<close>, when the root was split.\<close>

definition split_root :: "page_id \<Rightarrow> key \<Rightarrow> page_id \<Rightarrow> (tree_pool, unit) op" where
  "split_root left_child key right_child =
     bindS (in_pool allocate_page) (\<lambda>new_root_id.
     bindS (liftE (internal_insert (set_leftmost_child left_child (new_internal new_root_id)) key right_child))
       (\<lambda>new_root.
     bindS (in_pool (write_node new_root)) (\<lambda>_.
     bindS (in_pool (read_node left_child)) (\<lambda>left.
     bindS (in_pool (write_node (set_parent new_root_id left))) (\<lambda>_.
     bindS (in_pool (read_node right_child)) (\<lambda>right.
     bindS (in_pool (write_node (set_parent new_root_id right))) (\<lambda>_.
     set_root_page_id new_root_id)))))))"

fun insert_into_parent :: "nat \<Rightarrow> page_id \<Rightarrow> key \<Rightarrow> page_id \<Rightarrow> page_id \<Rightarrow> (tree_pool, unit) op"
  and split_internal :: "nat \<Rightarrow> btree_node \<Rightarrow> key \<Rightarrow> page_id \<Rightarrow> (tree_pool, unit) op" where
  "insert_into_parent 0 left_child key right_child parent_id = failS OutOfFuel"
| "insert_into_parent (Suc fuel) left_child key right_child parent_id =
     (if parent_id = INVALID_PAGE_ID then split_root left_child key right_child
      else bindS (in_pool (read_node parent_id)) (\<lambda>parent.
           bindS (liftE (internal_can_fit parent key)) (\<lambda>fits.
             if fits then
               bindS (liftE (internal_insert parent key right_child)) (\<lambda>parent'.
               bindS (in_pool (write_node parent')) (\<lambda>_.
               bindS (in_pool (read_node right_child)) (\<lambda>right.
               in_pool (write_node (set_parent parent_id right)))))
             else split_internal fuel parent key right_child)))"
| "split_internal fuel old_node new_key new_child =
     bindS (liftE (internal_entries old_node)) (\<lambda>(leftmost, entries0).
       let entries = vec_insert (search_pos new_key entries0) (new_key, new_child) entries0;
           split_point = length entries div 2;
           left_entries = take split_point entries;
           (push_up_key, right_leftmost) = entries ! split_point;
           right_entries = drop (split_point + 1) entries
       in bindS (in_pool allocate_page) (\<lambda>right_id.
          bindS (liftE (internal_rebuild (set_level (get_level old_node) (new_internal right_id))
                          right_leftmost right_entries)) (\<lambda>right_node.
          let old_id = pg_id old_node; parent_id = get_parent old_node; level = get_level old_node
          in bindS (liftE (internal_rebuild (set_parent parent_id (set_level level (new_internal old_id)))
                            leftmost left_entries)) (\<lambda>new_old_node.
          bindS (in_pool (write_node new_old_node)) (\<lambda>_.
          bindS (in_pool (write_node right_node)) (\<lambda>_.
          bindS (in_pool (update_children_parent right_id)) (\<lambda>_.
          insert_into_parent fuel old_id push_up_key right_id parent_id)))))))"

definition split_and_insert_leaf :: "nat \<Rightarrow> btree_node \<Rightarrow> key \<Rightarrow> bytes \<Rightarrow> (tree_pool, unit) op" where
  "split_and_insert_leaf fuel old_node key value =
     bindS (liftE (leaf_entries old_node)) (\<lambda>entries0.
       let entries = vec_insert (search_pos key entries0) (key, value) entries0;
           split_point = length entries div 2;
           left_entries = take split_point entries;
           right_entries = drop split_point entries
       in bindS (in_pool allocate_page) (\<lambda>right_id.
          let right_node = set_right_sibling (get_right_sibling old_node) (new_leaf right_id);
              old_id = pg_id old_node; parent_id = get_parent old_node;
              fresh = set_right_sibling right_id (set_parent parent_id (new_leaf old_id))
          in bindS (liftE (leaf_refill leaf_insert fresh left_entries)) (\<lambda>left'.
             bindS (liftE (leaf_refill leaf_insert right_node right_entries)) (\<lambda>right'.
             bindS (liftE (leaf_key right' 0)) (\<lambda>split_key.
             bindS (in_pool (write_node left')) (\<lambda>_.
             bindS (in_pool (write_node right')) (\<lambda>_.
             insert_into_parent fuel old_id split_key right_id parent_id)))))))"

definition bt_insert :: "key \<Rightarrow> bytes \<Rightarrow> (tree_pool, bool) op" where
  "bt_insert key value =
     bindS get_tree (\<lambda>t.
     bindS (in_pool (find_leaf t key)) (\<lambda>leaf_id.
     bindS (in_pool (read_node leaf_id)) (\<lambda>node.
     bindS (liftE (leaf_find_slot node key)) (\<lambda>(_, found).
       if found then
         bindS (liftE (leaf_insert node key value)) (\<lambda>(node', _).
         bindS (in_pool (write_node node')) (\<lambda>_. retS False))
       else
         bindS (liftE (leaf_can_fit node key value)) (\<lambda>fits.
           if fits then
             bindS (liftE (leaf_insert node key value)) (\<lambda>(node', _).
             bindS (in_pool (write_node node')) (\<lambda>_. retS True))
           else
             bindS (\<lambda>(t, bp). split_and_insert_leaf (loop_fuel bp) node key value (t, bp)) (\<lambda>_.
             retS True))))))"

section \<open>Delete and scans\<close>

definition bt_delete :: "key \<Rightarrow> (tree_pool, bytes option) op" where
  "bt_delete key =
     bindS get_tree (\<lambda>t.
     bindS (in_pool (find_leaf t key)) (\<lambda>leaf_id.
     bindS (in_pool (read_node leaf_id)) (\<lambda>node.
     bindS (liftE (leaf_delete node key)) (\<lambda>(node', result).
     bindS (if result \<noteq> None then in_pool (write_node node') else retS ()) (\<lambda>_.
     retS result)))))"

fun leftmost_leaf_loop :: "nat \<Rightarrow> page_id \<Rightarrow> (buffer_pool, page_id) op" where
  "leftmost_leaf_loop 0 current_id = failS OutOfFuel"
| "leftmost_leaf_loop (Suc fuel) current_id =
     bindS (read_node current_id) (\<lambda>node.
       if is_leaf node then retS current_id
       else leftmost_leaf_loop fuel (get_leftmost_child node))"

fun scan_loop :: "nat \<Rightarrow> page_id \<Rightarrow> entry list \<Rightarrow> (buffer_pool, entry list) op" where
  "scan_loop 0 current_id result = failS OutOfFuel"
| "scan_loop (Suc fuel) current_id result =
     bindS (read_node current_id) (\<lambda>node.
     bindS (liftE (leaf_entries node)) (\<lambda>entries.
       let result = result @ entries; nxt = get_right_sibling node
       in if nxt = INVALID_PAGE_ID then retS result else scan_loop fuel nxt result))"

definition bt_scan_all :: "bplus_tree \<Rightarrow> (buffer_pool, entry list) op" where
  "bt_scan_all t bp =
     bindS (leftmost_leaf_loop (loop_fuel bp) (root_page_id t)) (\<lambda>current_id.
     scan_loop (loop_fuel bp) current_id []) bp"

text \<open>
  The inner loop of \<^verbatim>\<open>range_scan\<close> over the keys of one leaf: the entries found so far, and
  whether a key above \<open>end\<close> has ended the scan.
\<close>

fun range_leaf :: "btree_node \<Rightarrow> key \<Rightarrow> key \<Rightarrow> nat list \<Rightarrow> entry list \<Rightarrow> (entry list \<times> bool) res" where
  "range_leaf node lo hi [] result = Inr (result, False)"
| "range_leaf node lo hi (i # is) result =
     bindE (leaf_key node i) (\<lambda>key.
       if hi < key then Inr (result, True)
       else if lo \<le> key then
         bindE (leaf_value node i) (\<lambda>v. range_leaf node lo hi is (result @ [(key, v)]))
       else range_leaf node lo hi is result)"

fun range_loop :: "nat \<Rightarrow> key \<Rightarrow> key \<Rightarrow> page_id \<Rightarrow> entry list \<Rightarrow> (buffer_pool, entry list) op" where
  "range_loop 0 lo hi current_id result = failS OutOfFuel"
| "range_loop (Suc fuel) lo hi current_id result =
     bindS (read_node current_id) (\<lambda>node.
     bindS (liftE (range_leaf node lo hi [0..<num_keys node] result)) (\<lambda>(result, stop).
       if stop then retS result
       else let nxt = get_right_sibling node
            in if nxt = INVALID_PAGE_ID then retS result else range_loop fuel lo hi nxt result))"

definition bt_range_scan :: "bplus_tree \<Rightarrow> key \<Rightarrow> key \<Rightarrow> (buffer_pool, entry list) op" where
  "bt_range_scan t lo hi bp =
     bindS (find_leaf t lo) (\<lambda>leaf_id.
     range_loop (loop_fuel bp) lo hi leaf_id []) bp"

end
