(* ===== verification/Store.thy ===== *)
theory Store
  imports Tree
begin

text \<open>
  The interface between the tree and the buffer pool. The locale \<open>page_store\<close> states what
  the tree relies on: reading a page gives its current content and changes nothing, writing a
  node replaces exactly that page, allocating a page returns a new id. Its lemmas treat the
  read-modify-write sequences of the tree once. The pool operations of theory \<open>Tree\<close>
  are an interpretation in every quiet state of the pool: no page is pinned and no frame leaked.
\<close>

locale page_store =
  fixes rd_node :: "page_id \<Rightarrow> ('s, btree_node) op"
    and wr_node :: "btree_node \<Rightarrow> ('s, unit) op"
    and alloc :: "('s, page_id) op"
    and view :: "'s \<Rightarrow> page_id \<rightharpoonup> bytes"
    and count :: "'s \<Rightarrow> u32"
    and invar :: "'s \<Rightarrow> bool"
  assumes view_dom: "invar s \<Longrightarrow> view s i \<noteq> None \<longleftrightarrow> i < count s"
    and view_length: "invar s \<Longrightarrow> view s i = Some b \<Longrightarrow> length b = PAGE_SIZE"
    and rd_node_ok: "invar s \<Longrightarrow> view s i = Some b \<Longrightarrow>
      \<exists>nd s'. rd_node i s = (Inr nd, s') \<and> invar s' \<and> view s' = view s \<and> count s' = count s
        \<and> pg_id nd = i \<and> pg_data nd = b"
    and wr_node_ok: "invar s \<Longrightarrow> page_wf nd \<Longrightarrow> view s (pg_id nd) \<noteq> None \<Longrightarrow>
      \<exists>s'. wr_node nd s = (Inr (), s') \<and> invar s' \<and> count s' = count s
        \<and> view s' = (view s)(pg_id nd \<mapsto> pg_data (update_checksum nd))"
    and alloc_ok: "invar s \<Longrightarrow> count s \<noteq> 0xFFFFFFFF \<Longrightarrow>
      \<exists>s'. alloc s = (Inr (count s), s') \<and> invar s' \<and> count s' = count s + 1
        \<and> view s' = (view s)(count s \<mapsto> pg_data (page_new (count s)))"
begin

lemma rd_node_obtain:
  assumes "invar s" and "view s i = Some b"
  obtains nd s' where "rd_node i s = (Inr nd, s')" "invar s'" "view s' = view s" "count s' = count s"
    "pg_id nd = i" "pg_data nd = b" "page_wf nd"
  using rd_node_ok [OF assms] view_length [OF assms] by (auto simp: page_wf_def)

lemma wr_node_obtain:
  assumes "invar s" and "page_wf nd" and "view s (pg_id nd) \<noteq> None"
  obtains s' where "wr_node nd s = (Inr (), s')" "invar s'" "count s' = count s"
    "view s' = (view s)(pg_id nd \<mapsto> pg_data (update_checksum nd))"
  using wr_node_ok [OF assms] by blast

lemma read_back:
  assumes "invar s" and "page_wf nd" and "view s (pg_id nd) \<noteq> None" and "wr_node nd s = (r, s')"
  shows "\<exists>nd' s''. rd_node (pg_id nd) s' = (Inr nd', s'') \<and> pg_data nd' = pg_data (update_checksum nd)"
proof -
  from wr_node_ok [OF assms(1-3)] assms(4)
  have "invar s'" "view s' (pg_id nd) = Some (pg_data (update_checksum nd))" by auto
  from rd_node_ok [OF this] show ?thesis by blast
qed

text \<open>Read a node, change it, write it back: the pattern of every parent pointer update.\<close>

lemma read_modify_write:
  assumes "invar s" and "view s i = Some b"
    and f: "\<And>nd. page_wf nd \<Longrightarrow> pg_id nd = i \<Longrightarrow> pg_data nd = b \<Longrightarrow> page_wf (f nd) \<and> pg_id (f nd) = i"
  shows "\<exists>nd s'. bindS (rd_node i) (\<lambda>nd. wr_node (f nd)) s = (Inr (), s') \<and> invar s' \<and> count s' = count s
    \<and> pg_id nd = i \<and> pg_data nd = b \<and> page_wf nd
    \<and> view s' = (view s)(i \<mapsto> pg_data (update_checksum (f nd)))"
proof (rule rd_node_obtain [OF assms(1,2)])
  fix nd s1 assume r: "rd_node i s = (Inr nd, s1)" "invar s1" "view s1 = view s" "count s1 = count s"
    "pg_id nd = i" "pg_data nd = b" "page_wf nd"
  then have g: "page_wf (f nd)" "pg_id (f nd) = i" using f by auto
  have "view s1 (pg_id (f nd)) \<noteq> None" using r(3) g assms(2) by simp
  from wr_node_ok [OF r(2) g(1) this] r g show ?thesis by (auto simp: bindS_def)
qed

end

section \<open>The buffer pool is a page store\<close>

definition pool_quiet :: "buffer_pool \<Rightarrow> bool" where
  "pool_quiet bp \<longleftrightarrow> pool_inv bp \<and> no_leak bp \<and> bp_pins bp = (\<lambda>_. 0)"

definition bp_count :: "buffer_pool \<Rightarrow> u32" where
  "bp_count bp = dm_num_pages (bp_disk bp)"

lemma quiet_available: "pool_quiet bp \<Longrightarrow> available bp"
proof (cases "bp_free_list bp = []")
  case True
  assume q: "pool_quiet bp"
  have inv: "pool_inv bp" and pos: "0 < bp_capacity bp" and nl: "unused bp = {}"
    using q True by (auto simp: pool_quiet_def pool_inv_def no_leak_def)
  from nl pos obtain fr where fr: "bp_frames bp ! 0 = Some fr" by (auto simp: unused_def)
  have "bp_pins bp (pg_id (bf_page fr)) = bf_pin_count fr"
    using pool_inv_frame(2) [OF inv pos fr] fr by (simp add: bp_pins_def)
  with q have "bf_pin_count fr = 0" by (simp add: pool_quiet_def)
  with fr pos show ?thesis by (auto simp: available_def evictable_def)
qed (simp add: available_def)

lemma quiet_moves:
  "pool_quiet bp \<Longrightarrow> moves bp bp' v ps \<Longrightarrow> pool_inv bp' \<and> no_leak bp' \<and> bp_view bp' = v \<and> bp_pins bp' = ps"
  by (simp add: pool_quiet_def moves_def)

lemma read_node_ok:
  assumes q: "pool_quiet bp" and b: "bp_view bp pid = Some b"
  shows "\<exists>nd bp'. read_node pid bp = (Inr nd, bp') \<and> pool_quiet bp' \<and> bp_view bp' = bp_view bp
    \<and> bp_count bp' = bp_count bp \<and> pg_id nd = pid \<and> pg_data nd = b"
proof -
  have inv: "pool_inv bp" and pins: "bp_pins bp = (\<lambda>_. 0)" using q by (simp_all add: pool_quiet_def)
  have av: "bp_page_table bp pid \<noteq> None \<or> available bp" using quiet_available [OF q] by simp
  show ?thesis
  proof (rule bp_fetch_page_ok [OF inv b av])
    fix i bp1 fr assume f: "bp_fetch_page pid bp = (Inr i, bp1)"
      "moves bp bp1 (bp_view bp) ((bp_pins bp)(pid := bp_pins bp pid + 1))"
      "bp_page_table bp1 pid = Some i" "bp_frames bp1 ! i = Some fr" "pg_data (bf_page fr) = b"
      "dm_num_pages (bp_disk bp1) = dm_num_pages (bp_disk bp)"
    note q1 = quiet_moves [OF q f(2)]
    have at: "bp_page_at i bp1 = (Inr (bf_page fr), bp1)" "pg_id (bf_page fr) = pid"
      using bp_page_at_ok [OF _ f(3,4)] q1 by auto
    show ?thesis
    proof (rule bp_unpin_page_ok [of bp1 pid i False])
      fix bp2 assume u: "bp_unpin_page pid False bp1 = (Inr (), bp2)"
        "moves bp1 bp2 (bp_view bp1) ((bp_pins bp1)(pid := if bp_pins bp1 pid > 0 then bp_pins bp1 pid - 1 else 0))"
        "dm_num_pages (bp_disk bp2) = dm_num_pages (bp_disk bp1)"
      have "read_node pid bp = (Inr (bf_page fr), bp2)"
        using f(1) at u(1) by (simp add: read_node_def bindS_def)
      moreover have "pool_quiet bp2" using u(2) q1 pins by (simp add: pool_quiet_def moves_def fun_eq_iff)
      moreover have "bp_view bp2 = bp_view bp" using u(2) q1 by (simp add: moves_def)
      ultimately show ?thesis using at(2) f(5,6) u(3) by (simp add: bp_count_def)
    qed (use q1 f(3) in simp_all)
  qed
qed

text \<open>Changing a page through a mutable reference: the pattern of every write to the pool.\<close>

lemma pool_update_moves:
  assumes inv: "pool_inv bp" and b: "bp_view bp pid = Some b"
    and av: "bp_page_table bp pid \<noteq> None \<or> available bp" and pins: "bp_pins bp pid \<noteq> - 1"
    and f: "\<And>p. page_wf p \<Longrightarrow> page_wf (f p) \<and> pg_id (f p) = pg_id p"
  shows "\<exists>p bp'. bindS (bp_fetch_page_mut pid) (\<lambda>page. bindS (bp_update_page page f) (\<lambda>_. bp_unpin_page pid True)) bp
      = (Inr (), bp') \<and> moves bp bp' ((bp_view bp)(pid \<mapsto> pg_data (f p))) (bp_pins bp) \<and> bp_count bp' = bp_count bp
    \<and> pg_data p = b \<and> bp_page_table bp' pid \<noteq> None"
proof (rule bp_fetch_page_mut_ok [OF inv b av])
  have "bp_pins bp pid + 1 \<noteq> 0" using pins by (metis add_eq_0_iff add.commute)
  then have pos: "0 < bp_pins bp pid + 1" by (simp add: word_gt_0)
  fix i bp1 fr assume fm: "bp_fetch_page_mut pid bp = (Inr i, bp1)"
    "moves bp bp1 (bp_view bp) ((bp_pins bp)(pid := bp_pins bp pid + 1))"
    "bp_page_table bp1 pid = Some i" "bp_frames bp1 ! i = Some fr" "pg_data (bf_page fr) = b" "bf_dirty fr"
    "dm_num_pages (bp_disk bp1) = dm_num_pages (bp_disk bp)"
  have inv1: "pool_inv bp1" using fm(2) by (simp add: moves_def)
  have "page_wf (bf_page fr)" using pool_inv_table [OF inv1 fm(3)] fm(4) by (auto simp: frame_ok_def)
  with f have g: "page_wf (f (bf_page fr))" "pg_id (f (bf_page fr)) = pg_id (bf_page fr)" by auto
  show ?thesis
  proof (rule bp_update_page_ok [where f = f, OF inv1 fm(3,4,6) g])
    fix bp2 assume u: "bp_update_page i f bp1 = (Inr (), bp2)"
      "moves bp1 bp2 ((bp_view bp1)(pid \<mapsto> pg_data (f (bf_page fr)))) (bp_pins bp1)"
      "bp_page_table bp2 = bp_page_table bp1" "dm_num_pages (bp_disk bp2) = dm_num_pages (bp_disk bp1)"
    have inv2: "pool_inv bp2" using u(2) by (simp add: moves_def)
    have t2: "bp_page_table bp2 pid = Some i" using u(3) fm(3) by simp
    show ?thesis
    proof (rule bp_unpin_page_ok [OF inv2 t2, of True])
      fix bp3 assume w: "bp_unpin_page pid True bp2 = (Inr (), bp3)"
        "moves bp2 bp3 (bp_view bp2) ((bp_pins bp2)(pid := if bp_pins bp2 pid > 0 then bp_pins bp2 pid - 1 else 0))"
        "dm_num_pages (bp_disk bp3) = dm_num_pages (bp_disk bp2)" "bp_page_table bp3 = bp_page_table bp2"
      have "bindS (bp_fetch_page_mut pid) (\<lambda>page. bindS (bp_update_page page f) (\<lambda>_. bp_unpin_page pid True)) bp
          = (Inr (), bp3)" using fm(1) u(1) w(1) by (simp add: bindS_def)
      moreover have "moves bp bp3 ((bp_view bp)(pid \<mapsto> pg_data (f (bf_page fr)))) (bp_pins bp)"
        using fm(2) u(2) w(2) pos by (simp add: moves_def fun_eq_iff)
      ultimately show ?thesis using fm(5,7) u(4) w(3,4) t2 by (auto simp: bp_count_def)
    qed
  qed
qed

lemma pool_update_ok:
  assumes q: "pool_quiet bp" and b: "bp_view bp pid = Some b"
    and f: "\<And>p. page_wf p \<Longrightarrow> page_wf (f p) \<and> pg_id (f p) = pg_id p"
  shows "\<exists>p bp'. bindS (bp_fetch_page_mut pid) (\<lambda>page. bindS (bp_update_page page f) (\<lambda>_. bp_unpin_page pid True)) bp
      = (Inr (), bp') \<and> pool_quiet bp' \<and> bp_count bp' = bp_count bp \<and> pg_data p = b
    \<and> bp_view bp' = (bp_view bp)(pid \<mapsto> pg_data (f p)) \<and> bp_capacity bp' = bp_capacity bp"
proof -
  have "pool_inv bp" "bp_page_table bp pid \<noteq> None \<or> available bp" "bp_pins bp pid \<noteq> - 1"
    using q quiet_available [OF q] by (simp_all add: pool_quiet_def)
  from pool_update_moves [where f = f, OF this(1) b this(2,3) f] show ?thesis
    using q by (fastforce simp: moves_def pool_quiet_def)
qed

lemma write_node_ok:
  assumes q: "pool_quiet bp" and wf: "page_wf nd" and v: "bp_view bp (pg_id nd) \<noteq> None"
  shows "\<exists>bp'. write_node nd bp = (Inr (), bp') \<and> pool_quiet bp' \<and> bp_count bp' = bp_count bp
    \<and> bp_view bp' = (bp_view bp)(pg_id nd \<mapsto> pg_data (update_checksum nd))"
proof -
  let ?f = "copy_node (update_checksum nd)"
  from v obtain b where b: "bp_view bp (pg_id nd) = Some b" by blast
  have "page_wf (update_checksum nd)" using wf by simp
  then have "page_wf (?f p) \<and> pg_id (?f p) = pg_id p" for p by (simp add: copy_node_def page_wf_def)
  from pool_update_ok [where f = ?f, OF q b this] show ?thesis
    by (auto simp: write_node_def Let_def copy_node_def)
qed

lemma allocate_page_ok:
  assumes q: "pool_quiet bp" and n: "bp_count bp \<noteq> 0xFFFFFFFF"
  shows "\<exists>bp'. allocate_page bp = (Inr (bp_count bp), bp') \<and> pool_quiet bp' \<and> bp_count bp' = bp_count bp + 1
    \<and> bp_view bp' = (bp_view bp)(bp_count bp \<mapsto> pg_data (page_new (bp_count bp)))"
proof -
  let ?n = "dm_num_pages (bp_disk bp)"
  have inv: "pool_inv bp" and pins: "bp_pins bp = (\<lambda>_. 0)" using q by (simp_all add: pool_quiet_def)
  have n': "?n \<noteq> 0xFFFFFFFF" using n by (simp add: bp_count_def)
  show ?thesis
  proof (rule bp_new_page_ok [OF inv n' quiet_available [OF q]])
    fix bp1 assume a: "bp_new_page bp = (Inr ?n, bp1)"
      "moves bp bp1 ((bp_view bp)(?n \<mapsto> pg_data (page_new ?n))) ((bp_pins bp)(?n := 1))"
      "dm_num_pages (bp_disk bp1) = ?n + 1" "bp_page_table bp1 ?n \<noteq> None"
    note q1 = quiet_moves [OF q a(2)]
    then have inv1: "pool_inv bp1" by simp
    from a(4) obtain i where i: "bp_page_table bp1 ?n = Some i" by blast
    show ?thesis
    proof (rule bp_unpin_page_ok [OF inv1 i, of False])
      fix bp2 assume u: "bp_unpin_page ?n False bp1 = (Inr (), bp2)"
        "moves bp1 bp2 (bp_view bp1) ((bp_pins bp1)(?n := if bp_pins bp1 ?n > 0 then bp_pins bp1 ?n - 1 else 0))"
        "dm_num_pages (bp_disk bp2) = dm_num_pages (bp_disk bp1)"
      have "allocate_page bp = (Inr ?n, bp2)" using a(1) u(1) by (simp add: allocate_page_def bindS_def)
      moreover have "pool_quiet bp2" using u(2) q1 pins by (simp add: pool_quiet_def moves_def fun_eq_iff)
      moreover have "bp_view bp2 = (bp_view bp)(?n \<mapsto> pg_data (page_new ?n))" using u(2) q1 by (simp add: moves_def)
      ultimately show ?thesis using a(3) u(3) by (simp add: bp_count_def)
    qed
  qed
qed

lemma flush_quiet:
  assumes q: "pool_quiet bp"
  obtains bp' where "bp_flush_all bp = (Inr (), bp')" "pool_quiet bp'" "bp_view bp' = bp_view bp"
    "dm_pages (bp_disk bp') = bp_view bp" "bp_count bp' = bp_count bp"
proof -
  have inv: "pool_inv bp" using q by (simp add: pool_quiet_def)
  show thesis
  proof (rule bp_flush_all_ok [OF inv])
    fix bp' assume f: "bp_flush_all bp = (Inr (), bp')" "moves bp bp' (bp_view bp) (bp_pins bp)"
      "dm_pages (bp_disk bp') = bp_view bp" "dm_num_pages (bp_disk bp') = dm_num_pages (bp_disk bp)"
    have "pool_quiet bp'" "bp_view bp' = bp_view bp" using quiet_moves [OF q f(2)] q by (simp_all add: pool_quiet_def)
    with that f show thesis by (simp add: bp_count_def)
  qed
qed

interpretation pool: page_store read_node write_node allocate_page bp_view bp_count pool_quiet
proof
  show "bp_view s i \<noteq> None \<longleftrightarrow> i < bp_count s" if "pool_quiet s" for s i
    using that bp_view_dom [of s i] by (simp add: pool_quiet_def bp_count_def)
  show "length b = PAGE_SIZE" if "pool_quiet s" "bp_view s i = Some b" for s i b
    using that bp_view_length [of s i b] by (simp add: pool_quiet_def)
qed (rule read_node_ok write_node_ok allocate_page_ok; assumption)+

end
