(* ===== verification/Rep.thy ===== *)
theory Rep
  imports Store
begin

text \<open>
  Representation of B+ trees in pages. The meaning of a node depends on its bytes only, and not
  on the checksum or the pointer fields of its header. A view stores a tree (\<open>rep\<close>) when each of
  its nodes is a well-formed page whose routing table or entries are those of the tree;
  \<open>ord\<close> is the search tree order. Lookup, insertion and deletion in the entries of the
  whole tree are those in the leaf that covers the key.
\<close>

section \<open>Nodes as bytes\<close>

lemma slice_wr_above:
  "i + length bs \<le> length d \<Longrightarrow> i + length bs \<le> a \<Longrightarrow> slice (wr d i bs) a m = slice d a m"
  by (simp add: slice_def wr_def)

lemma rd_wr_above:
  "i + length bs \<le> length d \<Longrightarrow> i + length bs \<le> a \<Longrightarrow> rd n (wr d i bs) a = rd n d a"
  by (simp add: rd_def slice_wr_above)

text \<open>What a node means is a function of its bytes.\<close>

lemma leaf_data_cong:
  assumes "pg_data a = pg_data b"
  shows "leaf_wf a = leaf_wf b" "leaf_abs a = leaf_abs b" "get_right_sibling a = get_right_sibling b"
    "get_parent a = get_parent b" "is_leaf a = is_leaf b" "num_keys a = num_keys b"
  using assms
  by (simp_all add: leaf_wf_def leaf_abs_def leaf_slots_def leaf_lo_def num_keys_def get_num_slots_def
      page_wf_def is_leaf_def get_page_type_def get_right_sibling_def get_parent_def)

lemma int_data_cong:
  assumes "pg_data a = pg_data b"
  shows "int_wf a = int_wf b" "int_abs a = int_abs b" "get_leftmost_child a = get_leftmost_child b"
    "get_parent a = get_parent b"
  using assms
  by (simp_all add: int_wf_def int_abs_def int_slots_def int_lo_def num_keys_def get_num_slots_def
      page_wf_def get_page_type_def get_leftmost_child_def get_parent_def)

text \<open>
  Writing into the header after the slot count (checksum, sibling, parent, level) does not touch
  the entries of a node.
\<close>

lemma hdr_write_keys:
  assumes "page_wf nd" and "7 \<le> i" and "i + length bs \<le> 26" and "pg_data nd' = wr (pg_data nd) i bs"
  shows "page_wf nd'" and "num_keys nd' = num_keys nd" and "get_page_type nd' = get_page_type nd"
  using assms
  by (simp_all add: page_wf_def num_keys_def get_num_slots_def get_page_type_def rd_wr_other nth_wr)

lemma leaf_hdr_write:
  assumes wf: "leaf_wf nd" and i: "7 \<le> i" "i + length bs \<le> 26" and d: "pg_data nd' = wr (pg_data nd) i bs"
  shows "leaf_wf nd'" and "leaf_abs nd' = leaf_abs nd"
proof -
  have page: "page_wf nd" using wf by (simp add: leaf_wf_def)
  then have len: "i + length bs \<le> length (pg_data nd)" using i by (simp add: page_wf_def)
  note hw = hdr_write_keys [OF page i d]
  have "ldir.rslot (pg_data nd') j = ldir.rslot (pg_data nd) j" for j
    using slice_wr_above [OF len, of "26 + 6 * j" 6] i by (simp add: ldir.rslot_def d)
  then have slots: "leaf_slots nd' = leaf_slots nd" by (simp add: leaf_slots_def ldir.slots_def hw(2))
  have "leaf_ent (pg_data nd') s = leaf_ent (pg_data nd) s" if "s \<in> set (leaf_slots nd)" for s
  proof -
    have "26 \<le> leaf_off s" using wf that by (auto simp: leaf_wf_def ldir.in_page_def)
    then show ?thesis using slice_wr_above [OF len] i
      by (cases s) (simp add: leaf_ent_def d leaf_off_def)
  qed
  then show abs: "leaf_abs nd' = leaf_abs nd" by (simp add: leaf_abs_def slots)
  show "leaf_wf nd'"
    using wf hw by (simp add: leaf_wf_def leaf_lo_def slots abs is_leaf_def)
qed

lemma int_hdr_write:
  assumes wf: "int_wf nd" and i: "7 \<le> i" "i + length bs \<le> 26" and d: "pg_data nd' = wr (pg_data nd) i bs"
  shows "int_wf nd'" and "int_abs nd' = int_abs nd" and "get_leftmost_child nd' = get_leftmost_child nd"
proof -
  have page: "page_wf nd" using wf by (simp add: int_wf_def)
  then have len: "i + length bs \<le> length (pg_data nd)" using i by (simp add: page_wf_def)
  note hw = hdr_write_keys [OF page i d]
  have "idir.rslot (pg_data nd') j = idir.rslot (pg_data nd) j" for j
    using slice_wr_above [OF len, of "30 + 8 * j" 8] i by (simp add: idir.rslot_def d)
  then have slots: "int_slots nd' = int_slots nd" by (simp add: int_slots_def idir.slots_def hw(2))
  have "int_ent (pg_data nd') s = int_ent (pg_data nd) s" if "s \<in> set (int_slots nd)" for s
  proof -
    have "30 \<le> int_off s" using wf that by (auto simp: int_wf_def idir.in_page_def)
    then show ?thesis using slice_wr_above [OF len] i by (simp add: int_ent_def d)
  qed
  then show abs: "int_abs nd' = int_abs nd" by (simp add: int_abs_def slots)
  show "int_wf nd'" using wf hw by (simp add: int_wf_def int_lo_def slots abs)
  show "get_leftmost_child nd' = get_leftmost_child nd"
    using rd_wr_above [OF len, of 26 4] i by (simp add: get_leftmost_child_def internal_leftmost_child_offset_def d)
qed

lemma checksum_data: "pg_data (update_checksum nd) = wr (pg_data nd) 9 (to_le 4 (compute_checksum nd))"
  by (simp add: update_checksum_def set_checksum_def)

lemma leaf_checksum:
  assumes "leaf_wf nd"
  shows "leaf_wf (update_checksum nd)" "leaf_abs (update_checksum nd) = leaf_abs nd"
    "get_right_sibling (update_checksum nd) = get_right_sibling nd" "get_parent (update_checksum nd) = get_parent nd"
proof -
  have "page_wf nd" using assms by (simp add: leaf_wf_def)
  then show "get_right_sibling (update_checksum nd) = get_right_sibling nd" "get_parent (update_checksum nd) = get_parent nd"
    by (simp_all add: update_checksum_def)
qed (rule leaf_hdr_write [OF assms _ _ checksum_data]; simp)+

lemma int_checksum:
  assumes "int_wf nd"
  shows "int_wf (update_checksum nd)" "int_abs (update_checksum nd) = int_abs nd"
    "get_leftmost_child (update_checksum nd) = get_leftmost_child nd" "get_parent (update_checksum nd) = get_parent nd"
proof -
  have "page_wf nd" using assms by (simp add: int_wf_def)
  then show "get_parent (update_checksum nd) = get_parent nd" by (simp add: update_checksum_def)
qed (rule int_hdr_write [OF assms _ _ checksum_data]; simp)+

lemma leaf_set_parent:
  assumes "leaf_wf nd"
  shows "leaf_wf (set_parent p nd)" "leaf_abs (set_parent p nd) = leaf_abs nd"
  by (rule leaf_hdr_write [OF assms, where i = 20 and bs = "to_le 4 p"]; simp add: set_parent_def)+

lemma int_set_parent:
  assumes "int_wf nd"
  shows "int_wf (set_parent p nd)" "int_abs (set_parent p nd) = int_abs nd"
    "get_leftmost_child (set_parent p nd) = get_leftmost_child nd"
  by (rule int_hdr_write [OF assms, where i = 20 and bs = "to_le 4 p"]; simp add: set_parent_def)+

section \<open>Pages of a view\<close>

definition leaf_at :: "(page_id \<rightharpoonup> bytes) \<Rightarrow> page_id \<Rightarrow> entry list \<Rightarrow> page_id \<Rightarrow> page_id \<Rightarrow> bool" where
  "leaf_at v i es sib par \<longleftrightarrow> (\<exists>nd. v i = Some (pg_data nd) \<and> pg_id nd = i \<and> leaf_wf nd \<and> leaf_abs nd = es
     \<and> get_right_sibling nd = sib \<and> get_parent nd = par)"

definition int_at :: "(page_id \<rightharpoonup> bytes) \<Rightarrow> page_id \<Rightarrow> page_id \<Rightarrow> (key \<times> page_id) list \<Rightarrow> page_id \<Rightarrow> bool" where
  "int_at v i lm es par \<longleftrightarrow> (\<exists>nd. v i = Some (pg_data nd) \<and> pg_id nd = i \<and> int_wf nd \<and> int_abs nd = es
     \<and> get_leftmost_child nd = lm \<and> get_parent nd = par)"

lemma leaf_at_node:
  assumes "leaf_at v i es sib par" and "v i = Some (pg_data nd)"
  shows "leaf_wf nd" "leaf_abs nd = es" "get_right_sibling nd = sib" "get_parent nd = par" "is_leaf nd"
proof -
  from assms obtain nd' where nd': "pg_data nd' = pg_data nd" "leaf_wf nd'" "leaf_abs nd' = es"
    "get_right_sibling nd' = sib" "get_parent nd' = par" by (auto simp: leaf_at_def)
  from leaf_data_cong [OF nd'(1)] nd'(2-) show "leaf_wf nd" "leaf_abs nd = es" "get_right_sibling nd = sib"
    "get_parent nd = par" "is_leaf nd" by (simp_all add: leaf_wf_def)
qed

lemma int_at_node:
  assumes "int_at v i lm es par" and "v i = Some (pg_data nd)"
  shows "int_wf nd" "int_abs nd = es" "get_leftmost_child nd = lm" "get_parent nd = par" "\<not> is_leaf nd"
proof -
  from assms obtain nd' where nd': "pg_data nd' = pg_data nd" "int_wf nd'" "int_abs nd' = es"
    "get_leftmost_child nd' = lm" "get_parent nd' = par" by (auto simp: int_at_def)
  from int_data_cong [OF nd'(1)] nd'(2-) show "int_wf nd" "int_abs nd = es" "get_leftmost_child nd = lm"
    "get_parent nd = par" "\<not> is_leaf nd" by (simp_all add: int_wf_def is_leaf_def)
qed

lemma leaf_at_written:
  "leaf_wf nd \<Longrightarrow> leaf_at (v(pg_id nd \<mapsto> pg_data (update_checksum nd))) (pg_id nd) (leaf_abs nd)
     (get_right_sibling nd) (get_parent nd)"
  using leaf_checksum [of nd] by (auto simp: leaf_at_def intro!: exI [of _ "update_checksum nd"])

lemma int_at_written:
  "int_wf nd \<Longrightarrow> int_at (v(pg_id nd \<mapsto> pg_data (update_checksum nd))) (pg_id nd) (get_leftmost_child nd)
     (int_abs nd) (get_parent nd)"
  using int_checksum [of nd] by (auto simp: int_at_def intro!: exI [of _ "update_checksum nd"])

lemma leaf_at_other [simp]: "i \<noteq> j \<Longrightarrow> leaf_at (v(j \<mapsto> b)) i = leaf_at v i"
  by (simp add: leaf_at_def fun_eq_iff)

lemma int_at_other [simp]: "i \<noteq> j \<Longrightarrow> int_at (v(j \<mapsto> b)) i = int_at v i"
  by (simp add: int_at_def fun_eq_iff)

lemma leaf_at_dom: "leaf_at v i es sib par \<Longrightarrow> v i \<noteq> None"
  by (auto simp: leaf_at_def)

lemma int_at_dom: "int_at v i lm es par \<Longrightarrow> v i \<noteq> None"
  by (auto simp: int_at_def)

section \<open>Trees\<close>

text \<open>
  The shape of a B+ tree: a leaf with its entries, or a node with its children and the separator
  keys between them. The children of a node are \<open>Only c\<close> or \<open>More c k cs\<close>, the separator
  \<open>k\<close> standing between \<open>c\<close> and the children \<open>cs\<close>.
\<close>

datatype btree = BLeaf page_id "entry list" | BNode page_id kids
  and kids = Only btree | More btree key kids

primrec root_id :: "btree \<Rightarrow> page_id" where
  "root_id (BLeaf i es) = i"
| "root_id (BNode i ks) = i"

primrec first_id :: "kids \<Rightarrow> page_id" where
  "first_id (Only t) = root_id t"
| "first_id (More t k ks) = root_id t"

primrec routes :: "kids \<Rightarrow> (key \<times> page_id) list" where
  "routes (Only t) = []"
| "routes (More t k ks) = (k, first_id ks) # routes ks"

primrec pages :: "btree \<Rightarrow> page_id list" and kpages :: "kids \<Rightarrow> page_id list" where
  "pages (BLeaf i es) = [i]"
| "pages (BNode i ks) = i # kpages ks"
| "kpages (Only t) = pages t"
| "kpages (More t k ks) = pages t @ kpages ks"

primrec leaves :: "btree \<Rightarrow> (page_id \<times> entry list) list" and kleaves :: "kids \<Rightarrow> (page_id \<times> entry list) list" where
  "leaves (BLeaf i es) = [(i, es)]"
| "leaves (BNode i ks) = kleaves ks"
| "kleaves (Only t) = leaves t"
| "kleaves (More t k ks) = leaves t @ kleaves ks"

definition entries :: "btree \<Rightarrow> entry list" where
  "entries t = concat (map snd (leaves t))"

definition kentries :: "kids \<Rightarrow> entry list" where
  "kentries ks = concat (map snd (kleaves ks))"

lemma entries_simps [simp]:
  "entries (BLeaf i es) = es" "entries (BNode i ks) = kentries ks"
  "kentries (Only t) = entries t" "kentries (More t k ks) = entries t @ kentries ks"
  by (simp_all add: entries_def kentries_def)

primrec height :: "btree \<Rightarrow> nat" and kheight :: "kids \<Rightarrow> nat" where
  "height (BLeaf i es) = 0"
| "height (BNode i ks) = Suc (kheight ks)"
| "kheight (Only t) = height t"
| "kheight (More t k ks) = max (height t) (kheight ks)"

text \<open>All leaves are at the same depth, and every internal node has at least two children.\<close>

primrec balanced :: "nat \<Rightarrow> btree \<Rightarrow> bool" and kbalanced :: "nat \<Rightarrow> kids \<Rightarrow> bool" where
  "balanced h (BLeaf i es) = (h = 0)"
| "balanced h (BNode i ks) = (routes ks \<noteq> [] \<and> 0 < h \<and> kbalanced (h - 1) ks)"
| "kbalanced h (Only t) = balanced h t"
| "kbalanced h (More t k ks) = (balanced h t \<and> kbalanced h ks)"

lemma balanced_height: "balanced h t \<Longrightarrow> height t = h" and kbalanced_height: "kbalanced h ks \<Longrightarrow> kheight ks = h"
  by (induction t and ks arbitrary: h and h) fastforce+

lemma balanced_leaves: "balanced h t \<Longrightarrow> 2 ^ h \<le> length (leaves t)"
  and kbalanced_leaves: "kbalanced h ks \<Longrightarrow> 2 ^ h * Suc (length (routes ks)) \<le> length (kleaves ks)"
proof (induction t and ks arbitrary: h and h)
  case (BNode i ks)
  then obtain h' where h: "h = Suc h'" by (cases h) auto
  have "2 \<le> Suc (length (routes ks))" using BNode.prems by (cases "routes ks") auto
  then have "2 ^ h' * 2 \<le> 2 ^ h' * Suc (length (routes ks))" by (rule mult_le_mono2)
  also have "\<dots> \<le> length (kleaves ks)" using BNode h by simp
  finally show ?case using h by simp
qed fastforce+

text \<open>The tree is stored in a view, whatever the parent and sibling pointers say.\<close>

primrec rep :: "(page_id \<rightharpoonup> bytes) \<Rightarrow> btree \<Rightarrow> bool" and reps :: "(page_id \<rightharpoonup> bytes) \<Rightarrow> kids \<Rightarrow> bool" where
  "rep v (BLeaf i es) = (\<exists>sib par. leaf_at v i es sib par)"
| "rep v (BNode i ks) = ((\<exists>par. int_at v i (first_id ks) (routes ks) par) \<and> reps v ks)"
| "reps v (Only t) = rep v t"
| "reps v (More t k ks) = (rep v t \<and> reps v ks)"

text \<open>Keys and separators lie in the half-open range of their subtree.\<close>

definition at_least :: "key option \<Rightarrow> key \<Rightarrow> bool" where
  "at_least lo k \<longleftrightarrow> (case lo of None \<Rightarrow> True | Some l \<Rightarrow> l \<le> k)"

definition above :: "key option \<Rightarrow> key \<Rightarrow> bool" where
  "above lo k \<longleftrightarrow> (case lo of None \<Rightarrow> True | Some l \<Rightarrow> l < k)"

definition below :: "key option \<Rightarrow> key \<Rightarrow> bool" where
  "below hi k \<longleftrightarrow> (case hi of None \<Rightarrow> True | Some h \<Rightarrow> k < h)"

primrec ord :: "key option \<Rightarrow> key option \<Rightarrow> btree \<Rightarrow> bool" and ords :: "key option \<Rightarrow> key option \<Rightarrow> kids \<Rightarrow> bool" where
  "ord lo hi (BLeaf i es) = (sorted_kv es \<and> (\<forall>e \<in> set es. at_least lo (fst e) \<and> below hi (fst e)))"
| "ord lo hi (BNode i ks) = ords lo hi ks"
| "ords lo hi (Only t) = ord lo hi t"
| "ords lo hi (More t k ks) = (above lo k \<and> below hi k \<and> ord lo (Some k) t \<and> ords (Some k) hi ks)"

text \<open>The leaf that covers a key.\<close>

primrec cover :: "btree \<Rightarrow> key \<Rightarrow> page_id \<times> entry list" and kcover :: "kids \<Rightarrow> key \<Rightarrow> page_id \<times> entry list" where
  "cover (BLeaf i es) key = (i, es)"
| "cover (BNode i ks) key = kcover ks key"
| "kcover (Only t) key = cover t key"
| "kcover (More t k ks) key = (if key < k then cover t key else kcover ks key)"

primrec pick :: "kids \<Rightarrow> key \<Rightarrow> btree" where
  "pick (Only t) key = t"
| "pick (More t k ks) key = (if key < k then t else pick ks key)"

lemma kids_induct:
  assumes "\<And>t. P (Only t)" and "\<And>t k ks. P ks \<Longrightarrow> P (More t k ks)"
  shows "P ks"
  by (rule kids.induct [of "\<lambda>_. True" P]) (use assms in auto)

lemma range_simps [simp]:
  "at_least None k" "at_least (Some l) k \<longleftrightarrow> l \<le> k" "above None k" "above (Some l) k \<longleftrightarrow> l < k"
  "below None k" "below (Some h) k \<longleftrightarrow> k < h"
  by (simp_all add: at_least_def above_def below_def)

lemma range_trans:
  "above lo k \<Longrightarrow> k \<le> x \<Longrightarrow> at_least lo x" "above lo k \<Longrightarrow> k \<le> x \<Longrightarrow> above lo x"
  "below hi k \<Longrightarrow> x < k \<Longrightarrow> below hi x"
  by (cases lo; cases hi; auto)+

lemma kcover_pick: "kcover ks key = cover (pick ks key) key"
  by (induction ks rule: kids_induct) auto

lemma route_pick: "route (first_id ks) (routes ks) key = root_id (pick ks key)"
proof (induction ks rule: kids_induct)
  case (2 t k ks)
  have "route (root_id t) ((k, first_id ks) # routes ks) key
      = (if key < k then root_id t else route (first_id ks) (routes ks) key)"
    by (auto simp: route_def not_less)
  with 2 show ?case by simp
qed (simp add: route_def)

lemma rep_pick: "reps v ks \<Longrightarrow> rep v (pick ks key)"
  by (induction ks rule: kids_induct) auto

lemma height_pick: "height (pick ks key) \<le> kheight ks"
  by (induction ks rule: kids_induct) auto

lemma height_pages: "height t < length (pages t)" and kheight_pages: "kheight ks < length (kpages ks)"
  by (induction t and ks) auto

lemma rep_dom: "rep v t \<Longrightarrow> i \<in> set (pages t) \<Longrightarrow> v i \<noteq> None"
  and reps_dom: "reps v ks \<Longrightarrow> i \<in> set (kpages ks) \<Longrightarrow> v i \<noteq> None"
  by (induction t and ks) (auto simp: leaf_at_def int_at_def)

lemma rep_root: "rep v t \<Longrightarrow> v (root_id t) \<noteq> None"
  by (cases t) (auto simp: leaf_at_def int_at_def)

lemma rep_cong: "rep v t \<Longrightarrow> (\<forall>i \<in> set (pages t). v' i = v i) \<Longrightarrow> rep v' t"
  and reps_cong: "reps v ks \<Longrightarrow> (\<forall>i \<in> set (kpages ks). v' i = v i) \<Longrightarrow> reps v' ks"
  by (induction t and ks) (auto simp: leaf_at_def int_at_def)

lemma root_in_pages [simp]: "root_id t \<in> set (pages t)"
  by (cases t) auto

lemma cover_in_leaves: "cover t key \<in> set (leaves t)" and kcover_in_leaves: "kcover ks key \<in> set (kleaves ks)"
  by (induction t and ks) auto

lemma leaves_in_pages: "x \<in> set (leaves t) \<Longrightarrow> fst x \<in> set (pages t)"
  and kleaves_in_pages: "x \<in> set (kleaves ks) \<Longrightarrow> fst x \<in> set (kpages ks)"
  by (induction t and ks) auto

lemma rep_leaf: "rep v t \<Longrightarrow> (i, es) \<in> set (leaves t) \<Longrightarrow> \<exists>sib par. leaf_at v i es sib par"
  and reps_leaf: "reps v ks \<Longrightarrow> (i, es) \<in> set (kleaves ks) \<Longrightarrow> \<exists>sib par. leaf_at v i es sib par"
  by (induction t and ks) auto

lemma ord_range: "ord lo hi t \<Longrightarrow> e \<in> set (entries t) \<Longrightarrow> at_least lo (fst e) \<and> below hi (fst e)"
  and ords_range: "ords lo hi ks \<Longrightarrow> e \<in> set (kentries ks) \<Longrightarrow> at_least lo (fst e) \<and> below hi (fst e)"
proof (induction t and ks arbitrary: lo hi and lo hi)
  case (More t k ks)
  then show ?case using range_trans [of lo k "fst e"] range_trans(3) [of hi k "fst e"] by fastforce
qed auto

section \<open>Lookup and update through the covering leaf\<close>

lemma kv_insert_append_left:
  assumes "\<forall>e \<in> set ys. k < fst e"
  shows "kv_insert k v (xs @ ys) = kv_insert k v xs @ ys"
proof -
  have "takeWhile (\<lambda>e. fst e < k) (zs @ ys) = takeWhile (\<lambda>e. fst e < k) zs" for zs :: "('a \<times> 'b) list"
    using assms by (induction zs) (cases ys, auto)
  moreover have "dropWhile (\<lambda>e. fst e \<le> k) (zs @ ys) = dropWhile (\<lambda>e. fst e \<le> k) zs @ ys" for zs :: "('a \<times> 'b) list"
    using assms by (induction zs) (cases ys, auto)
  ultimately show ?thesis by (simp add: kv_insert_def)
qed

lemma kv_insert_append_right:
  "\<forall>e \<in> set xs. fst e < k \<Longrightarrow> kv_insert k v (xs @ ys) = xs @ kv_insert k v ys"
  by (induction xs) (auto simp: kv_insert_Cons)

lemma kv_delete_absent: "k \<notin> fst ` set xs \<Longrightarrow> kv_delete k xs = xs"
  by (auto simp: kv_delete_def filter_id_conv)

lemma kv_delete_append: "kv_delete k (xs @ ys) = kv_delete k xs @ kv_delete k ys"
  by (simp add: kv_delete_def)

lemma ords_after: "ords (Some k) hi ks \<Longrightarrow> e \<in> set (kentries ks) \<Longrightarrow> k \<le> fst e"
  using ords_range by fastforce

lemma ord_before: "ord lo (Some k) t \<Longrightarrow> e \<in> set (entries t) \<Longrightarrow> fst e < k"
  using ord_range by fastforce

lemma cover_lookup: "ord lo hi t \<Longrightarrow> map_of (entries t) key = map_of (snd (cover t key)) key"
  and kcover_lookup: "ords lo hi ks \<Longrightarrow> map_of (kentries ks) key = map_of (snd (kcover ks key)) key"
proof (induction t and ks arbitrary: lo hi and lo hi)
  case (More t k ks)
  have "map_of (kentries ks) key = None" if "key < k"
    using that ords_after [of k hi ks] More.prems by (force simp: map_of_eq_None_iff)
  moreover have "map_of (entries t) key = None" if "\<not> key < k"
    using that ord_before [of lo k t] More.prems by (force simp: map_of_eq_None_iff)
  ultimately show ?case using More by (auto simp: map_add_def split: option.splits)
qed auto

primrec set_cover :: "btree \<Rightarrow> key \<Rightarrow> entry list \<Rightarrow> btree" and kset_cover :: "kids \<Rightarrow> key \<Rightarrow> entry list \<Rightarrow> kids" where
  "set_cover (BLeaf i es) key es' = BLeaf i es'"
| "set_cover (BNode i ks) key es' = BNode i (kset_cover ks key es')"
| "kset_cover (Only t) key es' = Only (set_cover t key es')"
| "kset_cover (More t k ks) key es' =
     (if key < k then More (set_cover t key es') k ks else More t k (kset_cover ks key es'))"

lemma root_id_set_cover [simp]: "root_id (set_cover t key es) = root_id t"
  by (cases t) auto

lemma first_id_set_cover [simp]: "first_id (kset_cover ks key es) = first_id ks"
  by (cases ks) auto

lemma routes_set_cover [simp]: "routes (kset_cover ks key es) = routes ks"
  by (induction ks rule: kids_induct) auto

lemma pages_set_cover [simp]: "pages (set_cover t key es) = pages t"
  and kpages_set_cover [simp]: "kpages (kset_cover ks key es) = kpages ks"
  by (induction t and ks) auto

lemma leaves_set_cover:
  "distinct (pages t) \<Longrightarrow> leaves (set_cover t key es) = map (\<lambda>x. if fst x = fst (cover t key) then (fst x, es) else x) (leaves t)"
  and kleaves_set_cover:
  "distinct (kpages ks) \<Longrightarrow> kleaves (kset_cover ks key es) = map (\<lambda>x. if fst x = fst (kcover ks key) then (fst x, es) else x) (kleaves ks)"
proof (induction t and ks)
  case (More t k ks)
  have a: "fst (cover t key) \<in> set (pages t)" and b: "fst (kcover ks key) \<in> set (kpages ks)"
    using cover_in_leaves leaves_in_pages kcover_in_leaves kleaves_in_pages by blast+
  have c: "\<forall>x \<in> set (kleaves ks). fst x \<in> set (kpages ks)" and d: "\<forall>x \<in> set (leaves t). fst x \<in> set (pages t)"
    using leaves_in_pages kleaves_in_pages by blast+
  have "set (pages t) \<inter> set (kpages ks) = {}" using More.prems by simp
  then have "map (\<lambda>x. if fst x = fst (cover t key) then (fst x, es) else x) (kleaves ks) = kleaves ks"
    "map (\<lambda>x. if fst x = fst (kcover ks key) then (fst x, es) else x) (leaves t) = leaves t"
    using a b c d by (intro map_idI; fastforce)+
  with More show ?case by auto
qed auto

lemma entries_insert_cover:
  "ord lo hi t \<Longrightarrow> entries (set_cover t key (kv_insert key v (snd (cover t key)))) = kv_insert key v (entries t)"
  and kentries_insert_cover:
  "ords lo hi ks \<Longrightarrow> kentries (kset_cover ks key (kv_insert key v (snd (kcover ks key)))) = kv_insert key v (kentries ks)"
proof (induction t and ks arbitrary: lo hi and lo hi)
  case (More t k ks)
  have "kv_insert key v (entries t @ kentries ks) = kv_insert key v (entries t) @ kentries ks" if "key < k"
    using that ords_after [of k hi ks] More.prems by (intro kv_insert_append_left) fastforce
  moreover have "kv_insert key v (entries t @ kentries ks) = entries t @ kv_insert key v (kentries ks)" if "\<not> key < k"
    using that ord_before [of lo k t] More.prems by (intro kv_insert_append_right) fastforce
  ultimately show ?case using More by auto
qed auto

lemma entries_delete_cover:
  "ord lo hi t \<Longrightarrow> entries (set_cover t key (kv_delete key (snd (cover t key)))) = kv_delete key (entries t)"
  and kentries_delete_cover:
  "ords lo hi ks \<Longrightarrow> kentries (kset_cover ks key (kv_delete key (snd (kcover ks key)))) = kv_delete key (kentries ks)"
proof (induction t and ks arbitrary: lo hi and lo hi)
  case (More t k ks)
  have "kv_delete key (kentries ks) = kentries ks" if "key < k"
    using that ords_after [of k hi ks] More.prems by (intro kv_delete_absent) force
  moreover have "kv_delete key (entries t) = entries t" if "\<not> key < k"
    using that ord_before [of lo k t] More.prems by (intro kv_delete_absent) force
  ultimately show ?case using More by (auto simp: kv_delete_append)
qed auto

lemma ord_set_cover:
  "ord lo hi t \<Longrightarrow> at_least lo key \<Longrightarrow> below hi key \<Longrightarrow> sorted_kv es
     \<Longrightarrow> fst ` set es \<subseteq> insert key (fst ` set (snd (cover t key))) \<Longrightarrow> ord lo hi (set_cover t key es)"
  and ords_set_cover:
  "ords lo hi ks \<Longrightarrow> at_least lo key \<Longrightarrow> below hi key \<Longrightarrow> sorted_kv es
     \<Longrightarrow> fst ` set es \<subseteq> insert key (fst ` set (snd (kcover ks key))) \<Longrightarrow> ords lo hi (kset_cover ks key es)"
proof (induction t and ks arbitrary: lo hi and lo hi)
  case (BLeaf i es')
  show ?case
  proof (simp add: BLeaf.prems(4), intro ballI)
    fix e assume "e \<in> set es"
    with BLeaf.prems(5) have "fst e = key \<or> fst e \<in> fst ` set es'" by force
    with BLeaf.prems show "at_least lo (fst e) \<and> below hi (fst e)" by auto
  qed
next
  case (More t k ks)
  then show ?case by (cases "key < k") (simp_all add: not_less)
qed simp_all

lemma rep_set_cover:
  "rep v t \<Longrightarrow> distinct (pages t) \<Longrightarrow> leaf_at (v(fst (cover t key) \<mapsto> b)) (fst (cover t key)) es sib par
     \<Longrightarrow> rep (v(fst (cover t key) \<mapsto> b)) (set_cover t key es)"
  and reps_set_cover:
  "reps v ks \<Longrightarrow> distinct (kpages ks) \<Longrightarrow> leaf_at (v(fst (kcover ks key) \<mapsto> b)) (fst (kcover ks key)) es sib par
     \<Longrightarrow> reps (v(fst (kcover ks key) \<mapsto> b)) (kset_cover ks key es)"
proof (induction t and ks)
  case (BLeaf i es')
  then show ?case by auto
next
  case (BNode i ks)
  have "fst (kcover ks key) \<in> set (kpages ks)" using kcover_in_leaves kleaves_in_pages by blast
  then have "i \<noteq> fst (kcover ks key)" using BNode.prems(2) by auto
  with BNode show ?case by (simp del: fun_upd_apply)
next
  case (More t k ks)
  have a: "fst (cover t key) \<in> set (pages t)" and b: "fst (kcover ks key) \<in> set (kpages ks)"
    using cover_in_leaves leaves_in_pages kcover_in_leaves kleaves_in_pages by blast+
  have dis: "set (pages t) \<inter> set (kpages ks) = {}" using More.prems by simp
  have r: "rep v t" "reps v ks" using More.prems(1) by simp_all
  have "fst (cover t key) \<notin> set (kpages ks)" "fst (kcover ks key) \<notin> set (pages t)" using a b dis by auto
  then have "reps (v(fst (cover t key) \<mapsto> b)) ks" "rep (v(fst (kcover ks key) \<mapsto> b)) t"
    using reps_cong [OF r(2)] rep_cong [OF r(1)] by auto
  with More show ?case by (auto simp del: fun_upd_apply)
qed auto

section \<open>Sizes and parent pointers\<close>

text \<open>
  A tree is small when no entry and no separator is longer than \<open>SMALL\<close> bytes: then the two halves of
  a node that is split always fit. It is linked when every child points to its parent.
\<close>

definition SMALL :: nat where "SMALL = 150"

lemma SMALL_val [simp]: "SMALL = 150" by (simp add: SMALL_def)

primrec small :: "btree \<Rightarrow> bool" and smalls :: "kids \<Rightarrow> bool" where
  "small (BLeaf i es) = (\<forall>e \<in> set es. length (fst e) + length (snd e) \<le> SMALL)"
| "small (BNode i ks) = smalls ks"
| "smalls (Only t) = small t"
| "smalls (More t k ks) = (small t \<and> length k \<le> SMALL \<and> smalls ks)"

lemma smalls_routes: "smalls ks \<Longrightarrow> (k, c) \<in> set (routes ks) \<Longrightarrow> length k \<le> SMALL"
  by (induction ks rule: kids_induct) auto

definition parent_at :: "(page_id \<rightharpoonup> bytes) \<Rightarrow> page_id \<Rightarrow> page_id option" where
  "parent_at v i = map_option (\<lambda>b. rd 4 b 20) (v i)"

definition roots :: "kids \<Rightarrow> page_id list" where
  "roots ks = first_id ks # map snd (routes ks)"

primrec linked :: "(page_id \<rightharpoonup> bytes) \<Rightarrow> btree \<Rightarrow> bool" and klinked :: "(page_id \<rightharpoonup> bytes) \<Rightarrow> kids \<Rightarrow> bool" where
  "linked v (BLeaf i es) = True"
| "linked v (BNode i ks) = ((\<forall>c \<in> set (roots ks). parent_at v c = Some i) \<and> klinked v ks)"
| "klinked v (Only t) = linked v t"
| "klinked v (More t k ks) = (linked v t \<and> klinked v ks)"

lemma roots_simps [simp]:
  "roots (Only t) = [root_id t]" "roots (More t k ks) = root_id t # roots ks"
  by (simp_all add: roots_def)

lemma roots_in_pages: "c \<in> set (roots ks) \<Longrightarrow> c \<in> set (kpages ks)"
  by (induction ks rule: kids_induct) auto

lemma linked_cong: "linked v t \<Longrightarrow> (\<forall>i \<in> set (pages t). v' i = v i) \<Longrightarrow> linked v' t"
  and klinked_cong: "klinked v ks \<Longrightarrow> (\<forall>i \<in> set (kpages ks). v' i = v i) \<Longrightarrow> klinked v' ks"
  by (induction t and ks) (auto simp: parent_at_def roots_in_pages)

lemma linked_view: "linked v t \<Longrightarrow> (\<And>i. parent_at v' i = parent_at v i) \<Longrightarrow> linked v' t"
  and klinked_view: "klinked v ks \<Longrightarrow> (\<And>i. parent_at v' i = parent_at v i) \<Longrightarrow> klinked v' ks"
  by (induction t and ks) auto

lemma parent_at_leaf: "leaf_at v i es sib par \<Longrightarrow> parent_at v i = Some par"
  by (auto simp: leaf_at_def parent_at_def get_parent_def)

lemma parent_at_int: "int_at v i lm es par \<Longrightarrow> parent_at v i = Some par"
  by (auto simp: int_at_def parent_at_def get_parent_def)

lemma roots_set_cover [simp]: "roots (kset_cover ks key es) = roots ks"
  by (simp add: roots_def)

lemma linked_set_cover: "linked v t \<Longrightarrow> (\<And>i. parent_at v' i = parent_at v i) \<Longrightarrow> linked v' (set_cover t key es)"
  and klinked_set_cover: "klinked v ks \<Longrightarrow> (\<And>i. parent_at v' i = parent_at v i) \<Longrightarrow> klinked v' (kset_cover ks key es)"
proof (induction t and ks)
  case (More t k ks)
  have "linked v' t" "klinked v' ks" using linked_view [of v t v'] klinked_view [of v ks v'] More.prems by simp_all
  with More show ?case by auto
qed auto

lemma small_set_cover: "small t \<Longrightarrow> (\<forall>e \<in> set es. length (fst e) + length (snd e) \<le> SMALL) \<Longrightarrow> small (set_cover t key es)"
  and smalls_set_cover: "smalls ks \<Longrightarrow> (\<forall>e \<in> set es. length (fst e) + length (snd e) \<le> SMALL) \<Longrightarrow> smalls (kset_cover ks key es)"
  by (induction t and ks) auto

lemma small_cover: "small t \<Longrightarrow> e \<in> set (snd (cover t key)) \<Longrightarrow> length (fst e) + length (snd e) \<le> SMALL"
  and smalls_cover: "smalls ks \<Longrightarrow> e \<in> set (snd (kcover ks key)) \<Longrightarrow> length (fst e) + length (snd e) \<le> SMALL"
  by (induction t and ks) (auto split: if_splits)

section \<open>Separators\<close>

text \<open>The separators of all nodes, and the separator that splitting the covering leaf would add.\<close>

primrec seps :: "btree \<Rightarrow> key list" and kseps :: "kids \<Rightarrow> key list" where
  "seps (BLeaf i es) = []"
| "seps (BNode i ks) = kseps ks"
| "kseps (Only t) = seps t"
| "kseps (More t k ks) = seps t @ k # kseps ks"

definition middle :: "entry list \<Rightarrow> key" where
  "middle es = fst (es ! (length es div 2))"

lemma routes_seps: "e \<in> set (routes ks) \<Longrightarrow> fst e \<in> set (kseps ks)"
  by (induction ks rule: kids_induct) auto

lemma seps_set_cover [simp]: "seps (set_cover t key es) = seps t" and kseps_set_cover [simp]: "kseps (kset_cover ks key es) = kseps ks"
  by (induction t and ks) auto

lemma routes_kset_cover [simp]: "routes (kset_cover ks key es) = [] \<longleftrightarrow> routes ks = []"
  by (cases ks) auto

lemma balanced_set_cover [simp]: "balanced h (set_cover t key es) = balanced h t"
  and kbalanced_set_cover [simp]: "kbalanced h (kset_cover ks key es) = kbalanced h ks"
  by (induction t and ks arbitrary: h and h) auto

lemma height_set_cover [simp]: "height (set_cover t key es) = height t" and kheight_set_cover [simp]: "kheight (kset_cover ks key es) = kheight ks"
  by (induction t and ks) auto

end
