(* ===== verification/Index.thy ===== *)
theory Index
  imports Rep
begin

text \<open>
  Correctness of the tree operations on well-formed trees. \<open>tree_ok\<close> collects what the code
  relies on: a quiet pool, the pages of a tree in search tree order, no page used twice, and leaves
  linked by their sibling pointers in key order. \<open>index\<close> is the abstraction relation to
  the sorted list of entries. Search, scans, deletion, and insertion that does not split are
  the operations of theory \<open>Kv\<close> on that list; theory \<open>Insert\<close> adds the splits.
\<close>

section \<open>The invariant of the index\<close>

definition next_id :: "(page_id \<times> entry list) list \<Rightarrow> page_id" where
  "next_id ls = (case ls of [] \<Rightarrow> INVALID_PAGE_ID | x # _ \<Rightarrow> fst x)"

primrec chained :: "(page_id \<rightharpoonup> bytes) \<Rightarrow> (page_id \<times> entry list) list \<Rightarrow> bool" where
  "chained v [] = True"
| "chained v (x # ls) = ((\<exists>par. leaf_at v (fst x) (snd x) (next_id ls) par) \<and> chained v ls)"

definition tree_ok :: "buffer_pool \<Rightarrow> btree \<Rightarrow> bool" where
  "tree_ok bp t \<longleftrightarrow> pool_quiet bp \<and> rep (bp_view bp) t \<and> ord None None t \<and> distinct (pages t)
     \<and> chained (bp_view bp) (leaves t) \<and> balanced (height t) t"

definition index :: "bplus_tree \<Rightarrow> buffer_pool \<Rightarrow> entry list \<Rightarrow> bool" where
  "index tr bp es \<longleftrightarrow> (\<exists>t. tree_ok bp t \<and> root_id t = root_page_id tr \<and> entries t = es)"

text \<open>Parent pointers and sizes, which only a split relies on.\<close>

definition linked_tree :: "buffer_pool \<Rightarrow> btree \<Rightarrow> bool" where
  "linked_tree bp t \<longleftrightarrow> linked (bp_view bp) t \<and> parent_at (bp_view bp) (root_id t) = Some INVALID_PAGE_ID \<and> small t"

definition tree_index :: "tree_pool \<Rightarrow> entry list \<Rightarrow> bool" where
  "tree_index s es \<longleftrightarrow> index (fst s) (snd s) es"

definition linked_index :: "tree_pool \<Rightarrow> entry list \<Rightarrow> bool" where
  "linked_index s es \<longleftrightarrow>
     (\<exists>t. tree_ok (snd s) t \<and> root_id t = root_page_id (fst s) \<and> entries t = es \<and> linked_tree (snd s) t)"

lemma linked_index_index: "linked_index s es \<Longrightarrow> tree_index s es"
  by (auto simp: linked_index_def tree_index_def index_def)

lemma distinct_leaves: "distinct (pages t) \<Longrightarrow> distinct (map fst (leaves t))"
  and distinct_kleaves: "distinct (kpages ks) \<Longrightarrow> distinct (map fst (kleaves ks))"
proof (induction t and ks)
  case (More t k ks)
  have "fst ` set (leaves t) \<inter> fst ` set (kleaves ks) = {}"
    using More.prems leaves_in_pages kleaves_in_pages by fastforce
  with More show ?case by simp
qed auto

lemma sorted_entries: "ord lo hi t \<Longrightarrow> sorted_kv (entries t)" and sorted_kentries: "ords lo hi ks \<Longrightarrow> sorted_kv (kentries ks)"
proof (induction t and ks arbitrary: lo hi and lo hi)
  case (More t k ks)
  have "fst x < fst y" if "x \<in> set (entries t)" "y \<in> set (kentries ks)" for x y
    using ord_before [of lo k t x] ords_after [of k hi ks y] that More.prems by auto
  with More show ?case by (auto simp: sorted_kv_append)
qed auto

lemma pages_bound:
  assumes "distinct xs" and "\<forall>i \<in> set xs. i < (n :: u32)"
  shows "length xs \<le> unat n"
proof -
  have "inj_on unat (set xs)" by (simp add: inj_on_def word_unat_eq_iff)
  then have "card (unat ` set xs) = length xs" using assms(1) by (simp add: card_image distinct_card)
  moreover have "unat ` set xs \<subseteq> {..<unat n}" using assms(2) by (auto simp: word_less_nat_alt)
  ultimately show ?thesis using card_mono [of "{..<unat n}" "unat ` set xs"] by simp
qed

lemma tree_ok_pages:
  assumes "tree_ok bp t" and "i \<in> set (pages t)"
  shows "i < bp_count bp" and "i \<noteq> INVALID_PAGE_ID"
proof -
  have "bp_view bp i \<noteq> None" using assms rep_dom by (auto simp: tree_ok_def)
  then show lt: "i < bp_count bp" using assms(1) pool.view_dom by (simp add: tree_ok_def)
  have "i < - 1" using lt word_n1_ge [of "bp_count bp"] by (rule less_le_trans)
  then show "i \<noteq> INVALID_PAGE_ID" by (auto simp: INVALID_PAGE_ID_def)
qed

lemma tree_ok_fuel: "tree_ok bp t \<Longrightarrow> length (pages t) < loop_fuel bp"
  using pages_bound [of "pages t" "bp_count bp"] tree_ok_pages(1) [of bp t]
  by (fastforce simp: loop_fuel_def bp_count_def tree_ok_def)

text \<open>The invariant depends on the pool only through its view.\<close>

lemma tree_ok_same:
  "tree_ok bp t \<Longrightarrow> pool_quiet bp' \<Longrightarrow> bp_view bp' = bp_view bp \<Longrightarrow> tree_ok bp' t"
  by (simp add: tree_ok_def)

section \<open>Search\<close>

lemma find_leaf_loop_ok:
  assumes "pool_quiet bp" and "rep (bp_view bp) t" and "height t < fuel"
  shows "\<exists>bp'. find_leaf_loop fuel key (root_id t) bp = (Inr (fst (cover t key)), bp') \<and> pool_quiet bp'
    \<and> bp_view bp' = bp_view bp \<and> bp_count bp' = bp_count bp"
  using assms
proof (induction fuel arbitrary: t bp)
  case (Suc fuel)
  obtain b where b: "bp_view bp (root_id t) = Some b" using rep_root [OF Suc.prems(2)] by blast
  show ?case
  proof (rule pool.rd_node_obtain [OF Suc.prems(1) b])
    fix nd bp1 assume r: "read_node (root_id t) bp = (Inr nd, bp1)" "pool_quiet bp1" "bp_view bp1 = bp_view bp"
      "bp_count bp1 = bp_count bp" "pg_data nd = b"
    have v: "bp_view bp (root_id t) = Some (pg_data nd)" using b r(5) by simp
    show ?thesis
    proof (cases t)
      case (BLeaf i es)
      then obtain sib par where "leaf_at (bp_view bp) i es sib par" using Suc.prems(2) by auto
      from leaf_at_node(5) [OF this] v BLeaf have "is_leaf nd" by simp
      with r BLeaf show ?thesis by (simp add: bindS_def)
    next
      case (BNode i ks)
      then obtain par where "int_at (bp_view bp) i (first_id ks) (routes ks) par" and sub: "reps (bp_view bp) ks"
        using Suc.prems(2) by auto
      note nd = int_at_node [OF this(1), of nd]
      have v': "bp_view bp i = Some (pg_data nd)" using v BNode by simp
      obtain c where c: "internal_find_child nd key = Inr c"
        "internal_child nd c = Inr (root_id (pick ks key))"
        using internal_find_child_ok [OF nd(1) [OF v'], of key] nd(2,3) [OF v'] route_pick [of ks key] by metis
      have "height (pick ks key) < fuel" using height_pick [of ks key] Suc.prems(3) BNode by simp
      from Suc.IH [OF r(2) _ this] rep_pick [OF sub, of key] r(3,4) obtain bp' where
        "find_leaf_loop fuel key (root_id (pick ks key)) bp1 = (Inr (fst (cover (pick ks key) key)), bp')"
        "pool_quiet bp'" "bp_view bp' = bp_view bp" "bp_count bp' = bp_count bp" by auto
      with r(1) c nd(5) [OF v'] BNode show ?thesis by (simp add: bindS_def kcover_pick)
    qed
  qed
qed simp

lemma find_leaf_ok:
  assumes ok: "tree_ok bp t" and root: "root_id t = root_page_id tr"
  obtains bp' where "find_leaf tr key bp = (Inr (fst (cover t key)), bp')" "tree_ok bp' t"
    "bp_view bp' = bp_view bp" "bp_count bp' = bp_count bp"
proof -
  have "pool_quiet bp" "rep (bp_view bp) t" using ok by (simp_all add: tree_ok_def)
  moreover have "height t < loop_fuel bp" using height_pages [of t] tree_ok_fuel [OF ok] by simp
  ultimately show thesis
    using find_leaf_loop_ok [of bp t "loop_fuel bp" key] that tree_ok_same [OF ok] root
    by (auto simp: find_leaf_def)
qed

text \<open>
  Reading the covering leaf after the descent. Search needs the pages of a search tree, but no
  leaf chain and no distinct pages.
\<close>

lemma read_cover_rep:
  assumes "pool_quiet bp" and "rep (bp_view bp) t" and "height t < loop_fuel bp" and "root_id t = root_page_id tr"
  obtains bp1 bp2 nd where "find_leaf tr key bp = (Inr (fst (cover t key)), bp1)"
    "read_node (fst (cover t key)) bp1 = (Inr nd, bp2)" "pool_quiet bp2" "bp_view bp2 = bp_view bp"
    "bp_count bp2 = bp_count bp" "bp_view bp2 (fst (cover t key)) = Some (pg_data nd)"
    "pg_id nd = fst (cover t key)" "leaf_wf nd" "leaf_abs nd = snd (cover t key)"
proof -
  from find_leaf_loop_ok [OF assms(1-3), of key] assms(4) obtain bp1 where
    1: "find_leaf tr key bp = (Inr (fst (cover t key)), bp1)" "pool_quiet bp1" "bp_view bp1 = bp_view bp" "bp_count bp1 = bp_count bp"
    by (auto simp: find_leaf_def)
  from rep_leaf [of "bp_view bp1" t "fst (cover t key)" "snd (cover t key)"] cover_in_leaves [of t key] assms(2) 1(3)
  obtain sib par where leaf: "leaf_at (bp_view bp1) (fst (cover t key)) (snd (cover t key)) sib par" by auto
  then obtain b where b: "bp_view bp1 (fst (cover t key)) = Some b" using leaf_at_dom by blast
  show thesis
  proof (rule pool.rd_node_obtain [OF 1(2) b])
    fix nd bp2 assume 2: "read_node (fst (cover t key)) bp1 = (Inr nd, bp2)" "pool_quiet bp2"
      "bp_view bp2 = bp_view bp1" "bp_count bp2 = bp_count bp1" "pg_id nd = fst (cover t key)" "pg_data nd = b"
    then have v: "bp_view bp1 (fst (cover t key)) = Some (pg_data nd)" using b by simp
    from leaf_at_node [OF leaf v] have "leaf_wf nd" "leaf_abs nd = snd (cover t key)" by simp_all
    with that [OF 1(1) 2(1,2)] 1 2 v show thesis by simp
  qed
qed

lemma read_cover_ok:
  assumes ok: "tree_ok bp t" and root: "root_id t = root_page_id tr"
  obtains bp1 bp2 nd where "find_leaf tr key bp = (Inr (fst (cover t key)), bp1)"
    "read_node (fst (cover t key)) bp1 = (Inr nd, bp2)" "tree_ok bp2 t" "bp_view bp2 = bp_view bp"
    "bp_count bp2 = bp_count bp" "bp_view bp2 (fst (cover t key)) = Some (pg_data nd)"
    "pg_id nd = fst (cover t key)" "leaf_wf nd" "leaf_abs nd = snd (cover t key)"
proof -
  have "pool_quiet bp" "rep (bp_view bp) t" "height t < loop_fuel bp"
    using ok height_pages [of t] tree_ok_fuel [OF ok] by (simp_all add: tree_ok_def)
  then show thesis by (rule read_cover_rep [OF _ _ _ root]) (use that tree_ok_same [OF ok] in blast)
qed

lemma bt_search_rep:
  assumes "pool_quiet bp" and "rep (bp_view bp) t" and "height t < loop_fuel bp" and "root_id t = root_page_id tr"
    and ord: "ord None None t"
  obtains bp' where "bt_search tr key bp = (Inr (map_of (entries t) key), bp')" "pool_quiet bp'" "bp_view bp' = bp_view bp"
proof (rule read_cover_rep [OF assms(1-4), of key])
  fix bp1 bp2 nd assume r: "find_leaf tr key bp = (Inr (fst (cover t key)), bp1)"
    "read_node (fst (cover t key)) bp1 = (Inr nd, bp2)" "pool_quiet bp2" "bp_view bp2 = bp_view bp"
    "leaf_wf nd" "leaf_abs nd = snd (cover t key)"
  have sorted: "sorted_kv (leaf_abs nd)" using r(5) by (simp add: leaf_wf_def)
  have look: "map_of (entries t) key = map_of (leaf_abs nd) key" using cover_lookup [OF ord, of key] r(6) by simp
  have "bt_search tr key bp = (Inr (map_of (entries t) key), bp2)"
  proof (cases rule: leaf_find_slot_ok [OF r(5), of key, case_names found absent])
    case (found i)
    with kv_found_lookup [OF sorted, of i] look r(1,2) leaf_value_ok [OF r(5)] show ?thesis
      by (simp add: bt_search_def bindS_def)
  next
    case (absent i)
    with kv_pos_absent [OF absent(2)] look r(1,2) show ?thesis by (simp add: bt_search_def bindS_def)
  qed
  with that r(3,4) show thesis by blast
qed

lemma bt_search_ok:
  assumes "index tr bp es"
  obtains bp' where "bt_search tr key bp = (Inr (map_of es key), bp')" "index tr bp' es"
    "bp_view bp' = bp_view bp"
proof -
  from assms obtain t where t: "tree_ok bp t" "root_id t = root_page_id tr" "entries t = es"
    by (auto simp: index_def)
  then have "pool_quiet bp" "rep (bp_view bp) t" "height t < loop_fuel bp" "ord None None t"
    using height_pages [of t] tree_ok_fuel [OF t(1)] by (simp_all add: tree_ok_def)
  then show thesis
    by (rule bt_search_rep [where key = key, OF _ _ _ t(2)]) (use that t tree_ok_same [OF t(1)] in \<open>auto simp: index_def\<close>)
qed

section \<open>Rewriting one leaf: insert without a split, delete\<close>

lemma next_id_map:
  "(\<And>x. x \<in> set ls \<Longrightarrow> fst (f x) = fst x) \<Longrightarrow> next_id (map f ls) = next_id ls"
  by (cases ls) (auto simp: next_id_def)

lemma chained_cong: "chained v ls \<Longrightarrow> (\<forall>x \<in> set ls. v' (fst x) = v (fst x)) \<Longrightarrow> chained v' ls"
  by (induction ls) (auto simp: leaf_at_def)

lemma chained_update:
  assumes "chained v ls" and "distinct (map fst ls)" and "(i, es0) \<in> set ls"
    and "\<And>sib par. leaf_at v i es0 sib par \<Longrightarrow> leaf_at (v(i \<mapsto> b)) i es sib par"
  shows "chained (v(i \<mapsto> b)) (map (\<lambda>x. if fst x = i then (fst x, es) else x) ls)"
  using assms
proof (induction ls)
  case (Cons x ls)
  let ?f = "\<lambda>x :: page_id \<times> entry list. if fst x = i then (fst x, es) else x"
  have nxt: "next_id (map ?f ls) = next_id ls" by (rule next_id_map) simp
  from Cons.prems(1) obtain par where x: "leaf_at v (fst x) (snd x) (next_id ls) par" "chained v ls" by auto
  show ?case
  proof (cases "fst x = i")
    case True
    with Cons.prems(2) have no: "i \<notin> fst ` set ls" by auto
    with Cons.prems(3) True have "x = (i, es0)" by (metis fst_conv image_eqI set_ConsD)
    with x(1) Cons.prems(4) have "leaf_at (v(i \<mapsto> b)) i es (next_id ls) par" by (simp del: fun_upd_apply)
    moreover have ne: "\<forall>y \<in> set ls. fst y \<noteq> i" using no by blast
    then have "map ?f ls = ls" by (intro map_idI) simp
    moreover have "chained (v(i \<mapsto> b)) ls" by (rule chained_cong [OF x(2)]) (use ne in simp)
    ultimately show ?thesis using True by (auto simp del: fun_upd_apply)
  next
    case False
    with Cons have "chained (v(i \<mapsto> b)) (map ?f ls)" by (auto simp del: fun_upd_apply)
    with False x(1) nxt show ?thesis by (auto simp del: fun_upd_apply)
  qed
qed simp

lemma write_cover_ok:
  assumes ok: "tree_ok bp t" and nd: "bp_view bp (fst (cover t key)) = Some (pg_data nd)"
    and new: "leaf_wf nd'" "leaf_abs nd' = es" "node_hdr nd' = node_hdr nd" "pg_id nd = fst (cover t key)"
    and keys: "fst ` set es \<subseteq> insert key (fst ` set (snd (cover t key)))"
  obtains bp' where "write_node nd' bp = (Inr (), bp')" "tree_ok bp' (set_cover t key es)"
    "bp_count bp' = bp_count bp"
    "linked_tree bp t \<Longrightarrow> (\<forall>e \<in> set es. length (fst e) + length (snd e) \<le> SMALL) \<Longrightarrow> linked_tree bp' (set_cover t key es)"
proof -
  let ?i = "fst (cover t key)" and ?v = "bp_view bp"
  let ?b = "pg_data (update_checksum nd')"
  have q: "pool_quiet bp" and rep: "rep ?v t" and ord: "ord None None t" and dist: "distinct (pages t)"
    and ch: "chained ?v (leaves t)" and bal: "balanced (height t) t" using ok by (simp_all add: tree_ok_def)
  have id': "pg_id nd' = ?i" and sib': "get_right_sibling nd' = get_right_sibling nd"
    and par': "get_parent nd' = get_parent nd" using new(3,4) by (simp_all add: node_hdr_def)
  have page': "page_wf nd'" using new(1) by (simp add: leaf_wf_def)
  have written: "leaf_at (?v(?i \<mapsto> ?b)) ?i es sib par" if "leaf_at ?v ?i es0 sib par" for es0 sib par
    using leaf_at_written [OF new(1), of ?v] leaf_at_node(3,4) [OF that nd] id' sib' par' new(2) by simp
  have mem: "(?i, snd (cover t key)) \<in> set (leaves t)" using cover_in_leaves [of t key] by simp
  obtain sib par where leaf: "leaf_at ?v ?i (snd (cover t key)) sib par" using rep_leaf [OF rep mem] by blast
  have "?v (pg_id nd') \<noteq> None" using nd id' by simp
  then show thesis
  proof (rule pool.wr_node_obtain [OF q page'])
    fix bp' assume w: "write_node nd' bp = (Inr (), bp')" "pool_quiet bp'" "bp_count bp' = bp_count bp"
      "bp_view bp' = ?v(pg_id nd' \<mapsto> ?b)"
    have v': "bp_view bp' = ?v(?i \<mapsto> ?b)" using w(4) id' by simp
    have "rep (bp_view bp') (set_cover t key es)"
      unfolding v' by (rule rep_set_cover [OF rep dist written [OF leaf]])
    moreover have "ord None None (set_cover t key es)"
      using new(1,2) by (intro ord_set_cover [OF ord _ _ _ keys]) (simp_all add: leaf_wf_def)
    moreover have "chained (bp_view bp') (leaves (set_cover t key es))"
      unfolding v' leaves_set_cover [OF dist]
      by (rule chained_update [OF ch distinct_leaves [OF dist] mem written])
    ultimately have ok': "tree_ok bp' (set_cover t key es)" using w(2) dist bal by (simp add: tree_ok_def)
    have "parent_at (bp_view bp') x = parent_at ?v x" for x
      using v' parent_at_leaf [OF leaf] parent_at_leaf [OF written [OF leaf]] by (cases "x = ?i") (auto simp: parent_at_def)
    then have "linked_tree bp' (set_cover t key es)"
      if "linked_tree bp t" "\<forall>e \<in> set es. length (fst e) + length (snd e) \<le> SMALL"
      using that linked_set_cover [of ?v t "bp_view bp'"] small_set_cover [of t es] by (simp add: linked_tree_def)
    with that [OF w(1) ok' w(3)] show thesis by blast
  qed
qed

lemma bt_delete_tree:
  assumes t: "tree_ok bp t" "root_id t = root_page_id tr"
  obtains bp' t' where "bt_delete key (tr, bp) = (Inr (map_of (entries t) key), (tr, bp'))" "tree_ok bp' t'" "root_id t' = root_id t"
    "entries t' = kv_delete key (entries t)" "bp_count bp' = bp_count bp" "linked_tree bp t \<Longrightarrow> linked_tree bp' t'"
    "seps t' = seps t" "height t' = height t"
proof -
  let ?c = "cover t key"
  have ord: "ord None None t" using t(1) by (simp add: tree_ok_def)
  show thesis
  proof (rule read_cover_ok [OF t, of key])
    fix bp1 bp2 nd assume r: "find_leaf tr key bp = (Inr (fst ?c), bp1)" "read_node (fst ?c) bp1 = (Inr nd, bp2)" "tree_ok bp2 t"
      "bp_view bp2 (fst ?c) = Some (pg_data nd)" "pg_id nd = fst ?c" "leaf_wf nd" "leaf_abs nd = snd ?c"
      "bp_view bp2 = bp_view bp" "bp_count bp2 = bp_count bp"
    have look: "map_of (entries t) key = map_of (leaf_abs nd) key" using cover_lookup [OF ord, of key] r(7) by simp
    have linked2: "linked_tree bp2 t = linked_tree bp t" using r(8) by (simp add: linked_tree_def)
    show thesis
    proof (rule leaf_delete_ok [OF r(6), of key])
      fix nd' assume d: "leaf_delete nd key = Inr (nd', map_of (leaf_abs nd) key)" "leaf_wf nd'"
        "leaf_abs nd' = kv_delete key (leaf_abs nd)" "node_hdr nd' = node_hdr nd"
      have run: "bt_delete key (tr, bp) = bindS (if map_of (entries t) key \<noteq> None then in_pool (write_node nd') else retS ())
          (\<lambda>_. retS (map_of (entries t) key)) (tr, bp2)"
        using r(1,2) d(1) look by (simp add: bt_delete_def bindS_def get_tree_def in_pool_def)
      show thesis
      proof (cases "map_of (entries t) key")
        case None
        then have "kv_delete key (entries t) = entries t" by (intro kv_delete_absent) (metis map_of_eq_None_iff)
        with None run that [of bp2 t] r(3,9) linked2 show thesis by simp
      next
        case (Some v)
        have keys: "fst ` set (kv_delete key (snd ?c)) \<subseteq> insert key (fst ` set (snd ?c))" by (auto simp: kv_delete_def)
        show thesis
        proof (rule write_cover_ok [OF r(3,4) d(2) _ d(4) r(5) keys])
          show "leaf_abs nd' = kv_delete key (snd ?c)" using d(3) r(7) by simp
          fix bp3 assume w: "write_node nd' bp2 = (Inr (), bp3)" "tree_ok bp3 (set_cover t key (kv_delete key (snd ?c)))"
            "bp_count bp3 = bp_count bp2" "linked_tree bp2 t \<Longrightarrow> (\<forall>e \<in> set (kv_delete key (snd ?c)). length (fst e) + length (snd e) \<le> SMALL)
               \<Longrightarrow> linked_tree bp3 (set_cover t key (kv_delete key (snd ?c)))"
          have "\<forall>e \<in> set (kv_delete key (snd ?c)). length (fst e) + length (snd e) \<le> SMALL" if "linked_tree bp t"
            using that small_cover [of t _ key] by (auto simp: linked_tree_def kv_delete_def)
          with Some run w linked2 that [of bp3, OF _ w(2)] r(9) entries_delete_cover [OF ord, of key]
          show thesis by (simp add: bindS_def in_pool_def)
        qed
      qed
    qed
  qed
qed

lemma bt_delete_ok:
  assumes "index tr bp es"
  obtains bp' where "bt_delete key (tr, bp) = (Inr (map_of es key), (tr, bp'))" "index tr bp' (kv_delete key es)"
proof -
  from assms obtain t where t: "tree_ok bp t" "root_id t = root_page_id tr" "entries t = es" by (auto simp: index_def)
  show thesis by (rule bt_delete_tree [OF t(1,2), of key]) (use t(2,3) that in \<open>auto simp: index_def\<close>)
qed

text \<open>
  Insertion where the covering leaf has room for the result. The guard of the code for a new key
  (\<^verbatim>\<open>leaf_can_fit\<close>) implies it; for an existing key the code checks nothing.
\<close>

definition room_for :: "btree \<Rightarrow> key \<Rightarrow> bytes \<Rightarrow> bool" where
  "room_for t key value \<longleftrightarrow>
     (let es = snd (cover t key)
      in if map_of es key = None then leaf_size es + 12 + length key + length value \<le> LEAF_CAPACITY
         else leaf_size (kv_insert key value es) \<le> LEAF_CAPACITY)"

definition index_room :: "bplus_tree \<Rightarrow> buffer_pool \<Rightarrow> key \<Rightarrow> bytes \<Rightarrow> entry list \<Rightarrow> bool" where
  "index_room tr bp key value es \<longleftrightarrow>
     (\<exists>t. tree_ok bp t \<and> root_id t = root_page_id tr \<and> entries t = es \<and> room_for t key value)"

lemma kv_pos_ex: "sorted_kv xs \<Longrightarrow> map_of xs k = None \<Longrightarrow> \<exists>i. kv_pos xs k i"
proof (induction xs)
  case Nil
  then show ?case by (auto simp: kv_pos_def)
next
  case (Cons e xs)
  have ne: "fst e \<noteq> k" using Cons.prems(2) by (auto split: if_splits)
  show ?case
  proof (cases "k < fst e")
    case True
    with Cons.prems(1) have "\<forall>x \<in> set (e # xs). k < fst x" by (auto intro: less_trans)
    then have "kv_pos (e # xs) k 0" unfolding kv_pos_def by (meson less_nat_zero_code nth_mem zero_le)
    then show ?thesis by blast
  next
    case False
    with ne have "fst e < k" by auto
    moreover from Cons ne obtain i where "kv_pos xs k i" by (auto split: if_splits)
    ultimately have "kv_pos (e # xs) k (Suc i)"
      unfolding kv_pos_def by (auto simp: nth_Cons split: nat.splits)
    then show ?thesis by blast
  qed
qed

lemma room_for_fits:
  assumes "room_for t key value" and "sorted_kv (snd (cover t key))"
  shows "leaf_size (kv_insert key value (snd (cover t key))) \<le> LEAF_CAPACITY"
proof (cases "map_of (snd (cover t key)) key")
  case None
  then obtain i where "kv_pos (snd (cover t key)) key i" using kv_pos_ex [OF assms(2)] by blast
  with leaf_size_insert [OF this, of "value"] None assms(1) show ?thesis by (simp add: room_for_def Let_def)
qed (use assms in \<open>simp add: room_for_def Let_def\<close>)

lemma bt_insert_room_tree:
  assumes t: "tree_ok bp t" "root_id t = root_page_id tr" and room: "room_for t key value"
  obtains bp' t' where "bt_insert key value (tr, bp) = (Inr (map_of (entries t) key = None), (tr, bp'))" "tree_ok bp' t'"
    "root_id t' = root_id t" "entries t' = kv_insert key value (entries t)" "bp_count bp' = bp_count bp"
    "linked_tree bp t \<Longrightarrow> length key + length value \<le> SMALL \<Longrightarrow> linked_tree bp' t'" "seps t' = seps t" "height t' = height t"
proof -
  let ?c = "cover t key"
  let ?es = "kv_insert key value (snd ?c)"
  have ord: "ord None None t" using t(1) by (simp add: tree_ok_def)
  show thesis
  proof (rule read_cover_ok [OF t, of key])
    fix bp1 bp2 nd assume r: "find_leaf tr key bp = (Inr (fst ?c), bp1)" "read_node (fst ?c) bp1 = (Inr nd, bp2)" "tree_ok bp2 t"
      "bp_view bp2 (fst ?c) = Some (pg_data nd)" "pg_id nd = fst ?c" "leaf_wf nd" "leaf_abs nd = snd ?c"
      "bp_view bp2 = bp_view bp" "bp_count bp2 = bp_count bp"
    have sorted: "sorted_kv (leaf_abs nd)" using r(6) by (simp add: leaf_wf_def)
    have look: "map_of (entries t) key = map_of (leaf_abs nd) key" using cover_lookup [OF ord, of key] r(7) by simp
    have fits: "leaf_size (kv_insert key value (leaf_abs nd)) \<le> LEAF_CAPACITY"
      using room_for_fits [OF room] sorted r(7) by simp
    show thesis
    proof (rule leaf_insert_ok [OF r(6) fits])
      fix nd' assume d: "leaf_insert nd key value = Inr (nd', map_of (leaf_abs nd) key = None)" "leaf_wf nd'"
        "leaf_abs nd' = kv_insert key value (leaf_abs nd)" "node_hdr nd' = node_hdr nd"
      have keys: "fst ` set ?es \<subseteq> insert key (fst ` set (snd ?c))" using set_kv_insert [of key "value" "snd ?c"] by force
      show thesis
      proof (rule write_cover_ok [OF r(3,4) d(2) _ d(4) r(5) keys])
        show "leaf_abs nd' = ?es" using d(3) r(7) by simp
        fix bp3 assume w: "write_node nd' bp2 = (Inr (), bp3)" "tree_ok bp3 (set_cover t key ?es)" "bp_count bp3 = bp_count bp2"
          "linked_tree bp2 t \<Longrightarrow> (\<forall>e \<in> set ?es. length (fst e) + length (snd e) \<le> SMALL) \<Longrightarrow> linked_tree bp3 (set_cover t key ?es)"
        have run: "bt_insert key value (tr, bp) = (Inr (map_of (entries t) key = None), (tr, bp3))"
        proof (cases rule: leaf_find_slot_ok [OF r(6), of key, case_names found absent])
          case (found i)
          then have "map_of (entries t) key \<noteq> None" using kv_found_lookup [OF sorted, of i] look by simp
          with found r(1,2) d(1) w(1) show ?thesis
            by (auto simp: bt_insert_def bindS_def get_tree_def in_pool_def)
        next
          case (absent i)
          have none: "map_of (entries t) key = None" using kv_pos_absent [OF absent(2)] look by simp
          then have "leaf_can_fit nd key value = Inr True"
            using leaf_can_fit_ok [OF r(6), of key "value"] room look r(7) by (simp add: room_for_def Let_def)
          with absent none r(1,2) d(1) w(1) show ?thesis
            by (simp add: bt_insert_def bindS_def get_tree_def in_pool_def)
        qed
        have "linked_tree bp3 (set_cover t key ?es)" if "linked_tree bp t" "length key + length value \<le> SMALL"
        proof (rule w(4))
          show "linked_tree bp2 t" using that(1) r(8) by (simp add: linked_tree_def)
          show "\<forall>e \<in> set ?es. length (fst e) + length (snd e) \<le> SMALL"
            using that small_cover [of t _ key] set_kv_insert [of key "value" "snd ?c"] by (auto simp: linked_tree_def)
        qed
        with that [OF run w(2)] w(3) r(9) entries_insert_cover [OF ord, of key "value"] show thesis by simp
      qed
    qed
  qed
qed

lemma bt_insert_room_ok:
  assumes "index_room tr bp key value es"
  obtains bp' where "bt_insert key value (tr, bp) = (Inr (map_of es key = None), (tr, bp'))"
    "index tr bp' (kv_insert key value es)"
proof -
  from assms obtain t where t: "tree_ok bp t" "root_id t = root_page_id tr" "room_for t key value" "entries t = es"
    by (auto simp: index_room_def)
  show thesis by (rule bt_insert_room_tree [OF t(1-3)]) (use t(2,4) that in \<open>auto simp: index_def\<close>)
qed

section \<open>Scans along the leaf chain\<close>

lemma leaves_not_Nil [simp]: "leaves t \<noteq> []" and kleaves_not_Nil [simp]: "kleaves ks \<noteq> []"
  by (induction t and ks) auto

lemma hd_kleaves: "fst (hd (kleaves ks)) = fst (hd (leaves (case ks of Only t \<Rightarrow> t | More t k ks' \<Rightarrow> t)))"
  by (cases ks) simp_all

lemma read_chained:
  assumes q: "pool_quiet bp" and ch: "chained (bp_view bp) (x # ls)"
  obtains nd bp' where "read_node (fst x) bp = (Inr nd, bp')" "pool_quiet bp'" "bp_view bp' = bp_view bp"
    "bp_count bp' = bp_count bp" "leaf_wf nd" "leaf_abs nd = snd x" "get_right_sibling nd = next_id ls"
proof -
  from ch obtain par where leaf: "leaf_at (bp_view bp) (fst x) (snd x) (next_id ls) par" by auto
  then obtain b where b: "bp_view bp (fst x) = Some b" using leaf_at_dom by blast
  show thesis
  proof (rule pool.rd_node_obtain [OF q b])
    fix nd bp' assume r: "read_node (fst x) bp = (Inr nd, bp')" "pool_quiet bp'" "bp_view bp' = bp_view bp"
      "bp_count bp' = bp_count bp" "pg_data nd = b"
    have "bp_view bp (fst x) = Some (pg_data nd)" using b r(5) by simp
    from leaf_at_node [OF leaf this] that r show thesis by blast
  qed
qed

lemma next_id_Cons [simp]: "next_id (x # ls) = fst x" and next_id_Nil [simp]: "next_id [] = INVALID_PAGE_ID"
  by (simp_all add: next_id_def)

lemma scan_loop_ok:
  assumes "pool_quiet bp" and "chained (bp_view bp) (x # ls)" and "\<forall>y \<in> set ls. fst y \<noteq> INVALID_PAGE_ID"
    and "length ls < fuel"
  shows "\<exists>bp'. scan_loop fuel (fst x) acc bp = (Inr (acc @ concat (map snd (x # ls))), bp') \<and> pool_quiet bp'
    \<and> bp_view bp' = bp_view bp \<and> bp_count bp' = bp_count bp"
  using assms
proof (induction fuel arbitrary: x ls acc bp)
  case (Suc fuel)
  show ?case
  proof (rule read_chained [OF Suc.prems(1,2)])
    fix nd bp1 assume r: "read_node (fst x) bp = (Inr nd, bp1)" "pool_quiet bp1" "bp_view bp1 = bp_view bp"
      "bp_count bp1 = bp_count bp" "leaf_wf nd" "leaf_abs nd = snd x" "get_right_sibling nd = next_id ls"
    note run = r(1) leaf_entries_ok [OF r(5)]
    show ?thesis
    proof (cases ls)
      case Nil
      with run r show ?thesis by (simp add: bindS_def Let_def)
    next
      case (Cons y ls')
      have "chained (bp_view bp1) (y # ls')" using Suc.prems(2) Cons r(3) by simp
      from Suc.IH [OF r(2) this, of "acc @ snd x"] Suc.prems(3,4) Cons r(3,4) obtain bp' where
        "scan_loop fuel (fst y) (acc @ snd x) bp1 = (Inr ((acc @ snd x) @ concat (map snd (y # ls'))), bp')"
        "pool_quiet bp'" "bp_view bp' = bp_view bp" "bp_count bp' = bp_count bp" by auto
      with run r Cons Suc.prems(3) show ?thesis by (auto simp: bindS_def Let_def)
    qed
  qed
qed simp

lemma leftmost_leaf_ok:
  assumes "pool_quiet bp" and "rep (bp_view bp) t" and "height t < fuel"
  shows "\<exists>bp'. leftmost_leaf_loop fuel (root_id t) bp = (Inr (fst (hd (leaves t))), bp') \<and> pool_quiet bp'
    \<and> bp_view bp' = bp_view bp \<and> bp_count bp' = bp_count bp"
  using assms
proof (induction fuel arbitrary: t bp)
  case (Suc fuel)
  obtain b where b: "bp_view bp (root_id t) = Some b" using rep_root [OF Suc.prems(2)] by blast
  show ?case
  proof (rule pool.rd_node_obtain [OF Suc.prems(1) b])
    fix nd bp1 assume r: "read_node (root_id t) bp = (Inr nd, bp1)" "pool_quiet bp1" "bp_view bp1 = bp_view bp"
      "bp_count bp1 = bp_count bp" "pg_data nd = b"
    have v: "bp_view bp (root_id t) = Some (pg_data nd)" using b r(5) by simp
    show ?thesis
    proof (cases t)
      case (BLeaf i es)
      then obtain sib par where "leaf_at (bp_view bp) i es sib par" using Suc.prems(2) by auto
      from leaf_at_node(5) [OF this] v BLeaf have "is_leaf nd" by simp
      with r BLeaf show ?thesis by (simp add: bindS_def)
    next
      case (BNode i ks)
      then obtain par where "int_at (bp_view bp) i (first_id ks) (routes ks) par" and sub: "reps (bp_view bp) ks"
        using Suc.prems(2) by auto
      note nd = int_at_node [OF this(1), of nd]
      have v': "bp_view bp i = Some (pg_data nd)" using v BNode by simp
      obtain c where c: "first_id ks = root_id c" "rep (bp_view bp) c" "height c \<le> kheight ks"
          "hd (kleaves ks) = hd (leaves c)"
        using sub by (cases ks) auto
      then have "height c < fuel" using Suc.prems(3) BNode by simp
      from Suc.IH [OF r(2) _ this] c(2) r(3,4) obtain bp' where
        "leftmost_leaf_loop fuel (root_id c) bp1 = (Inr (fst (hd (leaves c))), bp')"
        "pool_quiet bp'" "bp_view bp' = bp_view bp" "bp_count bp' = bp_count bp" by auto
      with r(1) c nd(3,5) [OF v'] BNode show ?thesis by (simp add: bindS_def)
    qed
  qed
qed simp

lemma length_leaves: "length (leaves t) \<le> length (pages t)" and length_kleaves: "length (kleaves ks) \<le> length (kpages ks)"
  by (induction t and ks) auto

lemma bt_scan_all_ok:
  assumes "index tr bp es"
  obtains bp' where "bt_scan_all tr bp = (Inr es, bp')" "index tr bp' es" "bp_view bp' = bp_view bp"
proof -
  from assms obtain t where t: "tree_ok bp t" "root_id t = root_page_id tr" "entries t = es"
    by (auto simp: index_def)
  have fuel: "height t < loop_fuel bp" "length (leaves t) \<le> loop_fuel bp"
    using height_pages [of t] length_leaves [of t] tree_ok_fuel [OF t(1)] by simp_all
  from t(1) have q: "pool_quiet bp" "rep (bp_view bp) t" "chained (bp_view bp) (leaves t)"
    by (simp_all add: tree_ok_def)
  obtain x ls where ls: "leaves t = x # ls" by (metis leaves_not_Nil list.exhaust)
  from leftmost_leaf_ok [OF q(1,2) fuel(1)] ls obtain bp1 where
    1: "leftmost_leaf_loop (loop_fuel bp) (root_id t) bp = (Inr (fst x), bp1)" "pool_quiet bp1"
      "bp_view bp1 = bp_view bp" by auto
  have ids: "\<forall>y \<in> set ls. fst y \<noteq> INVALID_PAGE_ID"
    using tree_ok_pages(2) [OF t(1)] leaves_in_pages [of _ t] ls by auto
  have "chained (bp_view bp1) (x # ls)" "length ls < loop_fuel bp" using q(3) 1(3) ls fuel(2) by simp_all
  from scan_loop_ok [OF 1(2) this(1) ids this(2), of "[]"] obtain bp2 where
    2: "scan_loop (loop_fuel bp) (fst x) [] bp1 = (Inr (concat (map snd (x # ls))), bp2)"
      "pool_quiet bp2" "bp_view bp2 = bp_view bp1" by auto
  have "bt_scan_all tr bp = (Inr es, bp2)"
    using 1(1) 2(1) t(2,3) ls by (simp add: bt_scan_all_def bindS_def entries_def)
  moreover have "index tr bp2 es" using tree_ok_same [OF t(1) 2(2)] 1(3) 2(3) t(2,3) by (auto simp: index_def)
  ultimately show thesis using that 1(3) 2(3) by simp
qed

section \<open>Range scans\<close>

definition in_range :: "key \<Rightarrow> key \<Rightarrow> entry \<Rightarrow> bool" where
  "in_range lo hi e \<longleftrightarrow> lo \<le> fst e \<and> fst e \<le> hi"

lemma filter_above: "\<forall>e \<in> set es. hi < fst e \<Longrightarrow> filter (in_range lo hi) es = []"
  by (auto simp: filter_empty_conv in_range_def)

lemma range_leaf_ok:
  assumes wf: "leaf_wf nd"
  shows "j \<le> num_keys nd \<Longrightarrow> range_leaf nd lo hi [j..<num_keys nd] acc
    = Inr (acc @ filter (in_range lo hi) (drop j (leaf_abs nd)), \<exists>e \<in> set (drop j (leaf_abs nd)). hi < fst e)"
proof (induction "num_keys nd - j" arbitrary: j acc)
  case 0
  then show ?case by simp
next
  case (Suc n)
  then have j: "j < num_keys nd" and IH: "\<And>acc. range_leaf nd lo hi [Suc j..<num_keys nd] acc
      = Inr (acc @ filter (in_range lo hi) (drop (Suc j) (leaf_abs nd)),
             \<exists>e \<in> set (drop (Suc j) (leaf_abs nd)). hi < fst e)" by simp_all
  have drop: "drop j (leaf_abs nd) = leaf_abs nd ! j # drop (Suc j) (leaf_abs nd)"
    using j by (simp add: Cons_nth_drop_Suc)
  have sorted: "sorted_kv (drop j (leaf_abs nd))" using wf by (simp add: leaf_wf_def sorted_kv_drop)
  have rest: "\<forall>e \<in> set (drop (Suc j) (leaf_abs nd)). fst (leaf_abs nd ! j) < fst e"
    using sorted unfolding drop by simp
  note run = leaf_key_ok [OF wf j] leaf_value_ok [OF wf j]
  have upt: "[j..<num_keys nd] = j # [Suc j..<num_keys nd]" using j by (rule upt_conv_Cons)
  show ?case
  proof (cases "hi < fst (leaf_abs nd ! j)")
    case True
    with rest have "\<forall>e \<in> set (drop j (leaf_abs nd)). hi < fst e" unfolding drop by (auto intro: less_trans)
    with filter_above [OF this] True run(1) show ?thesis unfolding upt drop by simp
  next
    case False
    with IH run show ?thesis unfolding upt drop by (auto simp: in_range_def)
  qed
qed

lemma range_loop_ok:
  assumes "pool_quiet bp" and "chained (bp_view bp) (x # ls)" and "\<forall>y \<in> set ls. fst y \<noteq> INVALID_PAGE_ID"
    and "length ls < fuel" and "sorted_kv (concat (map snd (x # ls)))"
  shows "\<exists>bp'. range_loop fuel lo hi (fst x) acc bp
      = (Inr (acc @ filter (in_range lo hi) (concat (map snd (x # ls)))), bp') \<and> pool_quiet bp'
    \<and> bp_view bp' = bp_view bp"
  using assms
proof (induction fuel arbitrary: x ls acc bp)
  case (Suc fuel)
  show ?case
  proof (rule read_chained [OF Suc.prems(1,2)])
    fix nd bp1 assume r: "read_node (fst x) bp = (Inr nd, bp1)" "pool_quiet bp1" "bp_view bp1 = bp_view bp"
      "leaf_wf nd" "leaf_abs nd = snd x" "get_right_sibling nd = next_id ls"
    let ?acc = "acc @ filter (in_range lo hi) (snd x)" and ?stop = "\<exists>e \<in> set (snd x). hi < fst e"
    have run: "range_leaf nd lo hi [0..<num_keys nd] acc = Inr (?acc, ?stop)"
      using range_leaf_ok [OF r(4), of 0 lo hi acc] r(5) by simp
    show ?thesis
    proof (cases ?stop)
      case True
      then obtain e where e: "e \<in> set (snd x)" "hi < fst e" by blast
      have "\<forall>e' \<in> set (concat (map snd ls)). fst e < fst e'"
        using Suc.prems(5) e(1) by (simp add: sorted_kv_append)
      then have "\<forall>e' \<in> set (concat (map snd ls)). hi < fst e'" using e(2) by (meson less_trans)
      from filter_above [OF this] True run r show ?thesis by (simp add: bindS_def)
    next
      case False
      show ?thesis
      proof (cases ls)
        case Nil
        with False run r show ?thesis by (simp add: bindS_def Let_def)
      next
        case (Cons y ls')
        have "chained (bp_view bp1) (y # ls')" using Suc.prems(2) Cons r(3) by simp
        from Suc.IH [OF r(2) this, of ?acc] Suc.prems(3-5) Cons r(3) obtain bp' where
          "range_loop fuel lo hi (fst y) ?acc bp1 = (Inr (?acc @ filter (in_range lo hi) (concat (map snd (y # ls')))), bp')"
          "pool_quiet bp'" "bp_view bp' = bp_view bp" by (auto simp: sorted_kv_append)
        with False run r Cons Suc.prems(3) show ?thesis by (auto simp: bindS_def Let_def)
      qed
    qed
  qed
qed simp

lemma cover_split:
  "ord lo hi t \<Longrightarrow> \<exists>pre post. leaves t = pre @ cover t key # post \<and> (\<forall>e \<in> set (concat (map snd pre)). fst e < key)"
  and kcover_split:
  "ords lo hi ks \<Longrightarrow> \<exists>pre post. kleaves ks = pre @ kcover ks key # post \<and> (\<forall>e \<in> set (concat (map snd pre)). fst e < key)"
proof (induction t and ks arbitrary: lo hi and lo hi)
  case (BLeaf i es)
  then show ?case by (auto intro!: exI [of _ "[]"])
next
  case (More t k ks)
  show ?case
  proof (cases "key < k")
    case True
    from More.IH(1) [of lo "Some k"] More.prems obtain pre post where
      "leaves t = pre @ cover t key # post" "\<forall>e \<in> set (concat (map snd pre)). fst e < key" by auto
    with True show ?thesis by (intro exI [of _ pre] exI [of _ "post @ kleaves ks"]) simp
  next
    case False
    from More.IH(2) [of "Some k" hi] More.prems obtain pre post where
      p: "kleaves ks = pre @ kcover ks key # post" "\<forall>e \<in> set (concat (map snd pre)). fst e < key" by auto
    have "\<forall>e \<in> set (entries t). fst e < key"
      using ord_before [of lo k t] More.prems False by fastforce
    with False p show ?thesis
      by (intro exI [of _ "leaves t @ pre"] exI [of _ post]) (auto simp: entries_def)
  qed
qed auto

lemma chained_append: "chained v (xs @ ys) \<Longrightarrow> chained v ys"
  by (induction xs) auto

lemma bt_range_scan_ok:
  assumes "index tr bp es"
  obtains bp' where "bt_range_scan tr lo hi bp = (Inr (filter (in_range lo hi) es), bp')" "index tr bp' es" "bp_view bp' = bp_view bp"
proof -
  from assms obtain t where t: "tree_ok bp t" "root_id t = root_page_id tr" "entries t = es"
    by (auto simp: index_def)
  have ord: "ord None None t" using t(1) by (simp add: tree_ok_def)
  from cover_split [OF ord, of lo] obtain pre post where ls: "leaves t = pre @ cover t lo # post"
    and pre: "\<forall>e \<in> set (concat (map snd pre)). fst e < lo" by blast
  have es: "es = concat (map snd pre) @ concat (map snd (cover t lo # post))"
    using t(3) ls by (simp add: entries_def)
  show thesis
  proof (rule find_leaf_ok [OF t(1,2), of lo])
    fix bp1 assume 1: "find_leaf tr lo bp = (Inr (fst (cover t lo)), bp1)" "tree_ok bp1 t"
      "bp_view bp1 = bp_view bp" "bp_count bp1 = bp_count bp"
    from 1(2) have q: "pool_quiet bp1" "chained (bp_view bp1) (cover t lo # post)"
      using chained_append [of "bp_view bp1" pre "cover t lo # post"] ls by (simp_all add: tree_ok_def)
    have ids: "\<forall>y \<in> set post. fst y \<noteq> INVALID_PAGE_ID"
      using tree_ok_pages(2) [OF t(1)] leaves_in_pages [of _ t] ls by auto
    have fuel: "length post < loop_fuel bp"
      using length_leaves [of t] tree_ok_fuel [OF t(1)] ls by simp
    have "sorted_kv (concat (map snd (cover t lo # post)))"
      using sorted_entries [OF ord] t(3) es by (simp add: sorted_kv_append)
    from range_loop_ok [OF q ids fuel this, of lo hi "[]"] obtain bp2 where
      2: "range_loop (loop_fuel bp) lo hi (fst (cover t lo)) [] bp1
          = (Inr (filter (in_range lo hi) (concat (map snd (cover t lo # post)))), bp2)"
        "pool_quiet bp2" "bp_view bp2 = bp_view bp1" by auto
    have "filter (in_range lo hi) (concat (map snd pre)) = []"
      using pre by (metis filter_False in_range_def not_le)
    then have "bt_range_scan tr lo hi bp = (Inr (filter (in_range lo hi) es), bp2)"
      using 1(1) 2(1) es by (simp add: bt_range_scan_def bindS_def)
    moreover have "index tr bp2 es" using tree_ok_same [OF 1(2) 2(2,3)] t(2,3) by (auto simp: index_def)
    ultimately show thesis using that 1(3) 2(3) by simp
  qed
qed

section \<open>Creating a tree\<close>

lemma bt_create_ok:
  assumes q: "pool_quiet bp" and n: "bp_count bp \<noteq> 0xFFFFFFFF"
  obtains bp' where "bt_create bp = (Inr \<lparr>root_page_id = bp_count bp\<rparr>, bp')" "index \<lparr>root_page_id = bp_count bp\<rparr> bp' []"
    "bp_count bp' = bp_count bp + 1" "linked_index (\<lparr>root_page_id = bp_count bp\<rparr>, bp') []"
proof -
  let ?n = "dm_num_pages (bp_disk bp)" and ?nd = "new_leaf (bp_count bp)"
  let ?f = "copy_node (update_checksum ?nd)"
  have nid: "pg_id ?nd = bp_count bp" using new_leaf_ok(3) [of "bp_count bp"] by (simp add: node_hdr_def)
  have inv: "pool_inv bp" and pins: "bp_pins bp = (\<lambda>_. 0)" using q by (simp_all add: pool_quiet_def)
  have n': "?n \<noteq> 0xFFFFFFFF" using n by (simp add: bp_count_def)
  show thesis
  proof (rule bp_new_page_ok [OF inv n' quiet_available [OF q], folded bp_count_def])
    fix bp1 assume a: "bp_new_page bp = (Inr (bp_count bp), bp1)"
      "moves bp bp1 ((bp_view bp)(bp_count bp \<mapsto> pg_data (page_new (bp_count bp)))) ((bp_pins bp)(bp_count bp := 1))"
      "bp_count bp1 = bp_count bp + 1" "bp_page_table bp1 (bp_count bp) \<noteq> None"
    note q1 = quiet_moves [OF q a(2)]
    have pin1: "bp_pins bp1 (bp_count bp) \<noteq> - 1" using q1 by simp
    have inv1: "pool_inv bp1" and v1: "bp_view bp1 (bp_count bp) = Some (pg_data (page_new (bp_count bp)))"
      using q1 by simp_all
    have "page_wf (update_checksum ?nd)" using new_leaf_ok(1) [of "bp_count bp"] by (simp add: leaf_wf_def)
    then have "page_wf (?f p) \<and> pg_id (?f p) = pg_id p" for p by (simp add: copy_node_def page_wf_def)
    from pool_update_moves [where f = ?f, OF inv1 v1 disjI1 [OF a(4)] pin1 this] obtain bp2 where
      u: "bindS (bp_fetch_page_mut (bp_count bp)) (\<lambda>page. bindS (bp_update_page page ?f)
           (\<lambda>_. bp_unpin_page (bp_count bp) True)) bp1 = (Inr (), bp2)"
        "moves bp1 bp2 ((bp_view bp1)(bp_count bp \<mapsto> pg_data (update_checksum ?nd))) (bp_pins bp1)"
        "bp_count bp2 = bp_count bp1" "bp_page_table bp2 (bp_count bp) \<noteq> None"
      by (auto simp: copy_node_def)
    have inv2: "pool_inv bp2" using u(2) by (simp add: moves_def)
    from u(4) obtain i where t2: "bp_page_table bp2 (bp_count bp) = Some i" by blast
    show thesis
    proof (rule bp_unpin_page_ok [OF inv2 t2, of False])
      fix bp3 assume w: "bp_unpin_page (bp_count bp) False bp2 = (Inr (), bp3)"
        "moves bp2 bp3 (bp_view bp2) ((bp_pins bp2)(bp_count bp := if bp_pins bp2 (bp_count bp) > 0 then bp_pins bp2 (bp_count bp) - 1 else 0))"
        "dm_num_pages (bp_disk bp3) = dm_num_pages (bp_disk bp2)"
      have run: "bt_create bp = (Inr \<lparr>root_page_id = bp_count bp\<rparr>, bp3)"
        using a(1) u(1) w(1) by (auto simp: bt_create_def bindS_def split: prod.splits sum.splits)
      have q3: "pool_quiet bp3" using w(2) u(2) q1 pins by (simp add: pool_quiet_def moves_def fun_eq_iff)
      have v3: "bp_view bp3 = (bp_view bp)(pg_id ?nd \<mapsto> pg_data (update_checksum ?nd))"
        using w(2) u(2) q1 nid by (simp add: moves_def)
      have leaf: "leaf_at (bp_view bp3) (bp_count bp) [] INVALID_PAGE_ID INVALID_PAGE_ID"
        unfolding v3 using leaf_at_written [of ?nd "bp_view bp"] new_leaf_ok [of "bp_count bp"] nid
        by (simp add: node_hdr_def)
      then have "tree_ok bp3 (BLeaf (bp_count bp) [])" using q3 by (auto simp: tree_ok_def)
      then have "linked_index (\<lparr>root_page_id = bp_count bp\<rparr>, bp3) []"
        using parent_at_leaf [OF leaf] by (auto simp: linked_index_def linked_tree_def intro!: exI [of _ "BLeaf (bp_count bp) []"])
      moreover from linked_index_index [OF this] have "index \<lparr>root_page_id = bp_count bp\<rparr> bp3 []" by (simp add: tree_index_def)
      ultimately show thesis using that run a(3) u(3) w(3) by (simp add: bp_count_def)
    qed
  qed
qed

section \<open>The contract of an ordered index\<close>

text \<open>
  What a client of the tree relies on: the operations answer as those on a sorted list of
  entries. Inserting is only promised where there is room.
\<close>

locale kv_index =
  fixes holds :: "'s \<Rightarrow> entry list \<Rightarrow> bool"
    and room :: "'s \<Rightarrow> key \<Rightarrow> bytes \<Rightarrow> bool"
    and lookup :: "key \<Rightarrow> ('s, bytes option) op"
    and ins :: "key \<Rightarrow> bytes \<Rightarrow> ('s, bool) op"
    and del :: "key \<Rightarrow> ('s, bytes option) op"
    and scan :: "('s, entry list) op"
    and range :: "key \<Rightarrow> key \<Rightarrow> ('s, entry list) op"
  assumes holds_sorted: "holds s es \<Longrightarrow> sorted_kv es"
    and lookup_ok: "holds s es \<Longrightarrow> \<exists>s'. lookup k s = (Inr (map_of es k), s') \<and> holds s' es"
    and ins_ok: "holds s es \<Longrightarrow> room s k v \<Longrightarrow>
      \<exists>s'. ins k v s = (Inr (map_of es k = None), s') \<and> holds s' (kv_insert k v es)"
    and del_ok: "holds s es \<Longrightarrow> \<exists>s'. del k s = (Inr (map_of es k), s') \<and> holds s' (kv_delete k es)"
    and scan_ok: "holds s es \<Longrightarrow> \<exists>s'. scan s = (Inr es, s') \<and> holds s' es"
    and range_ok: "holds s es \<Longrightarrow>
      \<exists>s'. range lo hi s = (Inr (filter (\<lambda>e. lo \<le> fst e \<and> fst e \<le> hi) es), s') \<and> holds s' es"
begin

lemma holds_unique: "holds s es \<Longrightarrow> holds s es' \<Longrightarrow> es = es'"
  using scan_ok by (metis prod.inject sum.inject(2))

lemma lookup_after_insert:
  assumes "holds s es" and "room s k v" and "ins k v s = (r, s')"
  shows "fst (lookup k' s') = Inr (if k' = k then Some v else map_of es k')"
proof -
  from ins_ok [OF assms(1,2)] assms(3) have "holds s' (kv_insert k v es)" by auto
  from lookup_ok [OF this, of k'] map_of_kv_insert [OF holds_sorted [OF assms(1)], of k v] show ?thesis by auto
qed

lemma lookup_after_delete:
  assumes "holds s es" and "del k s = (r, s')"
  shows "fst (lookup k' s') = Inr (if k' = k then None else map_of es k')"
proof -
  from del_ok [OF assms(1), of k] assms(2) have "holds s' (kv_delete k es)" by auto
  from lookup_ok [OF this, of k'] map_of_kv_delete [of k es] show ?thesis by auto
qed

end

definition with_tree :: "(bplus_tree \<Rightarrow> (buffer_pool, 'a) op) \<Rightarrow> (tree_pool, 'a) op" where
  "with_tree f = bindS get_tree (\<lambda>t. in_pool (f t))"

lemma with_tree_run: "f t bp = (r, bp') \<Longrightarrow> with_tree f (t, bp) = (r, (t, bp'))"
  by (simp add: with_tree_def bindS_def get_tree_def in_pool_def)

lemma index_sorted: "index tr bp es \<Longrightarrow> sorted_kv es"
  using sorted_entries by (auto simp: index_def tree_ok_def)

lemma index_unique: "index tr bp es \<Longrightarrow> index tr bp es' \<Longrightarrow> es = es'"
  by (metis bt_scan_all_ok prod.inject sum.inject(2))

lemma index_room_index: "index_room tr bp key val es \<Longrightarrow> index tr bp es"
  by (auto simp: index_room_def index_def)

lemma tree_index_view:
  assumes "tree_index (tr, bp) es" and "pool_quiet bp'" and "bp_view bp' = bp_view bp"
  shows "tree_index (tr, bp') es"
  using assms(1) tree_ok_same [OF _ assms(2,3)] by (auto simp: tree_index_def index_def)

text \<open>
  Invariants of the tree that are stronger than \<open>tree_index\<close>: when they depend only on the pages and are
  kept by inserts with room and by deletions, they fulfil the contract.
\<close>

locale shaped_tree =
  fixes holds :: "tree_pool \<Rightarrow> entry list \<Rightarrow> bool" and room :: "tree_pool \<Rightarrow> key \<Rightarrow> bytes \<Rightarrow> bool"
  assumes holds_index: "holds s es \<Longrightarrow> tree_index s es"
    and holds_view: "holds (tr, bp) es \<Longrightarrow> pool_quiet bp' \<Longrightarrow> bp_view bp' = bp_view bp \<Longrightarrow> holds (tr, bp') es"
    and insert_shape: "holds s es \<Longrightarrow> room s k v \<Longrightarrow>
      \<exists>s'. bt_insert k v s = (Inr (map_of es k = None), s') \<and> holds s' (kv_insert k v es)"
    and delete_shape: "holds s es \<Longrightarrow> \<exists>s'. bt_delete k s = (Inr (map_of es k), s') \<and> holds s' (kv_delete k es)"

sublocale shaped_tree \<subseteq> kv_index holds room "\<lambda>k. with_tree (\<lambda>t. bt_search t k)" bt_insert bt_delete
  "with_tree bt_scan_all" "\<lambda>lo hi. with_tree (\<lambda>t. bt_range_scan t lo hi)"
proof
  fix s :: tree_pool and es assume h: "holds s es"
  obtain tr bp where s: "s = (tr, bp)" by (cases s)
  from holds_index [OF h] s have idx: "index tr bp es" by (simp add: tree_index_def)
  have same: "holds (tr, bp') es" if "index tr bp' es" "bp_view bp' = bp_view bp" for bp'
    using holds_view [OF h [unfolded s] _ that(2)] that(1) by (auto simp: index_def tree_ok_def)
  show "sorted_kv es" using index_sorted [OF idx] .
  show "\<exists>s'. with_tree (\<lambda>t. bt_search t k) s = (Inr (map_of es k), s') \<and> holds s' es" for k
    by (rule bt_search_ok [OF idx, of k]) (use same in \<open>auto simp: s with_tree_run\<close>)
  show "\<exists>s'. with_tree bt_scan_all s = (Inr es, s') \<and> holds s' es"
    by (rule bt_scan_all_ok [OF idx]) (use same in \<open>auto simp: s with_tree_run\<close>)
  show "\<exists>s'. with_tree (\<lambda>t. bt_range_scan t lo hi) s = (Inr (filter (\<lambda>e. lo \<le> fst e \<and> fst e \<le> hi) es), s') \<and> holds s' es" for lo hi
    by (rule bt_range_scan_ok [OF idx, of lo hi]) (use same in \<open>auto simp: s with_tree_run in_range_def [abs_def]\<close>)
qed (rule insert_shape delete_shape, assumption+)+

text \<open>There is room whenever all entries together would fit into one leaf.\<close>

lemma leaf_size_concat: "x \<in> set ls \<Longrightarrow> leaf_size (snd x) \<le> leaf_size (concat (map snd ls))"
  by (induction ls) auto

lemma leaf_size_kv_insert:
  assumes "sorted_kv xs"
  shows "leaf_size (kv_insert k v xs) \<le> leaf_size xs + 6 + length k + length v"
proof -
  have "leaf_size xs = leaf_size (takeWhile p xs) + leaf_size (dropWhile p xs)" for p
    by (metis leaf_size_simps(3) takeWhile_dropWhile_id)
  moreover have "leaf_size (dropWhile (\<lambda>e. fst e \<le> k) xs) \<le> leaf_size (dropWhile (\<lambda>e. fst e < k) xs)"
  proof (induction xs)
    case (Cons x xs)
    have "leaf_size (dropWhile p ys) \<le> leaf_size ys" for p and ys :: "entry list"
      by (metis leaf_size_simps(3) takeWhile_dropWhile_id le_add2)
    then show ?case using Cons by (auto simp: not_less intro: order_trans [of _ "leaf_size xs"])
  qed simp
  ultimately show ?thesis by (simp add: kv_insert_def) (metis add_le_cancel_left)
qed

lemma small_room_for:
  assumes t: "tree_ok bp t" and fits: "leaf_size (entries t) + 12 + length k + length v \<le> LEAF_CAPACITY"
  shows "room_for t k v"
proof -
  let ?c = "snd (cover t k)"
  have le: "leaf_size ?c \<le> leaf_size (entries t)"
    using leaf_size_concat [OF cover_in_leaves [of t k]] by (simp add: entries_def)
  obtain sib par where "leaf_at (bp_view bp) (fst (cover t k)) ?c sib par"
    using rep_leaf [of "bp_view bp" t "fst (cover t k)" ?c] cover_in_leaves [of t k] t by (auto simp: tree_ok_def)
  then have "sorted_kv ?c" by (auto simp: leaf_at_def leaf_wf_def)
  with leaf_size_kv_insert [of ?c k v] le fits show ?thesis by (simp add: room_for_def Let_def)
qed

lemma small_index_room:
  assumes "index tr bp es" and "leaf_size es + 12 + length k + length v \<le> LEAF_CAPACITY"
  shows "index_room tr bp k v es"
  using assms small_room_for by (auto simp: index_def index_room_def)

lemma leaf_size_member: "(k, v) \<in> set xs \<Longrightarrow> 6 + length k + length v \<le> leaf_size xs"
  by (induction xs) auto

lemma index_entry_small:
  assumes "index tr bp es" and "(k, v) \<in> set es"
  shows "length k + length v < PAGE_SIZE"
proof -
  from assms obtain t where t: "tree_ok bp t" "entries t = es" by (auto simp: index_def)
  from assms(2) t(2) obtain x where x: "x \<in> set (leaves t)" "(k, v) \<in> set (snd x)" by (auto simp: entries_def)
  from x(1) t(1) rep_leaf [of "bp_view bp" t "fst x" "snd x"] obtain sib par where
    "leaf_at (bp_view bp) (fst x) (snd x) sib par" by (auto simp: tree_ok_def)
  then have "leaf_size (snd x) \<le> LEAF_CAPACITY" by (auto simp: leaf_at_def leaf_wf_def)
  with leaf_size_member [OF x(2)] show ?thesis by (simp add: LEAF_CAPACITY_def PAGE_SIZE_def)
qed

lemma empty_index:
  obtains tr bp where "bt_create (bp_new (dm_open ''d'' []) 4) = (Inr tr, bp)" "index tr bp []" "tr = \<lparr>root_page_id = 0\<rparr>"
proof -
  let ?bp = "bp_new (dm_open ''d'' []) 4"
  have "0 < (4 :: nat)" by simp
  note new = bp_new_ok [OF dm_inv_open_empty(1) this, of "''d''"]
  have q: "pool_quiet ?bp" and c: "bp_count ?bp = 0" using new by (simp_all add: pool_quiet_def bp_count_def)
  have "bp_count ?bp \<noteq> 0xFFFFFFFF" using c by simp
  from bt_create_ok [OF q this, unfolded c] that show thesis by blast
qed

lemma small_index:
  obtains tr bp where "index tr bp [([1], [2])]"
proof (rule empty_index)
  fix tr bp assume "index tr bp []"
  then have "index_room tr bp [1] [2] []" by (rule small_index_room) simp
  then show thesis by (rule bt_insert_room_ok) (use that in \<open>simp add: kv_insert_def\<close>)
qed

section \<open>The depth of a tree\<close>

lemma height_log:
  assumes "tree_ok bp t"
  shows "2 ^ height t \<le> unat (bp_count bp)"
proof -
  have "2 ^ height t \<le> length (leaves t)" using assms by (intro balanced_leaves) (simp add: tree_ok_def)
  also have "\<dots> \<le> length (pages t)" by (rule length_leaves)
  also have "\<dots> \<le> unat (bp_count bp)" using tree_ok_fuel [OF assms] by (simp add: loop_fuel_def bp_count_def)
  finally show ?thesis .
qed

lemma find_leaf_loop_more:
  assumes "find_leaf_loop n key i bp = (Inr leaf, bp')" and "n \<le> m"
  shows "find_leaf_loop m key i bp = (Inr leaf, bp')"
  using assms
proof (induction n arbitrary: m i bp)
  case (Suc n)
  then obtain m' where m: "m = Suc m'" "n \<le> m'" by (cases m) auto
  from Suc.prems(1) Suc.IH [OF _ m(2)] show ?case unfolding m(1)
    by (auto simp: bindS_def split: prod.splits sum.splits if_splits)
qed simp

section \<open>Properties\<close>

text \<open>
  C14. The tree is shallow: with fewer than 2 ^ n pages a descent from the root to a leaf reads at most n
  pages, whatever was inserted and deleted before; in particular never more than 32.
\<close>

theorem descent_logarithmic:
  assumes "index tr bp es" and "unat (bp_count bp) < 2 ^ n"
  shows "\<exists>leaf bp'. find_leaf tr key bp = (Inr leaf, bp') \<and> find_leaf_loop n key (root_page_id tr) bp = (Inr leaf, bp')
    \<and> find_leaf_loop 32 key (root_page_id tr) bp = (Inr leaf, bp')"
proof -
  from assms(1) obtain t where t: "tree_ok bp t" "root_id t = root_page_id tr" by (auto simp: index_def)
  have "unat (bp_count bp) < 2 ^ 32" using unsigned_less [where 'a = nat, of "bp_count bp"] by simp
  then have pow: "(2 :: nat) ^ height t < 2 ^ n" "(2 :: nat) ^ height t < 2 ^ 32"
    using height_log [OF t(1)] assms(2) by (blast intro: le_less_trans)+
  have h: "height t < n" "height t < 32" by (rule power_less_imp_less_exp [OF _ pow(1)], simp, rule power_less_imp_less_exp [OF _ pow(2)], simp)
  have fuel: "height t < loop_fuel bp" using height_pages [of t] tree_ok_fuel [OF t(1)] by simp
  have q: "pool_quiet bp" "rep (bp_view bp) t" using t(1) by (simp_all add: tree_ok_def)
  have "height t < Suc (height t)" by simp
  from find_leaf_loop_ok [OF q this, of key] t(2) obtain leaf bp' where
    run: "find_leaf_loop (Suc (height t)) key (root_page_id tr) bp = (Inr leaf, bp')" by auto
  have "find_leaf_loop m key (root_page_id tr) bp = (Inr leaf, bp')" if "height t < m" for m
    using find_leaf_loop_more [OF run] that by simp
  with h fuel show ?thesis by (simp add: find_leaf_def)
qed

theorem descent_logarithmic_witness:
  "\<exists>tr bp bp' leaf. index tr bp [([1], [2])] \<and> find_leaf_loop 32 [1] (root_page_id tr) bp = (Inr leaf, bp')"
proof (rule small_index)
  fix tr bp assume i: "index tr bp [([1], [2])]"
  have "unat (bp_count bp) < 2 ^ 32" using unsigned_less [where 'a = nat, of "bp_count bp"] by simp
  from descent_logarithmic [OF i this, of "[1]"] i show ?thesis by blast
qed

text \<open>
  C11. Search in a well-formed tree returns the value stored under the key, or nothing if the
  key is absent, and leaves the tree and its entries as they are. The descent always ends.
\<close>

theorem tree_search_correct:
  assumes "index tr bp es" and "bt_search tr key bp = (r, bp')"
  shows "r = Inr (map_of es key) \<and> index tr bp' es"
  using bt_search_ok [OF assms(1), of key] assms(2) by (metis prod.inject)

theorem tree_search_correct_witness:
  "\<exists>tr bp bp'. index tr bp [([1], [2])] \<and> bt_search tr [1] bp = (Inr (Some [2]), bp')"
proof (rule small_index)
  fix tr bp assume i: "index tr bp [([1], [2])]"
  obtain r bp' where run: "bt_search tr [1] bp = (r, bp')" by fastforce
  from tree_search_correct [OF i run] run i show ?thesis by auto
qed

text \<open>
  C12. Deleting a key from a well-formed tree returns the value it had, removes exactly this key
  and keeps the tree well-formed; deleting an absent key changes nothing.
\<close>

theorem tree_delete_correct:
  assumes "index tr bp es" and "bt_delete key (tr, bp) = (r, s')"
  shows "r = Inr (map_of es key) \<and> tree_index s' (kv_delete key es)"
proof (rule bt_delete_ok [OF assms(1), of key])
  fix bp' assume "bt_delete key (tr, bp) = (Inr (map_of es key), (tr, bp'))" "index tr bp' (kv_delete key es)"
  with assms(2) show ?thesis by (auto simp: tree_index_def)
qed

theorem tree_delete_correct_witness:
  "\<exists>tr bp s'. bt_delete [1] (tr, bp) = (Inr (Some [2]), s') \<and> tree_index s' []"
proof (rule small_index)
  fix tr bp assume i: "index tr bp [([1], [2])]"
  obtain r s' where run: "bt_delete [1] (tr, bp) = (r, s')" by (metis surj_pair)
  from tree_delete_correct [OF i run] run have "bt_delete [1] (tr, bp) = (Inr (Some [2]), s')"
    "tree_index s' []" by (simp_all add: kv_delete_def)
  then show ?thesis by blast
qed

text \<open>
  C13. A full scan of a well-formed tree returns all entries in strictly increasing key order,
  and a range scan returns exactly those with a key between both bounds, in the same order.
\<close>

theorem tree_scans_correct:
  assumes "index tr bp es" and "bt_scan_all tr bp = (r, bp')" and "bt_range_scan tr lo hi bp = (r', bp'')"
  shows "r = Inr es \<and> sorted_kv es \<and> r' = Inr (filter (\<lambda>e. lo \<le> fst e \<and> fst e \<le> hi) es)
    \<and> index tr bp' es \<and> index tr bp'' es"
proof -
  have "r = Inr es \<and> index tr bp' es"
    using bt_scan_all_ok [OF assms(1)] assms(2) by (metis prod.inject)
  moreover have "r' = Inr (filter (in_range lo hi) es) \<and> index tr bp'' es"
    using bt_range_scan_ok [OF assms(1), of lo hi] assms(3) by (metis prod.inject)
  moreover have "in_range lo hi = (\<lambda>e. lo \<le> fst e \<and> fst e \<le> hi)" by (simp add: in_range_def fun_eq_iff)
  ultimately show ?thesis using index_sorted [OF assms(1)] by simp
qed

theorem tree_scans_correct_witness:
  "\<exists>tr bp bp'. index tr bp [([1], [2])] \<and> bt_range_scan tr [0] [1, 0] bp = (Inr [([1], [2])], bp')"
proof (rule small_index)
  fix tr bp assume i: "index tr bp [([1], [2])]"
  obtain r bp' where run: "bt_scan_all tr bp = (r, bp')" by fastforce
  obtain r' bp'' where run': "bt_range_scan tr [0] [1, 0] bp = (r', bp'')" by fastforce
  from tree_scans_correct [OF i run run'] run' i show ?thesis by (auto simp: less_eq_list_code)
qed

end
