(* ===== verification/Grow.thy ===== *)
theory Grow
  imports Index
begin

text \<open>
  What an insert does to the shape of a tree. A subtree that has to be split is replaced by two,
  so the result of an insert below a node is a value of type \<open>kids\<close>: one subtree or two with the
  separator between them. \<open>grown\<close> states what such a result promises; it is kept by putting the
  result back among its siblings (\<open>plug\<close>), by writing the parent node, by splitting the parent
  node, and by setting parent pointers.
\<close>

section \<open>Joining children\<close>

primrec kjoin :: "kids \<Rightarrow> key \<Rightarrow> kids \<Rightarrow> kids" where
  "kjoin (Only t) s ks = More t s ks"
| "kjoin (More t k as) s ks = More t k (kjoin as s ks)"

lemma kjoin_simps [simp]:
  "first_id (kjoin as s ks) = first_id as"
  "routes (kjoin as s ks) = routes as @ (s, first_id ks) # routes ks"
  "kpages (kjoin as s ks) = kpages as @ kpages ks"
  "kleaves (kjoin as s ks) = kleaves as @ kleaves ks"
  "kentries (kjoin as s ks) = kentries as @ kentries ks"
  "reps v (kjoin as s ks) \<longleftrightarrow> reps v as \<and> reps v ks"
  "kheight (kjoin as s ks) = max (kheight as) (kheight ks)"
  "kseps (kjoin as s ks) = kseps as @ s # kseps ks"
proof -
  show first: "first_id (kjoin as s ks) = first_id as" for as by (cases as) auto
  show "routes (kjoin as s ks) = routes as @ (s, first_id ks) # routes ks"
    by (induction as rule: kids_induct) (auto simp: first)
qed (induction as rule: kids_induct, auto)+

lemma kbalanced_kjoin [simp]: "kbalanced h (kjoin as s ks) \<longleftrightarrow> kbalanced h as \<and> kbalanced h ks"
  by (induction as rule: kids_induct) auto

lemma ords_kjoin [simp]:
  "ords lo hi (kjoin as s ks) \<longleftrightarrow> above lo s \<and> below hi s \<and> ords lo (Some s) as \<and> ords (Some s) hi ks"
proof (induction as arbitrary: lo rule: kids_induct)
  case (2 t k as)
  then show ?case using range_trans(2) [of lo k s] range_trans(3) [of hi s k] by auto
qed simp

lemma kcover_kjoin_left: "key < s \<Longrightarrow> kcover (kjoin as s ks) key = kcover as key"
  by (induction as rule: kids_induct) auto

lemma kcover_kjoin_right: "ords lo (Some s) as \<Longrightarrow> s \<le> key \<Longrightarrow> kcover (kjoin as s ks) key = kcover ks key"
  by (induction as arbitrary: lo rule: kids_induct) (auto simp: below_def)

text \<open>The child that covers a key, and the children before and after it.\<close>

definition plug :: "(kids \<times> key) option \<Rightarrow> kids \<Rightarrow> (key \<times> kids) option \<Rightarrow> kids" where
  "plug L x R =
     (let y = (case R of None \<Rightarrow> x | Some (k, b) \<Rightarrow> kjoin x k b)
      in case L of None \<Rightarrow> y | Some (a, k) \<Rightarrow> kjoin a k y)"

lemma plug_simps [simp]:
  "plug None x None = x" "plug None x (Some (k', b)) = kjoin x k' b" "plug (Some (a, k)) x None = kjoin a k x"
  "plug (Some (a, k)) x (Some (k', b)) = kjoin a k (kjoin x k' b)"
  by (simp_all add: plug_def)

definition hole :: "(kids \<times> key) option \<Rightarrow> key \<Rightarrow> (key \<times> kids) option \<Rightarrow> bool" where
  "hole L key R \<longleftrightarrow> (\<forall>a k. L = Some (a, k) \<longrightarrow> k \<le> key) \<and> (\<forall>k b. R = Some (k, b) \<longrightarrow> key < k)"

lemma pick_plug:
  obtains L R where "ks = plug L (Only (pick ks key)) R" "hole L key R"
proof (induction ks arbitrary: thesis rule: kids_induct)
  case (1 t)
  show ?case by (rule 1 [of None None]) (auto simp: hole_def)
next
  case (2 t k ks)
  show ?case
  proof (cases "key < k")
    case True
    show ?thesis by (rule 2(2) [of None "Some (k, ks)"]) (use True in \<open>auto simp: hole_def\<close>)
  next
    case False
    show ?thesis
    proof (rule 2(1))
      fix L R assume h: "ks = plug L (Only (pick ks key)) R" "hole L key R"
      obtain L' where L': "More t k ks = plug L' (Only (pick ks key)) R" "hole L' key R"
      proof (cases L)
        case None
        then have "More t k ks = plug (Some (Only t, k)) (Only (pick ks key)) R"
          using h(1) by (cases R) auto
        moreover have "hole (Some (Only t, k)) key R" using h(2) False by (auto simp: hole_def)
        ultimately show ?thesis using that by blast
      next
        case (Some p)
        obtain a s where p: "p = (a, s)" by (cases p)
        then have "More t k ks = plug (Some (More t k a, s)) (Only (pick ks key)) R"
          using h(1) Some by (cases R) auto
        moreover have "hole (Some (More t k a, s)) key R" using h(2) Some p by (auto simp: hole_def)
        ultimately show ?thesis using that by blast
      qed
      have "pick (More t k ks) key = pick ks key" using False by simp
      with L' show ?thesis using 2(2) by metis
    qed
  qed
qed

text \<open>Cutting the children of a node in two at a separator.\<close>

lemma kjoin_cut:
  assumes "m < length (routes ks)"
  obtains as s bs where "kjoin as s bs = ks" "routes ks ! m = (s, first_id bs)" "routes as = take m (routes ks)"
    "routes bs = drop (Suc m) (routes ks)"
  using assms
proof (induction ks arbitrary: m thesis rule: kids_induct)
  case (2 t k ks)
  show ?case
  proof (cases m)
    case 0
    show ?thesis by (rule 2(2) [of "Only t" k ks]) (simp_all add: 0)
  next
    case (Suc j)
    have "j < length (routes ks)" using 2(3) Suc by simp
    then show ?thesis
    proof (rule 2(1) [rotated])
      fix as s bs assume c: "kjoin as s bs = ks" "routes ks ! j = (s, first_id bs)" "routes as = take j (routes ks)"
        "routes bs = drop (Suc j) (routes ks)"
      have f: "first_id ks = first_id as" using c(1) by (metis kjoin_simps(1))
      show ?thesis by (rule 2(2) [of "More t k as" s bs]) (use c f Suc in \<open>simp_all\<close>)
    qed
  qed
qed simp

section \<open>Leaf segments\<close>

definition next_or :: "page_id \<Rightarrow> (page_id \<times> entry list) list \<Rightarrow> page_id" where
  "next_or nxt ls = (case ls of [] \<Rightarrow> nxt | x # _ \<Rightarrow> fst x)"

primrec seg :: "(page_id \<rightharpoonup> bytes) \<Rightarrow> page_id \<Rightarrow> (page_id \<times> entry list) list \<Rightarrow> bool" where
  "seg v nxt [] = True"
| "seg v nxt (x # ls) = ((\<exists>par. leaf_at v (fst x) (snd x) (next_or nxt ls) par) \<and> seg v nxt ls)"

lemma next_or_simps [simp]:
  "next_or nxt [] = nxt" "next_or nxt (x # ls) = fst x" "next_or nxt (xs @ ys) = next_or (next_or nxt ys) xs"
  by (simp_all add: next_or_def split: list.splits)

lemma chained_seg: "chained v ls = seg v INVALID_PAGE_ID ls"
  by (induction ls) (simp_all add: next_id_def next_or_def)

lemma seg_append [simp]: "seg v nxt (xs @ ys) \<longleftrightarrow> seg v (next_or nxt ys) xs \<and> seg v nxt ys"
  by (induction xs) auto

lemma seg_cong: "seg v nxt ls \<Longrightarrow> (\<forall>x \<in> set ls. v' (fst x) = v (fst x)) \<Longrightarrow> seg v' nxt ls"
  by (induction ls) (auto simp: leaf_at_def)

lemma leaves_nonempty [simp]: "leaves t \<noteq> []" and kleaves_nonempty [simp]: "kleaves ks \<noteq> []"
  by (induction t and ks) auto

lemma next_or_leaves: "next_or nxt (leaves t) = fst (hd (leaves t))" "next_or nxt (kleaves ks) = fst (hd (kleaves ks))"
  by (simp_all add: next_or_def split: list.splits)

section \<open>Sizes, parents and routes of joined children\<close>

lemma smalls_kjoin [simp]: "smalls (kjoin as s ks) \<longleftrightarrow> smalls as \<and> length s \<le> SMALL \<and> smalls ks"
  by (induction as rule: kids_induct) auto

lemma roots_kjoin [simp]: "roots (kjoin as s ks) = roots as @ roots ks"
  by (simp add: roots_def)

lemma klinked_kjoin [simp]: "klinked v (kjoin as s ks) \<longleftrightarrow> klinked v as \<and> klinked v ks"
  by (induction as rule: kids_induct) auto

lemma sorted_routes: "ords lo hi ks \<Longrightarrow> sorted_kv (routes ks) \<and> (\<forall>e \<in> set (routes ks). above lo (fst e) \<and> below hi (fst e))"
proof (induction ks arbitrary: lo rule: kids_induct)
  case (2 t k ks)
  then have h: "above lo k" "below hi k" "sorted_kv (routes ks)" "\<forall>e \<in> set (routes ks). k < fst e \<and> below hi (fst e)"
    using 2(1) [of "Some k"] by simp_all
  then show ?case using range_trans(2) [OF h(1)] by auto
qed simp

section \<open>The result of an insert below a node\<close>

text \<open>
  \<open>grown v n ks key val v' n' res\<close>: between the views \<open>v\<close> with \<open>n\<close> pages and \<open>v'\<close> with \<open>n'\<close> pages, the
  subtrees \<open>ks\<close> became \<open>res\<close>, which holds the same entries and the new one. Only pages of \<open>ks\<close> and
  new pages were written; the first page, the first leaf and the leaf that follows stay the same.
  The only new separator is the middle key of the leaf that was split, and no subtree is higher.
\<close>

definition grown :: "(page_id \<rightharpoonup> bytes) \<Rightarrow> u32 \<Rightarrow> kids \<Rightarrow> key \<Rightarrow> bytes \<Rightarrow> (page_id \<rightharpoonup> bytes) \<Rightarrow> u32 \<Rightarrow> kids \<Rightarrow> bool" where
  "grown v n ks key val v' n' res \<longleftrightarrow> n \<le> n' \<and> (\<forall>i < n. i \<notin> set (kpages ks) \<longrightarrow> v' i = v i)
     \<and> reps v' res \<and> distinct (kpages res) \<and> set (kpages res) \<subseteq> set (kpages ks) \<union> {n..<n'}
     \<and> first_id res = first_id ks \<and> fst (hd (kleaves res)) = fst (hd (kleaves ks))
     \<and> (\<forall>nxt. seg v nxt (kleaves ks) \<longrightarrow> seg v' nxt (kleaves res))
     \<and> (\<forall>lo hi. ords lo hi ks \<longrightarrow> at_least lo key \<longrightarrow> below hi key
          \<longrightarrow> ords lo hi res \<and> kentries res = kv_insert key val (kentries ks)
            \<and> set (kseps res) \<subseteq> insert (middle (kv_insert key val (snd (kcover ks key)))) (set (kseps ks)))
     \<and> smalls res \<and> kheight res \<le> kheight ks
     \<and> (\<forall>h. kbalanced h ks \<longrightarrow> kbalanced h res) \<and> length (routes ks) \<le> length (routes res)"

lemma grownD:
  assumes "grown v n ks key val v' n' res"
  shows "n \<le> n'" "\<And>i. i < n \<Longrightarrow> i \<notin> set (kpages ks) \<Longrightarrow> v' i = v i" "reps v' res" "distinct (kpages res)"
    "set (kpages res) \<subseteq> set (kpages ks) \<union> {n..<n'}" "first_id res = first_id ks"
    "fst (hd (kleaves res)) = fst (hd (kleaves ks))" "\<And>nxt. seg v nxt (kleaves ks) \<Longrightarrow> seg v' nxt (kleaves res)"
    "\<And>lo hi. ords lo hi ks \<Longrightarrow> at_least lo key \<Longrightarrow> below hi key
       \<Longrightarrow> ords lo hi res \<and> kentries res = kv_insert key val (kentries ks)
         \<and> set (kseps res) \<subseteq> insert (middle (kv_insert key val (snd (kcover ks key)))) (set (kseps ks))"
    "smalls res" "kheight res \<le> kheight ks" "\<And>h. kbalanced h ks \<Longrightarrow> kbalanced h res" "length (routes ks) \<le> length (routes res)"
  using assms by (simp_all add: grown_def)

lemma grown_frame:
  assumes "grown v n ks key val v' n' res" and "\<forall>i \<in> set (kpages bs). i < n" and "set (kpages ks) \<inter> set (kpages bs) = {}"
  shows "\<forall>i \<in> set (kpages bs). v' i = v i" and "set (kpages res) \<inter> set (kpages bs) = {}"
proof -
  show "\<forall>i \<in> set (kpages bs). v' i = v i" using grownD(2) [OF assms(1)] assms(2,3) by blast
  have "{n..<n'} \<inter> set (kpages bs) = {}" using assms(2) by fastforce
  then show "set (kpages res) \<inter> set (kpages bs) = {}" using grownD(5) [OF assms(1)] assms(3) by blast
qed

lemma leaf_pages_cong: "\<forall>i \<in> set (kpages ks). v' i = v i \<Longrightarrow> \<forall>x \<in> set (kleaves ks). v' (fst x) = v (fst x)"
  using kleaves_in_pages by blast

lemma grown_before:
  assumes g: "grown v n ks key val v' n' res" and key: "key < s" and rep: "reps v bs" and sm: "smalls bs" "length s \<le> SMALL"
    and dist: "distinct (kpages ks @ kpages bs)" and lt: "\<forall>i \<in> set (kpages bs). i < n"
  shows "grown v n (kjoin ks s bs) key val v' n' (kjoin res s bs)"
proof -
  have dis: "set (kpages ks) \<inter> set (kpages bs) = {}" "distinct (kpages bs)" using dist by simp_all
  note fr = grown_frame [OF g lt dis(1)]
  note D = grownD [OF g]
  have "reps v' bs" by (rule reps_cong [OF rep fr(1)])
  moreover have "seg v' nxt (kleaves res @ kleaves bs)" if "seg v nxt (kleaves ks @ kleaves bs)" for nxt
    using that D(8) seg_cong [OF _ leaf_pages_cong [OF fr(1)]] by simp
  moreover have "ords lo hi (kjoin res s bs) \<and> kentries res @ kentries bs = kv_insert key val (kentries ks @ kentries bs)
      \<and> set (kseps (kjoin res s bs)) \<subseteq> insert (middle (kv_insert key val (snd (kcover (kjoin ks s bs) key)))) (set (kseps (kjoin ks s bs)))"
    if "ords lo hi (kjoin ks s bs)" "at_least lo key" for lo hi
  proof -
    have "\<forall>e \<in> set (kentries bs). key < fst e" using ords_after [of s hi bs] that(1) key by fastforce
    then show ?thesis using D(9) [of lo "Some s"] that key kv_insert_append_left [of "kentries bs" key]
      by (auto simp: kcover_kjoin_left)
  qed
  ultimately show ?thesis using D fr(2) dis(2) sm by (auto simp: grown_def)
qed

lemma grown_after:
  assumes g: "grown v n ks key val v' n' res" and key: "s \<le> key" and rep: "reps v as" and sm: "smalls as" "length s \<le> SMALL"
    and dist: "distinct (kpages as @ kpages ks)" and lt: "\<forall>i \<in> set (kpages as). i < n"
  shows "grown v n (kjoin as s ks) key val v' n' (kjoin as s res)"
proof -
  have dis: "set (kpages ks) \<inter> set (kpages as) = {}" "distinct (kpages as)" using dist by auto
  note fr = grown_frame [OF g lt dis(1)]
  note D = grownD [OF g]
  have "reps v' as" by (rule reps_cong [OF rep fr(1)])
  moreover have "seg v' nxt (kleaves as @ kleaves res)" if "seg v nxt (kleaves as @ kleaves ks)" for nxt
    using that D(7,8) seg_cong [OF _ leaf_pages_cong [OF fr(1)]] by (simp add: next_or_leaves)
  moreover have "ords lo hi (kjoin as s res) \<and> kentries as @ kentries res = kv_insert key val (kentries as @ kentries ks)
      \<and> set (kseps (kjoin as s res)) \<subseteq> insert (middle (kv_insert key val (snd (kcover (kjoin as s ks) key)))) (set (kseps (kjoin as s ks)))"
    if "ords lo hi (kjoin as s ks)" "below hi key" for lo hi
  proof -
    have "\<forall>e \<in> set (kentries as). fst e < key" using ords_range [of lo "Some s" as] that(1) key by fastforce
    then show ?thesis using D(9) [of "Some s" hi] that key kv_insert_append_right [of "kentries as" key]
        kcover_kjoin_right [of lo s as key ks] by auto
  qed
  ultimately show ?thesis using D fr(2) dis(2) sm by (auto simp: grown_def)
qed

lemma grown_plug:
  assumes g: "grown v n (Only t) key val v' n' res" and h: "hole L key R"
    and "reps v (plug L (Only t) R)" "distinct (kpages (plug L (Only t) R))" "\<forall>i \<in> set (kpages (plug L (Only t) R)). i < n"
      "smalls (plug L (Only t) R)"
  shows "grown v n (plug L (Only t) R) key val v' n' (plug L res R)"
proof -
  define x where "x = plug None (Only t) R"
  define y where "y = plug None res R"
  have split: "plug L (Only t) R = (case L of None \<Rightarrow> x | Some (a, k) \<Rightarrow> kjoin a k x)"
    "plug L res R = (case L of None \<Rightarrow> y | Some (a, k) \<Rightarrow> kjoin a k y)" by (simp_all add: x_def y_def plug_def Let_def split: option.split)
  have x: "reps v x" "distinct (kpages x)" "\<forall>i \<in> set (kpages x). i < n" "smalls x"
    using assms(3-6) unfolding split by (auto split: option.splits prod.splits)
  have "grown v n x key val v' n' y"
  proof (cases R)
    case (Some p)
    obtain k b where "p = (k, b)" by (cases p)
    with Some h x show ?thesis using grown_before [OF g, of k b] by (simp add: x_def y_def hole_def)
  qed (use g in \<open>simp add: x_def y_def\<close>)
  with assms(3-6) h show ?thesis unfolding split
    by (cases L) (auto simp: hole_def intro!: grown_after)
qed

lemma klinked_plug:
  assumes g: "grown v n (Only t) key val v' n' res" and k: "klinked v (plug L (Only t) R)" "klinked v' res"
    and "distinct (kpages (plug L (Only t) R))" "\<forall>i \<in> set (kpages (plug L (Only t) R)). i < n"
  shows "klinked v' (plug L res R)"
proof -
  have same: "klinked v' bs" if "klinked v bs" "set (kpages bs) \<subseteq> set (kpages (plug L (Only t) R))"
    "set (pages t) \<inter> set (kpages bs) = {}" for bs
    using klinked_cong [OF that(1)] grown_frame(1) [OF g, of bs] that(2,3) assms(5) by fastforce
  have "klinked v' a" if "L = Some (a, s)" for a s
    by (rule same) (use that k(1) assms(4) in \<open>(cases R; auto)+\<close>)
  moreover have "klinked v' b" if "R = Some (s, b)" for b s
    by (rule same) (use that k(1) assms(4) in \<open>(cases L; auto)+\<close>)
  ultimately show ?thesis using k(2) by (cases L; cases R) auto
qed

section \<open>Setting parent pointers\<close>

definition reparent :: "page_id \<Rightarrow> bytes \<Rightarrow> bytes" where
  "reparent p b = pg_data (update_checksum (set_parent p ((page_new 0)\<lparr>pg_data := b\<rparr>)))"

definition reparented :: "page_id \<Rightarrow> page_id set \<Rightarrow> (page_id \<rightharpoonup> bytes) \<Rightarrow> (page_id \<rightharpoonup> bytes)" where
  "reparented q S v = (\<lambda>i. if i \<in> S then map_option (reparent q) (v i) else v i)"

lemma reparent_data: "pg_data (update_checksum (set_parent p nd)) = reparent p (pg_data nd)"
  by (simp add: reparent_def checksum_data set_parent_def compute_checksum_def data_region_def)

lemma leaf_at_reparented:
  assumes "leaf_at v i es sib par"
  shows "leaf_at (reparented q S v) i es sib (if i \<in> S then q else par)"
proof -
  from assms obtain nd where nd: "v i = Some (pg_data nd)" "pg_id nd = i" "leaf_wf nd" "leaf_abs nd = es"
    "get_right_sibling nd = sib" "get_parent nd = par" by (auto simp: leaf_at_def)
  have p: "page_wf nd" using nd(3) by (simp add: leaf_wf_def)
  note sp = leaf_set_parent [OF nd(3), of q]
  note c = leaf_checksum [OF sp(1)]
  show ?thesis
  proof (cases "i \<in> S")
    case True
    have "reparented q S v i = Some (pg_data (update_checksum (set_parent q nd)))"
      using True nd(1) by (simp add: reparented_def reparent_data)
    then show ?thesis using True nd(2,4,5) p sp c unfolding leaf_at_def
      by (intro exI [of _ "update_checksum (set_parent q nd)"]) simp
  next
    case False
    then have "reparented q S v i = v i" by (simp add: reparented_def)
    with assms False show ?thesis by (simp add: leaf_at_def)
  qed
qed

lemma int_at_reparented:
  assumes "int_at v i lm es par"
  shows "int_at (reparented q S v) i lm es (if i \<in> S then q else par)"
proof -
  from assms obtain nd where nd: "v i = Some (pg_data nd)" "pg_id nd = i" "int_wf nd" "int_abs nd = es"
    "get_leftmost_child nd = lm" "get_parent nd = par" by (auto simp: int_at_def)
  have p: "page_wf nd" using nd(3) by (simp add: int_wf_def)
  note sp = int_set_parent [OF nd(3), of q]
  note c = int_checksum [OF sp(1)]
  show ?thesis
  proof (cases "i \<in> S")
    case True
    have "reparented q S v i = Some (pg_data (update_checksum (set_parent q nd)))"
      using True nd(1) by (simp add: reparented_def reparent_data)
    then show ?thesis using True nd(2,4,5) p sp c unfolding int_at_def
      by (intro exI [of _ "update_checksum (set_parent q nd)"]) simp
  next
    case False
    then have "reparented q S v i = v i" by (simp add: reparented_def)
    with assms False show ?thesis by (simp add: int_at_def)
  qed
qed

lemma rep_reparented: "rep v t \<Longrightarrow> rep (reparented q S v) t" and reps_reparented: "reps v ks \<Longrightarrow> reps (reparented q S v) ks"
  by (induction t and ks) (auto dest: leaf_at_reparented int_at_reparented)

lemma seg_reparented: "seg v nxt ls \<Longrightarrow> seg (reparented q S v) nxt ls"
  by (induction ls) (auto dest: leaf_at_reparented)

lemma rep_page: "rep v t \<Longrightarrow> i \<in> set (pages t) \<Longrightarrow> (\<exists>es sib par. leaf_at v i es sib par) \<or> (\<exists>lm es par. int_at v i lm es par)"
  and reps_page: "reps v ks \<Longrightarrow> i \<in> set (kpages ks) \<Longrightarrow> (\<exists>es sib par. leaf_at v i es sib par) \<or> (\<exists>lm es par. int_at v i lm es par)"
  by (induction t and ks) auto

lemma parent_at_reparented:
  assumes "reps v ks" and "i \<in> set (kpages ks)" and "i \<in> S"
  shows "parent_at (reparented q S v) i = Some q"
  using reps_page [OF assms(1,2)]
proof (elim disjE exE)
  show ?thesis if "leaf_at v i es sib par" for es sib par
    using parent_at_leaf [OF leaf_at_reparented [OF that]] assms(3) by simp
  show ?thesis if "int_at v i lm es par" for lm es par
    using parent_at_int [OF int_at_reparented [OF that]] assms(3) by simp
qed

lemma parent_at_other: "i \<notin> S \<Longrightarrow> parent_at (reparented q S v) i = parent_at v i"
  by (simp add: parent_at_def reparented_def)

lemma linked_reparented:
  assumes "linked v t" and "distinct (pages t)" and "S \<inter> set (pages t) \<subseteq> {root_id t}"
  shows "linked (reparented q S v) t"
proof (cases t)
  case (BNode i ks)
  have no: "S \<inter> set (kpages ks) = {}" using assms(2,3) BNode by auto
  have "klinked (reparented q S v) ks"
    by (rule klinked_cong [of v]) (use no assms(1) BNode in \<open>auto simp: reparented_def\<close>)
  moreover have "parent_at (reparented q S v) c = parent_at v c" if "c \<in> set (roots ks)" for c
    using roots_in_pages [OF that] no by (intro parent_at_other) blast
  ultimately show ?thesis using assms(1) BNode by simp
qed simp

lemma klinked_reparented:
  assumes "klinked v ks" and "distinct (kpages ks)" and "S \<inter> set (kpages ks) \<subseteq> set (roots ks)"
  shows "klinked (reparented q S v) ks"
  using assms
proof (induction ks rule: kids_induct)
  case (1 t)
  then show ?case using linked_reparented [of v t S q] by simp
next
  case (2 t k ks)
  have d: "distinct (pages t)" "distinct (kpages ks)" "set (pages t) \<inter> set (kpages ks) = {}" using 2(3) by simp_all
  have "S \<inter> set (pages t) \<subseteq> {root_id t}" "S \<inter> set (kpages ks) \<subseteq> set (roots ks)"
    using 2(4) d(3) roots_in_pages [of _ ks] root_in_pages [of t] by fastforce+
  with 2 d show ?case using linked_reparented [of v t S q] by simp
qed

lemma grown_reparented:
  assumes g: "grown v n ks key val v' n' res" and S: "S \<subseteq> set (kpages res)"
  shows "grown v n ks key val (reparented q S v') n' res"
proof -
  note D = grownD [OF g]
  have "reparented q S v' i = v i" if "i < n" "i \<notin> set (kpages ks)" for i
  proof -
    have "i \<notin> set (kpages res)" using D(5) that by fastforce
    with S D(2) [OF that] show ?thesis by (auto simp: reparented_def)
  qed
  then show ?thesis using D reps_reparented [OF D(3)] seg_reparented [of v'] by (auto simp: grown_def)
qed

section \<open>Writing and splitting a node\<close>

lemma grown_other:
  assumes "grown v n ks key val v' n' res" and "\<forall>i \<in> set (kpages res). v'' i = v' i"
  shows "reps v'' res" and "seg v nxt (kleaves ks) \<Longrightarrow> seg v'' nxt (kleaves res)"
  using reps_cong [OF _ assms(2)] seg_cong [OF _ leaf_pages_cong [OF assms(2)]] grownD(3,8) [OF assms(1)] by auto

lemma grown_node:
  assumes g: "grown v n ks key val v' n' ks'" and i: "i < n" "i \<notin> set (kpages ks)"
    and w: "int_at v'' i (first_id ks') (routes ks') par" "\<And>x. x \<noteq> i \<Longrightarrow> v'' x = v' x"
  shows "grown v n (Only (BNode i ks)) key val v'' n' (Only (BNode i ks'))"
proof -
  note D = grownD [OF g]
  have new: "i \<notin> set (kpages ks')" using D(5) i by fastforce
  then have "\<forall>x \<in> set (kpages ks'). v'' x = v' x" using w(2) by metis
  note o = grown_other [OF g this]
  have "routes ks' \<noteq> []" if "routes ks \<noteq> []" using that D(13) by auto
  with D o new w i show ?thesis by (auto simp: grown_def)
qed

lemma grown_split:
  assumes g: "grown v n ks key val v' n' (kjoin as s bs)" and ne: "routes as \<noteq> []" "routes bs \<noteq> []"
    and i: "i < n" "i \<notin> set (kpages ks)" and j: "n' \<le> j" "j < n''" and lt: "\<forall>x \<in> set (kpages ks). x < n"
    and w: "int_at v'' i (first_id as) (routes as) p1" "int_at v'' j (first_id bs) (routes bs) p2"
      "\<And>x. x \<noteq> i \<Longrightarrow> x \<noteq> j \<Longrightarrow> v'' x = v' x"
  shows "grown v n (Only (BNode i ks)) key val v'' n'' (More (BNode i as) s (Only (BNode j bs)))"
proof -
  note D = grownD [OF g]
  have ij: "i < j" "n \<le> j" using i(1) D(1) j(1) by auto
  have new: "i \<notin> set (kpages as @ kpages bs)" using D(5) i by fastforce
  have old: "j \<notin> set (kpages as @ kpages bs)"
  proof
    assume "j \<in> set (kpages as @ kpages bs)"
    then have "j < n \<or> j < n'" using D(5) lt by auto
    then show False using j(1) ij(2) by auto
  qed
  have same: "\<forall>x \<in> set (kpages (kjoin as s bs)). v'' x = v' x" using w(3) new old by (metis kjoin_simps(3))
  note o = grown_other [OF g same]
  have frame: "v'' x = v x" if "x < n" "x \<noteq> i" "x \<notin> set (kpages ks)" for x
    using w(3) [of x] D(2) [of x] that ij by auto
  let ?new = "More (BNode i as) s (Only (BNode j bs))"
  have sub: "set (kpages ?new) \<subseteq> set (kpages (Only (BNode i ks))) \<union> {n..<n''}"
  proof -
    have "j \<in> {n..<n''}" "{n..<n'} \<subseteq> {n..<n''}" using ij(2) j by auto
    with D(5) show ?thesis by fastforce
  qed
  have dist: "distinct (kpages ?new)" using D(4) new old ij(1) by auto
  have le: "n \<le> n''" using ij(2) j(2) by auto
  have rest: "reps v'' ?new" "smalls ?new" "first_id ?new = i" using D(10) o(1) w(1,2) by auto
  have "seg v'' nxt (kleaves ?new)" if "seg v nxt (kleaves ks)" for nxt using o(2) [OF that] by simp
  moreover have "kbalanced h ?new" if "kbalanced h (Only (BNode i ks))" for h using D(12) [of "h - 1"] ne that by simp
  ultimately show ?thesis unfolding grown_def using le frame sub dist rest ne D(7,9,11) by simp
qed

text \<open>A leaf that is split.\<close>

lemma sorted_kv_cut:
  assumes "sorted_kv es" and "m < length es"
  shows "\<forall>e \<in> set (take m es). fst e < fst (es ! m)" and "\<forall>e \<in> set (drop m es). fst (es ! m) \<le> fst e"
proof -
  have s: "sorted_kv (take m es @ es ! m # drop (Suc m) es)" using assms by (simp add: id_take_nth_drop [symmetric])
  then show "\<forall>e \<in> set (take m es). fst e < fst (es ! m)" by (simp add: sorted_kv_append)
  have "drop m es = es ! m # drop (Suc m) es" using assms(2) by (simp add: Cons_nth_drop_Suc)
  with s show "\<forall>e \<in> set (drop m es). fst (es ! m) \<le> fst e" by (auto simp: sorted_kv_append less_imp_le)
qed

lemma ords_leaf_split:
  assumes "sorted_kv es" and "\<forall>e \<in> set es. at_least lo (fst e) \<and> below hi (fst e)" and m: "0 < m" "m < length es"
  shows "ords lo hi (More (BLeaf i (take m es)) (fst (es ! m)) (Only (BLeaf j (drop m es))))"
proof -
  have "above lo (fst (es ! m))"
  proof -
    have "es ! 0 \<in> set es" using m by (intro nth_mem) auto
    then have "at_least lo (fst (es ! 0))" "fst (es ! 0) < fst (es ! m)" using assms by (auto simp: sorted_kv_nth)
    then show ?thesis by (cases lo) auto
  qed
  then show ?thesis
    using assms sorted_kv_cut [OF assms(1) m(2)] sorted_kv_take [OF assms(1)] sorted_kv_drop [OF assms(1)]
    by (auto dest: in_set_takeD in_set_dropD)
qed

lemma grown_leaf_split:
  assumes old: "leaf_at v i es sib par" and es': "es' = kv_insert key val es" and m: "0 < m" "m < length es'" "m = length es' div 2"
    and n: "i < n" "n \<le> j" "j < n''" and sm: "\<forall>e \<in> set es'. length (fst e) + length (snd e) \<le> SMALL"
    and w: "leaf_at v'' i (take m es') j p1" "leaf_at v'' j (drop m es') sib p2" "\<And>x. x \<noteq> i \<Longrightarrow> x \<noteq> j \<Longrightarrow> v'' x = v x"
  shows "grown v n (Only (BLeaf i es)) key val v'' n'' (More (BLeaf i (take m es')) (fst (es' ! m)) (Only (BLeaf j (drop m es'))))"
proof -
  let ?new = "More (BLeaf i (take m es')) (fst (es' ! m)) (Only (BLeaf j (drop m es')))"
  have ne: "i \<noteq> j" using n by auto
  have frame: "v'' x = v x" if "x < n" "x \<noteq> i" for x using w(3) that n by auto
  have chain: "seg v'' nxt (kleaves ?new)" if "seg v nxt [(i, es)]" for nxt
  proof -
    from that obtain par' where "leaf_at v i es nxt par'" by auto
    with old have "nxt = sib" by (auto simp: leaf_at_def dest: leaf_data_cong)
    with w(1,2) show ?thesis by auto
  qed
  have ord: "ords lo hi ?new" if "sorted_kv es" "\<forall>e \<in> set es. at_least lo (fst e) \<and> below hi (fst e)" "at_least lo key" "below hi key" for lo hi
    using that set_kv_insert [of key val es] sorted_kv_insert [OF that(1)] m unfolding es'
    by (intro ords_leaf_split) auto
  have small: "smalls ?new"
    using sm bspec [OF sm nth_mem [OF m(2)]] by (auto dest!: in_set_takeD in_set_dropD)
  have le: "n \<le> n''" "set (kpages ?new) \<subseteq> set (kpages (Only (BLeaf i es))) \<union> {n..<n''}" using n by auto
  have reps: "reps v'' ?new" "kentries ?new = es'" using w(1,2) by auto
  show ?thesis unfolding grown_def
  proof (intro conjI allI impI)
    show "distinct (kpages ?new)" using ne by simp
    show "v'' x = v x" if "x < n" "x \<notin> set (kpages (Only (BLeaf i es)))" for x using frame that by simp
    show "seg v'' nxt (kleaves ?new)" if "seg v nxt (kleaves (Only (BLeaf i es)))" for nxt using chain that by simp
    show "ords lo hi ?new" if "ords lo hi (Only (BLeaf i es))" "at_least lo key" "below hi key" for lo hi
      by (rule ord) (use that in simp_all)
    show "kentries ?new = kv_insert key val (kentries (Only (BLeaf i es)))" by (simp only: entries_simps append_take_drop_id es')
    show "set (kseps ?new) \<subseteq> insert (middle (kv_insert key val (snd (kcover (Only (BLeaf i es)) key)))) (set (kseps (Only (BLeaf i es))))"
      by (simp add: middle_def m(3) es' [symmetric])
  qed (use le reps small in simp_all)
qed

end
