(* ===== verification/Split.thy ===== *)
theory Split
  imports Grow
begin

text \<open>
  What the code of a split does to the pages: allocating a page and writing two nodes, setting
  parent pointers, and the three ways of \<open>insert_into_parent\<close> (a new root, a separator in a node
  with room, a node that is split). Entries and separators of at most \<open>SMALL\<close> bytes make both
  halves fit, whatever their number.
\<close>

section \<open>Halves fit\<close>

lemma leaf_size_bounds:
  assumes "\<forall>e \<in> set xs. length (fst e) + length (snd e) \<le> SMALL"
  shows "leaf_size xs \<le> 156 * length xs" and "6 * length xs \<le> leaf_size xs"
  using assms by (induction xs) auto

lemma int_size_bounds:
  assumes "\<forall>e \<in> set xs. length (fst e) \<le> SMALL"
  shows "int_size xs \<le> 158 * length xs" and "8 * length xs \<le> int_size xs"
  using assms by (induction xs) auto

lemma leaf_size_cut: "leaf_size xs = leaf_size (take m xs) + leaf_size (drop m xs)"
  by (metis append_take_drop_id leaf_size_simps(3))

lemma int_size_cut: "int_size xs = int_size (take m xs) + int_size (drop m xs)"
  by (metis append_take_drop_id int_size_simps(3))

lemma leaf_halves_fit:
  assumes "\<forall>e \<in> set xs. length (fst e) + length (snd e) \<le> SMALL" and "leaf_size xs \<le> LEAF_CAPACITY + 6 + SMALL"
    and m: "m = length xs div 2"
  shows "leaf_size (take m xs) \<le> LEAF_CAPACITY" and "leaf_size (drop m xs) \<le> LEAF_CAPACITY"
proof -
  have t: "\<forall>e \<in> set (take m xs). length (fst e) + length (snd e) \<le> SMALL"
    and d: "\<forall>e \<in> set (drop m xs). length (fst e) + length (snd e) \<le> SMALL"
    using assms(1) by (auto dest: in_set_takeD in_set_dropD)
  have len: "length (take m xs) = m" "length (drop m xs) = length xs - m" "m \<le> length xs - m" "length xs - m \<le> Suc m"
    using m by auto
  note b = leaf_size_bounds [OF t, unfolded len] leaf_size_bounds [OF d, unfolded len] leaf_size_cut [of xs m] assms(2)
  show "leaf_size (take m xs) \<le> LEAF_CAPACITY" using b len(3) by (cases "m \<le> 26") auto
  show "leaf_size (drop m xs) \<le> LEAF_CAPACITY" using b len(4) by (cases "length xs - m \<le> 26") auto
qed

lemma int_halves_fit:
  assumes "\<forall>e \<in> set xs. length (fst e) \<le> SMALL" and "int_size xs \<le> INTERNAL_CAPACITY + 8 + SMALL"
    and m: "m = length xs div 2" and ne: "xs \<noteq> []"
  shows "int_size (take m xs) \<le> INTERNAL_CAPACITY" and "int_size (drop (Suc m) xs) \<le> INTERNAL_CAPACITY"
proof -
  have t: "\<forall>e \<in> set (take m xs). length (fst e) \<le> SMALL" and d: "\<forall>e \<in> set (drop m xs). length (fst e) \<le> SMALL"
    using assms(1) by (auto dest: in_set_takeD in_set_dropD)
  have len: "length (take m xs) = m" "length (drop m xs) = length xs - m" "m \<le> length xs - m" "length xs - m \<le> Suc m" "m < length xs"
    using m ne by auto
  have "int_size (drop m xs) = 8 + length (fst (xs ! m)) + int_size (drop (Suc m) xs)"
    using len(5) by (simp add: Cons_nth_drop_Suc [symmetric])
  note b = int_size_bounds [OF t, unfolded len] int_size_bounds [OF d, unfolded len] int_size_cut [of xs m] assms(2) this
  show "int_size (take m xs) \<le> INTERNAL_CAPACITY" using b len(3) by (cases "m \<le> 25") auto
  show "int_size (drop (Suc m) xs) \<le> INTERNAL_CAPACITY" using b len(4) by (cases "length xs - m \<le> 25") auto
qed

section \<open>The code of a split\<close>

lemma vec_insert_search:
  assumes "sorted_kv es" and "map_of es key = None"
  shows "vec_insert (search_pos key es) (key, x) es = kv_insert key x es"
proof -
  from kv_pos_ex [OF assms] obtain i where i: "kv_pos es key i" ..
  have "search_pos key es = i"
  proof -
    have "takeWhile (\<lambda>e. fst e < key) es = take i es"
    proof (cases "i < length es")
      case True
      then show ?thesis using i by (intro takeWhile_eq_take_P_nth) (auto simp: kv_pos_def)
    next
      case False
      with i have "\<forall>e \<in> set es. fst e < key" by (metis in_set_conv_nth kv_pos_def le_antisym not_less)
      with False show ?thesis by (simp add: takeWhile_eq_all_conv)
    qed
    then show ?thesis using i by (simp add: search_pos_def kv_pos_def)
  qed
  then show ?thesis by (simp add: vec_insert_def kv_pos_insert [OF i])
qed

lemma in_pool_bind: "m bp = (Inr x, bp') \<Longrightarrow> bindS (in_pool m) f (tr, bp) = f x (tr, bp')"
  by (simp add: bindS_def in_pool_def)

lemma liftE_bind: "m = Inr x \<Longrightarrow> bindS (liftE m) f s = f x s"
  by (simp add: bindS_def liftE_def)

lemma page_wf_leaf: "leaf_wf nd \<Longrightarrow> page_wf nd" by (simp add: leaf_wf_def)

lemma leaf_set_sibling:
  assumes "leaf_wf nd"
  shows "leaf_wf (set_right_sibling s nd)" "leaf_abs (set_right_sibling s nd) = leaf_abs nd"
  by (rule leaf_hdr_write [OF assms, where i = 16 and bs = "to_le 4 s"]; simp add: set_right_sibling_def)+

lemma leaf_refill_new:
  assumes "sorted_kv es" and "leaf_size es \<le> LEAF_CAPACITY" and "leaf_wf nd" and "leaf_abs nd = []"
  obtains nd' where "leaf_refill leaf_insert nd es = Inr nd'" "leaf_wf nd'" "leaf_abs nd' = es" "node_hdr nd' = node_hdr nd"
proof -
  have "PAGE_SIZE = Suc 4095" by simp
  then show thesis using leaf_refill_ok [OF assms(3), of es 4095] assms that by (auto simp only: leaf_insert_def append_Nil)
qed

text \<open>Writing two nodes after allocating a page for the second one.\<close>

lemma write_two:
  assumes "pool_quiet bp" and "bp_count bp \<noteq> 0xFFFFFFFF" and "page_wf a" "page_wf b" and "pg_id a = i" "i < bp_count bp" "pg_id b = bp_count bp"
  obtains bp1 bp2 bp3 where "allocate_page bp = (Inr (bp_count bp), bp1)" "write_node a bp1 = (Inr (), bp2)"
    "write_node b bp2 = (Inr (), bp3)" "pool_quiet bp3" "bp_count bp3 = bp_count bp + 1"
    "bp_view bp3 = (bp_view bp)(bp_count bp \<mapsto> pg_data (page_new (bp_count bp)), i \<mapsto> pg_data (update_checksum a),
       bp_count bp \<mapsto> pg_data (update_checksum b))"
proof -
  from pool.alloc_ok [OF assms(1,2)] obtain bp1 where 1: "allocate_page bp = (Inr (bp_count bp), bp1)" "pool_quiet bp1"
    "bp_count bp1 = bp_count bp + 1" "bp_view bp1 = (bp_view bp)(bp_count bp \<mapsto> pg_data (page_new (bp_count bp)))" by blast
  have "bp_view bp i \<noteq> None" using pool.view_dom [OF assms(1)] assms(6) by simp
  then have "bp_view bp1 (pg_id a) \<noteq> None" using 1(4) assms(5) by simp
  then show thesis
  proof (rule pool.wr_node_obtain [OF 1(2) assms(3)])
    fix bp2 assume 2: "write_node a bp1 = (Inr (), bp2)" "pool_quiet bp2" "bp_count bp2 = bp_count bp1"
      "bp_view bp2 = (bp_view bp1)(pg_id a \<mapsto> pg_data (update_checksum a))"
    have "bp_view bp2 (pg_id b) \<noteq> None" using 2(4) 1(4) assms(7) by simp
    then show thesis
    proof (rule pool.wr_node_obtain [OF 2(2) assms(4)])
      fix bp3 assume 3: "write_node b bp2 = (Inr (), bp3)" "pool_quiet bp3" "bp_count bp3 = bp_count bp2"
        "bp_view bp3 = (bp_view bp2)(pg_id b \<mapsto> pg_data (update_checksum b))"
      show thesis
        by (rule that [OF 1(1) 2(1) 3(1,2)]) (simp_all only: 1(3,4) 2(3,4) 3(3,4) assms(5,7))
    qed
  qed
qed

lemma leaf_split_run:
  assumes q: "pool_quiet bp" and nd: "bp_view bp i = Some (pg_data nd)" "pg_id nd = i" "leaf_wf nd" "leaf_abs nd = es"
      "get_right_sibling nd = sib" "get_parent nd = par"
    and new: "map_of es key = None" "es' = kv_insert key val es" "m = length es' div 2" "0 < m"
    and fit: "leaf_size (take m es') \<le> LEAF_CAPACITY" "leaf_size (drop m es') \<le> LEAF_CAPACITY"
    and n: "bp_count bp \<noteq> 0xFFFFFFFF"
  obtains bp' where "split_and_insert_leaf f nd key val (tr, bp)
      = insert_into_parent f i (fst (es' ! m)) (bp_count bp) par (tr, bp')" "pool_quiet bp'" "bp_count bp' = bp_count bp + 1"
    "leaf_at (bp_view bp') i (take m es') (bp_count bp) par" "leaf_at (bp_view bp') (bp_count bp) (drop m es') sib INVALID_PAGE_ID"
    "\<And>x. x \<noteq> i \<Longrightarrow> x \<noteq> bp_count bp \<Longrightarrow> bp_view bp' x = bp_view bp x"
proof -
  let ?n = "bp_count bp"
  have sorted: "sorted_kv es" using nd(3,4) by (simp add: leaf_wf_def)
  then have s': "sorted_kv es'" unfolding new(2) by (rule sorted_kv_insert)
  have mlt: "m < length es'" using new(3,4) by auto
  have i: "i < ?n" using pool.view_dom [OF q, of i] nd(1) by simp
  let ?l0 = "set_right_sibling ?n (set_parent par (new_leaf i))" and ?r0 = "set_right_sibling sib (new_leaf ?n)"
  have l0: "leaf_wf ?l0" "leaf_abs ?l0 = []" "get_right_sibling ?l0 = ?n" "get_parent ?l0 = par" "pg_id ?l0 = i"
    using leaf_set_parent [of "new_leaf i" par] leaf_set_sibling [of "set_parent par (new_leaf i)" ?n]
      new_leaf_ok [of i] page_wf_leaf [of "new_leaf i"] by (simp_all add: node_hdr_def)
  have r0: "leaf_wf ?r0" "leaf_abs ?r0 = []" "get_right_sibling ?r0 = sib" "get_parent ?r0 = INVALID_PAGE_ID" "pg_id ?r0 = ?n"
    using leaf_set_sibling [of "new_leaf ?n" sib] new_leaf_ok [of ?n] page_wf_leaf [of "new_leaf ?n"] by (simp_all add: node_hdr_def)
  obtain l where l: "leaf_refill leaf_insert ?l0 (take m es') = Inr l" "leaf_wf l" "leaf_abs l = take m es'" "node_hdr l = node_hdr ?l0"
    by (rule leaf_refill_new [OF sorted_kv_take [OF s'] fit(1) l0(1,2)])
  obtain r where r: "leaf_refill leaf_insert ?r0 (drop m es') = Inr r" "leaf_wf r" "leaf_abs r = drop m es'" "node_hdr r = node_hdr ?r0"
    by (rule leaf_refill_new [OF sorted_kv_drop [OF s'] fit(2) r0(1,2)])
  have lh: "pg_id l = i" "get_right_sibling l = ?n" "get_parent l = par" using l(4) l0 by (simp_all add: node_hdr_def)
  have rh: "pg_id r = ?n" "get_right_sibling r = sib" "get_parent r = INVALID_PAGE_ID" using r(4) r0 by (simp_all add: node_hdr_def)
  have "0 < num_keys r" using r(3) mlt length_leaf_abs [of r] by simp
  then have key: "leaf_key r 0 = Inr (fst (es' ! m))" using leaf_key_ok [OF r(2)] r(3) mlt by simp
  note ent = leaf_entries_ok [OF nd(3), unfolded nd(4)]
  show thesis
  proof (rule write_two [OF q n page_wf_leaf [OF l(2)] page_wf_leaf [OF r(2)] lh(1) i rh(1)])
    fix bp1 bp2 bp3 assume w: "allocate_page bp = (Inr ?n, bp1)" "write_node l bp1 = (Inr (), bp2)" "write_node r bp2 = (Inr (), bp3)"
      "pool_quiet bp3" "bp_count bp3 = ?n + 1"
      "bp_view bp3 = (bp_view bp)(?n \<mapsto> pg_data (page_new ?n), i \<mapsto> pg_data (update_checksum l), ?n \<mapsto> pg_data (update_checksum r))"
    have "split_and_insert_leaf f nd key val (tr, bp) = insert_into_parent f i (fst (es' ! m)) ?n par (tr, bp3)"
      unfolding split_and_insert_leaf_def
      by (simp add: ent vec_insert_search [OF sorted new(1)] new(2,3)[symmetric] Let_def bindS_def in_pool_def w(1-3) nd l(1) r(1) key)
    moreover have "leaf_at (bp_view bp3) ?n (drop m es') sib INVALID_PAGE_ID"
      unfolding w(6) using leaf_at_written [OF r(2)] r(3) rh by metis
    moreover have "leaf_at (bp_view bp3) i (take m es') ?n par"
      unfolding w(6) using leaf_at_written [OF l(2)] l(3) lh i by (metis leaf_at_other less_irrefl)
    ultimately show thesis using that [of bp3] w(4,5,6) by simp
  qed
qed

section \<open>Parent pointers\<close>

lemma set_parent_run:
  assumes "pool_quiet bp" and "bp_view bp c \<noteq> None"
  obtains bp' where "bindS (read_node c) (\<lambda>nd. write_node (set_parent q nd)) bp = (Inr (), bp')" "pool_quiet bp'"
    "bp_count bp' = bp_count bp" "bp_view bp' = reparented q {c} (bp_view bp)"
proof -
  from assms(2) obtain b where b: "bp_view bp c = Some b" by blast
  from pool.read_modify_write [where f = "set_parent q", OF assms(1) b] obtain nd bp' where
    "bindS (read_node c) (\<lambda>nd. write_node (set_parent q nd)) bp = (Inr (), bp')" "pool_quiet bp'" "bp_count bp' = bp_count bp"
    "pg_data nd = b" "bp_view bp' = (bp_view bp)(c \<mapsto> pg_data (update_checksum (set_parent q nd)))" by auto
  with that [of bp'] b show thesis by (auto simp: reparented_def reparent_data fun_eq_iff)
qed

lemma reparented_insert: "c \<notin> S \<Longrightarrow> reparented q S (reparented q {c} v) = reparented q (insert c S) v"
  by (auto simp: reparented_def fun_eq_iff)

lemma reparented_empty [simp]: "reparented q {} v = v"
  by (simp add: reparented_def)

lemma reparented_dom: "reparented q S v i = None \<longleftrightarrow> v i = None"
  by (simp add: reparented_def)

lemma update_children_loop:
  assumes "pool_quiet bp" and "\<forall>i \<in> set is. internal_child parent i = Inr (ch i) \<and> bp_view bp (ch i) \<noteq> None"
    and "distinct (map ch is)"
  obtains bp' where "foldS (\<lambda>i. bindS (liftE (internal_child parent i)) (\<lambda>c. bindS (read_node c) (\<lambda>nd. write_node (set_parent q nd)))) is bp
      = (Inr (), bp')" "pool_quiet bp'" "bp_count bp' = bp_count bp" "bp_view bp' = reparented q (ch ` set is) (bp_view bp)"
  using assms
proof (induction "is" arbitrary: bp thesis)
  case Nil
  then show ?case by simp
next
  case (Cons i "is")
  let ?step = "\<lambda>i. bindS (liftE (internal_child parent i)) (\<lambda>c. bindS (read_node c) (\<lambda>nd. write_node (set_parent q nd)))"
  have v: "bp_view bp (ch i) \<noteq> None" and c: "internal_child parent i = Inr (ch i)" using Cons.prems(3) by auto
  show ?case
  proof (rule set_parent_run [OF Cons.prems(2) v, of q])
    fix bp1 assume 1: "bindS (read_node (ch i)) (\<lambda>nd. write_node (set_parent q nd)) bp = (Inr (), bp1)" "pool_quiet bp1"
      "bp_count bp1 = bp_count bp" "bp_view bp1 = reparented q {ch i} (bp_view bp)"
    have *: "\<forall>j \<in> set is. internal_child parent j = Inr (ch j) \<and> bp_view bp1 (ch j) \<noteq> None" "distinct (map ch is)"
      using Cons.prems(3,4) 1(4) by (simp_all add: reparented_dom)
    show ?thesis
    proof (rule Cons.IH [OF _ 1(2) *])
      fix bp' assume 2: "foldS ?step is bp1 = (Inr (), bp')" "pool_quiet bp'" "bp_count bp' = bp_count bp1"
        "bp_view bp' = reparented q (ch ` set is) (bp_view bp1)"
      have "?step i bp = (Inr (), bp1)" using c 1(1) by simp
      then have run: "foldS ?step (i # is) bp = (Inr (), bp')" using 2(1) by (simp add: bindS_def)
      have "ch i \<notin> ch ` set is" using Cons.prems(4) by auto
      then have vw: "bp_view bp' = reparented q (ch ` set (i # is)) (bp_view bp)"
        using 2(4) 1(4) by (simp add: reparented_insert)
      show ?thesis by (rule Cons.prems(1) [OF run 2(2) _ vw]) (simp add: 2(3) 1(3))
    qed
  qed
qed

lemma update_children_run:
  assumes q: "pool_quiet bp" and j: "int_at (bp_view bp) j lm rs par" and cs: "cs = lm # map snd rs" and d: "distinct cs"
    and dom: "\<forall>c \<in> set cs. bp_view bp c \<noteq> None"
  obtains bp' where "update_children_parent j bp = (Inr (), bp')" "pool_quiet bp'"
    "bp_count bp' = bp_count bp" "bp_view bp' = reparented j (set cs) (bp_view bp)"
proof -
  obtain b where b: "bp_view bp j = Some b" using int_at_dom [OF j] by blast
  show thesis
  proof (rule pool.rd_node_obtain [OF q b])
    fix nd bp1 assume 1: "read_node j bp = (Inr nd, bp1)" "pool_quiet bp1" "bp_view bp1 = bp_view bp" "bp_count bp1 = bp_count bp" "pg_data nd = b"
    have v: "bp_view bp j = Some (pg_data nd)" using b 1(5) by simp
    note nd = int_at_node [OF j v]
    have len: "num_children nd = length cs" "num_keys nd = length rs"
      using nd(2) length_int_abs [of nd] by (simp_all add: num_children_def cs)
    have child: "internal_child nd i = Inr (cs ! i)" if "i < length cs" for i
      using that internal_child_ok [OF nd(1), of i] nd(2,3) len by (cases i) (auto simp: cs)
    have ch: "\<forall>i \<in> set [0..<length cs]. internal_child nd i = Inr (cs ! i) \<and> bp_view bp1 (cs ! i) \<noteq> None"
      using child dom 1(3) nth_mem by auto
    have all: "map ((!) cs) [0..<length cs] = cs" by (rule map_nth)
    then have set: "(!) cs ` set [0..<length cs] = set cs" by (metis list.set_map)
    show thesis
    proof (rule update_children_loop [OF 1(2) ch, of j])
      fix bp' assume 2: "foldS (\<lambda>i. bindS (liftE (internal_child nd i)) (\<lambda>c. bindS (read_node c) (\<lambda>nd. write_node (set_parent j nd))))
          [0..<length cs] bp1 = (Inr (), bp')" "pool_quiet bp'" "bp_count bp' = bp_count bp1"
        "bp_view bp' = reparented j ((!) cs ` set [0..<length cs]) (bp_view bp1)"
      have "update_children_parent j bp = (Inr (), bp')"
        unfolding update_children_parent_def bindS_def [of "read_node j"] 1(1) using 2(1) len(1) by simp
      then show thesis by (rule that) (use 2 1 set in simp_all)
    qed (use d all in simp)
  qed
qed

section \<open>Inserting into the parent\<close>

lemma page_wf_int: "int_wf nd \<Longrightarrow> page_wf nd" by (simp add: int_wf_def)

lemma int_hdr_fields:
  "int_hdr a = (node_hdr b, c) \<Longrightarrow> pg_id a = pg_id b \<and> get_parent a = get_parent b \<and> get_leftmost_child a = c"
  by (simp add: int_hdr_def node_hdr_def)

lemma parent_insert_run:
  assumes q: "pool_quiet bp" and i: "int_at (bp_view bp) i lm rs par" "i \<noteq> INVALID_PAGE_ID"
    and sep: "map_of rs sep = None" "int_size rs + 16 + length sep \<le> INTERNAL_CAPACITY"
    and c: "bp_view bp c \<noteq> None" "c \<noteq> i"
  obtains bp' v1 where "insert_into_parent (Suc f) lc sep c i (tr, bp) = (Inr (), (tr, bp'))" "pool_quiet bp'"
    "bp_count bp' = bp_count bp" "bp_view bp' = reparented i {c} v1" "int_at v1 i lm (kv_insert sep c rs) par"
    "\<And>x. x \<noteq> i \<Longrightarrow> v1 x = bp_view bp x"
proof -
  obtain b where b: "bp_view bp i = Some b" using int_at_dom [OF i(1)] by blast
  show thesis
  proof (rule pool.rd_node_obtain [OF q b])
    fix nd bp1 assume 1: "read_node i bp = (Inr nd, bp1)" "pool_quiet bp1" "bp_view bp1 = bp_view bp" "bp_count bp1 = bp_count bp"
      "pg_id nd = i" "pg_data nd = b"
    have v: "bp_view bp i = Some (pg_data nd)" using b 1(6) by simp
    note nd = int_at_node [OF i(1) v]
    have fits: "internal_can_fit nd sep = Inr True" using internal_can_fit_ok [OF nd(1), of sep] nd(2) sep(2) by simp
    have "sorted_kv rs" using nd(1,2) by (simp add: int_wf_def)
    from kv_pos_ex [OF this sep(1)] obtain k where k: "kv_pos rs sep k" ..
    have room: "int_size (kv_insert sep c (int_abs nd)) \<le> INTERNAL_CAPACITY" using int_size_insert(1) [OF k, of c] sep(2) nd(2) by simp
    have none: "map_of (int_abs nd) sep = None" using sep(1) nd(2) by simp
    show thesis
    proof (rule internal_insert_ok [OF nd(1) none room])
      fix nd' assume n': "internal_insert nd sep c = Inr nd'" "int_wf nd'" "int_abs nd' = kv_insert sep c (int_abs nd)" "int_hdr nd' = int_hdr nd"
      have h: "pg_id nd' = i" "get_parent nd' = par" "get_leftmost_child nd' = lm"
        using n'(4) nd(3,4) 1(5) by (simp_all add: int_hdr_def node_hdr_def)
      have "bp_view bp1 (pg_id nd') \<noteq> None" using h(1) b 1(3) by simp
      then show thesis
      proof (rule pool.wr_node_obtain [OF 1(2) page_wf_int [OF n'(2)]])
        fix bp2 assume 2: "write_node nd' bp1 = (Inr (), bp2)" "pool_quiet bp2" "bp_count bp2 = bp_count bp1"
          "bp_view bp2 = (bp_view bp1)(pg_id nd' \<mapsto> pg_data (update_checksum nd'))"
        have "bp_view bp2 c \<noteq> None" using 2(4) 1(3) c by simp
        then show thesis
        proof (rule set_parent_run [OF 2(2), of c i])
          fix bp3 assume 3: "bindS (read_node c) (\<lambda>nd. write_node (set_parent i nd)) bp2 = (Inr (), bp3)" "pool_quiet bp3"
            "bp_count bp3 = bp_count bp2" "bp_view bp3 = reparented i {c} (bp_view bp2)"
          have run: "insert_into_parent (Suc f) lc sep c i (tr, bp) = (Inr (), (tr, bp3))"
            using i(2) 1(1) fits n'(1) 2(1) 3(1) by (auto simp: bindS_def in_pool_def split: prod.splits sum.splits)
          have at: "int_at (bp_view bp2) i lm (kv_insert sep c rs) par"
            unfolding 2(4) using int_at_written [OF n'(2), of "bp_view bp1"] n'(3) h nd(2) by simp
          show thesis by (rule that [OF run 3(2) _ 3(4) at]) (use 3(3) 2(3,4) 1(3,4) h(1) in simp_all)
        qed
      qed
    qed
  qed
qed

lemma int_fresh:
  assumes "sorted_kv es" and "int_size es \<le> INTERNAL_CAPACITY"
  obtains nd where "internal_rebuild (set_level l (new_internal j)) lm es = Inr nd" "int_wf nd" "int_abs nd = es"
    "get_leftmost_child nd = lm" "get_parent nd = INVALID_PAGE_ID" "pg_id nd = j"
proof -
  have h: "page_wf (set_level l (new_internal j))" "get_page_type (set_level l (new_internal j)) = PtInternal"
    "get_parent (set_level l (new_internal j)) = INVALID_PAGE_ID" "pg_id (set_level l (new_internal j)) = j"
    by (simp_all add: new_internal_def)
  show thesis by (rule internal_rebuild_ok [OF h(1,2) assms, of lm]) (use that h in \<open>auto dest: int_hdr_fields\<close>)
qed

lemma int_rebuilt:
  assumes "sorted_kv es" and "int_size es \<le> INTERNAL_CAPACITY"
  obtains nd where "internal_rebuild (set_parent p (set_level l (new_internal i))) lm es = Inr nd" "int_wf nd" "int_abs nd = es"
    "get_leftmost_child nd = lm" "get_parent nd = p" "pg_id nd = i"
proof -
  let ?nd = "set_parent p (set_level l (new_internal i))"
  have h: "page_wf ?nd" "get_page_type ?nd = PtInternal" "get_parent ?nd = p" "pg_id ?nd = i"
    by (simp_all add: new_internal_def)
  show thesis by (rule internal_rebuild_ok [OF h(1,2) assms, of lm]) (use that h in \<open>auto dest: int_hdr_fields\<close>)
qed

lemma split_internal_run:
  assumes q: "pool_quiet bp" and i: "int_at (bp_view bp) i lm rs par" "i \<noteq> INVALID_PAGE_ID"
    and sep: "map_of rs sep = None" "\<not> int_size rs + 16 + length sep \<le> INTERNAL_CAPACITY"
    and es: "es = kv_insert sep c rs" "m = length es div 2" "es ! m = (s, r0)" "drop (Suc m) es = rts" "cs = r0 # map snd rts"
    and fit: "int_size (take m es) \<le> INTERNAL_CAPACITY" "int_size (drop (Suc m) es) \<le> INTERNAL_CAPACITY"
    and n: "bp_count bp \<noteq> 0xFFFFFFFF" and cs: "distinct cs" "\<forall>c \<in> set cs. bp_view bp c \<noteq> None"
  obtains bp' v1 where "insert_into_parent (Suc f) lc sep c i (tr, bp) = insert_into_parent f i s (bp_count bp) par (tr, bp')"
    "pool_quiet bp'" "bp_count bp' = bp_count bp + 1" "bp_view bp' = reparented (bp_count bp) (set cs) v1"
    "int_at v1 i lm (take m es) par" "int_at v1 (bp_count bp) r0 rts INVALID_PAGE_ID"
    "\<And>x. x \<noteq> i \<Longrightarrow> x \<noteq> bp_count bp \<Longrightarrow> v1 x = bp_view bp x"
proof -
  let ?n = "bp_count bp"
  obtain b where b: "bp_view bp i = Some b" using int_at_dom [OF i(1)] by blast
  have lt: "i < ?n" using pool.view_dom [OF q, of i] b by simp
  show thesis
  proof (rule pool.rd_node_obtain [OF q b])
    fix nd bp1 assume 1: "read_node i bp = (Inr nd, bp1)" "pool_quiet bp1" "bp_view bp1 = bp_view bp" "bp_count bp1 = ?n"
      "pg_id nd = i" "pg_data nd = b"
    have v: "bp_view bp i = Some (pg_data nd)" using b 1(6) by simp
    note nd = int_at_node [OF i(1) v]
    have fits: "internal_can_fit nd sep = Inr False" using internal_can_fit_ok [OF nd(1), of sep] nd(2) sep(2) by simp
    have srt: "sorted_kv rs" using nd(1,2) by (simp add: int_wf_def)
    have srt': "sorted_kv es" unfolding es(1) by (rule sorted_kv_insert [OF srt])
    note ent = internal_entries_ok [OF nd(1), unfolded nd(2,3)]
    obtain r where r: "internal_rebuild (set_level (get_level nd) (new_internal ?n)) r0 (drop (Suc m) es) = Inr r"
      "int_wf r" "int_abs r = drop (Suc m) es" "get_leftmost_child r = r0" "get_parent r = INVALID_PAGE_ID" "pg_id r = ?n"
      by (rule int_fresh [OF sorted_kv_drop [OF srt'] fit(2)])
    obtain l where l: "internal_rebuild (set_parent par (set_level (get_level nd) (new_internal i))) lm (take m es) = Inr l"
      "int_wf l" "int_abs l = take m es" "get_leftmost_child l = lm" "get_parent l = par" "pg_id l = i"
      by (rule int_rebuilt [OF sorted_kv_take [OF srt'] fit(1)])
    note w2 = write_two [OF 1(2) _ page_wf_int [OF l(2)] page_wf_int [OF r(2)] l(6), unfolded 1(3,4), OF n lt r(6)]
    show thesis
    proof (rule w2)
      fix bp2 bp3 bp4 assume w: "allocate_page bp1 = (Inr ?n, bp2)" "write_node l bp2 = (Inr (), bp3)" "write_node r bp3 = (Inr (), bp4)"
        "pool_quiet bp4" "bp_count bp4 = ?n + 1"
        "bp_view bp4 = (bp_view bp)(?n \<mapsto> pg_data (page_new ?n), i \<mapsto> pg_data (update_checksum l), ?n \<mapsto> pg_data (update_checksum r))"
      have ri: "int_at (bp_view bp4) ?n r0 rts INVALID_PAGE_ID"
        unfolding w(6) using int_at_written [OF r(2)] r(3-6) es(4) by metis
      have li: "int_at (bp_view bp4) i lm (take m es) par"
        unfolding w(6) using int_at_written [OF l(2)] l(3-6) lt by (metis int_at_other less_irrefl)
      have "\<forall>c \<in> set cs. bp_view bp4 c \<noteq> None" using cs(2) unfolding w(6) by simp
      then show thesis
      proof (rule update_children_run [OF w(4) ri es(5) cs(1)])
        fix bp5 assume u: "update_children_parent ?n bp4 = (Inr (), bp5)" "pool_quiet bp5" "bp_count bp5 = bp_count bp4"
          "bp_view bp5 = reparented ?n (set cs) (bp_view bp4)"
        have run: "insert_into_parent (Suc f) lc sep c i (tr, bp) = insert_into_parent f i s ?n par (tr, bp5)"
          using i(2) 1(1) fits ent vec_insert_search [OF srt sep(1), of c] es r(1) l(1) w(1-3) u(1) nd(4) 1(5)
          by (simp add: bindS_def in_pool_def Let_def)
        show thesis by (rule that [OF run u(2) _ u(4) li ri]) (use u(3) w(5) in \<open>simp_all add: w(6)\<close>)
      qed
    qed
  qed
qed

lemma split_root_run:
  assumes q: "pool_quiet bp" and n: "bp_count bp \<noteq> 0xFFFFFFFF" and sep: "8 + length sep \<le> INTERNAL_CAPACITY"
    and lr: "bp_view bp l \<noteq> None" "bp_view bp r \<noteq> None" "l \<noteq> r"
  obtains bp' v1 where "insert_into_parent (Suc f) l sep r INVALID_PAGE_ID (tr, bp) = (Inr (), (tr\<lparr>root_page_id := bp_count bp\<rparr>, bp'))"
    "pool_quiet bp'" "bp_count bp' = bp_count bp + 1" "bp_view bp' = reparented (bp_count bp) {l, r} v1"
    "int_at v1 (bp_count bp) l [(sep, r)] INVALID_PAGE_ID" "\<And>x. x \<noteq> bp_count bp \<Longrightarrow> v1 x = bp_view bp x"
proof -
  let ?n = "bp_count bp" and ?nd = "set_leftmost_child l (new_internal (bp_count bp))"
  from pool.alloc_ok [OF q n] obtain bp1 where 1: "allocate_page bp = (Inr ?n, bp1)" "pool_quiet bp1"
    "bp_count bp1 = ?n + 1" "bp_view bp1 = (bp_view bp)(?n \<mapsto> pg_data (page_new ?n))" by blast
  note nw = new_internal_ok [of l ?n]
  have room: "map_of (int_abs ?nd) sep = None" "int_size (kv_insert sep r (int_abs ?nd)) \<le> INTERNAL_CAPACITY"
    using sep by (simp_all add: kv_insert_def)
  show thesis
  proof (rule internal_insert_ok [OF nw(1) room])
    fix nd' assume n': "internal_insert ?nd sep r = Inr nd'" "int_wf nd'" "int_abs nd' = kv_insert sep r (int_abs ?nd)" "int_hdr nd' = int_hdr ?nd"
    have h: "pg_id nd' = ?n" "get_parent nd' = INVALID_PAGE_ID" "get_leftmost_child nd' = l" "int_abs nd' = [(sep, r)]"
      using n'(3,4) nw(3) by (simp_all add: int_hdr_def node_hdr_def kv_insert_def)
    have "bp_view bp1 (pg_id nd') \<noteq> None" using h(1) 1(4) by simp
    then show thesis
    proof (rule pool.wr_node_obtain [OF 1(2) page_wf_int [OF n'(2)]])
      fix bp2 assume 2: "write_node nd' bp1 = (Inr (), bp2)" "pool_quiet bp2" "bp_count bp2 = bp_count bp1"
        "bp_view bp2 = (bp_view bp1)(pg_id nd' \<mapsto> pg_data (update_checksum nd'))"
      have at: "int_at (bp_view bp2) ?n l [(sep, r)] INVALID_PAGE_ID"
        unfolding 2(4) using int_at_written [OF n'(2), of "bp_view bp1"] h by simp
      have "bp_view bp2 l \<noteq> None" using 2(4) 1(4) lr(1) by simp
      then show thesis
      proof (rule set_parent_run [OF 2(2), of l ?n])
        fix bp3 assume 3: "bindS (read_node l) (\<lambda>nd. write_node (set_parent ?n nd)) bp2 = (Inr (), bp3)" "pool_quiet bp3"
          "bp_count bp3 = bp_count bp2" "bp_view bp3 = reparented ?n {l} (bp_view bp2)"
        have "bp_view bp3 r \<noteq> None" using 3(4) 2(4) 1(4) lr(2) by (simp add: reparented_dom)
        then show thesis
        proof (rule set_parent_run [OF 3(2), of r ?n])
          fix bp4 assume 4: "bindS (read_node r) (\<lambda>nd. write_node (set_parent ?n nd)) bp3 = (Inr (), bp4)" "pool_quiet bp4"
            "bp_count bp4 = bp_count bp3" "bp_view bp4 = reparented ?n {r} (bp_view bp3)"
          have v: "bp_view bp4 = reparented ?n {l, r} (bp_view bp2)"
            using 4(4) 3(4) reparented_insert [of l "{r}"] lr(3) by simp
          have run: "insert_into_parent (Suc f) l sep r INVALID_PAGE_ID (tr, bp) = (Inr (), (tr\<lparr>root_page_id := ?n\<rparr>, bp4))"
            using 1(1) n'(1) 2(1) 3(1) 4(1)
            by (auto simp: split_root_def bindS_def in_pool_def set_root_page_id_def split: prod.splits sum.splits)
          show thesis by (rule that [OF run 4(2) _ v at]) (use 4(3) 3(3) 2(3,4) 1(3,4) h(1) in simp_all)
        qed
      qed
    qed
  qed
qed

end
