(* ===== verification/Climb.thy ===== *)
theory Climb
  imports Split
begin

text \<open>
  The way up of an insert that splits, from the leaf to the root. \<open>outcome\<close> describes the program at
  one level: the subtree has its final shape, and the code has returned or is about to insert a
  separator and a new page into the parent. The three lemmas \<open>outcome_one\<close>, \<open>outcome_fit\<close> and
  \<open>outcome_split\<close> go from a child to its parent: nothing left to do, the parent has room, or the
  parent is split itself.
\<close>

lemma unat_succ:
  assumes "x \<noteq> 0xFFFFFFFF"
  shows "unat (x + 1 :: u32) = unat x + 1"
proof -
  have "1 + x \<noteq> 0"
  proof
    assume "1 + x = 0"
    then have "x = - 1" by (simp add: add_eq_0_iff)
    with assms show False by simp
  qed
  then show ?thesis by (simp add: unatSuc add.commute)
qed

section \<open>Routes of the new children\<close>

lemma kv_insert_mid:
  assumes "sorted_kv (A @ (k, x) # B)"
  shows "kv_insert k x (A @ B) = A @ (k, x) # B" and "map_of (A @ B) k = None"
proof -
  have l: "\<forall>e \<in> set A. fst e < k" and r: "\<forall>e \<in> set B. k < fst e" using assms by (auto simp: sorted_kv_append)
  have "kv_insert k x B = (k, x) # B" using r by (cases B) (auto simp: kv_insert_def)
  then show "kv_insert k x (A @ B) = A @ (k, x) # B" using kv_insert_append_right [OF l, of x B] by simp
  show "map_of (A @ B) k = None" using l r by (force simp: map_of_eq_None_iff)
qed

definition roots_before :: "(kids \<times> key) option \<Rightarrow> page_id list" where
  "roots_before L = (case L of None \<Rightarrow> [] | Some (a, k) \<Rightarrow> roots a)"

definition roots_behind :: "(key \<times> kids) option \<Rightarrow> page_id list" where
  "roots_behind R = (case R of None \<Rightarrow> [] | Some (k, b) \<Rightarrow> roots b)"

lemma roots_plug: "roots (plug L x R) = roots_before L @ roots x @ roots_behind R"
  by (cases L; cases R) (auto simp: roots_before_def roots_behind_def)

lemma routes_plug_one:
  assumes "root_id t' = root_id t"
  shows "routes (plug L (Only t') R) = routes (plug L (Only t) R)" "first_id (plug L (Only t') R) = first_id (plug L (Only t) R)"
  using assms by (cases L; cases R; auto)+

lemma routes_plug_two:
  assumes "root_id l = root_id t"
  obtains A B where "routes (plug L (Only t) R) = A @ B" "routes (plug L (More l s (Only r)) R) = A @ (s, root_id r) # B"
    "R = None \<Longrightarrow> B = []"
proof -
  let ?A = "case L of None \<Rightarrow> [] | Some (a, k) \<Rightarrow> routes a @ [(k, root_id t)]"
  let ?B = "case R of None \<Rightarrow> [] | Some (k, b) \<Rightarrow> (k, first_id b) # routes b"
  show thesis by (rule that [of ?A ?B]) (use assms in \<open>(cases L; cases R; auto)+\<close>)
qed

lemma distinct_roots: "distinct (kpages ks) \<Longrightarrow> distinct (roots ks)"
proof (induction ks rule: kids_induct)
  case (2 t k ks)
  have "root_id t \<notin> set (kpages ks)" using 2(2) root_in_pages [of t] by (simp add: disjoint_iff)
  then have "root_id t \<notin> set (roots ks)" using roots_in_pages by blast
  with 2 show ?case by simp
qed simp

section \<open>From a child to its parent\<close>

text \<open>
  A node is tame for a key when it has room for one more separator, or when the key belongs into
  its last child: if it is split, the new child goes into the right half.
\<close>

primrec tame :: "btree \<Rightarrow> key \<Rightarrow> bool" and ktame :: "kids \<Rightarrow> key \<Rightarrow> bool" where
  "tame (BLeaf i es) key = True"
| "tame (BNode i ks) key =
     ((int_size (routes ks) + 16 + SMALL \<le> INTERNAL_CAPACITY \<or> (\<forall>e \<in> set (routes ks). fst e \<le> key)) \<and> ktame ks key)"
| "ktame (Only t) key = tame t key"
| "ktame (More t k ks) key = (if key < k then tame t key else ktame ks key)"

lemma ktame_pick: "ktame ks key = tame (pick ks key) key"
  by (induction ks rule: kids_induct) auto

text \<open>
  \<open>outcome W v n t p key val f tr\<close>: the program \<open>W\<close>, an insert into a leaf below \<open>t\<close>, has come up to
  the root of \<open>t\<close>, whose parent is \<open>p\<close>: it has ended, or what is left is to insert the separator and
  the second half of \<open>t\<close> into \<open>p\<close>.
\<close>

definition outcome where
  "outcome W v n t p key val f tr \<longleftrightarrow> (\<exists>bp' res. pool_quiet bp'
     \<and> grown v n (Only t) key val (bp_view bp') (bp_count bp') res
     \<and> unat (bp_count bp') \<le> unat n + height t + 1 \<and> parent_at (bp_view bp') (root_id t) = Some p
     \<and> (tame t key \<longrightarrow> klinked (bp_view bp') res)
     \<and> ((\<exists>t'. res = Only t' \<and> W = (Inr (), (tr, bp')))
       \<or> (\<exists>l s r g. res = More l s (Only r) \<and> f \<le> g + height t
            \<and> W = insert_into_parent g (root_id t) s (root_id r) p (tr, bp'))))"

text \<open>The children of a node after an insert below it, before the node itself is written.\<close>

lemma parents_kept:
  assumes g: "grown v n (Only t) key val v' n' res" and ks: "ks = plug L (Only t) R"
    and d: "distinct (kpages ks)" and lt: "\<forall>x \<in> set (kpages ks). x < n"
    and par: "\<forall>c \<in> set (roots ks). parent_at v c = Some i" "parent_at v' (root_id t) = Some i"
    and c: "c \<in> set (roots (plug L res R))" "c \<in> set (roots res) \<Longrightarrow> c = root_id t"
  shows "parent_at v' c = Some i"
proof (cases "c = root_id t")
  case False
  with c have side: "c \<in> set (roots_before L) \<union> set (roots_behind R)" by (auto simp: roots_plug)
  then have in_ks: "c \<in> set (roots ks)" by (auto simp: ks roots_plug)
  have "c \<notin> set (pages t)"
    using side d unfolding ks
    by (cases L; cases R) (auto simp: roots_before_def roots_behind_def dest!: roots_in_pages)
  moreover have "c < n" using lt roots_in_pages [OF in_ks] by blast
  ultimately have "v' c = v c" using grownD(2) [OF g] by simp
  with par(1) in_ks show ?thesis by (simp add: parent_at_def)
qed (use par(2) in simp)

text \<open>What the insert relies on below a node.\<close>

definition ready :: "(page_id \<rightharpoonup> bytes) \<Rightarrow> u32 \<Rightarrow> btree \<Rightarrow> page_id \<Rightarrow> key \<Rightarrow> bool" where
  "ready v n t p key \<longleftrightarrow> rep v t \<and> distinct (pages t) \<and> (\<forall>x \<in> set (pages t). x < n \<and> x \<noteq> INVALID_PAGE_ID)
     \<and> linked v t \<and> parent_at v (root_id t) = Some p \<and> small t
     \<and> (\<exists>lo hi. ord lo hi t \<and> at_least lo key \<and> below hi key)"

lemma ready_pick:
  assumes "ready v n (BNode i ks) p key"
  shows "ready v n (pick ks key) i key"
proof -
  obtain L R where h: "ks = plug L (Only (pick ks key)) R" "hole L key R" by (rule pick_plug)
  define t where "t = pick ks key"
  have ks: "ks = plug L (Only t) R" using h(1) t_def by simp
  have "root_id t \<in> set (roots ks)" by (simp add: ks roots_plug)
  then have par: "parent_at v (root_id t) = Some i" using assms by (simp add: ready_def)
  from assms obtain lo hi where o: "ords lo hi ks" "at_least lo key" "below hi key" by (auto simp: ready_def)
  let ?lo = "case L of None \<Rightarrow> lo | Some (a, k) \<Rightarrow> Some k" and ?hi = "case R of None \<Rightarrow> hi | Some (k, b) \<Rightarrow> Some k"
  have "ord ?lo ?hi t" "at_least ?lo key" "below ?hi key"
    using o h(2) unfolding ks by (cases L; cases R; auto simp: hole_def)+
  moreover have "rep v t" "distinct (pages t)" "linked v t" "small t" "set (pages t) \<subseteq> set (kpages ks)"
    using assms unfolding ready_def ks by (cases L; cases R; auto)+
  ultimately show ?thesis using assms par unfolding t_def [symmetric] ready_def by auto
qed

lemma above_child:
  assumes ready: "ready v n (BNode i ks) p key" and g: "grown v n (Only (pick ks key)) key val v' n' res"
    and par: "parent_at v' (root_id (pick ks key)) = Some i"
  obtains L R where "ks = plug L (Only (pick ks key)) R" "hole L key R" "grown v n ks key val v' n' (plug L res R)"
    "int_at v' i (first_id ks) (routes ks) p" "i < n" "i \<noteq> INVALID_PAGE_ID" "i \<notin> set (kpages ks)" "i \<notin> set (kpages (plug L res R))"
    "first_id (plug L res R) = first_id ks" "sorted_kv (routes (plug L res R))" "klinked v' res \<Longrightarrow> klinked v' (plug L res R)"
    "\<And>c. c \<in> set (roots (plug L res R)) \<Longrightarrow> (c \<in> set (roots res) \<Longrightarrow> c = root_id (pick ks key)) \<Longrightarrow> parent_at v' c = Some i"
proof -
  obtain L R where h: "ks = plug L (Only (pick ks key)) R" "hole L key R" by (rule pick_plug)
  define t where "t = pick ks key"
  have ks: "ks = plug L (Only t) R" using h(1) t_def by simp
  note g' = g [folded t_def]
  note r = ready [unfolded ready_def, simplified]
  have grown: "grown v n ks key val v' n' (plug L res R)"
    unfolding ks by (rule grown_plug [OF g' h(2)]) (use r in \<open>simp_all add: ks [symmetric]\<close>)
  have i: "i \<notin> set (kpages ks)" "i < n" "i \<noteq> INVALID_PAGE_ID" using r by simp_all
  have i': "i \<notin> set (kpages (plug L res R))" using grownD(5) [OF grown] i by fastforce
  from r obtain par' where at: "int_at v i (first_id ks) (routes ks) par'" by blast
  with parent_at_int [OF at] r have at': "int_at v i (first_id ks) (routes ks) p" by simp
  have "v' i = v i" using grownD(2) [OF grown i(2,1)] .
  then have at2: "int_at v' i (first_id ks) (routes ks) p" using at' by (simp add: int_at_def)
  from r obtain lo hi where "ords lo hi ks" "at_least lo key" "below hi key" by blast
  with grownD(9) [OF grown] have srt: "sorted_kv (routes (plug L res R))" using sorted_routes by blast
  have kl: "klinked v' (plug L res R)" if "klinked v' res"
    by (rule klinked_plug [OF g' _ that]) (use r in \<open>simp_all add: ks [symmetric]\<close>)
  have kept: "parent_at v' c = Some i" if "c \<in> set (roots (plug L res R))" "c \<in> set (roots res) \<Longrightarrow> c = root_id t" for c
    by (rule parents_kept [OF g' ks _ _ _ _ that]) (use r par t_def in simp_all)
  show thesis
    by (rule that [OF h grown at2 i(2,3,1) i' grownD(6) [OF grown] srt kl kept [unfolded t_def]])
qed

lemma outcome_one:
  assumes ready: "ready v n (BNode i ks) p key" and bp': "pool_quiet bp'"
    and g: "grown v n (Only (pick ks key)) key val (bp_view bp') (bp_count bp') (Only t')"
    and c: "unat (bp_count bp') \<le> unat n + height (pick ks key) + 1" "parent_at (bp_view bp') (root_id (pick ks key)) = Some i"
      "tame (pick ks key) key \<longrightarrow> klinked (bp_view bp') (Only t')"
  shows "outcome (Inr (), (tr, bp')) v n (BNode i ks) p key val f tr"
proof (rule above_child [OF ready g c(2)])
  let ?v = "bp_view bp'"
  fix L R assume a: "ks = plug L (Only (pick ks key)) R" "grown v n ks key val ?v (bp_count bp') (plug L (Only t') R)"
    "int_at ?v i (first_id ks) (routes ks) p" "i < n" "i \<notin> set (kpages ks)"
    "klinked ?v (Only t') \<Longrightarrow> klinked ?v (plug L (Only t') R)"
    "\<And>c. c \<in> set (roots (plug L (Only t') R)) \<Longrightarrow> (c \<in> set (roots (Only t')) \<Longrightarrow> c = root_id (pick ks key)) \<Longrightarrow> parent_at ?v c = Some i"
  let ?t = "BNode i (plug L (Only t') R)"
  have root: "root_id t' = root_id (pick ks key)" using grownD(6) [OF g] by simp
  from routes_plug_one [OF root, of L R] a(1) have same: "routes (plug L (Only t') R) = routes ks" "first_id (plug L (Only t') R) = first_id ks" by simp_all
  have "grown v n (Only (BNode i ks)) key val ?v (bp_count bp') (Only ?t)"
    by (rule grown_node [OF a(2,4,5)]) (use a(3) same in simp_all)
  moreover have "klinked ?v (Only ?t)" if "tame (BNode i ks) key"
    using that a(6,7) c(3) root by (auto simp: ktame_pick)
  moreover have "unat (bp_count bp') \<le> unat n + height (BNode i ks) + 1" using c(1) height_pick [of ks key] by simp
  ultimately show ?thesis using bp' parent_at_int [OF a(3)] unfolding outcome_def
    by (intro exI [of _ bp'] exI [of _ "Only ?t"]) simp
qed

text \<open>The same when the child was split: the new separator and page have their place among those of the node.\<close>

lemma above_split_child:
  assumes ready: "ready v n (BNode i ks) p key" and g: "grown v n (Only (pick ks key)) key val v' n' (More l s (Only r))"
    and par: "parent_at v' (root_id (pick ks key)) = Some i"
  obtains ks' where "grown v n ks key val v' n' ks'" "int_at v' i (first_id ks) (routes ks) p" "i < n" "i \<noteq> INVALID_PAGE_ID"
    "i \<notin> set (kpages ks)" "i \<notin> set (kpages ks')" "first_id ks' = first_id ks"
    "klinked v' (More l s (Only r)) \<Longrightarrow> klinked v' ks'" "map_of (routes ks) s = None" "routes ks' = kv_insert s (root_id r) (routes ks)"
    "int_size (routes ks') = int_size (routes ks) + 8 + length s" "root_id r \<in> set (roots ks')"
    "\<And>c. c \<in> set (roots ks') \<Longrightarrow> c \<noteq> root_id r \<Longrightarrow> parent_at v' c = Some i"
    "\<forall>e \<in> set (routes ks). fst e \<le> key \<Longrightarrow> last (roots ks') = root_id r"
proof (rule above_child [OF ready g par])
  let ?res = "More l s (Only r)"
  fix L R
  let ?ks = "plug L ?res R"
  assume a: "ks = plug L (Only (pick ks key)) R" "hole L key R" "grown v n ks key val v' n' ?ks"
    "int_at v' i (first_id ks) (routes ks) p" "i < n" "i \<noteq> INVALID_PAGE_ID" "i \<notin> set (kpages ks)" "i \<notin> set (kpages ?ks)"
    "first_id ?ks = first_id ks" "sorted_kv (routes ?ks)" "klinked v' ?res \<Longrightarrow> klinked v' ?ks"
    "\<And>c. c \<in> set (roots ?ks) \<Longrightarrow> (c \<in> set (roots ?res) \<Longrightarrow> c = root_id (pick ks key)) \<Longrightarrow> parent_at v' c = Some i"
  have root: "root_id l = root_id (pick ks key)" using grownD(6) [OF g] by simp
  obtain A B where AB: "routes (plug L (Only (pick ks key)) R) = A @ B" "routes ?ks = A @ (s, root_id r) # B" "R = None \<Longrightarrow> B = []"
    by (rule routes_plug_two [OF root, of L R s r]) (rule that)
  have rs: "routes ks = A @ B" using AB(1) a(1) by simp
  note mid = kv_insert_mid [OF a(10) [unfolded AB(2)], folded rs, folded AB(2)]
  have size: "int_size (routes ?ks) = int_size (routes ks) + 8 + length s" by (simp add: AB(2) rs)
  have inr: "root_id r \<in> set (roots ?ks)" by (simp add: roots_plug)
  have kept: "parent_at v' c = Some i" if "c \<in> set (roots ?ks)" "c \<noteq> root_id r" for c
    by (rule a(12) [OF that(1)]) (use that(2) root in simp)
  have lst: "last (roots ?ks) = root_id r" if le: "\<forall>e \<in> set (routes ks). fst e \<le> key"
  proof -
    have "R = None"
    proof (rule ccontr)
      assume "R \<noteq> None"
      then obtain k b where R: "R = Some (k, b)" by auto
      have "(k, first_id b) \<in> set (routes (plug L (Only (pick ks key)) R))" using R by (cases L) auto
      then show False using le a(1,2) R by (fastforce simp: hole_def)
    qed
    then show ?thesis using AB(2,3) by (simp add: roots_def)
  qed
  show thesis by (rule that [OF a(3-9,11) mid(2) mid(1) [symmetric] size inr kept lst])
qed

lemma insert_linked:
  assumes kl: "klinked v ks" and d: "distinct (kpages ks)" and v1: "reps v1 ks" "\<And>x. x \<noteq> i \<Longrightarrow> v1 x = v x"
    and i: "i \<notin> set (kpages ks)" and c: "c \<in> set (roots ks)" "\<And>x. x \<in> set (roots ks) \<Longrightarrow> x \<noteq> c \<Longrightarrow> parent_at v x = Some i"
  shows "linked (reparented i {c} v1) (BNode i ks)"
proof -
  have "klinked v1 ks" by (rule klinked_cong [OF kl]) (use v1(2) i in metis)
  then have "klinked (reparented i {c} v1) ks" by (rule klinked_reparented [OF _ d]) (use c(1) in auto)
  moreover have "parent_at (reparented i {c} v1) x = Some i" if x: "x \<in> set (roots ks)" for x
  proof (cases "x = c")
    case True
    then show ?thesis using parent_at_reparented [OF v1(1) roots_in_pages [OF c(1)]] by simp
  next
    case False
    have "x \<noteq> i" using roots_in_pages [OF x] i by auto
    with v1(2) c(2) [OF x False] False show ?thesis by (simp add: parent_at_other) (simp add: parent_at_def)
  qed
  ultimately show ?thesis by simp
qed

lemma outcome_fit:
  assumes ready: "ready v n (BNode i ks) p key" and bp': "pool_quiet bp'"
    and g: "grown v n (Only (pick ks key)) key val (bp_view bp') (bp_count bp') (More l s (Only r))"
    and c: "unat (bp_count bp') \<le> unat n + height (pick ks key) + 1" "parent_at (bp_view bp') (root_id (pick ks key)) = Some i"
      "tame (pick ks key) key \<longrightarrow> klinked (bp_view bp') (More l s (Only r))"
    and fit: "int_size (routes ks) + 16 + length s \<le> INTERNAL_CAPACITY"
  shows "outcome (insert_into_parent (Suc g') (root_id (pick ks key)) s (root_id r) i (tr, bp')) v n (BNode i ks) p key val f tr"
proof (rule above_split_child [OF ready g c(2)])
  let ?v = "bp_view bp'"
  fix ks' assume a: "grown v n ks key val ?v (bp_count bp') ks'" "int_at ?v i (first_id ks) (routes ks) p" "i < n" "i \<noteq> INVALID_PAGE_ID"
    "i \<notin> set (kpages ks)" "i \<notin> set (kpages ks')" "first_id ks' = first_id ks" "klinked ?v (More l s (Only r)) \<Longrightarrow> klinked ?v ks'"
    "map_of (routes ks) s = None" "routes ks' = kv_insert s (root_id r) (routes ks)" "root_id r \<in> set (roots ks')"
    "\<And>c. c \<in> set (roots ks') \<Longrightarrow> c \<noteq> root_id r \<Longrightarrow> parent_at ?v c = Some i"
  have inr: "root_id r \<in> set (kpages ks')" using roots_in_pages [OF a(11)] .
  have "?v (root_id r) \<noteq> None" "root_id r \<noteq> i" using reps_dom [OF grownD(3) [OF a(1)] inr] inr a(6) by auto
  then show ?thesis
  proof (rule parent_insert_run [OF bp' a(2,4,9) fit])
    fix bp2 v1 assume 1: "insert_into_parent (Suc g') (root_id (pick ks key)) s (root_id r) i (tr, bp') = (Inr (), (tr, bp2))"
      "pool_quiet bp2" "bp_count bp2 = bp_count bp'" "bp_view bp2 = reparented i {root_id r} v1"
      "int_at v1 i (first_id ks) (kv_insert s (root_id r) (routes ks)) p" "\<And>x. x \<noteq> i \<Longrightarrow> v1 x = bp_view bp' x"
    have at: "int_at v1 i (first_id ks') (routes ks') p" using 1(5) a(7,10) by simp
    have g1: "grown v n (Only (BNode i ks)) key val v1 (bp_count bp') (Only (BNode i ks'))"
      by (rule grown_node [OF a(1,3,5) at 1(6)])
    have g2: "grown v n (Only (BNode i ks)) key val (bp_view bp2) (bp_count bp2) (Only (BNode i ks'))"
      unfolding 1(3,4) by (rule grown_reparented [OF g1]) (use inr in simp)
    have "parent_at (bp_view bp2) i = Some p"
      unfolding 1(4) using parent_at_int [OF at] inr a(6) by (subst parent_at_other) auto
    moreover have "linked (bp_view bp2) (BNode i ks')" if "tame (BNode i ks) key"
      unfolding 1(4)
    proof (rule insert_linked [OF _ grownD(4) [OF a(1)] _ 1(6) a(6,11,12)])
      show "klinked ?v ks'" using that c(3) a(8) by (simp add: ktame_pick)
      show "reps v1 ks'" using grownD(3) [OF g1] by simp
    qed
    moreover have "unat (bp_count bp2) \<le> unat n + height (BNode i ks) + 1" using c(1) 1(3) height_pick [of ks key] by simp
    ultimately show ?thesis unfolding outcome_def 1(1) using 1(2) g2
      by (intro exI [of _ bp2] exI [of _ "Only (BNode i ks')"]) simp
  qed
qed

lemma split_linked:
  assumes rep: "reps v (kjoin as s bs)" and d: "distinct (kpages (kjoin as s bs))" and kl: "klinked v (kjoin as s bs)"
    and par: "\<forall>c \<in> set (roots as). parent_at v c = Some i"
    and v1: "\<And>x. x \<noteq> i \<Longrightarrow> x \<noteq> j \<Longrightarrow> v1 x = v x" "i \<notin> set (kpages (kjoin as s bs))" "j \<notin> set (kpages (kjoin as s bs))"
  shows "klinked (reparented j (set (roots bs)) v1) (More (BNode i as) s (Only (BNode j bs)))"
proof -
  have same: "\<forall>x \<in> set (kpages as @ kpages bs). v1 x = v x" using v1 by (metis kjoin_simps(3))
  then have kl1: "klinked v1 as" "klinked v1 bs" using klinked_cong [of v as v1] klinked_cong [of v bs v1] kl by auto
  have dis: "set (roots bs) \<inter> set (kpages as) = {}" using d roots_in_pages [of _ bs] by auto
  have "parent_at (reparented j (set (roots bs)) v1) c = Some i" if "c \<in> set (roots as)" for c
  proof -
    have "c \<in> set (kpages as)" using roots_in_pages [OF that] .
    then have "c \<notin> set (roots bs)" "v1 c = v c" using dis same by auto
    then show ?thesis using par that by (simp add: parent_at_other) (simp add: parent_at_def)
  qed
  moreover have "parent_at (reparented j (set (roots bs)) v1) c = Some j" if "c \<in> set (roots bs)" for c
  proof (rule parent_at_reparented [OF _ roots_in_pages [OF that] that])
    show "reps v1 bs" by (rule reps_cong [of v]) (use rep same in auto)
  qed
  moreover have "klinked (reparented j (set (roots bs)) v1) as" "klinked (reparented j (set (roots bs)) v1) bs"
    by (rule klinked_reparented; use kl1 d dis in auto)+
  ultimately show ?thesis by simp
qed

lemma new_in_right_half:
  assumes "kjoin as s' bs = ks'" and "last (roots ks') = c" and "distinct (kpages ks')"
  shows "c \<notin> set (roots as)"
proof -
  have split: "roots ks' = roots as @ roots bs" using assms(1) by (metis roots_kjoin)
  have "roots bs \<noteq> []" by (simp add: roots_def)
  then have "c \<in> set (roots bs)" using assms(2) split by (metis last_appendR last_in_set)
  moreover have "distinct (roots ks')" by (rule distinct_roots [OF assms(3)])
  ultimately show ?thesis using split by auto
qed

text \<open>Where an overfull node is cut, and the tree after the cut.\<close>

lemma cut_grown:
  assumes g: "grown v n ks key val v' n' ks'" and sm: "\<forall>e \<in> set (routes ks'). length (fst e) \<le> SMALL"
    and size: "int_size (routes ks') \<le> INTERNAL_CAPACITY + 8 + SMALL" "INTERNAL_CAPACITY < int_size (routes ks') + 8" and m: "m = length (routes ks') div 2"
  obtains as s' bs where "kjoin as s' bs = ks'" "routes ks' ! m = (s', first_id bs)" "drop (Suc m) (routes ks') = routes bs"
    "int_size (take m (routes ks')) \<le> INTERNAL_CAPACITY" "int_size (drop (Suc m) (routes ks')) \<le> INTERNAL_CAPACITY"
    "distinct (roots bs)" "\<forall>c \<in> set (roots bs). v' c \<noteq> None" "routes as = take m (routes ks')" "routes as \<noteq> []" "routes bs \<noteq> []"
proof -
  have "3 \<le> length (routes ks')" using int_size_bounds(1) [OF sm] size(2) by simp
  then have len: "m < length (routes ks')" "0 < m" "Suc m < length (routes ks')" "routes ks' \<noteq> []" by (auto simp: m)
  from len(1) obtain as s' bs where cut: "kjoin as s' bs = ks'" "routes ks' ! m = (s', first_id bs)" "routes as = take m (routes ks')"
    "routes bs = drop (Suc m) (routes ks')" by (rule kjoin_cut)
  have "distinct (kpages bs)" using grownD(4) [OF g] by (simp add: cut(1) [symmetric])
  moreover have "set (roots bs) \<subseteq> set (kpages ks')" using roots_in_pages [of _ bs] by (auto simp: cut(1) [symmetric])
  then have "\<forall>c \<in> set (roots bs). v' c \<noteq> None" using reps_dom [OF grownD(3) [OF g]] by auto
  ultimately show thesis using that [OF cut(1,2)] cut(3,4) int_halves_fit [OF sm size(1) m len(4)] distinct_roots len by auto
qed

lemma split_grown:
  assumes g: "grown v n ks key val v' n' ks'" and cut: "kjoin as s' bs = ks'" "first_id ks' = first_id ks" "routes as = take m (routes ks')"
    and ne: "routes as \<noteq> []" "routes bs \<noteq> []" and i: "i < n" "i \<notin> set (kpages ks)" "i \<notin> set (kpages ks')" and lt: "\<forall>x \<in> set (kpages ks). x < n" "n' < n' + 1"
    and v1: "int_at v1 i (first_id ks) (take m (routes ks')) p" "int_at v1 n' (first_id bs) (routes bs) INVALID_PAGE_ID"
      "\<And>x. x \<noteq> i \<Longrightarrow> x \<noteq> n' \<Longrightarrow> v1 x = v' x"
  shows "grown v n (Only (BNode i ks)) key val (reparented n' (set (roots bs)) v1) (n' + 1) (More (BNode i as) s' (Only (BNode n' bs)))"
    and "parent_at (reparented n' (set (roots bs)) v1) i = Some p"
proof -
  have "first_id as = first_id ks" using cut(1,2) by (metis kjoin_simps(1))
  with v1(1) cut(3) have at: "int_at v1 i (first_id as) (routes as) p" by simp
  have "grown v n (Only (BNode i ks)) key val v1 (n' + 1) (More (BNode i as) s' (Only (BNode n' bs)))"
    by (rule grown_split [where v' = v' and n' = n', OF _ ne i(1,2) _ lt(2,1) at v1(2,3)]) (use g cut(1) in simp_all)
  then show "grown v n (Only (BNode i ks)) key val (reparented n' (set (roots bs)) v1) (n' + 1) (More (BNode i as) s' (Only (BNode n' bs)))"
    by (rule grown_reparented) (use roots_in_pages [of _ bs] in auto)
  have "i \<notin> set (roots bs)" using roots_in_pages [of i bs] i(3) by (auto simp: cut(1) [symmetric])
  then show "parent_at (reparented n' (set (roots bs)) v1) i = Some p" using parent_at_int [OF at] by (simp add: parent_at_other)
qed

lemma outcome_split:
  assumes ready: "ready v n (BNode i ks) p key" and bp': "pool_quiet bp'"
    and g: "grown v n (Only (pick ks key)) key val (bp_view bp') (bp_count bp') (More l s (Only r))"
    and c: "unat (bp_count bp') \<le> unat n + height (pick ks key) + 1" "parent_at (bp_view bp') (root_id (pick ks key)) = Some i"
      "tame (pick ks key) key \<longrightarrow> klinked (bp_view bp') (More l s (Only r))"
    and fit: "\<not> int_size (routes ks) + 16 + length s \<le> INTERNAL_CAPACITY"
    and n: "unat n + height (BNode i ks) + 1 < 2 ^ 32" and f: "f \<le> Suc g' + height (pick ks key)"
  shows "outcome (insert_into_parent (Suc g') (root_id (pick ks key)) s (root_id r) i (tr, bp')) v n (BNode i ks) p key val f tr"
proof (rule above_split_child [OF ready g c(2)])
  let ?v = "bp_view bp'" and ?n = "bp_count bp'"
  fix ks' assume a: "grown v n ks key val ?v ?n ks'" "int_at ?v i (first_id ks) (routes ks) p" "i < n" "i \<noteq> INVALID_PAGE_ID"
    "i \<notin> set (kpages ks)" "i \<notin> set (kpages ks')" "first_id ks' = first_id ks" "klinked ?v (More l s (Only r)) \<Longrightarrow> klinked ?v ks'"
    "map_of (routes ks) s = None" "routes ks' = kv_insert s (root_id r) (routes ks)" "int_size (routes ks') = int_size (routes ks) + 8 + length s"
    "\<And>c. c \<in> set (roots ks') \<Longrightarrow> c \<noteq> root_id r \<Longrightarrow> parent_at ?v c = Some i"
    "\<forall>e \<in> set (routes ks). fst e \<le> key \<Longrightarrow> last (roots ks') = root_id r"
  have sm: "\<forall>e \<in> set (routes ks'). length (fst e) \<le> SMALL" "length s \<le> SMALL"
    using smalls_routes [OF grownD(10) [OF a(1)]] grownD(10) [OF g] ready by (auto simp: ready_def)
  have size: "int_size (routes ks') \<le> INTERNAL_CAPACITY + 8 + SMALL" "INTERNAL_CAPACITY < int_size (routes ks') + 8"
    using a(2,11) sm(2) fit by (auto simp: int_at_def int_wf_def)
  have pages: "\<forall>x \<in> set (kpages ks). x < n" using ready by (auto simp: ready_def)
  have new: "?n \<notin> set (kpages ks')" using grownD(5) [OF a(1)] pages grownD(1) [OF a(1)] by fastforce
  have "unat ?n \<noteq> 2 ^ 32 - 1" using c(1) n height_pick [of ks key] by simp
  then have room: "?n \<noteq> 0xFFFFFFFF" by auto
  then have lt: "?n < ?n + 1" "unat (?n + 1) = unat ?n + 1" using unat_succ by (simp_all add: word_less_nat_alt)
  define m where "m = length (routes ks') div 2"
  show ?thesis
  proof (rule cut_grown [OF a(1) sm(1) size m_def])
    fix as s' bs assume cut: "kjoin as s' bs = ks'" "routes ks' ! m = (s', first_id bs)" "drop (Suc m) (routes ks') = routes bs"
      "int_size (take m (routes ks')) \<le> INTERNAL_CAPACITY" "int_size (drop (Suc m) (routes ks')) \<le> INTERNAL_CAPACITY"
      "distinct (roots bs)" "\<forall>c \<in> set (roots bs). ?v c \<noteq> None" and half: "routes as = take m (routes ks')" "routes as \<noteq> []" "routes bs \<noteq> []"
    let ?new = "More (BNode i as) s' (Only (BNode ?n bs))"
    show ?thesis
    proof (rule split_internal_run [OF bp' a(2,4,9) fit a(10) m_def cut(2,3) roots_def cut(4,5) room cut(6,7)])
      fix bp2 v1 assume 1: "insert_into_parent (Suc g') (root_id (pick ks key)) s (root_id r) i (tr, bp')
          = insert_into_parent g' i s' ?n p (tr, bp2)" "pool_quiet bp2" "bp_count bp2 = ?n + 1"
        "bp_view bp2 = reparented ?n (set (roots bs)) v1" "int_at v1 i (first_id ks) (take m (routes ks')) p"
        "int_at v1 ?n (first_id bs) (routes bs) INVALID_PAGE_ID" "\<And>x. x \<noteq> i \<Longrightarrow> x \<noteq> ?n \<Longrightarrow> v1 x = ?v x"
      note sg = split_grown [OF a(1) cut(1) a(7) half a(3,5,6) pages lt(1) 1(5-7), folded 1(3,4)]
      have "klinked (bp_view bp2) ?new" if t: "tame (BNode i ks) key"
      proof -
        have "\<forall>e \<in> set (routes ks). fst e \<le> key" using t fit sm(2) by auto
        then have nr: "root_id r \<notin> set (roots as)" using new_in_right_half [OF cut(1)] a(13) grownD(4) [OF a(1)] by blast
        have "parent_at ?v c = Some i" if "c \<in> set (roots as)" for c
          by (rule a(12)) (use that cut(1) nr in \<open>auto simp: roots_kjoin [symmetric]\<close>)
        moreover have "klinked ?v ks'" using t c(3) a(8) by (simp add: ktame_pick)
        ultimately show ?thesis unfolding 1(4)
          by (intro split_linked) (use grownD(3,4) [OF a(1)] cut(1) 1(7) a(6) new in auto)
      qed
      moreover have "unat (bp_count bp2) \<le> unat n + height (BNode i ks) + 1" using c(1) lt(2) 1(3) height_pick [of ks key] by simp
      ultimately show ?thesis unfolding outcome_def 1(1) using 1(2) sg f
        by (intro exI [of _ bp2] exI [of _ ?new]) (use height_pick [of ks key] in \<open>auto intro!: exI [of _ g']\<close>)
    qed
  qed
qed

section \<open>The whole insert\<close>

lemma leaf_split_sizes:
  assumes srt: "sorted_kv es" "leaf_size es \<le> LEAF_CAPACITY" and sm: "\<forall>e \<in> set es. length (fst e) + length (snd e) \<le> SMALL"
    and new: "map_of es key = None" "length key + length val \<le> SMALL"
      "\<not> leaf_size es + 12 + length key + length val \<le> LEAF_CAPACITY"
    and es': "es' = kv_insert key val es" and m: "m = length es' div 2"
  shows "\<forall>e \<in> set es'. length (fst e) + length (snd e) \<le> SMALL" "0 < m" "m < length es'"
    "leaf_size (take m es') \<le> LEAF_CAPACITY" "leaf_size (drop m es') \<le> LEAF_CAPACITY"
proof -
  from kv_pos_ex [OF srt(1) new(1)] obtain k where k: "kv_pos es key k" ..
  show sm': "\<forall>e \<in> set es'. length (fst e) + length (snd e) \<le> SMALL"
    using set_kv_insert [of key val es] sm new(2) by (auto simp: es')
  have eq: "leaf_size es' = leaf_size es + 6 + length key + length val" using leaf_size_insert [OF k, of val] by (simp add: es')
  then have size: "leaf_size es' \<le> LEAF_CAPACITY + 6 + SMALL" using srt(2) new(2) by simp
  show "leaf_size (take m es') \<le> LEAF_CAPACITY" "leaf_size (drop m es') \<le> LEAF_CAPACITY"
    by (rule leaf_halves_fit [OF sm' size m])+
  have "156 * length es' > 3900" using leaf_size_bounds(1) [OF sm'] new(3) eq by simp
  then show "0 < m" "m < length es'" by (auto simp: m)
qed

lemma outcome_leaf:
  assumes q: "pool_quiet bp" and ready: "ready (bp_view bp) (bp_count bp) (BLeaf i es) p key"
    and nd: "bp_view bp i = Some (pg_data nd)" "pg_id nd = i"
    and new: "map_of es key = None" "length key + length val \<le> SMALL"
      "\<not> leaf_size es + 12 + length key + length val \<le> LEAF_CAPACITY" and n: "bp_count bp \<noteq> 0xFFFFFFFF"
  shows "outcome (split_and_insert_leaf f nd key val (tr, bp)) (bp_view bp) (bp_count bp) (BLeaf i es) p key val f tr"
proof -
  let ?v = "bp_view bp" and ?n = "bp_count bp"
  from ready obtain sib par where at: "leaf_at ?v i es sib par" and sm: "\<forall>e \<in> set es. length (fst e) + length (snd e) \<le> SMALL"
    and i: "i < ?n" and par: "parent_at ?v i = Some p" by (auto simp: ready_def)
  have "par = p" using parent_at_leaf [OF at] par by simp
  note leaf = leaf_at_node [OF at nd(1), unfolded this]
  have srt: "sorted_kv es" "leaf_size es \<le> LEAF_CAPACITY" using leaf(1,2) by (auto simp: leaf_wf_def)
  define es' where "es' = kv_insert key val es"
  define m where "m = length es' div 2"
  note sz = leaf_split_sizes [OF srt sm new es'_def m_def]
  show ?thesis
  proof (rule leaf_split_run [OF q nd leaf(1-4) new(1) es'_def m_def sz(2,4,5) n, of f tr])
    fix bp' assume 1: "split_and_insert_leaf f nd key val (tr, bp) = insert_into_parent f i (fst (es' ! m)) ?n p (tr, bp')"
      "pool_quiet bp'" "bp_count bp' = ?n + 1" "leaf_at (bp_view bp') i (take m es') ?n p"
      "leaf_at (bp_view bp') ?n (drop m es') sib INVALID_PAGE_ID" "\<And>x. x \<noteq> i \<Longrightarrow> x \<noteq> ?n \<Longrightarrow> bp_view bp' x = ?v x"
    let ?res = "More (BLeaf i (take m es')) (fst (es' ! m)) (Only (BLeaf ?n (drop m es')))"
    have lt: "?n < ?n + 1" using unat_succ [OF n] by (simp add: word_less_nat_alt)
    have "grown ?v ?n (Only (BLeaf i es)) key val (bp_view bp') (bp_count bp') ?res"
      unfolding 1(3) by (rule grown_leaf_split [OF at es'_def sz(2,3) m_def i order_refl lt sz(1) 1(4-6)])
    then show ?thesis unfolding outcome_def 1(1) using 1(2,3) unat_succ [OF n] parent_at_leaf [OF 1(4)]
      by (intro exI [of _ bp'] exI [of _ ?res]) (auto intro!: exI [of _ f])
  qed
qed

lemma outcome_node:
  assumes ready: "ready v n (BNode i ks) p key" and sub: "outcome W v n (pick ks key) i key val f tr"
    and n: "unat n + height (BNode i ks) + 1 < 2 ^ 32" and f: "height (BNode i ks) \<le> f"
  shows "outcome W v n (BNode i ks) p key val f tr"
  using sub unfolding outcome_def [of W v n "pick ks key"]
proof (elim exE conjE)
  fix bp' res assume o: "pool_quiet bp'" "grown v n (Only (pick ks key)) key val (bp_view bp') (bp_count bp') res"
    "unat (bp_count bp') \<le> unat n + height (pick ks key) + 1" "parent_at (bp_view bp') (root_id (pick ks key)) = Some i"
    "tame (pick ks key) key \<longrightarrow> klinked (bp_view bp') res"
    "(\<exists>t'. res = Only t' \<and> W = (Inr (), (tr, bp'))) \<or> (\<exists>l s r g. res = More l s (Only r) \<and> f \<le> g + height (pick ks key)
       \<and> W = insert_into_parent g (root_id (pick ks key)) s (root_id r) i (tr, bp'))"
  from o(6) show ?thesis
  proof (elim disjE exE conjE)
    fix t' assume t': "res = Only t'" "W = (Inr (), (tr, bp'))"
    show ?thesis unfolding t'(2) by (rule outcome_one [OF ready o(1-5) [unfolded t'(1)]])
  next
    fix l s r g assume r: "res = More l s (Only r)" "f \<le> g + height (pick ks key)"
      "W = insert_into_parent g (root_id (pick ks key)) s (root_id r) i (tr, bp')"
    have "height (pick ks key) < f" using f height_pick [of ks key] by simp
    with r(2) obtain g' where g': "g = Suc g'" by (cases g) auto
    show ?thesis
    proof (cases "int_size (routes ks) + 16 + length s \<le> INTERNAL_CAPACITY")
      case True
      show ?thesis unfolding r(3) g' by (rule outcome_fit [OF ready o(1-5) [unfolded r(1)] True])
    next
      case False
      show ?thesis unfolding r(3) g' by (rule outcome_split [OF ready o(1-5) [unfolded r(1)] False n]) (use r(2) g' in simp)
    qed
  qed
qed

lemma outcome_tree:
  assumes q: "pool_quiet bp" and "ready (bp_view bp) (bp_count bp) t p key"
    and "bp_view bp (fst (cover t key)) = Some (pg_data nd)" "pg_id nd = fst (cover t key)"
    and "map_of (snd (cover t key)) key = None" "length key + length val \<le> SMALL"
      "\<not> leaf_size (snd (cover t key)) + 12 + length key + length val \<le> LEAF_CAPACITY"
    and "unat (bp_count bp) + height t + 1 < 2 ^ 32" and "height t \<le> f"
  shows "outcome (split_and_insert_leaf f nd key val (tr, bp)) (bp_view bp) (bp_count bp) t p key val f tr"
  using assms(2-)
proof (induction "height t" arbitrary: t p rule: less_induct)
  case less
  show ?case
  proof (cases t)
    case (BLeaf i es)
    have "bp_count bp \<noteq> 0xFFFFFFFF" using less.prems(7) by auto
    with BLeaf less.prems show ?thesis using outcome_leaf [OF q, of i es p key nd val f tr] by simp
  next
    case (BNode i ks)
    let ?c = "pick ks key"
    have h: "height ?c < height t" using height_pick [of ks key] BNode by simp
    have cov: "cover t key = cover ?c key" by (simp add: BNode kcover_pick)
    have "outcome (split_and_insert_leaf f nd key val (tr, bp)) (bp_view bp) (bp_count bp) ?c i key val f tr"
      by (rule less.hyps [OF h ready_pick [OF less.prems(1) [unfolded BNode]]])
        (use less.prems cov h in simp_all)
    from outcome_node [OF less.prems(1) [unfolded BNode] this] less.prems(7,8) BNode show ?thesis by simp
  qed
qed

end
