(* ===== verification/Insert.thy ===== *)
theory Insert
  imports Climb
begin

text \<open>
  Correctness of \<open>bt_insert\<close>, splits included. The tree is an interpretation of the locale
  \<open>kv_index\<close> twice: for the invariant of theory \<open>Index\<close>, with inserts that find room in their leaf or
  meet a linked and small tree; and for linked and small trees, which stay linked while they
  have few pages.
\<close>

section \<open>The root\<close>

text \<open>The tree after an insert.\<close>

definition inserted :: "buffer_pool \<Rightarrow> btree \<Rightarrow> key \<Rightarrow> bytes \<Rightarrow> bplus_tree \<Rightarrow> buffer_pool \<Rightarrow> bool" where
  "inserted bp t key val tr' bp' \<longleftrightarrow> (\<exists>t'. tree_ok bp' t' \<and> root_id t' = root_page_id tr'
     \<and> entries t' = kv_insert key val (entries t) \<and> (tame t key \<longrightarrow> linked_tree bp' t')
     \<and> unat (bp_count bp') \<le> unat (bp_count bp) + height t + 2 \<and> height t' \<le> Suc (height t)
     \<and> set (seps t') \<subseteq> (if room_for t key val then {} else {middle (kv_insert key val (snd (cover t key)))}) \<union> set (seps t))"

lemma tree_ok_ready:
  assumes "tree_ok bp t" and "linked_tree bp t"
  shows "ready (bp_view bp) (bp_count bp) t INVALID_PAGE_ID key"
proof -
  have "\<forall>x \<in> set (pages t). x < bp_count bp \<and> x \<noteq> INVALID_PAGE_ID" using tree_ok_pages [OF assms(1)] by blast
  moreover have "\<exists>lo hi. ord lo hi t \<and> at_least lo key \<and> below hi key"
    using assms(1) by (intro exI [of _ None]) (simp add: tree_ok_def)
  ultimately show ?thesis using assms by (simp add: ready_def tree_ok_def linked_tree_def)
qed

lemma grown_chain:
  assumes ok: "tree_ok bp t" and g: "grown (bp_view bp) n (Only t) key val v' n' res"
  shows "chained v' (kleaves res)" "ords None None res" "kentries res = kv_insert key val (entries t)"
    "set (kseps res) \<subseteq> insert (middle (kv_insert key val (snd (cover t key)))) (set (seps t))" "kheight res \<le> height t"
    "kbalanced (height t) res" "kheight res = height t"
  using grownD(8) [OF g, of INVALID_PAGE_ID] grownD(9) [OF g, of None None] grownD(11) [OF g] grownD(12) [OF g, of "height t"] kbalanced_height ok
  by (simp_all add: tree_ok_def chained_seg)

lemma chained_reparented: "chained v ls \<Longrightarrow> chained (reparented q S v) ls"
  by (simp add: chained_seg seg_reparented)

lemma inserted_one:
  assumes ok: "tree_ok bp t" "root_id t = root_page_id tr" and bp': "pool_quiet bp'"
    and g: "grown (bp_view bp) (bp_count bp) (Only t) key val (bp_view bp') (bp_count bp') (Only t')"
    and c: "unat (bp_count bp') \<le> unat (bp_count bp) + height t + 1" "parent_at (bp_view bp') (root_id t) = Some INVALID_PAGE_ID"
      "tame t key \<longrightarrow> klinked (bp_view bp') (Only t')" and full: "\<not> room_for t key val"
  shows "inserted bp t key val tr bp'"
proof -
  note ch = grown_chain [OF ok(1) g]
  note D = grownD [OF g]
  have "tree_ok bp' t'" using bp' ch D(3,4) by (simp add: tree_ok_def)
  moreover have "root_id t' = root_page_id tr" using D(6) ok(2) by simp
  moreover have "linked_tree bp' t'" if "tame t key" using that c D(6,10) by (simp add: linked_tree_def)
  ultimately show ?thesis using ch(3-5) c(1) full unfolding inserted_def by (intro exI [of _ t']) auto
qed

lemma inserted_two:
  assumes ok: "tree_ok bp t" and bp': "pool_quiet bp'" "pool_quiet bp2"
    and g: "grown (bp_view bp) (bp_count bp) (Only t) key val (bp_view bp') (bp_count bp') (More l s (Only r))"
    and c: "unat (bp_count bp') \<le> unat (bp_count bp) + height t + 1"
      "tame t key \<longrightarrow> klinked (bp_view bp') (More l s (Only r))"
    and n: "bp_count bp' \<noteq> 0xFFFFFFFF" "bp_count bp2 = bp_count bp' + 1"
    and v: "bp_view bp2 = reparented (bp_count bp') {root_id l, root_id r} v1"
      "int_at v1 (bp_count bp') (root_id l) [(s, root_id r)] INVALID_PAGE_ID" "\<And>x. x \<noteq> bp_count bp' \<Longrightarrow> v1 x = bp_view bp' x"
    and full: "\<not> room_for t key val"
  shows "inserted bp t key val (tr\<lparr>root_page_id := bp_count bp'\<rparr>) bp2"
proof -
  let ?n = "bp_count bp'" and ?ks = "More l s (Only r)"
  note ch = grown_chain [OF ok g]
  note D = grownD [OF g]
  have new: "?n \<notin> set (kpages ?ks)" using D(1,5) tree_ok_pages(1) [OF ok] by fastforce
  then have same: "\<forall>x \<in> set (kpages ?ks). v1 x = bp_view bp' x" using v(3) by metis
  have reps1: "reps v1 ?ks" by (rule reps_cong [OF D(3) same])
  have "rep (bp_view bp2) (BNode ?n ?ks)"
    using reps_reparented [OF reps1] int_at_reparented [OF v(2)] unfolding v(1) by fastforce
  moreover have "chained (bp_view bp2) (kleaves ?ks)"
    unfolding v(1) by (rule chained_reparented, rule chained_cong [OF ch(1) leaf_pages_cong [OF same]])
  moreover have "balanced (height (BNode ?n ?ks)) (BNode ?n ?ks)" using ch(6) balanced_height by auto
  ultimately have "tree_ok bp2 (BNode ?n ?ks)" using bp'(2) ch(2) D(4) new by (simp add: tree_ok_def)
  moreover have "linked_tree bp2 (BNode ?n ?ks)" if t: "tame t key"
  proof -
    have "klinked v1 ?ks" by (rule klinked_cong [OF mp [OF c(2) t] same])
    then have "klinked (bp_view bp2) ?ks" unfolding v(1) by (rule klinked_reparented [OF _ D(4)]) auto
    moreover have "\<forall>x \<in> set (roots ?ks). parent_at (bp_view bp2) x = Some ?n"
      unfolding v(1) using parent_at_reparented [OF reps1 roots_in_pages] by auto
    moreover have "parent_at (bp_view bp2) ?n = Some INVALID_PAGE_ID"
      unfolding v(1) using parent_at_int [OF v(2)] new by (subst parent_at_other) auto
    ultimately show ?thesis using D(10) by (simp add: linked_tree_def)
  qed
  moreover have "unat (bp_count bp2) \<le> unat (bp_count bp) + height t + 2" using unat_succ [OF n(1)] n(2) c(1) by simp
  ultimately show ?thesis using ch(3-5) full unfolding inserted_def by (intro exI [of _ "BNode ?n ?ks"]) simp
qed

lemma split_insert_ok:
  assumes ok: "tree_ok bp t" "root_id t = root_page_id tr" "linked_tree bp t"
    and nd: "bp_view bp (fst (cover t key)) = Some (pg_data nd)" "pg_id nd = fst (cover t key)"
    and new: "map_of (snd (cover t key)) key = None" "length key + length val \<le> SMALL"
      "\<not> leaf_size (snd (cover t key)) + 12 + length key + length val \<le> LEAF_CAPACITY"
    and n: "unat (bp_count bp) + height t + 2 < 2 ^ 32" and f: "height t < f"
  obtains tr' bp' where "split_and_insert_leaf f nd key val (tr, bp) = (Inr (), (tr', bp'))" "inserted bp t key val tr' bp'"
proof -
  have q: "pool_quiet bp" using ok(1) by (simp add: tree_ok_def)
  have full: "\<not> room_for t key val" using new(1,3) by (simp add: room_for_def Let_def)
  have "outcome (split_and_insert_leaf f nd key val (tr, bp)) (bp_view bp) (bp_count bp) t INVALID_PAGE_ID key val f tr"
    by (rule outcome_tree [OF q tree_ok_ready [OF ok(1,3)] nd new]) (use n f in simp_all)
  then show thesis unfolding outcome_def
  proof (elim exE conjE disjE)
    fix bp' res t' assume o: "pool_quiet bp'" "grown (bp_view bp) (bp_count bp) (Only t) key val (bp_view bp') (bp_count bp') res"
      "unat (bp_count bp') \<le> unat (bp_count bp) + height t + 1" "parent_at (bp_view bp') (root_id t) = Some INVALID_PAGE_ID"
      "tame t key \<longrightarrow> klinked (bp_view bp') res" "res = Only t'" "split_and_insert_leaf f nd key val (tr, bp) = (Inr (), (tr, bp'))"
    from inserted_one [OF ok(1,2) o(1-5) [unfolded o(6)] full] o(7) that show thesis by blast
  next
    fix bp' res l s r g assume o: "pool_quiet bp'" "grown (bp_view bp) (bp_count bp) (Only t) key val (bp_view bp') (bp_count bp') res"
      "unat (bp_count bp') \<le> unat (bp_count bp) + height t + 1" "tame t key \<longrightarrow> klinked (bp_view bp') res"
      "res = More l s (Only r)" "f \<le> g + height t"
      "split_and_insert_leaf f nd key val (tr, bp) = insert_into_parent g (root_id t) s (root_id r) INVALID_PAGE_ID (tr, bp')"
    note D = grownD [OF o(2), unfolded o(5)]
    obtain g' where g': "g = Suc g'" using o(6) f by (cases g) auto
    have lroot: "root_id l = root_id t" using D(6) by simp
    have c': "bp_count bp' \<noteq> 0xFFFFFFFF" using o(3) n by auto
    have dom: "bp_view bp' (root_id l) \<noteq> None" "bp_view bp' (root_id r) \<noteq> None" using D(3) rep_root by auto
    have "root_id l \<notin> set (pages r)" using D(4) by (simp add: disjoint_iff)
    then have ne: "root_id l \<noteq> root_id r" by (metis root_in_pages)
    have sl: "8 + length s \<le> INTERNAL_CAPACITY" using D(10) by simp
    show thesis
    proof (rule split_root_run [OF o(1) c' sl dom ne, of g' tr])
      fix bp2 v1 assume 1: "insert_into_parent (Suc g') (root_id l) s (root_id r) INVALID_PAGE_ID (tr, bp')
          = (Inr (), (tr\<lparr>root_page_id := bp_count bp'\<rparr>, bp2))" "pool_quiet bp2" "bp_count bp2 = bp_count bp' + 1"
        "bp_view bp2 = reparented (bp_count bp') {root_id l, root_id r} v1"
        "int_at v1 (bp_count bp') (root_id l) [(s, root_id r)] INVALID_PAGE_ID" "\<And>x. x \<noteq> bp_count bp' \<Longrightarrow> v1 x = bp_view bp' x"
      have "inserted bp t key val (tr\<lparr>root_page_id := bp_count bp'\<rparr>) bp2"
        by (rule inserted_two [OF ok(1) o(1) 1(2) o(2-4) [unfolded o(5)] c' 1(3-6) full])
      with 1(1) o(7) g' lroot that show thesis by simp
    qed
  qed
qed

lemma inserted_same:
  "bp_view bp2 = bp_view bp \<Longrightarrow> bp_count bp2 = bp_count bp \<Longrightarrow> inserted bp2 t key val tr' bp' = inserted bp t key val tr' bp'"
  by (simp add: inserted_def)

lemma bt_insert_full:
  assumes t: "tree_ok bp t" "root_id t = root_page_id tr" and none: "map_of (snd (cover t key)) key = None"
    and full: "\<not> leaf_size (snd (cover t key)) + 12 + length key + length val \<le> LEAF_CAPACITY"
  obtains bp2 nd where "\<And>s'. split_and_insert_leaf (loop_fuel bp2) nd key val (tr, bp2) = (Inr (), s')
      \<Longrightarrow> bt_insert key val (tr, bp) = (Inr True, s')" "tree_ok bp2 t" "bp_view bp2 = bp_view bp" "bp_count bp2 = bp_count bp"
    "bp_view bp2 (fst (cover t key)) = Some (pg_data nd)" "pg_id nd = fst (cover t key)"
proof (rule read_cover_ok [OF t, of key])
  let ?c = "cover t key"
  fix bp1 bp2 nd assume r: "find_leaf tr key bp = (Inr (fst ?c), bp1)" "read_node (fst ?c) bp1 = (Inr nd, bp2)" "tree_ok bp2 t"
    "bp_view bp2 = bp_view bp" "bp_count bp2 = bp_count bp" "bp_view bp2 (fst ?c) = Some (pg_data nd)" "pg_id nd = fst ?c"
    "leaf_wf nd" "leaf_abs nd = snd ?c"
  have "bt_insert key val (tr, bp) = (Inr True, s')" if s: "split_and_insert_leaf (loop_fuel bp2) nd key val (tr, bp2) = (Inr (), s')" for s'
  proof (cases rule: leaf_find_slot_ok [OF r(8), of key, case_names found absent])
    case (found i)
    then have "map_of (leaf_abs nd) key \<noteq> None" using kv_found_lookup [of "leaf_abs nd" i] r(8) by (simp add: leaf_wf_def)
    then show ?thesis using none r(9) by simp
  next
    case (absent i)
    have "leaf_can_fit nd key val = Inr False" using leaf_can_fit_ok [OF r(8), of key val] full r(9) by simp
    with absent r(1,2) s show ?thesis by (simp add: bt_insert_def bindS_def get_tree_def in_pool_def)
  qed
  with that r(3-7) show thesis by blast
qed

lemma bt_insert_linked:
  assumes t: "tree_ok bp t" "root_id t = root_page_id tr" "linked_tree bp t"
    and new: "map_of (entries t) key = None" "length key + length val \<le> SMALL" and n: "unat (bp_count bp) + height t + 2 < 2 ^ 32"
  obtains tr' bp' where "bt_insert key val (tr, bp) = (Inr True, (tr', bp'))" "inserted bp t key val tr' bp'"
proof (cases "room_for t key val")
  case True
  show thesis
  proof (rule bt_insert_room_tree [OF t(1,2) True])
    fix bp' t' assume i: "bt_insert key val (tr, bp) = (Inr (map_of (entries t) key = None), (tr, bp'))" "tree_ok bp' t'"
      "root_id t' = root_id t" "entries t' = kv_insert key val (entries t)" "bp_count bp' = bp_count bp"
      "linked_tree bp t \<Longrightarrow> length key + length val \<le> SMALL \<Longrightarrow> linked_tree bp' t'" "seps t' = seps t" "height t' = height t"
    have "inserted bp t key val tr bp'" unfolding inserted_def using i t new True by (intro exI [of _ t']) auto
    with that i(1) new(1) show thesis by simp
  qed
next
  case False
  let ?c = "cover t key"
  have none: "map_of (snd ?c) key = None" using cover_lookup [of None None t key] t(1) new(1) by (simp add: tree_ok_def)
  then have full: "\<not> leaf_size (snd ?c) + 12 + length key + length val \<le> LEAF_CAPACITY" using False by (simp add: room_for_def Let_def)
  show thesis
  proof (rule bt_insert_full [OF t(1,2) none full])
    fix bp2 nd assume r: "\<And>s'. split_and_insert_leaf (loop_fuel bp2) nd key val (tr, bp2) = (Inr (), s')
        \<Longrightarrow> bt_insert key val (tr, bp) = (Inr True, s')" "tree_ok bp2 t" "bp_view bp2 = bp_view bp" "bp_count bp2 = bp_count bp"
      "bp_view bp2 (fst ?c) = Some (pg_data nd)" "pg_id nd = fst ?c"
    have linked2: "linked_tree bp2 t" and n2: "unat (bp_count bp2) + height t + 2 < 2 ^ 32" using t(3) r(3,4) n by (simp_all add: linked_tree_def)
    have f: "height t < loop_fuel bp2" using height_pages [of t] tree_ok_fuel [OF r(2)] by simp
    show thesis
      by (rule split_insert_ok [OF r(2) t(2) linked2 r(5,6) none new(2) full n2 f]) (use that r(1) inserted_same [OF r(3,4)] in blast)
  qed
qed

section \<open>The tree is an ordered index\<close>

text \<open>
  An insert of a new key is covered when its leaf has room, or when the tree is linked and small: then
  it may split nodes up to the root.
\<close>

definition index_split :: "bplus_tree \<Rightarrow> buffer_pool \<Rightarrow> key \<Rightarrow> bytes \<Rightarrow> entry list \<Rightarrow> bool" where
  "index_split tr bp key val es \<longleftrightarrow>
     (\<exists>t. tree_ok bp t \<and> root_id t = root_page_id tr \<and> entries t = es \<and> linked_tree bp t \<and> map_of es key = None
        \<and> length key + length val \<le> SMALL \<and> unat (bp_count bp) + height t + 2 < 2 ^ 32)"

definition tree_room :: "tree_pool \<Rightarrow> key \<Rightarrow> bytes \<Rightarrow> bool" where
  "tree_room s key val \<longleftrightarrow>
     (\<exists>es. index_room (fst s) (snd s) key val es \<or> index_split (fst s) (snd s) key val es)"

lemma bt_insert_ok:
  assumes "index_room tr bp key val es \<or> index_split tr bp key val es"
  shows "\<exists>s'. bt_insert key val (tr, bp) = (Inr (map_of es key = None), s') \<and> tree_index s' (kv_insert key val es)"
  using assms
proof
  assume "index_room tr bp key val es"
  then show ?thesis by (rule bt_insert_room_ok) (auto simp: tree_index_def)
next
  assume "index_split tr bp key val es"
  then obtain t where t: "tree_ok bp t" "root_id t = root_page_id tr" "linked_tree bp t" "map_of (entries t) key = None"
    "length key + length val \<le> SMALL" "unat (bp_count bp) + height t + 2 < 2 ^ 32" "entries t = es" by (auto simp: index_split_def)
  show ?thesis
    by (rule bt_insert_linked [OF t(1-6)]) (use t(4,7) in \<open>auto simp: inserted_def tree_index_def index_def\<close>)
qed

interpretation tree: shaped_tree tree_index tree_room
proof
  fix s :: tree_pool and es assume h: "tree_index s es"
  obtain tr bp where s: "s = (tr, bp)" by (cases s)
  from h s have idx: "index tr bp es" by (simp add: tree_index_def)
  show "\<exists>s'. bt_delete k s = (Inr (map_of es k), s') \<and> tree_index s' (kv_delete k es)" for k
    by (rule bt_delete_ok [OF idx, of k]) (auto simp: s tree_index_def)
  show "\<exists>s'. bt_insert k v s = (Inr (map_of es k = None), s') \<and> tree_index s' (kv_insert k v es)"
    if "tree_room s k v" for k v
  proof -
    from that s obtain es' where r: "index_room tr bp k v es' \<or> index_split tr bp k v es'" by (auto simp: tree_room_def)
    then have "index tr bp es'" by (auto simp: index_room_def index_split_def index_def)
    from index_unique [OF idx this] r bt_insert_ok [of tr bp k v es] show ?thesis by (auto simp: s)
  qed
qed (auto intro: tree_index_view)

text \<open>
  Linked trees. While there are at most \<open>FEW_PAGES\<close> pages, every internal node has room for one more
  separator, so that no internal node is split and the tree stays linked. A value is not replaced
  by a longer one: the code does not check whether the longer one fits.
\<close>

definition FEW_PAGES :: u32 where "FEW_PAGES = 26"

definition linked_room :: "tree_pool \<Rightarrow> key \<Rightarrow> bytes \<Rightarrow> bool" where
  "linked_room s key val \<longleftrightarrow> length key + length val \<le> SMALL \<and> bp_count (snd s) \<le> FEW_PAGES
     \<and> (\<forall>es old. tree_index s es \<longrightarrow> map_of es key = Some old \<longrightarrow> length val \<le> length old)"

lemma length_roots: "length (roots ks) \<le> length (kpages ks)"
proof (induction ks rule: kids_induct)
  case (1 t)
  show ?case by (cases t) auto
next
  case (2 t k ks)
  then show ?case by (cases t) auto
qed

lemma few_pages_tame:
  shows "length (pages t) \<le> 26 \<Longrightarrow> small t \<Longrightarrow> tame t key"
    and "length (kpages ks) \<le> 26 \<Longrightarrow> smalls ks \<Longrightarrow> ktame ks key"
proof (induction t and ks)
  case (BNode i ks)
  have "\<forall>e \<in> set (routes ks). length (fst e) \<le> SMALL" using smalls_routes [of ks] BNode.prems(2) by auto
  from int_size_bounds(1) [OF this] have "int_size (routes ks) \<le> 158 * length (routes ks)" .
  moreover have "length (routes ks) \<le> 24" using length_roots [of ks] BNode.prems(1) by (simp add: roots_def)
  ultimately show ?case using BNode by simp
qed auto

lemma linked_index_view:
  assumes "linked_index (tr, bp) es" and "pool_quiet bp'" and "bp_view bp' = bp_view bp"
  shows "linked_index (tr, bp') es"
  using assms(1,3) tree_ok_same [OF _ assms(2,3)] by (auto simp: linked_index_def linked_tree_def)

lemma leaf_size_shorter:
  assumes "sorted_kv xs" and "map_of xs k = Some old" and "length v \<le> length old"
  shows "leaf_size (kv_insert k v xs) \<le> leaf_size xs"
proof -
  from assms(2) obtain i where i: "i < length xs" "xs ! i = (k, old)" by (metis map_of_SomeD in_set_conv_nth)
  have "kv_insert k v xs = xs[i := (k, v)]" using kv_found_insert [OF assms(1) i(1), of v] i(2) by simp
  then have "leaf_size (kv_insert k v xs) = leaf_size (take i xs) + (6 + length k + length v) + leaf_size (drop (Suc i) xs)"
    using i(1) by (simp add: upd_conv_take_nth_drop)
  moreover have "leaf_size xs = leaf_size (take i xs) + (6 + length k + length old) + leaf_size (drop (Suc i) xs)"
    using id_take_nth_drop [OF i(1)] i(2) by (metis (no_types, lifting) add.assoc fst_conv leaf_size_simps(2,3) snd_conv)
  ultimately show ?thesis using assms(3) by simp
qed

lemma shorter_room_for:
  assumes t: "tree_ok bp t" and old: "map_of (entries t) key = Some old" and len: "length val \<le> length old"
  shows "room_for t key val"
proof -
  let ?c = "snd (cover t key)"
  have ord: "ord None None t" using t by (simp add: tree_ok_def)
  have look: "map_of ?c key = Some old" using cover_lookup [OF ord, of key] old by simp
  obtain sib par where "leaf_at (bp_view bp) (fst (cover t key)) ?c sib par"
    using rep_leaf [of "bp_view bp" t "fst (cover t key)" ?c] cover_in_leaves [of t key] t by (auto simp: tree_ok_def)
  then have c: "sorted_kv ?c" "leaf_size ?c \<le> LEAF_CAPACITY" by (auto simp: leaf_at_def leaf_wf_def)
  from leaf_size_shorter [OF c(1) look len] c(2) look show ?thesis by (simp add: room_for_def Let_def)
qed

lemma linked_insert:
  assumes h: "linked_index (tr, bp) es" and room: "linked_room (tr, bp) key val"
  shows "\<exists>s'. bt_insert key val (tr, bp) = (Inr (map_of es key = None), s') \<and> linked_index s' (kv_insert key val es)"
proof -
  from h obtain t where t: "tree_ok bp t" "root_id t = root_page_id tr" "entries t = es" "linked_tree bp t"
    by (auto simp: linked_index_def)
  have sm: "length key + length val \<le> SMALL" and few: "bp_count bp \<le> 26" using room by (simp_all add: linked_room_def FEW_PAGES_def)
  show ?thesis
  proof (cases "map_of es key")
    case (Some old)
    have "length val \<le> length old" using room linked_index_index [OF h] Some by (auto simp: linked_room_def)
    from shorter_room_for [OF t(1) Some [folded t(3)] this] have "room_for t key val" .
    from bt_insert_room_tree [OF t(1,2) this] t sm show ?thesis by (metis fst_conv snd_conv linked_index_def)
  next
    case None
    have len: "length (pages t) \<le> unat (bp_count bp)" using tree_ok_fuel [OF t(1)] by (simp add: loop_fuel_def bp_count_def)
    have u: "unat (bp_count bp) \<le> 26" using few by (simp add: word_le_nat_alt)
    then have tame: "tame t key" using few_pages_tame(1) [of t key] len t(4) by (simp add: linked_tree_def)
    have n: "unat (bp_count bp) + height t + 2 < 2 ^ 32" using u len height_pages [of t] by simp
    have new: "map_of (entries t) key = None" using None t(3) by simp
    show ?thesis
      by (rule bt_insert_linked [OF t(1,2,4) new sm n]) (use None tame t(3) in \<open>auto simp: inserted_def linked_index_def\<close>)
  qed
qed

lemma linked_delete:
  assumes "linked_index (tr, bp) es"
  shows "\<exists>s'. bt_delete k (tr, bp) = (Inr (map_of es k), s') \<and> linked_index s' (kv_delete k es)"
proof -
  from assms obtain t where t: "tree_ok bp t" "root_id t = root_page_id tr" "entries t = es" "linked_tree bp t"
    by (auto simp: linked_index_def)
  show ?thesis by (rule bt_delete_tree [OF t(1,2), of k]) (use t in \<open>auto simp: linked_index_def\<close>)
qed

interpretation linked: shaped_tree linked_index linked_room
proof
  fix s :: tree_pool and es assume h: "linked_index s es"
  show "\<exists>s'. bt_insert k v s = (Inr (map_of es k = None), s') \<and> linked_index s' (kv_insert k v es)" if "linked_room s k v" for k v
    using h that linked_insert by (cases s) blast
  show "\<exists>s'. bt_delete k s = (Inr (map_of es k), s') \<and> linked_index s' (kv_delete k es)" for k
    using h linked_delete by (cases s) blast
qed (auto intro: linked_index_index linked_index_view)

section \<open>A full leaf\<close>

definition sample :: "nat \<Rightarrow> entry list" where
  "sample n = map (\<lambda>i. ([of_nat i], replicate 149 0)) [0..<n]"

lemma sample_Suc: "n < 255 \<Longrightarrow> kv_insert [of_nat n] (replicate 149 0) (sample n) = sample (Suc n)"
proof -
  assume n: "n < 255"
  have "\<forall>e \<in> set (sample n). fst e < [of_nat n]" using n by (auto simp: sample_def word_less_nat_alt unat_of_nat)
  from kv_insert_append_right [OF this, of "replicate 149 0" "[]"] show ?thesis by (simp add: sample_def kv_insert_def)
qed

lemma leaf_size_sample: "leaf_size (sample n) = 156 * n"
  by (induction n) (simp_all add: sample_def)

lemma sample_new: "n < 255 \<Longrightarrow> map_of (sample n) [of_nat n] = None"
  by (auto simp: map_of_eq_None_iff sample_def word_unat_eq_iff unat_of_nat)

lemma sample_room:
  assumes "tree_ok bp t" and "entries t = sample n" and "n < 26"
  shows "room_for t [of_nat n] (replicate 149 0)"
proof -
  let ?k = "[of_nat n] :: key"
  have "leaf_size (snd (cover t ?k)) \<le> leaf_size (sample n)"
    using leaf_size_concat [OF cover_in_leaves [of t ?k]] assms(2) by (simp add: entries_def)
  moreover have "map_of (snd (cover t ?k)) ?k = None"
    using cover_lookup [of None None t ?k] assms sample_new [of n] by (simp add: tree_ok_def)
  ultimately show ?thesis using assms(3) by (simp add: room_for_def leaf_size_sample)
qed

lemma sample_tree:
  assumes "n \<le> 26"
  obtains tr :: bplus_tree and bp t where "tree_ok bp t" "root_id t = root_page_id tr" "entries t = sample n" "linked_tree bp t" "bp_count bp = 1"
  using assms
proof (induction n arbitrary: thesis)
  case 0
  have "(0 :: nat) < 4" by simp
  note new = bp_new_ok [OF dm_inv_open_empty(1) this, of "''d''"]
  let ?bp = "bp_new (dm_open ''d'' []) 4"
  have q: "pool_quiet ?bp" "bp_count ?bp = 0" using new by (simp_all add: pool_quiet_def bp_count_def)
  show ?case
  proof (rule bt_create_ok [OF q(1)])
    fix bp' assume "bp_count bp' = bp_count ?bp + 1" "linked_index (\<lparr>root_page_id = bp_count ?bp\<rparr>, bp') []"
    then show ?thesis using 0(1) [of bp' _ "\<lparr>root_page_id = 0\<rparr>"] q(2) by (auto simp: linked_index_def sample_def)
  qed (use q(2) in simp)
next
  case (Suc n)
  let ?k = "[of_nat n] :: key" and ?v = "replicate 149 0 :: bytes"
  have le: "n \<le> 26" "n < 255" using Suc.prems(2) by simp_all
  show ?case
  proof (rule Suc.IH [OF _ le(1)])
    fix tr :: bplus_tree and bp t assume t: "tree_ok bp t" "root_id t = root_page_id tr" "entries t = sample n" "linked_tree bp t" "bp_count bp = 1"
    have room: "room_for t ?k ?v" using sample_room [OF t(1,3)] Suc.prems(2) by simp
    show ?thesis
      by (rule bt_insert_room_tree [OF t(1,2) room]) (use Suc.prems(1) t sample_Suc [OF le(2)] in auto)
  qed
qed

lemma one_page_leaf:
  assumes "tree_ok bp t" and "bp_count bp = 1"
  obtains i where "t = BLeaf i (entries t)"
proof (cases t)
  case (BNode i ks)
  have "length (pages t) \<le> 1" using tree_ok_fuel [OF assms(1)] assms(2) by (simp add: loop_fuel_def bp_count_def)
  with BNode length_roots [of ks] show thesis by (simp add: roots_def)
qed (use that in simp)

section \<open>Properties\<close>



text \<open>
  C10. Parent pointers stay right: inserting a new key into a tree whose parent pointers are right and
  whose entries and separators are at most 150 bytes long gives such a tree again, if every
  internal node on the path has room for a separator or the key belongs into its last child.
\<close>

theorem tree_links_kept:
  assumes "tree_ok bp t" and "root_id t = root_page_id tr" and "linked_tree bp t" and "tame t key"
    and "map_of (entries t) key = None" and "length key + length val \<le> 150"
    and "unat (bp_count bp) + height t + 2 < 2 ^ 32" and "bt_insert key val (tr, bp) = (r, (tr', bp'))"
  shows "r = Inr True \<and> linked_index (tr', bp') (kv_insert key val (entries t))
    \<and> unat (bp_count bp') \<le> unat (bp_count bp) + height t + 2"
proof -
  have "length key + length val \<le> SMALL" using assms(6) by simp
  from bt_insert_linked [OF assms(1-3,5) this assms(7)] assms(4,8) show ?thesis
    by (auto simp: inserted_def linked_index_def)
qed

theorem tree_links_kept_witness:
  "\<exists>tr bp s'. bt_insert [26] (replicate 149 0) (tr, bp) = (Inr True, s') \<and> linked_index s' (sample 27)"
proof (rule sample_tree [of 26])
  let ?v = "replicate 149 0 :: bytes"
  fix tr :: bplus_tree and bp t
  assume t: "tree_ok bp t" "root_id t = root_page_id tr" "entries t = sample 26" "linked_tree bp t" "bp_count bp = 1"
  obtain i where leaf: "t = BLeaf i (sample 26)" using one_page_leaf [OF t(1,5)] t(3) by metis
  obtain r tr' bp' where run: "bt_insert [26] ?v (tr, bp) = (r, (tr', bp'))" by (metis surj_pair)
  have "map_of (entries t) [26] = None" "kv_insert [26] ?v (sample 26) = sample 27"
    using sample_new [of 26] sample_Suc [of 26] t(3) by simp_all
  with tree_links_kept [OF t(1,2,4) _ _ _ _ run] leaf t(3,5) run show ?thesis
    by (intro exI [of _ tr] exI [of _ bp] exI [of _ "(tr', bp')"]) simp
qed simp

text \<open>
  C36. The sizes of keys and values are never checked: replacing the value of a key that is alone in
  its leaf by one that does not fit into a page together with its key makes the insert panic.
\<close>

theorem oversized_update_panics:
  assumes "tree_ok bp t" and "root_id t = root_page_id tr" and "snd (cover t key) = [(key, old)]"
    and "PAGE_SIZE < length key + length val"
  shows "\<exists>s'. bt_insert key val (tr, bp) = (Inl Panic, s')"
proof (rule read_cover_ok [OF assms(1,2), of key])
  let ?c = "cover t key"
  fix bp1 bp2 nd assume r: "find_leaf tr key bp = (Inr (fst ?c), bp1)" "read_node (fst ?c) bp1 = (Inr nd, bp2)"
    "leaf_wf nd" "leaf_abs nd = snd ?c"
  have abs: "leaf_abs nd = [(key, old)]" using r(4) assms(3) by simp
  show ?thesis
  proof (cases rule: leaf_find_slot_ok [OF r(3), of key, case_names found absent])
    case (found i)
    with r(1,2) leaf_update_overflow [OF r(3) abs assms(4)] show ?thesis
      by (simp add: bt_insert_def bindS_def get_tree_def in_pool_def)
  next
    case (absent i)
    from kv_pos_absent [OF absent(2)] abs show ?thesis by simp
  qed
qed

theorem oversized_update_panics_witness:
  "\<exists>tr bp s'. index tr bp (sample 1) \<and> bt_insert [0] (replicate 4096 7) (tr, bp) = (Inl Panic, s')"
proof (rule sample_tree [of 1])
  fix tr :: bplus_tree and bp t
  assume t: "tree_ok bp t" "root_id t = root_page_id tr" "entries t = sample 1" "bp_count bp = 1"
  obtain i where leaf: "t = BLeaf i (sample 1)" using one_page_leaf [OF t(1,4)] t(3) by metis
  have "snd (cover t [0]) = [([0], replicate 149 0)]" unfolding leaf by (simp add: sample_def)
  from oversized_update_panics [OF t(1,2) this, of "replicate 4096 7"] t(1-3) show ?thesis
    unfolding index_def by (simp only: length_replicate) fastforce
qed simp

end
