(* ===== verification/Lock_Manager.thy ===== *)
theory Lock_Manager
  imports Prelude
begin

text \<open>
  The lock manager of \<^verbatim>\<open>src/src/txn/lock_manager.rs\<close>. Hash maps are maps and hash sets are
  sets; the loop of \<^verbatim>\<open>release_all\<close> over a hash set visits the resources in ascending order
  here, and \<open>release_order\<close> shows that the order does not matter as long as nobody waits.

  \<open>held lm t r\<close> is the mode in which transaction \<open>t\<close> holds resource \<open>r\<close>. The invariant
  \<open>lm_inv\<close> (the two tables agree, an exclusive lock has one holder, no entry without holder)
  is kept by every operation, the granting of waiters included. No operation ever enqueues a
  waiter: \<open>no_waiters\<close> is an invariant too. The locale \<open>lock_service\<close> is what the
  transaction manager relies on.
\<close>

section \<open>The code\<close>

datatype lock_mode = Shared | Exclusive

type_synonym resource_id = u32

record lock_entry =
  le_mode :: lock_mode
  le_holders :: "u64 set"
  le_wait_queue :: "(u64 \<times> lock_mode) list"

record lock_manager =
  lock_table :: "resource_id \<rightharpoonup> lock_entry"
  txn_locks :: "u64 \<rightharpoonup> resource_id set"

definition lm_new :: lock_manager where
  "lm_new = \<lparr>lock_table = Map.empty, txn_locks = Map.empty\<rparr>"

text \<open>\<^verbatim>\<open>txn_locks.entry(txn_id).or_insert_with(HashSet::new).insert(resource)\<close>\<close>

definition add_lock :: "u64 \<Rightarrow> resource_id \<Rightarrow> (u64 \<rightharpoonup> resource_id set) \<Rightarrow> u64 \<rightharpoonup> resource_id set" where
  "add_lock txn r tls = tls(txn \<mapsto> insert r (case tls txn of None \<Rightarrow> {} | Some rs \<Rightarrow> rs))"

definition acquire :: "u64 \<Rightarrow> resource_id \<Rightarrow> lock_mode \<Rightarrow> (lock_manager, bool) op" where
  "acquire txn r mode lm0 =
     (let entry = (case lock_table lm0 r of
            Some e \<Rightarrow> e
          | None \<Rightarrow> \<lparr>le_mode = Shared, le_holders = {}, le_wait_queue = []\<rparr>);
          lm = lm0\<lparr>lock_table := (lock_table lm0)(r \<mapsto> entry)\<rparr>
      in if txn \<in> le_holders entry then
           if le_mode entry = Shared \<and> mode = Exclusive then
             if card (le_holders entry) = 1 then
               (Inr True, lm\<lparr>lock_table := (lock_table lm)(r \<mapsto> entry\<lparr>le_mode := Exclusive\<rparr>)\<rparr>)
             else (Inl (Err (LockConflict txn)), lm)
           else (Inr False, lm)
         else if le_holders entry = {} then
           (Inr True, lm\<lparr>lock_table := (lock_table lm)(r \<mapsto> entry\<lparr>le_mode := mode, le_holders := {txn}\<rparr>),
                         txn_locks := add_lock txn r (txn_locks lm)\<rparr>)
         else (case (le_mode entry, mode) of
             (Shared, Shared) \<Rightarrow>
               (Inr True, lm\<lparr>lock_table := (lock_table lm)(r \<mapsto> entry\<lparr>le_holders := insert txn (le_holders entry)\<rparr>),
                             txn_locks := add_lock txn r (txn_locks lm)\<rparr>)
           | _ \<Rightarrow> (Inl (Err (LockConflict txn)), lm)))"

text \<open>The inner loop of \<^verbatim>\<open>release_all\<close>: the shared waiters at the front of the queue.\<close>

fun grant_shared :: "resource_id \<Rightarrow> u64 set \<Rightarrow> (u64 \<times> lock_mode) list \<Rightarrow> (u64 \<rightharpoonup> resource_id set) \<Rightarrow>
    u64 set \<times> (u64 \<times> lock_mode) list \<times> (u64 \<rightharpoonup> resource_id set)" where
  "grant_shared r hs [] tls = (hs, [], tls)"
| "grant_shared r hs ((next_txn, next_mode) # q) tls =
     (if next_mode = Shared then grant_shared r (insert next_txn hs) q (add_lock next_txn r tls)
      else (hs, (next_txn, next_mode) # q, tls))"

text \<open>The first waiter of an entry that has lost its last holder, and who else goes with it.\<close>

definition grant_waiters :: "resource_id \<Rightarrow> lock_entry \<Rightarrow> (u64 \<rightharpoonup> resource_id set) \<Rightarrow>
    lock_entry \<times> (u64 \<rightharpoonup> resource_id set)" where
  "grant_waiters r entry tls =
     (case le_wait_queue entry of
        [] \<Rightarrow> (entry, tls)
      | (waiter_txn, waiter_mode) # q \<Rightarrow>
          let hs = insert waiter_txn (le_holders entry); tls1 = add_lock waiter_txn r tls
          in if waiter_mode = Shared then
               case grant_shared r hs q tls1 of (hs', q', tls') \<Rightarrow>
                 (\<lparr>le_mode = waiter_mode, le_holders = hs', le_wait_queue = q'\<rparr>, tls')
             else (\<lparr>le_mode = waiter_mode, le_holders = hs, le_wait_queue = q\<rparr>, tls1))"

definition release_resource :: "u64 \<Rightarrow> resource_id \<Rightarrow> lock_manager \<Rightarrow> lock_manager" where
  "release_resource txn r lm =
     (case lock_table lm r of
        None \<Rightarrow> lm
      | Some entry0 \<Rightarrow>
          let entry = entry0\<lparr>le_holders := le_holders entry0 - {txn}\<rparr>
          in if le_holders entry = {} then
               case grant_waiters r entry (txn_locks lm) of (entry', tls) \<Rightarrow>
                 if le_holders entry' = {} \<and> le_wait_queue entry' = []
                 then lm\<lparr>lock_table := (lock_table lm)(r := None), txn_locks := tls\<rparr>
                 else lm\<lparr>lock_table := (lock_table lm)(r \<mapsto> entry'), txn_locks := tls\<rparr>
             else lm\<lparr>lock_table := (lock_table lm)(r \<mapsto> entry)\<rparr>)"

definition release_all :: "u64 \<Rightarrow> lock_manager \<Rightarrow> lock_manager" where
  "release_all txn lm =
     (case txn_locks lm txn of
        None \<Rightarrow> lm
      | Some resources \<Rightarrow>
          fold (release_resource txn) (sorted_list_of_set resources)
            (lm\<lparr>txn_locks := (txn_locks lm)(txn := None)\<rparr>))"

definition holds_lock :: "lock_manager \<Rightarrow> u64 \<Rightarrow> resource_id \<Rightarrow> bool" where
  "holds_lock lm txn r = (case lock_table lm r of Some entry \<Rightarrow> txn \<in> le_holders entry | None \<Rightarrow> False)"

definition num_locks :: "lock_manager \<Rightarrow> nat" where
  "num_locks lm = card (dom (lock_table lm))"

definition num_transactions :: "lock_manager \<Rightarrow> nat" where
  "num_transactions lm = card (dom (txn_locks lm))"

section \<open>The invariant\<close>

definition in_txn :: "lock_manager \<Rightarrow> u64 \<Rightarrow> resource_id \<Rightarrow> bool" where
  "in_txn lm txn r \<longleftrightarrow> (\<exists>rs. txn_locks lm txn = Some rs \<and> r \<in> rs)"

definition entry_ok :: "lock_entry \<Rightarrow> bool" where
  "entry_ok e \<longleftrightarrow> finite (le_holders e) \<and> le_holders e \<noteq> {}
     \<and> (le_mode e = Exclusive \<longrightarrow> (\<exists>t. le_holders e = {t}))"

text \<open>
  \<open>lm_inv_but txn R\<close> is the invariant in the middle of \<open>release_all txn\<close>, when the resources
  \<open>R\<close> are still to be released: only they are missing from \<open>txn_locks\<close>.
\<close>

definition lm_inv_but :: "u64 \<Rightarrow> resource_id set \<Rightarrow> lock_manager \<Rightarrow> bool" where
  "lm_inv_but txn R lm \<longleftrightarrow>
     (\<forall>r e. lock_table lm r = Some e \<longrightarrow> entry_ok e)
   \<and> (\<forall>t r. in_txn lm t r \<longleftrightarrow> holds_lock lm t r \<and> \<not> (t = txn \<and> r \<in> R))
   \<and> (\<forall>t rs. txn_locks lm t = Some rs \<longrightarrow> finite rs \<and> rs \<noteq> {})
   \<and> finite (dom (lock_table lm)) \<and> finite (dom (txn_locks lm))"

abbreviation lm_inv :: "lock_manager \<Rightarrow> bool" where
  "lm_inv \<equiv> lm_inv_but 0 {}"

definition no_waiters :: "lock_manager \<Rightarrow> bool" where
  "no_waiters lm \<longleftrightarrow> (\<forall>r e. lock_table lm r = Some e \<longrightarrow> le_wait_queue e = [])"

definition held :: "lock_manager \<Rightarrow> u64 \<Rightarrow> resource_id \<Rightarrow> lock_mode option" where
  "held lm txn r = (case lock_table lm r of
     None \<Rightarrow> None
   | Some e \<Rightarrow> if txn \<in> le_holders e then Some (le_mode e) else None)"

lemma holds_lock_held: "holds_lock lm t r \<longleftrightarrow> held lm t r \<noteq> None"
  by (simp add: holds_lock_def held_def split: option.splits)

lemma add_lock_at: "add_lock t r tls t' =
    (if t' = t then Some (insert r (case tls t of None \<Rightarrow> {} | Some rs \<Rightarrow> rs)) else tls t')"
  by (simp add: add_lock_def)

lemma add_lock_member:
  "(\<exists>rs. add_lock t r tls t' = Some rs \<and> r' \<in> rs) \<longleftrightarrow> (t' = t \<and> r' = r) \<or> (\<exists>rs. tls t' = Some rs \<and> r' \<in> rs)"
  by (auto simp: add_lock_at split: option.splits)

lemma add_lock_ok:
  assumes "\<forall>t rs. tls t = Some rs \<longrightarrow> finite rs \<and> rs \<noteq> {}"
  shows "\<forall>t rs. add_lock u r tls t = Some rs \<longrightarrow> finite rs \<and> rs \<noteq> {}"
  using assms by (auto simp: add_lock_at split: option.splits)

lemma add_lock_dom [simp]: "dom (add_lock t r tls) = insert t (dom tls)"
  by (simp add: add_lock_def)

lemma lm_inv_butD:
  assumes "lm_inv_but txn R lm"
  shows "lock_table lm r = Some e \<Longrightarrow> entry_ok e"
    and "in_txn lm t r \<longleftrightarrow> holds_lock lm t r \<and> \<not> (t = txn \<and> r \<in> R)"
    and "txn_locks lm t = Some rs \<Longrightarrow> finite rs \<and> rs \<noteq> {}"
    and "finite (dom (lock_table lm))" and "finite (dom (txn_locks lm))"
  using assms by (auto simp: lm_inv_but_def)

lemma new_inv [simp]: "lm_inv lm_new" "no_waiters lm_new" "held lm_new t r = None"
  by (auto simp: lm_inv_but_def no_waiters_def held_def lm_new_def in_txn_def holds_lock_def)

section \<open>Acquiring\<close>

text \<open>What a transaction must not meet to get a lock: another holder in an incompatible mode.\<close>

definition conflict :: "lock_manager \<Rightarrow> u64 \<Rightarrow> resource_id \<Rightarrow> lock_mode \<Rightarrow> bool" where
  "conflict lm txn r mode \<longleftrightarrow> (\<exists>t m. t \<noteq> txn \<and> held lm t r = Some m \<and> (m = Exclusive \<or> mode = Exclusive))"

text \<open>An exclusive lock covers a shared request.\<close>

definition stronger :: "lock_mode \<Rightarrow> lock_mode option \<Rightarrow> lock_mode" where
  "stronger m h = (if h = Some Exclusive then Exclusive else m)"

lemma held_upd:
  "held (lm\<lparr>lock_table := (lock_table lm)(r \<mapsto> e)\<rparr>) t r' =
     (if r' = r then if t \<in> le_holders e then Some (le_mode e) else None else held lm t r')"
  by (simp add: held_def)

lemma held_txn_locks [simp]: "held (lm\<lparr>txn_locks := tls\<rparr>) = held lm"
  by (simp add: held_def fun_eq_iff)


lemma inv_grant:
  assumes inv: "lm_inv lm" and ok: "entry_ok e" and t: "\<not> holds_lock lm t r"
    and hs: "le_holders e = insert t {u. holds_lock lm u r}"
  shows "lm_inv (lm\<lparr>lock_table := (lock_table lm)(r \<mapsto> e), txn_locks := add_lock t r (txn_locks lm)\<rparr>)"
proof -
  let ?lm = "lm\<lparr>lock_table := (lock_table lm)(r \<mapsto> e), txn_locks := add_lock t r (txn_locks lm)\<rparr>"
  have holds: "holds_lock ?lm u s \<longleftrightarrow> holds_lock lm u s \<or> u = t \<and> s = r" for u s
    using hs by (auto simp: holds_lock_def)
  have "in_txn ?lm u s \<longleftrightarrow> in_txn lm u s \<or> u = t \<and> s = r" for u s
    using add_lock_member [of t r "txn_locks lm" u s] by (auto simp: in_txn_def)
  then show ?thesis
    using inv ok holds add_lock_ok [of "txn_locks lm" t r] by (simp add: lm_inv_but_def)
qed

lemma inv_mode:
  assumes inv: "lm_inv lm" and e: "lock_table lm r = Some e" and ok: "entry_ok e'"
    and hs: "le_holders e' = le_holders e"
  shows "lm_inv (lm\<lparr>lock_table := (lock_table lm)(r \<mapsto> e')\<rparr>)"
proof -
  let ?lm = "lm\<lparr>lock_table := (lock_table lm)(r \<mapsto> e')\<rparr>"
  have "holds_lock ?lm u s = holds_lock lm u s" "in_txn ?lm u s = in_txn lm u s" for u s
    using hs e by (auto simp: holds_lock_def in_txn_def)
  then show ?thesis using inv ok by (simp add: lm_inv_but_def)
qed

lemma no_waiters_upd:
  "no_waiters lm \<Longrightarrow> le_wait_queue e = [] \<Longrightarrow>
     no_waiters (lm\<lparr>lock_table := (lock_table lm)(r \<mapsto> e)\<rparr>)"
  "no_waiters (lm\<lparr>txn_locks := tls\<rparr>) = no_waiters lm"
  by (auto simp: no_waiters_def)

text \<open>The outcome of a request, on every branch.\<close>

definition granted :: "lock_manager \<Rightarrow> u64 \<Rightarrow> resource_id \<Rightarrow> lock_mode \<Rightarrow> lock_manager \<Rightarrow> bool" where
  "granted lm t r m lm' \<longleftrightarrow> lm_inv lm' \<and> (no_waiters lm \<longrightarrow> no_waiters lm')
     \<and> (\<forall>t' r'. held lm' t' r' = (if t' = t \<and> r' = r then Some (stronger m (held lm t r)) else held lm t' r'))"

lemma acquire_absent:
  assumes inv: "lm_inv lm" and none: "lock_table lm r = None"
  shows "\<exists>lm'. acquire t r m lm = (Inr True, lm') \<and> granted lm t r m lm'"
proof -
  let ?e = "\<lparr>le_mode = m, le_holders = {t}, le_wait_queue = []\<rparr>"
  let ?lm = "lm\<lparr>lock_table := (lock_table lm)(r \<mapsto> ?e), txn_locks := add_lock t r (txn_locks lm)\<rparr>"
  have "acquire t r m lm = (Inr True, ?lm)" using none by (simp add: acquire_def)
  moreover have "lm_inv ?lm"
    by (rule inv_grant [OF inv]) (auto simp: entry_ok_def holds_lock_def none)
  ultimately show ?thesis using none
    by (auto simp: granted_def no_waiters_def held_def stronger_def)
qed

lemma acquire_again:
  assumes inv: "lm_inv lm" and e: "lock_table lm r = Some e" and t: "t \<in> le_holders e"
  shows "conflict lm t r m \<Longrightarrow> acquire t r m lm = (Inl (Err (LockConflict t)), lm)"
    and "\<not> conflict lm t r m \<Longrightarrow>
      \<exists>lm'. acquire t r m lm = (Inr (le_mode e = Shared \<and> m = Exclusive), lm') \<and> granted lm t r m lm'"
proof -
  have ok: "entry_ok e" using inv e by (rule lm_inv_butD)
  have same: "lm\<lparr>lock_table := (lock_table lm)(r \<mapsto> e)\<rparr> = lm" using e by (simp add: fun_upd_idem)
  have one: "card (le_holders e) = 1 \<longleftrightarrow> le_holders e = {t}" using t by (auto simp: card_1_singleton_iff)
  have conf: "conflict lm t r m \<longleftrightarrow> le_mode e = Shared \<and> m = Exclusive \<and> le_holders e \<noteq> {t}"
    using ok t e by (cases "le_mode e") (auto simp: conflict_def held_def entry_ok_def)
  { assume "conflict lm t r m"
    then show "acquire t r m lm = (Inl (Err (LockConflict t)), lm)"
      using conf t e one by (simp add: acquire_def same) }
  assume nc: "\<not> conflict lm t r m"
  show "\<exists>lm'. acquire t r m lm = (Inr (le_mode e = Shared \<and> m = Exclusive), lm') \<and> granted lm t r m lm'"
  proof (cases "le_mode e = Shared \<and> m = Exclusive")
    case True
    let ?lm = "lm\<lparr>lock_table := (lock_table lm)(r \<mapsto> e\<lparr>le_mode := Exclusive\<rparr>)\<rparr>"
    have h: "le_holders e = {t}" using nc conf True by simp
    have "lm_inv ?lm" by (rule inv_mode [OF inv e]) (simp_all add: entry_ok_def h)
    moreover have "acquire t r m lm = (Inr True, ?lm)" using True t e h by (simp add: acquire_def)
    ultimately show ?thesis using True e h
      by (auto simp: granted_def no_waiters_def held_def stronger_def)
  next
    case False
    then have "acquire t r m lm = (Inr False, lm)" using t e by (auto simp: acquire_def same)
    moreover have "stronger m (held lm t r) = le_mode e" "held lm t r = Some (le_mode e)"
      using False t e by (cases "le_mode e"; cases m; simp add: held_def stronger_def)+
    ultimately show ?thesis using False inv by (auto simp: granted_def)
  qed
qed

lemma acquire_other:
  assumes inv: "lm_inv lm" and e: "lock_table lm r = Some e" and t: "t \<notin> le_holders e"
  shows "conflict lm t r m \<Longrightarrow> acquire t r m lm = (Inl (Err (LockConflict t)), lm)"
    and "\<not> conflict lm t r m \<Longrightarrow> \<exists>lm'. acquire t r m lm = (Inr True, lm') \<and> granted lm t r m lm'"
proof -
  have ok: "entry_ok e" using inv e by (rule lm_inv_butD)
  have same: "lm\<lparr>lock_table := (lock_table lm)(r \<mapsto> e)\<rparr> = lm" using e by (simp add: fun_upd_idem)
  have conf: "conflict lm t r m \<longleftrightarrow> le_mode e = Exclusive \<or> m = Exclusive"
    using ok t e by (auto simp: conflict_def held_def entry_ok_def)
  { assume "conflict lm t r m"
    then show "acquire t r m lm = (Inl (Err (LockConflict t)), lm)"
      using conf t e ok by (cases "le_mode e"; cases m) (simp_all add: acquire_def same entry_ok_def) }
  assume nc: "\<not> conflict lm t r m"
  then have m: "le_mode e = Shared" "m = Shared" using conf by (cases "le_mode e"; cases m; simp)+
  let ?e = "e\<lparr>le_holders := insert t (le_holders e)\<rparr>"
  let ?lm = "lm\<lparr>lock_table := (lock_table lm)(r \<mapsto> ?e), txn_locks := add_lock t r (txn_locks lm)\<rparr>"
  have "lm_inv ?lm"
    by (rule inv_grant [OF inv]) (use ok m t e in \<open>auto simp: entry_ok_def holds_lock_def\<close>)
  moreover have "acquire t r m lm = (Inr True, ?lm)" using m t e ok by (simp add: acquire_def entry_ok_def)
  ultimately show "\<exists>lm'. acquire t r m lm = (Inr True, lm') \<and> granted lm t r m lm'" using m t e
    by (auto simp: granted_def no_waiters_def held_def stronger_def)
qed

lemma acquire_ok:
  assumes inv: "lm_inv lm"
  shows "conflict lm t r m \<Longrightarrow> acquire t r m lm = (Inl (Err (LockConflict t)), lm)"
    and "\<not> conflict lm t r m \<Longrightarrow>
      \<exists>lm'. acquire t r m lm = (Inr (held lm t r = None \<or> held lm t r = Some Shared \<and> m = Exclusive), lm')
        \<and> granted lm t r m lm'"
proof -
  show "acquire t r m lm = (Inl (Err (LockConflict t)), lm)" if c: "conflict lm t r m"
  proof (cases "lock_table lm r")
    case None
    with c show ?thesis by (simp add: conflict_def held_def)
  next
    case (Some e)
    with c acquire_again(1) [OF inv Some, of t m] acquire_other(1) [OF inv Some, of t m] show ?thesis by blast
  qed
  show "\<exists>lm'. acquire t r m lm = (Inr (held lm t r = None \<or> held lm t r = Some Shared \<and> m = Exclusive), lm')
        \<and> granted lm t r m lm'" if c: "\<not> conflict lm t r m"
  proof (cases "lock_table lm r")
    case None
    with acquire_absent [OF inv None, of t m] show ?thesis by (simp add: held_def)
  next
    case (Some e)
    show ?thesis
    proof (cases "t \<in> le_holders e")
      case True
      with acquire_again(2) [OF inv Some True c] Some show ?thesis by (simp add: held_def)
    next
      case False
      with acquire_other(2) [OF inv Some False c] Some show ?thesis by (simp add: held_def)
    qed
  qed
qed

lemma held_exclusive:
  assumes "lm_inv lm" and "held lm t r = Some Exclusive" and "held lm t' r \<noteq> None"
  shows "t' = t"
proof -
  from assms(2) obtain e where e: "lock_table lm r = Some e" "t \<in> le_holders e" "le_mode e = Exclusive"
    by (auto simp: held_def split: option.splits if_splits)
  with assms(3) lm_inv_butD(1) [OF assms(1) e(1)] show ?thesis
    by (auto simp: held_def entry_ok_def split: if_splits)
qed

section \<open>Releasing\<close>

definition locks_in :: "(u64 \<rightharpoonup> resource_id set) \<Rightarrow> u64 \<Rightarrow> resource_id \<Rightarrow> bool" where
  "locks_in tls t r \<longleftrightarrow> (\<exists>rs. tls t = Some rs \<and> r \<in> rs)"

definition locks_ok :: "(u64 \<rightharpoonup> resource_id set) \<Rightarrow> bool" where
  "locks_ok tls \<longleftrightarrow> (\<forall>t rs. tls t = Some rs \<longrightarrow> finite rs \<and> rs \<noteq> {}) \<and> finite (dom tls)"

text \<open>\<open>added r A tls tls'\<close>: the transactions \<open>A\<close> have been given resource \<open>r\<close>.\<close>

definition added :: "resource_id \<Rightarrow> u64 set \<Rightarrow> (u64 \<rightharpoonup> resource_id set) \<Rightarrow> (u64 \<rightharpoonup> resource_id set) \<Rightarrow> bool" where
  "added r A tls tls' \<longleftrightarrow> finite A \<and> (locks_ok tls \<longrightarrow> locks_ok tls')
     \<and> (\<forall>t r'. locks_in tls' t r' \<longleftrightarrow> locks_in tls t r' \<or> r' = r \<and> t \<in> A)"

lemma added_one: "added r {t} tls (add_lock t r tls)"
  using add_lock_member [of t r tls] add_lock_ok [of tls t r]
  by (auto simp: added_def locks_in_def locks_ok_def)

lemma added_trans: "added r A tls tls1 \<Longrightarrow> added r B tls1 tls2 \<Longrightarrow> added r (A \<union> B) tls tls2"
  by (auto simp: added_def)

lemma added_none: "added r {} tls tls"
  by (simp add: added_def)

lemma grant_shared_ok:
  "grant_shared r hs q tls = (hs', q', tls') \<Longrightarrow> \<exists>A. hs' = hs \<union> A \<and> added r A tls tls'"
proof (induction r hs q tls rule: grant_shared.induct)
  case (1 r hs tls)
  then show ?case using added_none by (auto intro!: exI [of _ "{}"])
next
  case (2 r hs t m q tls)
  show ?case
  proof (cases "m = Shared")
    case True
    with 2 obtain A where A: "hs' = insert t hs \<union> A" "added r A (add_lock t r tls) tls'" by auto
    from added_trans [OF added_one A(2)] A(1) show ?thesis by (intro exI [of _ "{t} \<union> A"]) auto
  next
    case False
    with 2 show ?thesis using added_none by (auto intro!: exI [of _ "{}"])
  qed
qed

lemma grant_waiters_ok:
  assumes "grant_waiters r e tls = (e', tls')" and "le_holders e = {}"
  shows "added r (le_holders e') tls tls'"
    and "le_wait_queue e \<noteq> [] \<Longrightarrow> entry_ok e'"
    and "le_wait_queue e = [] \<Longrightarrow> e' = e"
proof -
  have "added r (le_holders e') tls tls' \<and> (le_wait_queue e \<noteq> [] \<longrightarrow> entry_ok e')
      \<and> (le_wait_queue e = [] \<longrightarrow> e' = e)"
  proof (cases "le_wait_queue e")
    case Nil
    with assms added_none show ?thesis by (simp add: grant_waiters_def)
  next
    case (Cons w q)
    obtain t m where w: "w = (t, m)" by (cases w)
    show ?thesis
    proof (cases "m = Shared")
      case True
      obtain hs' q' tls2 where g: "grant_shared r {t} q (add_lock t r tls) = (hs', q', tls2)"
        by (metis prod_cases3)
      from grant_shared_ok [OF g] obtain A where A: "hs' = {t} \<union> A" "added r A (add_lock t r tls) tls2" by blast
      have e': "e' = \<lparr>le_mode = Shared, le_holders = hs', le_wait_queue = q'\<rparr>" "tls' = tls2"
        using assms Cons w True g by (auto simp: grant_waiters_def)
      from added_trans [OF added_one A(2)] A(1) have a: "added r hs' tls tls2" by simp
      then have "finite hs'" by (simp add: added_def)
      with a e' A(1) Cons show ?thesis by (auto simp: entry_ok_def)
    next
      case False
      with assms Cons w have "e' = \<lparr>le_mode = m, le_holders = {t}, le_wait_queue = q\<rparr>" "tls' = add_lock t r tls"
        by (auto simp: grant_waiters_def)
      with added_one Cons show ?thesis by (auto simp: entry_ok_def)
    qed
  qed
  then show "added r (le_holders e') tls tls'" and "le_wait_queue e \<noteq> [] \<Longrightarrow> entry_ok e'"
    and "le_wait_queue e = [] \<Longrightarrow> e' = e" by simp_all
qed

lemma lm_inv_but_alt:
  "lm_inv_but txn R lm \<longleftrightarrow> (\<forall>r e. lock_table lm r = Some e \<longrightarrow> entry_ok e)
     \<and> (\<forall>t r. locks_in (txn_locks lm) t r \<longleftrightarrow> holds_lock lm t r \<and> \<not> (t = txn \<and> r \<in> R))
     \<and> locks_ok (txn_locks lm) \<and> finite (dom (lock_table lm))"
  by (auto simp: lm_inv_but_def in_txn_def locks_in_def locks_ok_def)

lemma release_resource_inv:
  assumes inv: "lm_inv_but txn (insert r R) lm" and r: "r \<notin> R" and h: "holds_lock lm txn r"
  shows "lm_inv_but txn R (release_resource txn r lm)"
proof -
  from h obtain e0 where e0: "lock_table lm r = Some e0" "txn \<in> le_holders e0"
    by (auto simp: holds_lock_def split: option.splits)
  let ?e = "e0\<lparr>le_holders := le_holders e0 - {txn}\<rparr>"
  note inv' = inv [unfolded lm_inv_but_alt]
  have ok: "entry_ok e0" using inv' e0 by blast
  have mem: "locks_in (txn_locks lm) t s \<longleftrightarrow> holds_lock lm t s \<and> \<not> (t = txn \<and> (s = r \<or> s \<in> R))" for t s
    using inv' by auto
  show ?thesis
  proof (cases "le_holders ?e = {}")
    case False
    let ?lm = "lm\<lparr>lock_table := (lock_table lm)(r \<mapsto> ?e)\<rparr>"
    have run: "release_resource txn r lm = ?lm" using e0 False by (simp add: release_resource_def)
    have "holds_lock ?lm t s \<longleftrightarrow> holds_lock lm t s \<and> \<not> (t = txn \<and> s = r)" for t s
      using e0 by (auto simp: holds_lock_def)
    moreover have "entry_ok ?e" using ok False e0 by (auto simp: entry_ok_def)
    ultimately show ?thesis unfolding run lm_inv_but_alt using inv' mem r by auto
  next
    case True
    obtain e' tls where g: "grant_waiters r ?e (txn_locks lm) = (e', tls)" by (metis surj_pair)
    note gw = grant_waiters_ok [OF g True]
    let ?lm = "lm\<lparr>lock_table := (lock_table lm)(r := if le_holders e' = {} \<and> le_wait_queue e' = [] then None else Some e'),
                 txn_locks := tls\<rparr>"
    have run: "release_resource txn r lm = ?lm" using e0 True g by (simp add: release_resource_def)
    have only: "holds_lock lm t r \<longleftrightarrow> t = txn" for t using e0 True by (auto simp: holds_lock_def)
    have holds: "holds_lock ?lm t s \<longleftrightarrow> (if s = r then t \<in> le_holders e' else holds_lock lm t s)" for t s
      by (auto simp: holds_lock_def)
    have "locks_in tls t s \<longleftrightarrow> locks_in (txn_locks lm) t s \<or> s = r \<and> t \<in> le_holders e'" for t s
      using gw(1) by (simp add: added_def)
    then have "locks_in tls t s \<longleftrightarrow> holds_lock ?lm t s \<and> \<not> (t = txn \<and> s \<in> R)" for t s
      using mem [of t s] holds [of t s] only [of t] r by auto
    moreover have "entry_ok e'" if "\<not> (le_holders e' = {} \<and> le_wait_queue e' = [])"
      using gw(2,3) that True by (cases "le_wait_queue e0 = []") auto
    moreover have "locks_ok tls" using gw(1) inv' by (simp add: added_def)
    ultimately show ?thesis unfolding run lm_inv_but_alt using inv' by auto
  qed
qed

lemma release_resource_held:
  assumes "no_waiters lm"
  shows "no_waiters (release_resource txn r lm)"
    and "held (release_resource txn r lm) t r' = (if t = txn \<and> r' = r then None else held lm t r')"
    and "txn_locks (release_resource txn r lm) = txn_locks lm"
proof -
  have q: "le_wait_queue e = []" if "lock_table lm r = Some e" for e using assms that by (auto simp: no_waiters_def)
  show "no_waiters (release_resource txn r lm)" using assms q
    by (auto simp: release_resource_def grant_waiters_def no_waiters_def Let_def split: option.splits)
  show "held (release_resource txn r lm) t r' = (if t = txn \<and> r' = r then None else held lm t r')" using q
    by (auto simp: release_resource_def grant_waiters_def held_def Let_def split: option.splits)
  show "txn_locks (release_resource txn r lm) = txn_locks lm" using q
    by (auto simp: release_resource_def grant_waiters_def Let_def split: option.splits)
qed

lemma release_others_kept: "r' \<noteq> r \<Longrightarrow> lock_table (release_resource txn r lm) r' = lock_table lm r'"
  by (auto simp: release_resource_def Let_def split: option.splits prod.splits)

lemma fold_release_inv:
  assumes "lm_inv_but txn (set rs) lm" and "distinct rs" and "\<forall>r \<in> set rs. holds_lock lm txn r"
  shows "lm_inv_but txn {} (fold (release_resource txn) rs lm)"
  using assms
proof (induction rs arbitrary: lm)
  case (Cons r rs)
  then have "lm_inv_but txn (set rs) (release_resource txn r lm)"
    using release_resource_inv [of txn r "set rs" lm] by simp
  moreover have "\<forall>s \<in> set rs. holds_lock (release_resource txn r lm) txn s"
  proof
    fix s assume s: "s \<in> set rs"
    with Cons.prems(2) have "s \<noteq> r" by auto
    with s Cons.prems(3) show "holds_lock (release_resource txn r lm) txn s"
      by (simp add: holds_lock_def release_others_kept)
  qed
  ultimately show ?case using Cons by simp
qed simp

lemma lm_inv_but_empty: "lm_inv_but txn {} lm \<Longrightarrow> lm_inv lm"
  by (simp add: lm_inv_but_def)

lemma fold_release_held:
  assumes "no_waiters lm"
  shows "no_waiters (fold (release_resource txn) rs lm)"
    and "held (fold (release_resource txn) rs lm) t r = (if t = txn \<and> r \<in> set rs then None else held lm t r)"
    and "txn_locks (fold (release_resource txn) rs lm) = txn_locks lm"
  using assms
  by (induction rs arbitrary: lm) (auto simp: release_resource_held)

lemma txn_locks_held:
  assumes "lm_inv lm" and "txn_locks lm txn = Some rs"
  shows "r \<in> rs \<longleftrightarrow> held lm txn r \<noteq> None"
  using lm_inv_butD(2) [OF assms(1), of txn r] assms(2) by (auto simp: in_txn_def holds_lock_held)

text \<open>The set of resources may be visited in any order.\<close>

definition release_in :: "resource_id list \<Rightarrow> u64 \<Rightarrow> lock_manager \<Rightarrow> lock_manager" where
  "release_in rs txn lm = fold (release_resource txn) rs (lm\<lparr>txn_locks := (txn_locks lm)(txn := None)\<rparr>)"

lemma release_in_inv:
  assumes inv: "lm_inv lm" and rs: "txn_locks lm txn = Some (set rs)" "distinct rs"
  shows "lm_inv (release_in rs txn lm)"
proof -
  let ?lm = "lm\<lparr>txn_locks := (txn_locks lm)(txn := None)\<rparr>"
  have mem: "in_txn ?lm t r \<longleftrightarrow> in_txn lm t r \<and> \<not> (t = txn \<and> r \<in> set rs)" for t r
    using rs(1) by (auto simp: in_txn_def)
  have holds: "holds_lock ?lm t r = holds_lock lm t r" for t r by (simp add: holds_lock_def)
  have "\<forall>r e. lock_table ?lm r = Some e \<longrightarrow> entry_ok e" using lm_inv_butD(1) [OF inv] by simp
  moreover have "\<forall>t r. in_txn ?lm t r \<longleftrightarrow> holds_lock ?lm t r \<and> \<not> (t = txn \<and> r \<in> set rs)"
    using mem holds lm_inv_butD(2) [OF inv] by simp
  moreover have "\<forall>t rs. txn_locks ?lm t = Some rs \<longrightarrow> finite rs \<and> rs \<noteq> {}" using lm_inv_butD(3) [OF inv] by simp
  ultimately have "lm_inv_but txn (set rs) ?lm"
    unfolding lm_inv_but_def using lm_inv_butD(4,5) [OF inv] by simp
  moreover have "\<forall>r \<in> set rs. holds_lock ?lm txn r"
  proof
    fix r assume "r \<in> set rs"
    then have "holds_lock lm txn r" using txn_locks_held [OF inv rs(1), of r] unfolding holds_lock_held by blast
    then show "holds_lock ?lm txn r" by (simp only: holds)
  qed
  ultimately have "lm_inv_but txn {} (release_in rs txn lm)"
    unfolding release_in_def by (intro fold_release_inv rs(2))
  then show ?thesis by (rule lm_inv_but_empty)
qed

lemma release_in_held:
  assumes "lm_inv lm" and "no_waiters lm" and rs: "txn_locks lm txn = Some (set rs)"
  shows "no_waiters (release_in rs txn lm)"
    and "held (release_in rs txn lm) t r = (if t = txn then None else held lm t r)"
    and "txn_locks (release_in rs txn lm) = (txn_locks lm)(txn := None)"
proof -
  let ?lm = "lm\<lparr>txn_locks := (txn_locks lm)(txn := None)\<rparr>"
  have nw: "no_waiters ?lm" using assms(2) by (simp add: no_waiters_def)
  note f = fold_release_held [OF nw, of txn rs]
  show "no_waiters (release_in rs txn lm)"
    and "txn_locks (release_in rs txn lm) = (txn_locks lm)(txn := None)" using f by (simp_all add: release_in_def)
  show "held (release_in rs txn lm) t r = (if t = txn then None else held lm t r)"
    using f(2) [of t r] txn_locks_held [OF assms(1) rs, of r] by (auto simp: release_in_def)
qed

lemma release_all_in:
  assumes "lm_inv lm"
  shows "txn_locks lm txn = Some rs \<Longrightarrow> release_all txn lm = release_in (sorted_list_of_set rs) txn lm
           \<and> txn_locks lm txn = Some (set (sorted_list_of_set rs))"
    and "txn_locks lm txn = None \<Longrightarrow> release_all txn lm = lm \<and> held lm txn r = None"
  using lm_inv_butD(3) [OF assms, of txn rs] lm_inv_butD(2) [OF assms, of txn r]
  by (auto simp: release_all_def release_in_def in_txn_def holds_lock_held)

lemma release_all_inv: "lm_inv lm \<Longrightarrow> lm_inv (release_all txn lm)"
proof (cases "txn_locks lm txn")
  case (Some rs)
  assume inv: "lm_inv lm"
  from release_all_in(1) [OF inv Some] release_in_inv [OF inv] show ?thesis by simp
qed (simp add: release_all_def)

lemma release_all_held:
  assumes inv: "lm_inv lm" and nw: "no_waiters lm"
  shows "no_waiters (release_all txn lm)"
    and "held (release_all txn lm) t r = (if t = txn then None else held lm t r)"
    and "txn_locks (release_all txn lm) = (txn_locks lm)(txn := None)"
proof -
  have "no_waiters (release_all txn lm) \<and> held (release_all txn lm) t r = (if t = txn then None else held lm t r)
     \<and> txn_locks (release_all txn lm) = (txn_locks lm)(txn := None)"
  proof (cases "txn_locks lm txn")
    case None
    with release_all_in(2) [OF inv None] nw show ?thesis by (auto simp: fun_upd_idem)
  next
    case (Some rs)
    note a = release_all_in(1) [OF inv Some]
    show ?thesis using release_in_held [OF inv nw, of txn "sorted_list_of_set rs"] a by simp
  qed
  then show "no_waiters (release_all txn lm)"
    and "held (release_all txn lm) t r = (if t = txn then None else held lm t r)"
    and "txn_locks (release_all txn lm) = (txn_locks lm)(txn := None)" by simp_all
qed

lemma lock_table_determined:
  assumes "lm_inv lm" "lm_inv lm'" "no_waiters lm" "no_waiters lm'"
    and held: "\<And>t r. held lm t r = held lm' t r"
  shows "lock_table lm r = lock_table lm' r"
proof -
  have sub: "lock_table b r = Some e"
    if "lm_inv a" "lm_inv b" "no_waiters a" "no_waiters b" "\<And>t. held a t r = held b t r"
       and e: "lock_table a r = Some e" for a b e
  proof -
    from lm_inv_butD(1) [OF that(1) e] obtain t where t: "t \<in> le_holders e" by (auto simp: entry_ok_def)
    with that(5) [of t] e obtain e' where e': "lock_table b r = Some e'" "le_mode e' = le_mode e"
      by (auto simp: held_def split: option.splits if_splits)
    have "u \<in> le_holders e \<longleftrightarrow> u \<in> le_holders e'" for u
      using that(5) [of u] e e' by (auto simp: held_def split: if_splits)
    moreover have "le_wait_queue e = []" "le_wait_queue e' = []"
      using that(3,4) e e'(1) by (auto simp: no_waiters_def)
    ultimately have "e' = e" using e'(2) by (intro lock_entry.equality) auto
    with e' show ?thesis by simp
  qed
  show ?thesis
  proof (cases "lock_table lm r")
    case (Some e)
    with sub [OF assms(1,2,3,4) held Some] show ?thesis by simp
  next
    case None
    show ?thesis
    proof (cases "lock_table lm' r")
      case (Some e)
      with sub [OF assms(2,1,4,3) held [symmetric] Some] None show ?thesis by simp
    qed (simp add: None)
  qed
qed

lemma release_order:
  assumes inv: "lm_inv lm" "no_waiters lm" and rs: "txn_locks lm txn = Some (set rs)" "distinct rs"
  shows "release_in rs txn lm = release_all txn lm"
proof (rule lock_manager.equality)
  note a = release_in_inv [OF inv(1) rs] release_in_held [OF inv rs(1)]
  note b = release_all_inv [OF inv(1), of txn] release_all_held [OF inv, of txn]
  show "lock_table (release_in rs txn lm) = lock_table (release_all txn lm)"
    by (rule ext, rule lock_table_determined) (simp_all add: a b)
  show "txn_locks (release_in rs txn lm) = txn_locks (release_all txn lm)" by (simp add: a b)
qed simp

section \<open>The service the transactions rely on\<close>

datatype lock_event = Acquire u64 resource_id lock_mode | Release u64

definition lock_step :: "(u64 \<Rightarrow> resource_id \<Rightarrow> lock_mode \<Rightarrow> ('s, bool) op) \<Rightarrow> (u64 \<Rightarrow> 's \<Rightarrow> 's) \<Rightarrow> lock_event \<Rightarrow> 's \<Rightarrow> 's" where
  "lock_step acq rel ev s = (case ev of Acquire t r m \<Rightarrow> snd (acq t r m s) | Release t \<Rightarrow> rel t s)"

definition covers :: "lock_mode option \<Rightarrow> lock_mode \<Rightarrow> bool" where
  "covers h m \<longleftrightarrow> (case h of None \<Rightarrow> False | Some m' \<Rightarrow> m' = m \<or> m' = Exclusive)"

locale lock_service =
  fixes acq :: "u64 \<Rightarrow> resource_id \<Rightarrow> lock_mode \<Rightarrow> ('s, bool) op"
    and rel :: "u64 \<Rightarrow> 's \<Rightarrow> 's"
    and hld :: "'s \<Rightarrow> u64 \<Rightarrow> resource_id \<Rightarrow> lock_mode option"
    and inv :: "'s \<Rightarrow> bool"
  assumes acq_inv: "inv s \<Longrightarrow> inv (snd (acq t r m s))"
    and rel_inv: "inv s \<Longrightarrow> inv (rel t s)"
    and acq_covers: "inv s \<Longrightarrow> acq t r m s = (Inr b, s') \<Longrightarrow> covers (hld s' t r) m"
    and acq_keeps: "inv s \<Longrightarrow> covers (hld s t' r') m' \<Longrightarrow> covers (hld (snd (acq t r m s)) t' r') m'"
    and acq_frame: "inv s \<Longrightarrow> t' \<noteq> t \<Longrightarrow> hld (snd (acq t r m s)) t' r' = hld s t' r'"
    and rel_hld: "inv s \<Longrightarrow> hld (rel t s) t' r = (if t' = t then None else hld s t' r)"
    and exclusive: "inv s \<Longrightarrow> hld s t r = Some Exclusive \<Longrightarrow> hld s t' r \<noteq> None \<Longrightarrow> t' = t"
    and refused: "inv s \<Longrightarrow> hld s t r = Some Exclusive \<Longrightarrow> t' \<noteq> t \<Longrightarrow> acq t' r m s = (Inl (Err (LockConflict t')), s)"
begin

abbreviation run :: "lock_event list \<Rightarrow> 's \<Rightarrow> 's" where
  "run \<equiv> fold (lock_step acq rel)"

lemma step_inv: "inv s \<Longrightarrow> inv (lock_step acq rel ev s)"
  by (cases ev) (simp_all add: lock_step_def acq_inv rel_inv)

lemma run_inv: "inv s \<Longrightarrow> inv (run evs s)"
  by (induction evs arbitrary: s) (simp_all add: step_inv)

lemma step_keeps:
  "inv s \<Longrightarrow> ev \<noteq> Release t \<Longrightarrow> covers (hld s t r) m \<Longrightarrow> covers (hld (lock_step acq rel ev s) t r) m"
  by (cases ev) (auto simp: lock_step_def acq_keeps rel_hld)

text \<open>Strict two-phase locking: a lock stays until its transaction releases everything.\<close>

lemma run_keeps:
  "inv s \<Longrightarrow> Release t \<notin> set evs \<Longrightarrow> covers (hld s t r) m \<Longrightarrow> covers (hld (run evs s) t r) m"
  by (induction evs arbitrary: s) (auto simp: step_inv step_keeps)

lemma covers_exclusive: "covers h Exclusive \<longleftrightarrow> h = Some Exclusive"
  by (auto simp: covers_def split: option.splits)

lemma exclusive_run:
  assumes "inv s" and "acq t r Exclusive s = (Inr b, s')" and "Release t \<notin> set evs" and "t' \<noteq> t"
  shows "hld (run evs s') t' r = None" and "fst (acq t' r m (run evs s')) = Inl (Err (LockConflict t'))"
proof -
  have s': "inv s'" using acq_inv [OF assms(1), of t r Exclusive] assms(2) by simp
  have i: "inv (run evs s')" by (rule run_inv [OF s'])
  have "covers (hld s' t r) Exclusive" by (rule acq_covers [OF assms(1,2)])
  from run_keeps [OF s' assms(3) this] have x: "hld (run evs s') t r = Some Exclusive" by (simp add: covers_exclusive)
  show "hld (run evs s') t' r = None" using exclusive [OF i x, of t'] assms(4) by blast
  show "fst (acq t' r m (run evs s')) = Inl (Err (LockConflict t'))" using refused [OF i x assms(4)] by simp
qed

end

definition lock_ok :: "lock_manager \<Rightarrow> bool" where
  "lock_ok lm \<longleftrightarrow> lm_inv lm \<and> no_waiters lm"

lemma covers_stronger: "covers h m' \<Longrightarrow> covers (Some (stronger m h)) m'"
  by (cases h; cases m; cases m') (auto simp: covers_def stronger_def)

lemma acquire_run:
  assumes ok: "lock_ok lm" and run: "acquire t r m lm = (res, lm')"
  shows "lock_ok lm'"
    and "res = Inr b \<Longrightarrow> held lm' t' r' = (if t' = t \<and> r' = r then Some (stronger m (held lm t r)) else held lm t' r')"
    and "res = Inl e \<Longrightarrow> lm' = lm \<and> e = Err (LockConflict t) \<and> conflict lm t r m"
  using ok acquire_ok [of lm t r m] run by (cases "conflict lm t r m"; auto simp: granted_def lock_ok_def)+

interpretation locks: lock_service acquire release_all held lock_ok
proof
  fix s t r m t' r' b s' m'
  obtain res u where run: "acquire t r m s = (res, u)" by (metis surj_pair)
  { assume ok: "lock_ok s"
    note a = acquire_run [OF ok run]
    show "lock_ok (snd (acquire t r m s))" using a(1) run by simp
    show "lock_ok (release_all t s)" using ok release_all_inv release_all_held(1) by (auto simp: lock_ok_def)
    show "held (release_all t s) t' r = (if t' = t then None else held s t' r)"
      using ok release_all_held(2) by (auto simp: lock_ok_def)
    { assume "acquire t r m s = (Inr b, s')"
      then show "covers (held s' t r) m" using a(2) [of b] run by (auto simp: covers_def stronger_def) }
    { assume "covers (held s t' r') m'"
      then show "covers (held (snd (acquire t r m s)) t' r') m'" using run a(2,3)
        by (cases res) (auto simp: covers_stronger) }
    { assume "t' \<noteq> t"
      then show "held (snd (acquire t r m s)) t' r' = held s t' r'" using run a(2,3) by (cases res) auto }
    { assume x: "held s t r = Some Exclusive"
      { assume "held s t' r \<noteq> None"
        then show "t' = t" using ok x held_exclusive by (auto simp: lock_ok_def) }
      { assume "t' \<noteq> t"
        then have "conflict s t' r m" using x by (auto simp: conflict_def)
        then show "acquire t' r m s = (Inl (Err (LockConflict t')), s)"
          using ok acquire_ok(1) by (simp add: lock_ok_def) } } }
qed

section \<open>Properties\<close>

lemma new_lock_ok [simp]: "lock_ok lm_new"
  by (simp add: lock_ok_def)

text \<open>
  C27. A lock request is refused with \<^verbatim>\<open>LockConflict\<close>, and nothing changes, exactly when another
  transaction holds the resource and one of the two modes is exclusive. Otherwise the requester
  holds the resource afterwards, in the stronger of its old and the new mode, every other lock is
  as before, and the result says whether anything was granted; the invariant (an exclusive lock
  has one holder, the two tables agree) is kept.
\<close>

theorem lock_acquire_correct:
  assumes "lm_inv lm"
  shows "if conflict lm t r m then acquire t r m lm = (Inl (Err (LockConflict t)), lm)
    else \<exists>lm'. acquire t r m lm = (Inr (held lm t r = None \<or> held lm t r = Some Shared \<and> m = Exclusive), lm')
      \<and> lm_inv lm' \<and> (\<forall>t' r'. held lm' t' r' =
          (if t' = t \<and> r' = r then Some (stronger m (held lm t r)) else held lm t' r'))"
  using acquire_ok [OF assms, of t r m] by (auto simp: granted_def)

theorem lock_acquire_correct_witness:
  "\<exists>lm. acquire 1 7 Shared lm_new = (Inr True, lm) \<and> held lm 1 7 = Some Shared"
  using lock_acquire_correct [OF new_inv(1), of 1 7 Shared] by (auto simp: conflict_def stronger_def)

text \<open>
  Releasing the locks of a transaction keeps the invariant, takes every lock of that transaction
  away and leaves all others, in whatever order the resources of the hash set are visited.
\<close>

theorem lock_release_correct:
  assumes "lm_inv lm" and "no_waiters lm"
  shows "lm_inv (release_all t lm) \<and> no_waiters (release_all t lm)
    \<and> (\<forall>t' r. held (release_all t lm) t' r = (if t' = t then None else held lm t' r))
    \<and> txn_locks (release_all t lm) = (txn_locks lm)(t := None)
    \<and> (\<forall>rs. txn_locks lm t = Some (set rs) \<longrightarrow> distinct rs \<longrightarrow> release_in rs t lm = release_all t lm)"
  using release_all_inv [OF assms(1)] release_all_held [OF assms] release_order [OF assms] by auto

definition shared_locks :: lock_manager where
  "shared_locks = \<lparr>lock_table = [7 \<mapsto> \<lparr>le_mode = Shared, le_holders = {1, 2}, le_wait_queue = []\<rparr>],
     txn_locks = [1 \<mapsto> {7}, 2 \<mapsto> {7}]\<rparr>"

lemma shared_locks_ok: "lm_inv shared_locks" "no_waiters shared_locks"
  by (auto simp: lm_inv_but_def no_waiters_def shared_locks_def entry_ok_def in_txn_def holds_lock_def
      split: if_splits option.splits)

text \<open>
  C17. Strict two-phase locking: after an exclusive lock has been granted, whatever requests and
  releases of other transactions follow, nobody else holds the resource and every request of
  another transaction for it fails, until the holder releases its locks.
\<close>

theorem exclusive_lock_excludes:
  assumes "acquire t r Exclusive (fold (lock_step acquire release_all) evs0 lm_new) = (Inr b, lm)"
    and "Release t \<notin> set evs" and "t' \<noteq> t"
  shows "held (fold (lock_step acquire release_all) evs lm) t' r = None
    \<and> fst (acquire t' r m (fold (lock_step acquire release_all) evs lm)) = Inl (Err (LockConflict t'))"
  using locks.exclusive_run [OF locks.run_inv [OF new_lock_ok] assms] by simp_all

theorem exclusive_lock_excludes_witness:
  "\<exists>lm. acquire 1 7 Exclusive lm_new = (Inr True, lm)
    \<and> fst (acquire 2 7 Shared (fold (lock_step acquire release_all) [Acquire 2 7 Exclusive, Release 3] lm))
      = Inl (Err (LockConflict 2))"
proof -
  obtain lm where lm: "acquire 1 7 Exclusive lm_new = (Inr True, lm)" by (simp add: acquire_def lm_new_def)
  then have "acquire 1 7 Exclusive (fold (lock_step acquire release_all) [] lm_new) = (Inr True, lm)" by simp
  from exclusive_lock_excludes [OF this, of "[Acquire 2 7 Exclusive, Release 3]" 2 Shared] lm show ?thesis by auto
qed

end
