(* ===== verification/Log_Record.thy ===== *)
theory Log_Record
  imports Crc32
begin

text \<open>
  The log records of \<^verbatim>\<open>src/src/wal/log_record.rs\<close> and their on-disk format. The
  serialized record is a list of bytes; every index of \<^verbatim>\<open>deserialize\<close> that Rust checks at
  run time is checked here, so that a length field below 8 or a payload longer than the buffer
  is a \<open>Panic\<close>. The format is inverted by \<open>deserialize\<close>, a truncated record is
  rejected with an error, and a damaged body is rejected by its checksum.
\<close>

section \<open>The code\<close>

datatype log_record_type =
  LrInvalid | LrBegin | LrCommit | LrAbort | LrPageWrite | LrCheckpoint | LrClr

fun log_record_type_as_u8 :: "log_record_type \<Rightarrow> u8" where
  "log_record_type_as_u8 LrInvalid = 0"
| "log_record_type_as_u8 LrBegin = 1"
| "log_record_type_as_u8 LrCommit = 2"
| "log_record_type_as_u8 LrAbort = 3"
| "log_record_type_as_u8 LrPageWrite = 4"
| "log_record_type_as_u8 LrCheckpoint = 5"
| "log_record_type_as_u8 LrClr = 6"

definition log_record_type_from :: "u8 \<Rightarrow> log_record_type" where
  "log_record_type_from v =
     (if v = 1 then LrBegin else if v = 2 then LrCommit else if v = 3 then LrAbort
      else if v = 4 then LrPageWrite else if v = 5 then LrCheckpoint else if v = 6 then LrClr
      else LrInvalid)"

type_synonym lsn = u64

record log_record =
  lr_lsn :: lsn
  lr_txn_id :: u64
  lr_prev_lsn :: lsn
  lr_type :: log_record_type
  lr_page_id :: u32
  lr_data :: bytes

definition RECORD_HEADER_SIZE :: nat where "RECORD_HEADER_SIZE = 41"

declare RECORD_HEADER_SIZE_def [simp]

definition lr_new :: "lsn \<Rightarrow> u64 \<Rightarrow> lsn \<Rightarrow> log_record_type \<Rightarrow> u32 \<Rightarrow> bytes \<Rightarrow> log_record" where
  "lr_new lsn txn prev ty pid bs =
     \<lparr>lr_lsn = lsn, lr_txn_id = txn, lr_prev_lsn = prev, lr_type = ty, lr_page_id = pid, lr_data = bs\<rparr>"

declare lr_new_def [simp]

definition lr_begin :: "lsn \<Rightarrow> u64 \<Rightarrow> log_record" where
  "lr_begin lsn txn = lr_new lsn txn 0 LrBegin 0 []"

definition lr_commit :: "lsn \<Rightarrow> u64 \<Rightarrow> lsn \<Rightarrow> log_record" where
  "lr_commit lsn txn prev = lr_new lsn txn prev LrCommit 0 []"

definition lr_abort :: "lsn \<Rightarrow> u64 \<Rightarrow> lsn \<Rightarrow> log_record" where
  "lr_abort lsn txn prev = lr_new lsn txn prev LrAbort 0 []"

definition lr_page_write :: "lsn \<Rightarrow> u64 \<Rightarrow> lsn \<Rightarrow> u32 \<Rightarrow> bytes \<Rightarrow> bytes \<Rightarrow> log_record" where
  "lr_page_write lsn txn prev pid before_image after_image =
     lr_new lsn txn prev LrPageWrite pid (to_le 4 (of_nat (length before_image) :: u32) @ before_image @ after_image)"

definition lr_checkpoint :: "lsn \<Rightarrow> u64 list \<Rightarrow> log_record" where
  "lr_checkpoint lsn active_txns =
     lr_new lsn 0 0 LrCheckpoint 0 (to_le 4 (of_nat (length active_txns) :: u32) @ concat (map (to_le 8) active_txns))"

definition page_write_images :: "log_record \<Rightarrow> (bytes \<times> bytes) option res" where
  "page_write_images r =
     (if lr_type r \<noteq> LrPageWrite \<or> length (lr_data r) < 4 then Inr None
      else let before_len = unat (rd 4 (lr_data r) 0 :: u32)
           in bindE (get_range (lr_data r) 4 (4 + before_len)) (\<lambda>before_image.
              bindE (get_range (lr_data r) (4 + before_len) (length (lr_data r))) (\<lambda>after_image.
              Inr (Some (before_image, after_image)))))"

definition serialize :: "log_record \<Rightarrow> bytes" where
  "serialize r =
     (let total_len = RECORD_HEADER_SIZE + length (lr_data r);
          buf = to_le 4 (of_nat total_len :: u32) @ to_le 4 (0 :: u32)
                @ to_le 8 (lr_lsn r) @ to_le 8 (lr_txn_id r) @ to_le 8 (lr_prev_lsn r)
                @ [log_record_type_as_u8 (lr_type r)] @ to_le 4 (lr_page_id r)
                @ to_le 4 (of_nat (length (lr_data r)) :: u32) @ lr_data r;
          checksum = crc32 (drop 8 buf)
      in wr buf 4 (to_le 4 checksum))"

text \<open>Decimal numbers of the error messages.\<close>

fun show_nat :: "nat \<Rightarrow> string" where
  "show_nat n = (if n < 10 then [char_of (48 + n)] else show_nat (n div 10) @ [char_of (48 + n mod 10)])"

declare show_nat.simps [simp del]

definition deserialize :: "bytes \<Rightarrow> (log_record \<times> nat) res" where
  "deserialize buf =
     (if length buf < RECORD_HEADER_SIZE then
        Inl (Err (WalCorrupted ''Buffer too small for record header''))
      else let total_len = unat (rd 4 buf 0 :: u32)
      in if length buf < total_len then
        Inl (Err (WalCorrupted (''Buffer too small: need '' @ show_nat total_len @ '' bytes, have ''
                                @ show_nat (length buf))))
      else bindE (get_range buf 8 total_len) (\<lambda>body.
        let stored_checksum = rd 4 buf 4; computed_checksum = crc32 body
        in if stored_checksum \<noteq> computed_checksum then
             Inl (Err (ChecksumMismatch stored_checksum computed_checksum))
           else let data_len = unat (rd 4 buf 37 :: u32)
             in bindE (get_range buf 41 (41 + data_len)) (\<lambda>data.
                  Inr (\<lparr>lr_lsn = rd 8 buf 8, lr_txn_id = rd 8 buf 16, lr_prev_lsn = rd 8 buf 24,
                        lr_type = log_record_type_from (buf ! 32), lr_page_id = rd 4 buf 33,
                        lr_data = data\<rparr>, total_len))))"

definition serialized_size :: "log_record \<Rightarrow> nat" where
  "serialized_size r = RECORD_HEADER_SIZE + length (lr_data r)"

section \<open>Layout\<close>

lemma log_record_type_roundtrip [simp]: "log_record_type_from (log_record_type_as_u8 t) = t"
  by (cases t) (simp_all add: log_record_type_from_def)

definition body :: "log_record \<Rightarrow> bytes" where
  "body r = to_le 8 (lr_lsn r) @ to_le 8 (lr_txn_id r) @ to_le 8 (lr_prev_lsn r)
     @ [log_record_type_as_u8 (lr_type r)] @ to_le 4 (lr_page_id r)
     @ to_le 4 (of_nat (length (lr_data r)) :: u32) @ lr_data r"

lemma length_body [simp]: "length (body r) = 33 + length (lr_data r)"
  by (simp add: body_def)

lemma serialize_eq:
  "serialize r = to_le 4 (of_nat (41 + length (lr_data r)) :: u32) @ to_le 4 (crc32 (body r)) @ body r"
  by (simp add: serialize_def body_def Let_def wr_def)

lemma length_serialize [simp]: "length (serialize r) = 41 + length (lr_data r)"
  by (simp add: serialize_eq)

lemma rd_append_skip: "length xs \<le> i \<Longrightarrow> rd n (xs @ ys) i = rd n ys (i - length xs)"
  by (simp add: rd_def slice_def)

lemma rd_Cons_skip: "0 < i \<Longrightarrow> rd n (x # ys) i = rd n ys (i - 1)"
  by (cases i) (simp_all add: rd_def slice_def)

lemma rd_append_here: "LENGTH('a::len) \<le> 8 * n \<Longrightarrow> rd n (to_le n (w :: 'a word) @ ys) 0 = w"
  by (simp add: rd_def slice_def)

definition record_ok :: "log_record \<Rightarrow> bool" where
  "record_ok r \<longleftrightarrow> 41 + length (lr_data r) < 2 ^ 32"

lemma unat_u32: "n < 2 ^ 32 \<Longrightarrow> unat (of_nat n :: u32) = n"
  by (simp add: unsigned_of_nat take_bit_nat_eq_self)

lemma deserialize_serialize:
  assumes "record_ok r"
  shows "deserialize (serialize r @ rest) = Inr (r, length (serialize r))"
proof -
  let ?n = "41 + length (lr_data r)" and ?b = "serialize r @ rest"
  let ?len = "of_nat ?n :: u32" and ?crc = "crc32 (body r)"
  have b: "?b = to_le 4 ?len @ to_le 4 ?crc @ to_le 8 (lr_lsn r) @ to_le 8 (lr_txn_id r) @ to_le 8 (lr_prev_lsn r)
     @ [log_record_type_as_u8 (lr_type r)] @ to_le 4 (lr_page_id r)
     @ to_le 4 (of_nat (length (lr_data r)) :: u32) @ lr_data r @ rest"
    by (simp add: serialize_eq body_def)
  have len: "unat (rd 4 ?b 0 :: u32) = ?n"
    using assms by (simp add: b rd_append_here record_ok_def unat_u32 del: of_nat_add)
  have fields: "rd 4 ?b 4 = ?crc" "rd 8 ?b 8 = lr_lsn r" "rd 8 ?b 16 = lr_txn_id r" "rd 8 ?b 24 = lr_prev_lsn r"
    "?b ! 32 = log_record_type_as_u8 (lr_type r)" "rd 4 ?b 33 = lr_page_id r"
    "rd 4 ?b 37 = (of_nat (length (lr_data r)) :: u32)"
    by (simp_all add: b rd_append_skip rd_Cons_skip rd_append_here nth_append)
  have dl: "unat (of_nat (length (lr_data r)) :: u32) = length (lr_data r)"
    using assms by (simp add: record_ok_def unat_u32)
  have range: "get_range ?b 8 ?n = Inr (body r)" "get_range ?b 41 (41 + length (lr_data r)) = Inr (lr_data r)"
    by (simp_all add: get_range_def slice_def) (simp_all add: serialize_eq body_def)
  show ?thesis
    unfolding deserialize_def using len fields dl range
    by (simp add: Let_def del: length_serialize) simp
qed

text \<open>
  The start of a record is rejected as long as fewer bytes follow than the record has, whatever
  they are; so is a proper prefix.
\<close>

lemma deserialize_short:
  assumes ok: "record_ok r" and n: "4 \<le> n" and len: "n + length ys < length (serialize r)"
  shows "\<exists>e. deserialize (take n (serialize r) @ ys) = Inl (Err e)"
proof -
  let ?b = "take n (serialize r) @ ys"
  have "slice ?b 0 4 = to_le 4 (of_nat (41 + length (lr_data r)) :: u32)"
    using n by (simp add: slice_def serialize_eq min_def)
  then have "rd 4 ?b 0 = (of_nat (41 + length (lr_data r)) :: u32)" by (simp add: rd_def)
  then have "unat (rd 4 ?b 0 :: u32) = 41 + length (lr_data r)"
    using ok by (simp only: record_ok_def unat_u32)
  moreover have "length ?b < 41 + length (lr_data r)" using len by simp
  ultimately show ?thesis unfolding deserialize_def Let_def by (simp del: length_append length_take)
qed

lemma deserialize_torn:
  assumes "record_ok r" and "n < length (serialize r)"
  shows "\<exists>e. deserialize (take n (serialize r)) = Inl (Err e)"
  using assms deserialize_short [of r n "[]"] by (cases "4 \<le> n") (simp_all add: deserialize_def)

lemma deserialize_zeros: "41 \<le> n \<Longrightarrow> deserialize (replicate n 0) = Inl Panic"
proof -
  assume n: "41 \<le> n"
  have "slice (replicate n 0) 0 4 = [0, 0, 0, 0]" using n by (simp add: slice_def numeral_eq_Suc)
  then have "(rd 4 (replicate n 0) 0 :: u32) = 0" by (simp add: rd_def)
  with n show ?thesis by (simp add: deserialize_def get_range_def)
qed

lemma deserialize_consumed: "deserialize buf = Inr (r, n) \<Longrightarrow> 8 \<le> n \<and> n \<le> length buf"
  by (auto simp: deserialize_def Let_def get_range_def bindE_def split: if_splits sum.splits)

lemma page_write_images_ok:
  assumes "length before_image < 2 ^ 32"
  shows "page_write_images (lr_page_write l t p pid before_image after_image) = Inr (Some (before_image, after_image))"
  using assms
  by (simp add: page_write_images_def lr_page_write_def rd_append_here unat_u32 Let_def get_range_def slice_def)

lemma damaged_body:
  assumes "record_ok r" and "body r = pre @ xs @ suf"
    and "length ys = length xs" and "length xs \<le> 4" and "xs \<noteq> ys"
  shows "\<exists>a b. deserialize (take 8 (serialize r) @ (pre @ ys @ suf) @ rest) = Inl (Err (ChecksumMismatch a b))"
proof -
  let ?b = "take 8 (serialize r) @ (pre @ ys @ suf) @ rest"
  let ?n = "41 + length (lr_data r)"
  have lb: "length (pre @ ys @ suf) = 33 + length (lr_data r)"
    using length_body [of r] assms(2,3) by simp
  have b: "?b = to_le 4 (of_nat ?n :: u32) @ to_le 4 (crc32 (body r)) @ (pre @ ys @ suf) @ rest"
    by (simp add: serialize_eq)
  have len: "unat (rd 4 ?b 0 :: u32) = ?n"
    using assms(1) [unfolded record_ok_def] by (simp only: b rd_append_here [where 'a = 32] len_num1 len_bit0 unat_u32)
  have crc: "rd 4 ?b 4 = crc32 (body r)" unfolding b by (simp add: rd_append_skip rd_append_here)
  have lenb: "?n \<le> length ?b" using lb by (simp add: serialize_eq)
  have "get_range ?b 8 ?n = Inr (pre @ ys @ suf)"
    using lb by (simp add: get_range_def slice_def serialize_eq)
  moreover have "crc32 (body r) \<noteq> crc32 (pre @ ys @ suf)"
    using crc32_burst [of xs ys pre suf] assms(2-5) by simp
  ultimately show ?thesis
    using len crc lenb by (simp add: deserialize_def Let_def del: append_assoc)
qed

section \<open>Properties\<close>

text \<open>
  C28. Round trip of the log format: whatever follows it in the log, a serialized record is read
  back unchanged, and the number of bytes consumed is its serialized size.
\<close>

theorem log_record_roundtrip:
  assumes "41 + length (lr_data r) < 2 ^ 32"
  shows "deserialize (serialize r @ rest) = Inr (r, serialized_size r)"
  using deserialize_serialize [of r rest] assms by (simp add: record_ok_def serialized_size_def)

theorem log_record_roundtrip_witness:
  "deserialize (serialize (lr_page_write 5 1 4 7 [1] [2, 3]) @ [0, 0]) = Inr (lr_page_write 5 1 4 7 [1] [2, 3], 48)"
  using log_record_roundtrip [of "lr_page_write 5 1 4 7 [1] [2, 3]" "[0, 0]"]
  by (simp add: lr_page_write_def serialized_size_def)

text \<open>
  C29. A record whose stored body was changed within four consecutive bytes, at the same length
  and with the length field and the checksum intact, is rejected with a checksum error.
\<close>

theorem log_record_corruption_detected:
  assumes "41 + length (lr_data r) < 2 ^ 32" and "body r = pre @ xs @ suf"
    and "length ys = length xs" and "length xs \<le> 4" and "xs \<noteq> ys"
  shows "\<exists>a b. deserialize (take 8 (serialize r) @ (pre @ ys @ suf) @ rest) = Inl (Err (ChecksumMismatch a b))"
  using damaged_body [OF _ assms(2-5)] assms(1) by (simp add: record_ok_def)

theorem log_record_corruption_detected_witness:
  "\<exists>a b. deserialize (take 8 (serialize (lr_begin 1 2)) @ ([9] @ drop 1 (body (lr_begin 1 2))))
     = Inl (Err (ChecksumMismatch a b))"
proof -
  have "body (lr_begin 1 2) = [] @ [1] @ drop 1 (body (lr_begin 1 2))"
    by (simp add: body_def lr_begin_def to_le_def upt_rec)
  from log_record_corruption_detected [OF _ this, of "[9]" "[]"] show ?thesis
    by (simp add: lr_begin_def)
qed

end
