(* ===== verification/Wal.thy ===== *)
theory Wal
  imports Log_Record Disk
begin

text \<open>
  The write-ahead log of \<^verbatim>\<open>src/src/wal/wal_manager.rs\<close>. The log file is its contents;
  \<^verbatim>\<open>read_all_records\<close> opens the same file by its path, so that it reads \<open>wm_file\<close>.
  \<^verbatim>\<open>HashSet\<close>s of transaction ids are sets; the two id vectors of \<^verbatim>\<open>RecoveryActions\<close>,
  which are only counted, are sets too. File offsets are natural numbers.

  \<open>wal_holds w ds ps\<close> is the abstraction: \<open>ds\<close> are the records in the file, \<open>ps\<close>
  those in the write buffer. The recovery loop needs no fuel: every record it accepts consumes
  at least 8 bytes.
\<close>

section \<open>The code\<close>

record wal_manager =
  wm_file :: bytes
  wm_path :: string
  wm_next_lsn :: lsn
  wm_offset :: nat
  wm_flushed_lsn :: lsn
  wm_txn_last_lsn :: "u64 \<rightharpoonup> lsn"
  wm_write_buffer :: bytes

function read_records :: "bytes \<Rightarrow> nat \<Rightarrow> log_record list \<Rightarrow> log_record list res" where
  "read_records buf pos records =
     (if pos < length buf then
        case deserialize (drop pos buf) of
          Inr (record, consumed) \<Rightarrow> read_records buf (pos + consumed) (records @ [record])
        | Inl (Err e) \<Rightarrow> Inr records
        | Inl Panic \<Rightarrow> Inl Panic
        | Inl OutOfFuel \<Rightarrow> Inl OutOfFuel
      else Inr records)"
  by pat_completeness auto
termination
  by (relation "measure (\<lambda>(buf, pos, records). length buf - pos)")
    (auto dest!: deserialize_consumed)

declare read_records.simps [simp del]

definition read_all_records :: "bytes \<Rightarrow> log_record list res" where
  "read_all_records file = read_records file 0 []"

definition max_lsn :: "lsn \<Rightarrow> log_record list \<Rightarrow> lsn" where
  "max_lsn m records = foldl (\<lambda>m r. if lr_lsn r > m then lr_lsn r else m) m records"

definition wal_open :: "string \<Rightarrow> bytes \<Rightarrow> wal_manager res" where
  "wal_open path file =
     (let file_len = length file
      in bindE (if file_len > 0 then read_all_records file else Inr []) (\<lambda>records.
         let mx = max_lsn 0 records
         in Inr \<lparr>wm_file = file, wm_path = path, wm_next_lsn = mx + 1, wm_offset = file_len,
                 wm_flushed_lsn = mx, wm_txn_last_lsn = Map.empty, wm_write_buffer = []\<rparr>))"

definition current_lsn :: "wal_manager \<Rightarrow> lsn" where
  "current_lsn w = wm_next_lsn w"

definition last_lsn :: "wal_manager \<Rightarrow> u64 \<Rightarrow> lsn" where
  "last_lsn w txn = (case wm_txn_last_lsn w txn of None \<Rightarrow> 0 | Some l \<Rightarrow> l)"

definition wal_append :: "log_record \<Rightarrow> (wal_manager, lsn) op" where
  "wal_append record w =
     (let lsn = wm_next_lsn w;
          w1 = w\<lparr>wm_next_lsn := lsn + 1\<rparr>;
          record1 = record\<lparr>lr_lsn := lsn\<rparr>;
          (record2, w2) =
            (if lr_txn_id record \<noteq> 0
             then (record1\<lparr>lr_prev_lsn := last_lsn w (lr_txn_id record)\<rparr>,
                   w1\<lparr>wm_txn_last_lsn := (wm_txn_last_lsn w)(lr_txn_id record \<mapsto> lsn)\<rparr>)
             else (record1, w1));
          bs = serialize record2
      in (Inr lsn, w2\<lparr>wm_write_buffer := wm_write_buffer w @ bs, wm_offset := wm_offset w + length bs\<rparr>))"

definition wal_flush :: "(wal_manager, unit) op" where
  "wal_flush w =
     (case (if wm_write_buffer w \<noteq> [] then
              bindE (sub_usize (wm_offset w) (length (wm_write_buffer w))) (\<lambda>start.
              Inr (w\<lparr>wm_file := file_write (wm_file w) start (wm_write_buffer w), wm_write_buffer := []\<rparr>))
            else Inr w) of
        Inl e \<Rightarrow> (Inl e, w)
      | Inr w' \<Rightarrow> (Inr (), w'\<lparr>wm_flushed_lsn := wm_next_lsn w' - 1\<rparr>))"

definition forget_txn :: "u64 \<Rightarrow> (wal_manager, unit) op" where
  "forget_txn txn w = (Inr (), w\<lparr>wm_txn_last_lsn := (wm_txn_last_lsn w)(txn := None)\<rparr>)"

definition log_begin :: "u64 \<Rightarrow> (wal_manager, lsn) op" where
  "log_begin txn = wal_append (lr_begin 0 txn)"

definition log_commit :: "u64 \<Rightarrow> (wal_manager, lsn) op" where
  "log_commit txn w =
     bindS (wal_append (lr_commit 0 txn (last_lsn w txn))) (\<lambda>lsn.
     bindS wal_flush (\<lambda>_.
     bindS (forget_txn txn) (\<lambda>_.
     retS lsn))) w"

definition log_abort :: "u64 \<Rightarrow> (wal_manager, lsn) op" where
  "log_abort txn w =
     bindS (wal_append (lr_abort 0 txn (last_lsn w txn))) (\<lambda>lsn.
     bindS (forget_txn txn) (\<lambda>_.
     retS lsn)) w"

definition log_page_write :: "u64 \<Rightarrow> u32 \<Rightarrow> bytes \<Rightarrow> bytes \<Rightarrow> (wal_manager, lsn) op" where
  "log_page_write txn pid before_image after_image w =
     wal_append (lr_page_write 0 txn (last_lsn w txn) pid before_image after_image) w"

definition log_checkpoint :: "u64 list \<Rightarrow> (wal_manager, lsn) op" where
  "log_checkpoint active_txns =
     bindS (wal_append (lr_checkpoint 0 active_txns)) (\<lambda>lsn.
     bindS wal_flush (\<lambda>_.
     retS lsn))"

definition wal_truncate :: "(wal_manager, unit) op" where
  "wal_truncate w = (Inr (), w\<lparr>wm_write_buffer := [], wm_file := [], wm_offset := 0, wm_txn_last_lsn := Map.empty\<rparr>)"

record recovery_actions =
  ra_redo :: "(u32 \<times> bytes) list"
  ra_undo :: "(u32 \<times> bytes) list"
  ra_committed_txns :: "u64 set"
  ra_aborted_txns :: "u64 set"

text \<open>Phase 1 of recovery: the committed and the still active transactions after a record.\<close>

definition analyse :: "u64 set \<times> u64 set \<Rightarrow> log_record \<Rightarrow> u64 set \<times> u64 set" where
  "analyse s r = (case s of (committed, active) \<Rightarrow>
     (case lr_type r of
        LrBegin \<Rightarrow> (committed, insert (lr_txn_id r) active)
      | LrCommit \<Rightarrow> (insert (lr_txn_id r) committed, active - {lr_txn_id r})
      | LrAbort \<Rightarrow> (committed, active - {lr_txn_id r})
      | _ \<Rightarrow> (committed, active)))"

definition collect :: "u64 set \<Rightarrow> (bytes \<times> bytes \<Rightarrow> bytes) \<Rightarrow> log_record list \<Rightarrow> (u32 \<times> bytes) list res" where
  "collect txns img records =
     foldE (\<lambda>acc r.
       if lr_type r = LrPageWrite \<and> lr_txn_id r \<in> txns then
         bindE (page_write_images r) (\<lambda>im. case im of
             Some ba \<Rightarrow> Inr (acc @ [(lr_page_id r, img ba)])
           | None \<Rightarrow> Inr acc)
       else Inr acc) [] records"

definition recover_records :: "log_record list \<Rightarrow> recovery_actions res" where
  "recover_records records =
     (if records = [] then Inr \<lparr>ra_redo = [], ra_undo = [], ra_committed_txns = {}, ra_aborted_txns = {}\<rparr>
      else case foldl analyse ({}, {}) records of (committed, active) \<Rightarrow>
        bindE (collect committed snd records) (\<lambda>redo.
        bindE (collect active fst (rev records)) (\<lambda>undo.
        Inr \<lparr>ra_redo = redo, ra_undo = undo, ra_committed_txns = committed, ra_aborted_txns = active\<rparr>)))"

definition wal_recover :: "wal_manager \<Rightarrow> recovery_actions res" where
  "wal_recover w = bindE (read_all_records (wm_file w)) recover_records"

section \<open>Reading the log back\<close>

abbreviation log_bytes :: "log_record list \<Rightarrow> bytes" where
  "log_bytes rs \<equiv> concat (map serialize rs)"

lemma read_records_step:
  "drop pos buf = serialize r @ rest \<Longrightarrow> record_ok r \<Longrightarrow>
     read_records buf pos acc = read_records buf (pos + length (serialize r)) (acc @ [r])"
  using deserialize_serialize [of r rest]
  by (subst read_records.simps) (auto simp: not_less dest: arg_cong [of _ _ length])

lemma read_records_ok:
  assumes "\<forall>r \<in> set rs. record_ok r" and "drop pos buf = log_bytes rs @ tail"
  shows "read_records buf pos acc = read_records buf (pos + length (log_bytes rs)) (acc @ rs)"
  using assms
proof (induction rs arbitrary: pos acc)
  case (Cons r rs)
  have d: "drop pos buf = serialize r @ (log_bytes rs @ tail)" using Cons.prems(2) by simp
  have "drop (pos + length (serialize r)) buf = drop (length (serialize r)) (drop pos buf)"
    by (simp add: add.commute)
  also have "\<dots> = log_bytes rs @ tail" by (simp only: d) simp
  finally have "read_records buf (pos + length (serialize r)) (acc @ [r])
      = read_records buf (pos + length (serialize r) + length (log_bytes rs)) ((acc @ [r]) @ rs)"
    using Cons by simp
  with read_records_step [OF d] Cons.prems(1) show ?case by (simp add: add.assoc)
qed simp

lemma read_all_tail:
  assumes "\<forall>r \<in> set rs. record_ok r" and "tail = [] \<or> (\<exists>e. deserialize tail = Inl (Err e))"
  shows "read_all_records (log_bytes rs @ tail) = Inr rs"
proof -
  let ?b = "log_bytes rs @ tail"
  have "read_all_records ?b = read_records ?b (length (log_bytes rs)) rs"
    using read_records_ok [OF assms(1), of 0 ?b tail "[]"] by (simp add: read_all_records_def)
  also have "\<dots> = Inr rs"
    using assms(2) by (subst read_records.simps) auto
  finally show ?thesis .
qed

lemma read_all_log: "\<forall>r \<in> set rs. record_ok r \<Longrightarrow> read_all_records (log_bytes rs) = Inr rs"
  using read_all_tail [of rs "[]"] by simp

text \<open>The records that lie completely in the first \<open>n\<close> bytes of the log.\<close>

fun whole_records :: "nat \<Rightarrow> log_record list \<Rightarrow> log_record list" where
  "whole_records n [] = []"
| "whole_records n (r # rs) =
     (if serialized_size r \<le> n then r # whole_records (n - serialized_size r) rs else [])"

lemma log_cut:
  "\<exists>t. take n (log_bytes rs) = log_bytes (whole_records n rs) @ t
     \<and> (t = [] \<or> (\<exists>r \<in> set rs. \<exists>m < length (serialize r). t = take m (serialize r)))"
proof (induction rs arbitrary: n)
  case (Cons r rs)
  show ?case
  proof (cases "serialized_size r \<le> n")
    case True
    with Cons.IH [of "n - serialized_size r"] show ?thesis by (auto simp: serialized_size_def RECORD_HEADER_SIZE_def)
  next
    case False
    then show ?thesis by (auto simp: serialized_size_def RECORD_HEADER_SIZE_def intro!: exI [of _ n])
  qed
qed simp

lemma whole_records_set: "set (whole_records n rs) \<subseteq> set rs"
  by (induction n rs rule: whole_records.induct) auto

lemma read_all_cut:
  assumes "\<forall>r \<in> set rs. record_ok r"
  shows "read_all_records (take n (log_bytes rs)) = Inr (whole_records n rs)"
proof -
  obtain t where cut: "take n (log_bytes rs) = log_bytes (whole_records n rs) @ t"
    and t: "t = [] \<or> (\<exists>r \<in> set rs. \<exists>m < length (serialize r). t = take m (serialize r))"
    using log_cut by blast
  from t have "t = [] \<or> (\<exists>e. deserialize t = Inl (Err e))" using deserialize_torn assms by blast
  moreover have "\<forall>x \<in> set (whole_records n rs). record_ok x" using assms whole_records_set by blast
  ultimately show ?thesis unfolding cut using read_all_tail by blast
qed

text \<open>What follows a readable prefix decides how reading ends.\<close>

lemma read_all_panic:
  assumes "\<forall>r \<in> set rs. record_ok r" and "tail \<noteq> []" and "deserialize tail = Inl Panic"
  shows "read_all_records (log_bytes rs @ tail) = Inl Panic"
proof -
  let ?b = "log_bytes rs @ tail"
  have "read_all_records ?b = read_records ?b (length (log_bytes rs)) rs"
    using read_records_ok [OF assms(1), of 0 ?b tail "[]"] by (simp add: read_all_records_def)
  also have "\<dots> = Inl Panic" using assms(2,3) by (subst read_records.simps) simp
  finally show ?thesis .
qed

section \<open>The log as a sequence of records\<close>

text \<open>
  Records get strictly increasing sequence numbers, and the previous-record pointer of a record
  is 0 or the number of the last earlier record of the same transaction.
\<close>

definition last_of :: "log_record list \<Rightarrow> u64 \<Rightarrow> lsn \<Rightarrow> bool" where
  "last_of rs t l \<longleftrightarrow> (\<exists>q \<in> set rs. lr_txn_id q = t \<and> lr_lsn q = l) \<and> (\<forall>q \<in> set rs. lr_txn_id q = t \<longrightarrow> lr_lsn q \<le> l)"

definition linked :: "log_record list \<Rightarrow> bool" where
  "linked rs \<longleftrightarrow> (\<forall>pre r post. rs = pre @ r # post \<longrightarrow> lr_txn_id r \<noteq> 0 \<longrightarrow>
     lr_prev_lsn r = 0 \<or> last_of pre (lr_txn_id r) (lr_prev_lsn r))"

definition log_ok :: "log_record list \<Rightarrow> lsn \<Rightarrow> bool" where
  "log_ok rs nxt \<longleftrightarrow> (\<forall>r \<in> set rs. record_ok r \<and> lr_lsn r < nxt) \<and> sorted_wrt (<) (map lr_lsn rs) \<and> linked rs"

definition wal_holds :: "wal_manager \<Rightarrow> log_record list \<Rightarrow> log_record list \<Rightarrow> bool" where
  "wal_holds w ds ps \<longleftrightarrow> wm_file w = log_bytes ds \<and> wm_write_buffer w = log_bytes ps
     \<and> wm_offset w = length (wm_file w) + length (wm_write_buffer w)
     \<and> log_ok (ds @ ps) (wm_next_lsn w) \<and> wm_txn_last_lsn w 0 = None
     \<and> (\<forall>t l. wm_txn_last_lsn w t = Some l \<longrightarrow> last_of (ds @ ps) t l)"

lemma linked_Nil [simp]: "linked []"
  by (simp add: linked_def)

lemma linked_snoc:
  assumes "linked rs" and "lr_txn_id r \<noteq> 0 \<longrightarrow> lr_prev_lsn r = 0 \<or> last_of rs (lr_txn_id r) (lr_prev_lsn r)"
  shows "linked (rs @ [r])"
  unfolding linked_def
proof (intro allI impI)
  fix pre q post assume eq: "rs @ [r] = pre @ q # post" and q: "lr_txn_id q \<noteq> 0"
  show "lr_prev_lsn q = 0 \<or> last_of pre (lr_txn_id q) (lr_prev_lsn q)"
  proof (cases post rule: rev_exhaust)
    case Nil
    with eq assms(2) q show ?thesis by auto
  next
    case (snoc post' x)
    with eq have "rs = pre @ q # post'" by (metis append_Cons append_assoc append_same_eq butlast_snoc)
    with assms(1) q show ?thesis by (auto simp: linked_def)
  qed
qed

lemma lsn_succ: "(n :: lsn) \<noteq> - 1 \<Longrightarrow> n < n + 1"
proof -
  assume "n \<noteq> - 1"
  then have "1 + n \<noteq> 0" by (metis add_eq_0_iff)
  then show ?thesis by (simp add: word_less_nat_alt unatSuc add.commute [of n])
qed

lemma log_ok_snoc:
  assumes ok: "log_ok rs n" and n: "n \<noteq> - 1" and r: "lr_lsn r = n" "record_ok r"
    and link: "lr_txn_id r \<noteq> 0 \<longrightarrow> lr_prev_lsn r = 0 \<or> last_of rs (lr_txn_id r) (lr_prev_lsn r)"
  shows "log_ok (rs @ [r]) (n + 1)"
  using assms lsn_succ [OF n] linked_snoc [OF _ link]
  by (auto simp: log_ok_def sorted_wrt_append intro: less_trans)

lemma last_of_snoc_same: "log_ok rs n \<Longrightarrow> lr_lsn r = n \<Longrightarrow> last_of (rs @ [r]) (lr_txn_id r) n"
  by (auto simp: last_of_def log_ok_def)

lemma last_of_snoc_other: "lr_txn_id r \<noteq> t \<Longrightarrow> last_of (rs @ [r]) t l = last_of rs t l"
  by (auto simp: last_of_def)

definition stamped :: "wal_manager \<Rightarrow> log_record \<Rightarrow> log_record" where
  "stamped w r = r\<lparr>lr_lsn := wm_next_lsn w,
     lr_prev_lsn := (if lr_txn_id r \<noteq> 0 then last_lsn w (lr_txn_id r) else lr_prev_lsn r)\<rparr>"

lemma wal_append_ok:
  assumes h: "wal_holds w ds ps" and n: "wm_next_lsn w \<noteq> - 1" and r: "record_ok r"
  obtains w' where "wal_append r w = (Inr (wm_next_lsn w), w')" "wal_holds w' ds (ps @ [stamped w r])"
    "wm_next_lsn w' = wm_next_lsn w + 1" "wm_file w' = wm_file w" "wm_flushed_lsn w' = wm_flushed_lsn w"
    "wm_txn_last_lsn w' = (if lr_txn_id r \<noteq> 0 then (wm_txn_last_lsn w)(lr_txn_id r \<mapsto> wm_next_lsn w) else wm_txn_last_lsn w)"
proof -
  let ?r = "stamped w r" and ?n = "wm_next_lsn w"
  define w' where "w' = w\<lparr>wm_next_lsn := ?n + 1,
     wm_txn_last_lsn := (if lr_txn_id r \<noteq> 0 then (wm_txn_last_lsn w)(lr_txn_id r \<mapsto> ?n) else wm_txn_last_lsn w),
     wm_write_buffer := wm_write_buffer w @ serialize ?r, wm_offset := wm_offset w + length (serialize ?r)\<rparr>"
  have run: "wal_append r w = (Inr ?n, w')"
    by (cases "lr_txn_id r = 0") (simp_all add: wal_append_def w'_def stamped_def Let_def)
  have ok: "log_ok (ds @ ps) ?n" using h by (simp add: wal_holds_def)
  have st: "lr_lsn ?r = ?n" "lr_txn_id ?r = lr_txn_id r" "record_ok ?r"
    using r by (simp_all add: stamped_def record_ok_def)
  have link: "lr_txn_id ?r \<noteq> 0 \<longrightarrow> lr_prev_lsn ?r = 0 \<or> last_of (ds @ ps) (lr_txn_id ?r) (lr_prev_lsn ?r)"
    using h by (auto simp: stamped_def last_lsn_def wal_holds_def split: option.splits)
  have "log_ok (ds @ ps @ [?r]) (?n + 1)" using log_ok_snoc [OF ok n st(1,3) link] by simp
  moreover have "last_of (ds @ ps @ [?r]) t l" if "wm_txn_last_lsn w' t = Some l" for t l
  proof (cases "t = lr_txn_id r")
    case True
    have "lr_txn_id r \<noteq> 0" using that h True by (auto simp: w'_def wal_holds_def)
    with True that have "l = ?n" by (simp add: w'_def)
    with True last_of_snoc_same [OF ok st(1)] st(2) show ?thesis by simp
  next
    case False
    with that have "wm_txn_last_lsn w t = Some l" by (auto simp: w'_def split: if_splits)
    then have "last_of (ds @ ps) t l" using h by (simp add: wal_holds_def)
    with last_of_snoc_other [of ?r t "ds @ ps" l] False st(2) show ?thesis by simp
  qed
  ultimately have "wal_holds w' ds (ps @ [?r])"
    using h by (auto simp: wal_holds_def w'_def)
  with that run show thesis by (simp add: w'_def)
qed

lemma file_append: "file_write f (length f) bs = f @ bs"
  by (simp add: file_write_def)

lemma wal_flush_ok:
  assumes h: "wal_holds w ds ps"
  obtains w' where "wal_flush w = (Inr (), w')" "wal_holds w' (ds @ ps) []" "wm_next_lsn w' = wm_next_lsn w"
    "wm_txn_last_lsn w' = wm_txn_last_lsn w" "wm_flushed_lsn w' = wm_next_lsn w - 1"
proof -
  define w' where "w' = w\<lparr>wm_file := wm_file w @ wm_write_buffer w, wm_write_buffer := [], wm_flushed_lsn := wm_next_lsn w - 1\<rparr>"
  have off: "wm_offset w = length (wm_file w) + length (wm_write_buffer w)" using h by (simp add: wal_holds_def)
  have run: "wal_flush w = (Inr (), w')"
    using off by (auto simp: wal_flush_def w'_def file_append)
  have "wal_holds w' (ds @ ps) []" using h by (auto simp: wal_holds_def w'_def)
  with that run show thesis by (simp add: w'_def)
qed

lemma forget_txn_ok:
  "wal_holds w ds ps \<Longrightarrow> wal_holds (w\<lparr>wm_txn_last_lsn := (wm_txn_last_lsn w)(t := None)\<rparr>) ds ps"
  by (auto simp: wal_holds_def)

lemma log_commit_ok:
  assumes h: "wal_holds w ds ps" and n: "wm_next_lsn w \<noteq> - 1"
  obtains w' where "log_commit t w = (Inr (wm_next_lsn w), w')"
    "wal_holds w' (ds @ ps @ [stamped w (lr_commit 0 t (last_lsn w t))]) []" "wm_flushed_lsn w' = wm_next_lsn w"
    "wm_next_lsn w' = wm_next_lsn w + 1" "wm_txn_last_lsn w' = (wm_txn_last_lsn w)(t := None)"
proof -
  let ?r = "lr_commit 0 t (last_lsn w t)"
  have ok: "record_ok ?r" by (simp add: record_ok_def lr_commit_def)
  show thesis
  proof (rule wal_append_ok [OF h n ok])
    fix w1 assume a: "wal_append ?r w = (Inr (wm_next_lsn w), w1)" "wal_holds w1 ds (ps @ [stamped w ?r])"
      "wm_next_lsn w1 = wm_next_lsn w + 1"
      "wm_txn_last_lsn w1 = (if lr_txn_id ?r \<noteq> 0 then (wm_txn_last_lsn w)(lr_txn_id ?r \<mapsto> wm_next_lsn w) else wm_txn_last_lsn w)"
    show thesis
    proof (rule wal_flush_ok [OF a(2)])
      fix w2 assume f: "wal_flush w1 = (Inr (), w2)" "wal_holds w2 (ds @ ps @ [stamped w ?r]) []"
        "wm_next_lsn w2 = wm_next_lsn w1" "wm_flushed_lsn w2 = wm_next_lsn w1 - 1" "wm_txn_last_lsn w2 = wm_txn_last_lsn w1"
      show thesis
        by (rule that [OF _ forget_txn_ok [OF f(2), of t]])
          (use a f in \<open>simp_all add: log_commit_def bindS_def forget_txn_def lr_commit_def\<close>)
    qed
  qed
qed

lemma log_abort_ok:
  assumes h: "wal_holds w ds ps" and n: "wm_next_lsn w \<noteq> - 1"
  obtains w' where "log_abort t w = (Inr (wm_next_lsn w), w')"
    "wal_holds w' ds (ps @ [stamped w (lr_abort 0 t (last_lsn w t))])" "wm_next_lsn w' = wm_next_lsn w + 1"
    "wm_txn_last_lsn w' = (wm_txn_last_lsn w)(t := None)"
proof -
  let ?r = "lr_abort 0 t (last_lsn w t)"
  have ok: "record_ok ?r" by (simp add: record_ok_def lr_abort_def)
  show thesis
  proof (rule wal_append_ok [OF h n ok])
    fix w1 assume a: "wal_append ?r w = (Inr (wm_next_lsn w), w1)" "wal_holds w1 ds (ps @ [stamped w ?r])"
      "wm_next_lsn w1 = wm_next_lsn w + 1"
      "wm_txn_last_lsn w1 = (if lr_txn_id ?r \<noteq> 0 then (wm_txn_last_lsn w)(lr_txn_id ?r \<mapsto> wm_next_lsn w) else wm_txn_last_lsn w)"
    show thesis
      by (rule that [OF _ forget_txn_ok [OF a(2), of t]])
        (use a in \<open>simp_all add: log_abort_def bindS_def forget_txn_def lr_abort_def\<close>)
  qed
qed

lemma wal_truncate_ok:
  "wal_holds w ds ps \<Longrightarrow> \<exists>w'. wal_truncate w = (Inr (), w') \<and> wal_holds w' [] [] \<and> wm_next_lsn w' = wm_next_lsn w"
  by (simp add: wal_truncate_def wal_holds_def log_ok_def)

text \<open>Opening a log file that holds a sequence of records, possibly followed by a torn one.\<close>

lemma max_lsn_bounds:
  shows "m \<le> max_lsn m rs" and "\<forall>r \<in> set rs. lr_lsn r \<le> max_lsn m rs"
    and "max_lsn m rs = m \<or> (\<exists>r \<in> set rs. lr_lsn r = max_lsn m rs)"
proof (induction rs arbitrary: m)
  case (Cons r rs)
  have step: "max_lsn m (r # rs) = max_lsn (if lr_lsn r > m then lr_lsn r else m) rs" for m
    by (simp add: max_lsn_def)
  { case 1 show ?case using Cons(1) [of "lr_lsn r"] Cons(1) [of m] step [of m] by auto }
  { case 2 show ?case
      using Cons(1,2) [of "lr_lsn r"] Cons(1,2) [of m] step [of m] by (auto simp: not_less) }
  { case 3 show ?case using Cons(3) [of "lr_lsn r"] Cons(3) [of m] step [of m] by auto }
qed (simp_all add: max_lsn_def)

lemma wal_open_ok:
  assumes ok: "log_ok ds n"
  obtains w where "wal_open path (log_bytes ds) = Inr w" "wal_holds w ds []"
    "\<forall>r \<in> set ds. lr_lsn r < wm_next_lsn w" "wm_next_lsn w = max_lsn 0 ds + 1"
proof -
  let ?mx = "max_lsn 0 ds"
  have rs: "\<forall>r \<in> set ds. record_ok r" using ok by (simp add: log_ok_def)
  have read: "(if length (log_bytes ds) > 0 then read_all_records (log_bytes ds) else Inr []) = Inr ds"
  proof (cases ds)
    case (Cons r rs')
    then have "length (log_bytes ds) > 0" by simp
    with read_all_log [OF rs] show ?thesis by simp
  qed simp
  have "?mx \<noteq> - 1"
  proof
    assume "?mx = - 1"
    with max_lsn_bounds(3) [of 0 ds] obtain r where "r \<in> set ds" "lr_lsn r = - 1" by auto
    with ok have "- 1 < n" by (auto simp: log_ok_def)
    then show False by simp
  qed
  then have lt: "\<forall>r \<in> set ds. lr_lsn r < ?mx + 1"
    using max_lsn_bounds(2) [of ds 0] lsn_succ [of ?mx] by (meson le_less_trans)
  define w where "w = \<lparr>wm_file = log_bytes ds, wm_path = path, wm_next_lsn = ?mx + 1, wm_offset = length (log_bytes ds),
                 wm_flushed_lsn = ?mx, wm_txn_last_lsn = Map.empty, wm_write_buffer = []\<rparr>"
  have "wal_open path (log_bytes ds) = Inr w" unfolding wal_open_def Let_def read by (simp add: w_def)
  moreover have "wal_holds w ds []" using ok lt by (simp add: wal_holds_def w_def log_ok_def)
  ultimately show thesis using that lt by (simp add: w_def)
qed

section \<open>The plan of recovery\<close>

definition committed_in :: "log_record list \<Rightarrow> u64 \<Rightarrow> bool" where
  "committed_in rs t \<longleftrightarrow> (\<exists>r \<in> set rs. lr_type r = LrCommit \<and> lr_txn_id r = t)"

definition ends :: "u64 \<Rightarrow> log_record \<Rightarrow> bool" where
  "ends t r \<longleftrightarrow> lr_txn_id r = t \<and> lr_type r \<in> {LrCommit, LrAbort}"

text \<open>A transaction is active at the end of the log if it began and did not end since.\<close>

definition active_in :: "log_record list \<Rightarrow> u64 \<Rightarrow> bool" where
  "active_in rs t \<longleftrightarrow> (\<exists>pre r post. rs = pre @ r # post \<and> lr_type r = LrBegin \<and> lr_txn_id r = t
     \<and> (\<forall>q \<in> set post. \<not> ends t q))"

lemma committed_in_snoc: "committed_in (rs @ [r]) t \<longleftrightarrow> committed_in rs t \<or> lr_type r = LrCommit \<and> lr_txn_id r = t"
  by (auto simp: committed_in_def)

lemma active_in_snoc:
  "active_in (rs @ [r]) t \<longleftrightarrow> lr_type r = LrBegin \<and> lr_txn_id r = t \<or> active_in rs t \<and> \<not> ends t r"
proof
  assume "active_in (rs @ [r]) t"
  then obtain pre q post where eq: "rs @ [r] = pre @ q # post" and q: "lr_type q = LrBegin" "lr_txn_id q = t"
    and post: "\<forall>x \<in> set post. \<not> ends t x" by (auto simp: active_in_def)
  show "lr_type r = LrBegin \<and> lr_txn_id r = t \<or> active_in rs t \<and> \<not> ends t r"
  proof (cases post rule: rev_exhaust)
    case Nil
    with eq q show ?thesis by simp
  next
    case (snoc post' x)
    with eq have "rs = pre @ q # post'" "r = x" by simp_all
    with q post snoc show ?thesis by (auto simp: active_in_def)
  qed
next
  assume "lr_type r = LrBegin \<and> lr_txn_id r = t \<or> active_in rs t \<and> \<not> ends t r"
  then show "active_in (rs @ [r]) t"
  proof
    assume "lr_type r = LrBegin \<and> lr_txn_id r = t"
    then show ?thesis unfolding active_in_def by (intro exI [of _ rs] exI [of _ r] exI [of _ "[]"]) simp
  next
    assume "active_in rs t \<and> \<not> ends t r"
    then obtain pre q post where "rs = pre @ q # post" "lr_type q = LrBegin" "lr_txn_id q = t"
      "\<forall>x \<in> set post. \<not> ends t x" "\<not> ends t r" by (auto simp: active_in_def)
    then show ?thesis unfolding active_in_def
      by (intro exI [of _ pre] exI [of _ q] exI [of _ "post @ [r]"]) auto
  qed
qed

lemma analyse_ok: "foldl analyse ({}, {}) rs = ({t. committed_in rs t}, {t. active_in rs t})"
proof (induction rs rule: rev_induct)
  case Nil
  then show ?case by (simp add: committed_in_def active_in_def)
next
  case (snoc r rs)
  then show ?case
    by (cases "lr_type r") (auto simp: analyse_def committed_in_snoc active_in_snoc ends_def)
qed

definition images :: "log_record \<Rightarrow> bytes \<times> bytes" where
  "images r = (case page_write_images r of Inr (Some ba) \<Rightarrow> ba | _ \<Rightarrow> ([], []))"

definition images_ok :: "log_record \<Rightarrow> bool" where
  "images_ok r \<longleftrightarrow> lr_type r = LrPageWrite \<longrightarrow> page_write_images r = Inr (Some (images r))"

definition writes_of :: "(u64 \<Rightarrow> bool) \<Rightarrow> log_record list \<Rightarrow> log_record list" where
  "writes_of p rs = filter (\<lambda>r. lr_type r = LrPageWrite \<and> p (lr_txn_id r)) rs"

lemma collect_step:
  "\<forall>r \<in> set rs. images_ok r \<Longrightarrow>
     foldE (\<lambda>acc r.
       if lr_type r = LrPageWrite \<and> lr_txn_id r \<in> txns then
         bindE (page_write_images r) (\<lambda>im. case im of
             Some ba \<Rightarrow> Inr (acc @ [(lr_page_id r, img ba)])
           | None \<Rightarrow> Inr acc)
       else Inr acc) acc rs
     = Inr (acc @ map (\<lambda>r. (lr_page_id r, img (images r))) (writes_of (\<lambda>t. t \<in> txns) rs))"
  by (induction rs arbitrary: acc) (auto simp: writes_of_def images_ok_def)

lemma recover_records_ok:
  assumes "\<forall>r \<in> set rs. images_ok r"
  shows "recover_records rs = Inr
    \<lparr>ra_redo = map (\<lambda>r. (lr_page_id r, snd (images r))) (writes_of (committed_in rs) rs),
     ra_undo = map (\<lambda>r. (lr_page_id r, fst (images r))) (writes_of (active_in rs) (rev rs)),
     ra_committed_txns = {t. committed_in rs t}, ra_aborted_txns = {t. active_in rs t}\<rparr>"
proof (cases "rs = []")
  case True
  then show ?thesis by (simp add: recover_records_def writes_of_def committed_in_def active_in_def)
next
  case False
  then show ?thesis
    using assms collect_step [of rs "{t. committed_in rs t}" snd "[]"]
      collect_step [of "rev rs" "{t. active_in rs t}" fst "[]"]
    by (simp add: recover_records_def analyse_ok collect_def)
qed

lemma recover_committed:
  "recover_records rs = Inr acts \<Longrightarrow> ra_committed_txns acts = {t. committed_in rs t} \<and> ra_aborted_txns acts = {t. active_in rs t}"
proof (cases "rs = []")
  case True
  assume "recover_records rs = Inr acts"
  with True show ?thesis by (auto simp: recover_records_def committed_in_def active_in_def)
next
  case False
  assume "recover_records rs = Inr acts"
  with False show ?thesis by (auto simp: recover_records_def analyse_ok bindE_eq_Inr)
qed

lemma page_write_simps [simp]:
  "lr_type (lr_page_write l t p pid bi ai) = LrPageWrite" "lr_txn_id (lr_page_write l t p pid bi ai) = t"
  "lr_page_id (lr_page_write l t p pid bi ai) = pid"
  by (simp_all add: lr_page_write_def)

text \<open>Transaction ids are used once: no begin record follows the end of the same transaction.\<close>

definition fresh_ids :: "log_record list \<Rightarrow> bool" where
  "fresh_ids rs \<longleftrightarrow> (\<forall>pre r post. rs = pre @ r # post \<longrightarrow> lr_type r = LrBegin \<longrightarrow>
     (\<forall>q \<in> set pre. lr_txn_id q \<noteq> lr_txn_id r))"

lemma fresh_ids_disjoint: "fresh_ids rs \<Longrightarrow> active_in rs t \<Longrightarrow> \<not> committed_in rs t"
proof
  assume fresh: "fresh_ids rs" and act: "active_in rs t" and com: "committed_in rs t"
  from act obtain pre r post where rs: "rs = pre @ r # post" "lr_type r = LrBegin" "lr_txn_id r = t"
    and post: "\<forall>q \<in> set post. \<not> ends t q" by (auto simp: active_in_def)
  from com obtain q where q: "q \<in> set rs" "lr_type q = LrCommit" "lr_txn_id q = t" by (auto simp: committed_in_def)
  with rs post have "q \<in> set pre" by (auto simp: ends_def)
  with fresh rs q(3) show False by (auto simp: fresh_ids_def)
qed

section \<open>The log manager as a state machine\<close>

text \<open>A call in a running process, and all states that calls, truncations and restarts lead to.\<close>

inductive wal_call :: "wal_manager \<Rightarrow> wal_manager \<Rightarrow> bool" where
  begin_txn: "wm_next_lsn w \<noteq> - 1 \<Longrightarrow> log_begin t w = (r, w') \<Longrightarrow> wal_call w w'"
| commit_txn: "wm_next_lsn w \<noteq> - 1 \<Longrightarrow> log_commit t w = (r, w') \<Longrightarrow> wal_call w w'"
| abort_txn: "wm_next_lsn w \<noteq> - 1 \<Longrightarrow> log_abort t w = (r, w') \<Longrightarrow> wal_call w w'"
| page_write: "wm_next_lsn w \<noteq> - 1 \<Longrightarrow> 45 + length bi + length ai < 2 ^ 32 \<Longrightarrow> log_page_write t pid bi ai w = (r, w') \<Longrightarrow> wal_call w w'"
| checkpoint: "wm_next_lsn w \<noteq> - 1 \<Longrightarrow> 45 + 8 * length ts < 2 ^ 32 \<Longrightarrow> log_checkpoint ts w = (r, w') \<Longrightarrow> wal_call w w'"
| flush: "wal_flush w = (r, w') \<Longrightarrow> wal_call w w'"

inductive wal_reach :: "wal_manager \<Rightarrow> bool" where
  create: "wal_open path [] = Inr w \<Longrightarrow> wal_reach w"
| call: "wal_reach w \<Longrightarrow> wal_call w w' \<Longrightarrow> wal_reach w'"
| truncate: "wal_reach w \<Longrightarrow> wal_truncate w = (r, w') \<Longrightarrow> wal_reach w'"
| reopen: "wal_reach w \<Longrightarrow> wal_open path (wm_file w) = Inr w' \<Longrightarrow> wal_reach w'"

lemmas wal_reach_calls =
  wal_reach.call [OF _ wal_call.begin_txn] wal_reach.call [OF _ wal_call.commit_txn] wal_reach.call [OF _ wal_call.abort_txn]
  wal_reach.call [OF _ wal_call.page_write] wal_reach.call [OF _ wal_call.checkpoint] wal_reach.call [OF _ wal_call.flush]

text \<open>
  The same states with the records \<open>old\<close> that were in the log when the process opened it; truncation
  removes them.
\<close>

inductive wal_since :: "log_record list \<Rightarrow> wal_manager \<Rightarrow> bool" where
  created: "wal_open path [] = Inr w \<Longrightarrow> wal_since [] w"
| opened: "wal_reach w \<Longrightarrow> read_all_records (wm_file w) = Inr old \<Longrightarrow> wal_open path (wm_file w) = Inr w' \<Longrightarrow> wal_since old w'"
| called: "wal_since old w \<Longrightarrow> wal_call w w' \<Longrightarrow> wal_since old w'"
| truncated: "wal_since old w \<Longrightarrow> wal_truncate w = (r, w') \<Longrightarrow> wal_since [] w'"

text \<open>The record that the next record of a transaction has to point to: the last one since it began.\<close>

definition closes :: "log_record \<Rightarrow> bool" where
  "closes r \<longleftrightarrow> lr_type r = LrCommit \<or> lr_type r = LrAbort"

definition chain_end :: "log_record list \<Rightarrow> u64 \<Rightarrow> lsn option" where
  "chain_end rs t = (case rev (filter (\<lambda>r. lr_txn_id r = t) rs) of
     [] \<Rightarrow> None | r # _ \<Rightarrow> if closes r then None else Some (lr_lsn r))"

definition chained :: "log_record list \<Rightarrow> bool" where
  "chained rs \<longleftrightarrow> (\<forall>pre r post. rs = pre @ r # post \<longrightarrow> lr_txn_id r \<noteq> 0 \<longrightarrow>
     lr_prev_lsn r = (case chain_end pre (lr_txn_id r) of None \<Rightarrow> 0 | Some l \<Rightarrow> l))"

lemma chain_end_Nil [simp]: "chain_end [] t = None"
  by (simp add: chain_end_def)

lemma chain_end_snoc:
  "chain_end (rs @ [r]) t = (if lr_txn_id r = t then if closes r then None else Some (lr_lsn r) else chain_end rs t)"
  by (simp add: chain_end_def)

lemma chained_Nil [simp]: "chained []"
  by (simp add: chained_def)

lemma chained_snoc:
  assumes "chained rs" and "lr_txn_id r \<noteq> 0 \<Longrightarrow> lr_prev_lsn r = (case chain_end rs (lr_txn_id r) of None \<Rightarrow> 0 | Some l \<Rightarrow> l)"
  shows "chained (rs @ [r])"
  unfolding chained_def
proof (intro allI impI)
  fix pre q post assume eq: "rs @ [r] = pre @ q # post" and q: "lr_txn_id q \<noteq> 0"
  show "lr_prev_lsn q = (case chain_end pre (lr_txn_id q) of None \<Rightarrow> 0 | Some l \<Rightarrow> l)"
  proof (cases post rule: rev_exhaust)
    case Nil
    with eq assms(2) q show ?thesis by auto
  next
    case (snoc post' x)
    with eq have "rs = pre @ q # post'" by (metis append_Cons append_assoc append_same_eq butlast_snoc)
    with assms(1) q show ?thesis by (auto simp: chained_def)
  qed
qed

lemma length_ids: "length (concat (map (to_le 8) ts)) = 8 * length (ts :: u64 list)"
  by (induction ts) auto

lemma log_ok_mono: "log_ok (ds @ ps) n \<Longrightarrow> log_ok ds n"
  unfolding log_ok_def linked_def by (auto simp: sorted_wrt_append)

text \<open>
  What a call does: it logs at most one record, behind those that are there, and keeps track of the last
  record of its transaction.
\<close>

definition follows :: "wal_manager \<Rightarrow> log_record \<Rightarrow> wal_manager \<Rightarrow> bool" where
  "follows w r w' \<longleftrightarrow> (\<forall>t. t \<noteq> 0 \<longrightarrow> wm_txn_last_lsn w' t =
     (if lr_txn_id r = t then if closes r then None else Some (wm_next_lsn w) else wm_txn_last_lsn w t))"

lemma append_logs:
  assumes "wal_holds w ds ps" and "wm_next_lsn w \<noteq> - 1" and "record_ok r" and "\<not> closes r"
  obtains w' where "wal_append r w = (Inr (wm_next_lsn w), w')" "wal_holds w' ds (ps @ [stamped w r])" "follows w (stamped w r) w'"
proof (rule wal_append_ok [OF assms(1-3)])
  fix w' assume w': "wal_append r w = (Inr (wm_next_lsn w), w')" "wal_holds w' ds (ps @ [stamped w r])"
    "wm_txn_last_lsn w' = (if lr_txn_id r \<noteq> 0 then (wm_txn_last_lsn w)(lr_txn_id r \<mapsto> wm_next_lsn w) else wm_txn_last_lsn w)"
  have "follows w (stamped w r) w'" using w'(3) assms(4) by (auto simp: follows_def stamped_def closes_def)
  with that w'(1,2) show thesis by blast
qed

definition logs :: "log_record list \<Rightarrow> wal_manager \<Rightarrow> wal_manager \<Rightarrow> bool" where
  "logs rs w w' \<longleftrightarrow> (\<exists>ds ps. wal_holds w' ds ps \<and> (ds @ ps = rs \<and> wm_txn_last_lsn w' = wm_txn_last_lsn w
    \<or> (\<exists>r. ds @ ps = rs @ [stamped w r] \<and> follows w (stamped w r) w')))"

lemma logs_record: "wal_holds w' ds ps \<Longrightarrow> ds @ ps = rs @ [stamped w r] \<Longrightarrow> follows w (stamped w r) w' \<Longrightarrow> logs rs w w'"
  unfolding logs_def by blast

lemma wal_call_logs:
  assumes "wal_call w w'" and "wal_holds w ds ps"
  shows "logs (ds @ ps) w w'"
  using assms
proof (induction rule: wal_call.induct)
  case (begin_txn w t r w')
  have ok: "record_ok (lr_begin 0 t)" "\<not> closes (lr_begin 0 t)" by (simp_all add: record_ok_def lr_begin_def closes_def)
  show ?case
    by (rule append_logs [OF begin_txn(3,1) ok], rule logs_record) (use begin_txn(2) in \<open>auto simp: log_begin_def\<close>)
next
  case (commit_txn w t r w')
  let ?c = "stamped w (lr_commit 0 t (last_lsn w t))"
  from log_commit_ok [OF commit_txn(3,1), of t] commit_txn(2) have
    "wal_holds w' (ds @ ps @ [?c]) []" "wm_txn_last_lsn w' = (wm_txn_last_lsn w)(t := None)" by auto
  moreover from this(2) have "follows w ?c w'" by (auto simp: follows_def stamped_def closes_def lr_commit_def)
  ultimately show ?case by (auto intro: logs_record)
next
  case (abort_txn w t r w')
  let ?c = "stamped w (lr_abort 0 t (last_lsn w t))"
  from log_abort_ok [OF abort_txn(3,1), of t] abort_txn(2) have
    "wal_holds w' ds (ps @ [?c])" "wm_txn_last_lsn w' = (wm_txn_last_lsn w)(t := None)" by auto
  moreover from this(2) have "follows w ?c w'" by (auto simp: follows_def stamped_def closes_def lr_abort_def)
  ultimately show ?case by (auto intro: logs_record)
next
  case (page_write w bi ai t pid r w')
  let ?r = "lr_page_write 0 t (last_lsn w t) pid bi ai"
  have ok: "record_ok ?r" "\<not> closes ?r" using page_write(2) by (simp_all add: record_ok_def lr_page_write_def closes_def)
  show ?case
    by (rule append_logs [OF page_write(4,1) ok], rule logs_record) (use page_write(3) in \<open>auto simp: log_page_write_def\<close>)
next
  case (checkpoint w ts r w')
  let ?r = "lr_checkpoint 0 ts"
  have ok: "record_ok ?r" "\<not> closes ?r"
    using checkpoint(2) by (simp_all add: record_ok_def lr_checkpoint_def length_ids closes_def)
  show ?case
  proof (rule append_logs [OF checkpoint(4,1) ok])
    fix w1 assume a: "wal_append ?r w = (Inr (wm_next_lsn w), w1)" "wal_holds w1 ds (ps @ [stamped w ?r])" "follows w (stamped w ?r) w1"
    show ?case
    proof (rule wal_flush_ok [OF a(2)])
      fix w2 assume f: "wal_flush w1 = (Inr (), w2)" "wal_holds w2 (ds @ ps @ [stamped w ?r]) []" "wm_txn_last_lsn w2 = wm_txn_last_lsn w1"
      have "w' = w2" using a(1) f(1) checkpoint(3) by (simp add: log_checkpoint_def bindS_def)
      moreover have "follows w (stamped w ?r) w2" using a(3) f(3) by (simp add: follows_def)
      ultimately show ?case using f(2) by (auto intro: logs_record)
    qed
  qed
next
  case (flush w r w')
  from wal_flush_ok [OF flush(2)] flush(1) have "wal_holds w' (ds @ ps) []" "wm_txn_last_lsn w' = wm_txn_last_lsn w" by auto
  then show ?case by (auto simp: logs_def)
qed

lemma wal_reach_holds: "wal_reach w \<Longrightarrow> \<exists>ds ps. wal_holds w ds ps"
proof (induction rule: wal_reach.induct)
  case (create path w)
  have "log_ok [] 0" by (simp add: log_ok_def)
  from wal_open_ok [OF this, of path] create show ?case by fastforce
next
  case (call w w')
  then show ?case using wal_call_logs logs_def by blast
next
  case (truncate w r w')
  then obtain ds ps where h: "wal_holds w ds ps" by blast
  from wal_truncate_ok [OF h] truncate(2) show ?case by auto
next
  case (reopen w path w')
  then obtain ds ps where h: "wal_holds w ds ps" by blast
  then have "log_ok ds (wm_next_lsn w)" "wm_file w = log_bytes ds"
    using log_ok_mono by (auto simp: wal_holds_def)
  from wal_open_ok [OF this(1), of path] this(2) reopen(2) show ?case by (metis sum.inject(2))
qed

lemma wal_since_reach: "wal_since old w \<Longrightarrow> wal_reach w"
  by (induction rule: wal_since.induct) (auto intro: wal_reach.intros)

lemma holds_read: "wal_holds w ds ps \<Longrightarrow> read_all_records (wm_file w) = Inr ds"
  using read_all_log [of ds] by (auto simp: wal_holds_def log_ok_def)

lemma holds_read_all: "wal_holds w ds ps \<Longrightarrow> read_all_records (wm_file w @ wm_write_buffer w) = Inr (ds @ ps)"
  using read_all_log [of "ds @ ps"] by (auto simp: wal_holds_def log_ok_def)

lemma log_unique: "wal_holds w ds ps \<Longrightarrow> wal_holds w ds' ps' \<Longrightarrow> ds' @ ps' = ds @ ps"
  using holds_read_all [of w ds ps] holds_read_all [of w ds' ps'] by simp

lemma wal_reach_since: "wal_reach w \<Longrightarrow> \<exists>old. wal_since old w"
proof (induction rule: wal_reach.induct)
  case (reopen w path w')
  then obtain ds ps where "wal_holds w ds ps" using wal_reach_holds by blast
  with reopen show ?case using wal_since.opened holds_read by blast
qed (auto intro: wal_since.intros)

text \<open>The records of the running process are chained, and the table has the ends of the chains.\<close>

definition wal_chain :: "log_record list \<Rightarrow> wal_manager \<Rightarrow> bool" where
  "wal_chain old w \<longleftrightarrow> (\<exists>ds ps new. wal_holds w ds ps \<and> ds @ ps = old @ new \<and> chained new
     \<and> (\<forall>t. t \<noteq> 0 \<longrightarrow> wm_txn_last_lsn w t = chain_end new t))"

lemma wal_chain_start: "wal_holds w old [] \<Longrightarrow> wm_txn_last_lsn w = Map.empty \<Longrightarrow> wal_chain old w"
  unfolding wal_chain_def by (rule exI [of _ old], rule exI [of _ "[]"], rule exI [of _ "[]"]) simp

lemma open_table: "wal_open path f = Inr w \<Longrightarrow> wm_txn_last_lsn w = Map.empty"
  by (auto simp: wal_open_def bindE_eq_Inr Let_def)

lemma wal_chain_call:
  assumes "wal_chain old w" and "wal_call w w'"
  shows "wal_chain old w'"
proof -
  from assms(1) obtain ds ps new where h: "wal_holds w ds ps" "ds @ ps = old @ new" "chained new"
    and tab: "\<And>t. t \<noteq> 0 \<Longrightarrow> wm_txn_last_lsn w t = chain_end new t" by (auto simp: wal_chain_def)
  from wal_call_logs [OF assms(2) h(1)] obtain ds' ps' where h': "wal_holds w' ds' ps'"
    and alt: "ds' @ ps' = ds @ ps \<and> wm_txn_last_lsn w' = wm_txn_last_lsn w
      \<or> (\<exists>r. ds' @ ps' = (ds @ ps) @ [stamped w r] \<and> follows w (stamped w r) w')" unfolding logs_def by blast
  from alt show ?thesis
  proof (elim disjE exE conjE)
    assume "ds' @ ps' = ds @ ps" "wm_txn_last_lsn w' = wm_txn_last_lsn w"
    with h h' tab show ?thesis by (auto simp: wal_chain_def)
  next
    fix r assume eq: "ds' @ ps' = (ds @ ps) @ [stamped w r]" and fo: "follows w (stamped w r) w'"
    let ?r = "stamped w r"
    have st: "lr_lsn ?r = wm_next_lsn w" "lr_txn_id ?r \<noteq> 0 \<Longrightarrow> lr_prev_lsn ?r = last_lsn w (lr_txn_id ?r)"
      by (simp_all add: stamped_def)
    have "chained (new @ [?r])"
      by (rule chained_snoc [OF h(3)]) (use st(2) tab in \<open>simp add: last_lsn_def\<close>)
    moreover have "wm_txn_last_lsn w' t = chain_end (new @ [?r]) t" if "t \<noteq> 0" for t
      using fo that tab st(1) by (simp add: follows_def chain_end_snoc)
    moreover have "ds' @ ps' = old @ new @ [?r]" using eq h(2) by simp
    ultimately show ?thesis using h' unfolding wal_chain_def by blast
  qed
qed

lemma wal_since_chain: "wal_since old w \<Longrightarrow> wal_chain old w"
proof (induction rule: wal_since.induct)
  case (created path w)
  have "log_ok [] 0" by (simp add: log_ok_def)
  from wal_open_ok [OF this, of path] created have "wal_holds w [] []" by auto
  then show ?case using open_table [OF created] by (rule wal_chain_start)
next
  case (opened w old path w')
  then obtain ds ps where h: "wal_holds w ds ps" using wal_reach_holds by blast
  then have "log_ok ds (wm_next_lsn w)" "wm_file w = log_bytes ds" using log_ok_mono by (auto simp: wal_holds_def)
  with wal_open_ok [OF this(1), of path] opened(3) have "wal_holds w' ds []" by (metis sum.inject(2))
  moreover have "old = ds" using holds_read [OF h] opened(2) by simp
  ultimately show ?case using open_table [OF opened(3)] wal_chain_start by blast
next
  case (called old w w')
  from wal_chain_call [OF called(3,2)] show ?case .
next
  case (truncated old w r w')
  then obtain ds ps where "wal_holds w ds ps" by (auto simp: wal_chain_def)
  from wal_truncate_ok [OF this] truncated(2) have "wal_holds w' [] []" "wm_txn_last_lsn w' = Map.empty" by (auto simp: wal_truncate_def)
  then show ?case by (rule wal_chain_start)
qed

section \<open>Properties\<close>

lemma wal_example:
  obtains w where "wal_open ''w'' [] = Inr w" "wal_holds w [] []" "wm_next_lsn w = 1" "wal_reach w"
proof -
  have ok: "log_ok [] 0" by (simp add: log_ok_def)
  from wal_open_ok [OF ok, of "''w''"] obtain w where w: "wal_open ''w'' [] = Inr w" "wal_holds w [] []" by auto
  moreover from w(1) have "wm_next_lsn w = 1" by (auto simp: wal_open_def max_lsn_def Let_def)
  ultimately show thesis using that wal_reach.create by blast
qed

text \<open>
  C25. In every state the log manager can reach, the log file is readable from start to end and its
  records followed by the buffered ones have strictly increasing sequence numbers below the next
  one to be assigned. Every record points back to the last earlier record of the same transaction or
  to nothing; and exactly so for the records that were logged since the process opened the log, or
  truncated it: a record that is not the first one of its transaction, counted from there and from its last commit or
  abort, carries the sequence number of the last one.
\<close>

theorem wal_reachable_log:
  assumes "wal_reach w"
  shows "(\<exists>ds ps. read_all_records (wm_file w) = Inr ds \<and> wm_write_buffer w = log_bytes ps
      \<and> read_all_records (wm_file w @ wm_write_buffer w) = Inr (ds @ ps)
      \<and> sorted_wrt (<) (map lr_lsn (ds @ ps)) \<and> (\<forall>r \<in> set (ds @ ps). lr_lsn r < wm_next_lsn w)
      \<and> (\<forall>pre r post. ds @ ps = pre @ r # post \<longrightarrow> lr_txn_id r \<noteq> 0 \<longrightarrow> lr_prev_lsn r = 0 \<or>
           (\<exists>q \<in> set pre. lr_txn_id q = lr_txn_id r \<and> lr_lsn q = lr_prev_lsn r
              \<and> (\<forall>x \<in> set pre. lr_txn_id x = lr_txn_id r \<longrightarrow> lr_lsn x \<le> lr_lsn q)))
      \<and> (\<forall>old. wal_since old w \<longrightarrow> (\<exists>new. ds @ ps = old @ new
           \<and> (\<forall>pre r post. new = pre @ r # post \<longrightarrow> lr_txn_id r \<noteq> 0 \<longrightarrow>
                lr_prev_lsn r = (case chain_end pre (lr_txn_id r) of None \<Rightarrow> 0 | Some l \<Rightarrow> l)))))
    \<and> (\<exists>old. wal_since old w)"
proof -
  from wal_reach_holds [OF assms] obtain ds ps where h: "wal_holds w ds ps" by blast
  then have ok: "log_ok (ds @ ps) (wm_next_lsn w)" and buf: "wm_write_buffer w = log_bytes ps" by (simp_all add: wal_holds_def)
  have "lr_prev_lsn r = 0 \<or> (\<exists>q \<in> set pre. lr_txn_id q = lr_txn_id r \<and> lr_lsn q = lr_prev_lsn r
            \<and> (\<forall>x \<in> set pre. lr_txn_id x = lr_txn_id r \<longrightarrow> lr_lsn x \<le> lr_lsn q))"
    if "ds @ ps = pre @ r # post" "lr_txn_id r \<noteq> 0" for pre r post
  proof -
    have "lr_prev_lsn r = 0 \<or> last_of pre (lr_txn_id r) (lr_prev_lsn r)"
      using ok that unfolding log_ok_def linked_def by blast
    then show ?thesis by (auto simp: last_of_def)
  qed
  moreover have "\<exists>new. ds @ ps = old @ new \<and> chained new" if "wal_since old w" for old
    using wal_since_chain [OF that] log_unique [OF h] unfolding wal_chain_def by metis
  moreover have "sorted_wrt (<) (map lr_lsn (ds @ ps))" "\<forall>r \<in> set (ds @ ps). lr_lsn r < wm_next_lsn w"
    using ok by (simp_all add: log_ok_def)
  ultimately show ?thesis using holds_read [OF h] holds_read_all [OF h] buf wal_reach_since [OF assms] unfolding chained_def by blast
qed

text \<open>A transaction with one write: its second record points to the first.\<close>

lemma write_example:
  obtains w r q where "wal_reach w" "wal_since [] w" "wal_holds w [] [r, q]" "lr_txn_id r = 7" "lr_txn_id q = 7" "lr_lsn r = 1" "\<not> closes r"
proof (rule wal_example)
  fix w assume w: "wal_open ''w'' [] = Inr w" "wal_holds w [] []" "wm_next_lsn w = 1" "wal_reach w"
  let ?r = "lr_begin 0 7"
  have n: "wm_next_lsn w \<noteq> - 1" and ok: "record_ok ?r" using w(3) by (simp_all add: record_ok_def lr_begin_def)
  show thesis
  proof (rule wal_append_ok [OF w(2) n ok])
    fix w1 assume 1: "wal_append ?r w = (Inr (wm_next_lsn w), w1)" "wal_holds w1 [] ([] @ [stamped w ?r])" "wm_next_lsn w1 = wm_next_lsn w + 1"
    let ?q = "lr_page_write 0 7 (last_lsn w1 7) 0 [1] [2]"
    have n1: "wm_next_lsn w1 \<noteq> - 1" and ok1: "record_ok ?q" using 1(3) w(3) by (simp_all add: record_ok_def lr_page_write_def)
    have c1: "wal_call w w1" by (rule wal_call.begin_txn [OF n]) (use 1(1) in \<open>simp add: log_begin_def\<close>)
    show thesis
    proof (rule wal_append_ok [OF 1(2) n1 ok1])
      fix w2 assume 2: "wal_append ?q w1 = (Inr (wm_next_lsn w1), w2)" "wal_holds w2 [] (([] @ [stamped w ?r]) @ [stamped w1 ?q])"
      have c2: "wal_call w1 w2"
        by (rule wal_call.page_write [OF n1, where bi = "[1]" and ai = "[2]" and t = 7 and pid = 0]) (use 2(1) in \<open>simp_all add: log_page_write_def\<close>)
      have "wal_since [] w2" by (rule wal_since.called [OF wal_since.called [OF wal_since.created [OF w(1)] c1] c2])
      then show thesis
        by (intro that [of w2 "stamped w ?r" "stamped w1 ?q"] wal_since_reach [of "[]" w2])
          (use w(3) 2(2) in \<open>simp_all add: stamped_def lr_begin_def lr_page_write_def closes_def\<close>)
    qed
  qed
qed

theorem wal_reachable_log_witness:
  "\<exists>w r q. wal_reach w \<and> wm_write_buffer w = log_bytes [r, q] \<and> lr_txn_id r = 7 \<and> lr_txn_id q = 7
    \<and> lr_lsn r = 1 \<and> lr_prev_lsn q = 1"
proof (rule write_example)
  fix w r q assume w: "wal_reach w" "wal_since [] w" "wal_holds w [] [r, q]" "lr_txn_id r = 7" "lr_txn_id q = 7" "lr_lsn r = 1" "\<not> closes r"
  from wal_reachable_log [OF w(1)] obtain ds ps where l: "read_all_records (wm_file w @ wm_write_buffer w) = Inr (ds @ ps)"
    and since: "\<forall>old. wal_since old w \<longrightarrow> (\<exists>new. ds @ ps = old @ new
      \<and> (\<forall>pre r post. new = pre @ r # post \<longrightarrow> lr_txn_id r \<noteq> 0 \<longrightarrow>
           lr_prev_lsn r = (case chain_end pre (lr_txn_id r) of None \<Rightarrow> 0 | Some l \<Rightarrow> l)))"
    by (elim conjE exE) (rule that)
  from since [rule_format, OF w(2)] have ch: "\<And>pre x post. ds @ ps = pre @ x # post \<Longrightarrow> lr_txn_id x \<noteq> 0 \<Longrightarrow>
      lr_prev_lsn x = (case chain_end pre (lr_txn_id x) of None \<Rightarrow> 0 | Some l \<Rightarrow> l)" by auto
  have "ds @ ps = [r, q]" using l holds_read_all [OF w(3)] by simp
  then have "lr_prev_lsn q = 1" using ch [of "[r]" q "[]"] w(4-7) by (simp add: chain_end_def)
  with w show ?thesis by (auto simp: wal_holds_def)
qed

text \<open>
  C16. Durability of commit: once the commit of a transaction returns, the log file on disk reads
  back as all records logged before, in order, followed by the commit record, and recovery from
  that file counts the transaction as committed.
\<close>

theorem commit_durable:
  assumes "wal_holds w ds ps" and "wm_next_lsn w \<noteq> - 1" and "log_commit t w = (r, w')"
  shows "r = Inr (wm_next_lsn w) \<and> wm_write_buffer w' = [] \<and> wm_flushed_lsn w' = wm_next_lsn w
    \<and> (\<exists>c. read_all_records (wm_file w') = Inr (ds @ ps @ [c]) \<and> lr_type c = LrCommit \<and> lr_txn_id c = t
         \<and> lr_lsn c = wm_next_lsn w)
    \<and> (\<forall>acts. wal_recover w' = Inr acts \<longrightarrow> t \<in> ra_committed_txns acts)"
proof (rule log_commit_ok [OF assms(1,2), of t])
  let ?c = "stamped w (lr_commit 0 t (last_lsn w t))"
  fix w1 assume c: "log_commit t w = (Inr (wm_next_lsn w), w1)" "wal_holds w1 (ds @ ps @ [?c]) []"
    "wm_flushed_lsn w1 = wm_next_lsn w"
  have w': "w' = w1" "r = Inr (wm_next_lsn w)" using assms(3) c(1) by simp_all
  have fl: "wm_file w1 = log_bytes (ds @ ps @ [?c])" "\<forall>r \<in> set (ds @ ps @ [?c]). record_ok r"
    using c(2) by (simp_all add: wal_holds_def log_ok_def)
  have read: "read_all_records (wm_file w1) = Inr (ds @ ps @ [?c])"
    unfolding fl(1) by (rule read_all_log [OF fl(2)])
  have fields: "lr_type ?c = LrCommit" "lr_txn_id ?c = t" "lr_lsn ?c = wm_next_lsn w"
    by (simp_all add: stamped_def lr_commit_def)
  then have "committed_in (ds @ ps @ [?c]) t" by (auto simp: committed_in_def)
  then have "t \<in> ra_committed_txns acts" if "wal_recover w1 = Inr acts" for acts
    using that read recover_committed [of "ds @ ps @ [?c]" acts] by (simp add: wal_recover_def)
  moreover have "wm_write_buffer w1 = []" using c(2) by (simp add: wal_holds_def)
  ultimately show ?thesis using read fields c(3) unfolding w' by blast
qed

theorem commit_durable_witness:
  "\<exists>w w' c. log_commit 7 w = (Inr 1, w') \<and> read_all_records (wm_file w') = Inr [c] \<and> lr_txn_id c = 7"
proof (rule wal_example)
  fix w assume h: "wal_holds w [] []" "wm_next_lsn w = 1"
  obtain r w' where run: "log_commit 7 w = (r, w')" by fastforce
  from commit_durable [OF h(1) _ run] h(2) run show ?thesis by auto
qed

text \<open>
  C24. Torn writes: if the log file is cut at any byte, reading it back gives exactly the records
  that are complete before the cut and no error.
\<close>

theorem torn_log_prefix:
  assumes "wal_reach w"
  shows "\<exists>ds. read_all_records (wm_file w) = Inr ds
    \<and> (\<forall>n. read_all_records (take n (wm_file w)) = Inr (whole_records n ds))"
proof -
  from wal_reach_holds [OF assms] obtain ds ps where h: "wal_holds w ds ps" by blast
  then have "\<forall>r \<in> set ds. record_ok r" "wm_file w = log_bytes ds" by (auto simp: wal_holds_def log_ok_def)
  with read_all_cut read_all_log show ?thesis by metis
qed

lemma begun_example:
  obtains w r where "wal_reach w" "wm_file w = serialize r" "serialized_size r = 41" "record_ok r"
proof (rule wal_example)
  fix w assume h: "wal_holds w [] []" "wm_next_lsn w = 1" "wal_reach w"
  have ok: "record_ok (lr_begin 0 1)" by (simp add: record_ok_def lr_begin_def)
  from h(2) have n: "wm_next_lsn w \<noteq> - 1" by simp
  show thesis
  proof (rule wal_append_ok [OF h(1) n ok])
    fix w1 assume a: "wal_append (lr_begin 0 1) w = (Inr (wm_next_lsn w), w1)"
      "wal_holds w1 [] ([] @ [stamped w (lr_begin 0 1)])"
    have "log_begin 1 w = (Inr (wm_next_lsn w), w1)" using a(1) by (simp add: log_begin_def)
    with h(3) n have r1: "wal_reach w1" using wal_reach.call wal_call.begin_txn by blast
    show thesis
    proof (rule wal_flush_ok [OF a(2)])
      fix w2 assume f: "wal_flush w1 = (Inr (), w2)" "wal_holds w2 ([] @ [] @ [stamped w (lr_begin 0 1)]) []"
      from r1 f(1) have "wal_reach w2" using wal_reach.call wal_call.flush by blast
      with f(2) that [of w2 "stamped w (lr_begin 0 1)"] ok show thesis
        by (simp add: wal_holds_def serialized_size_def RECORD_HEADER_SIZE_def stamped_def lr_begin_def record_ok_def)
    qed
  qed
qed

theorem torn_log_prefix_witness:
  "\<exists>w r. wal_reach w \<and> read_all_records (wm_file w) = Inr [r] \<and> read_all_records (take 40 (wm_file w)) = Inr []"
proof (rule begun_example)
  fix w r assume w: "wal_reach w" "wm_file w = serialize r" "serialized_size r = 41" "record_ok r"
  have read: "read_all_records (wm_file w) = Inr [r]" using read_all_log [of "[r]"] w(2,4) by simp
  with torn_log_prefix [OF w(1)] w(3) have "read_all_records (take 40 (wm_file w)) = Inr []" by auto
  with w(1) read show ?thesis by blast
qed

text \<open>
  C38. A log whose last block was zero-filled by the crash cannot be opened: a record length below 8
  is not rejected, and the slice from byte 8 to that length panics.
\<close>

theorem zero_tail_panics:
  assumes "\<forall>r \<in> set ds. record_ok r" and "41 \<le> n"
  shows "wal_open path (log_bytes ds @ replicate n 0) = Inl Panic"
proof -
  have "replicate n (0 :: u8) \<noteq> []" using assms(2) by (cases n) simp_all
  from read_all_panic [OF assms(1) this deserialize_zeros [OF assms(2)]] this show ?thesis
    by (simp add: wal_open_def)
qed

theorem zero_tail_panics_witness: "wal_open ''w'' (replicate 41 0) = Inl Panic"
  using zero_tail_panics [of "[]" 41 "''w''"] by simp

text \<open>
  C39. After a torn write the log manager appends behind the torn record instead of over it: a commit
  that reports success is not found when the log is read again, as long as the torn record announces
  more bytes than follow it.
\<close>

theorem commit_after_torn_tail_lost:
  assumes "log_ok ds n" and "record_ok q" and "4 \<le> m" and "m + 41 < serialized_size q"
    and "wal_open path (log_bytes ds @ take m (serialize q)) = Inr w" and "log_commit t w = (r, w')"
  shows "(\<exists>l. r = Inr l) \<and> wm_write_buffer w' = [] \<and> read_all_records (wm_file w') = Inr ds"
proof -
  let ?t = "take m (serialize q)"
  let ?c = "(lr_commit 0 t (last_lsn w t))\<lparr>lr_lsn := wm_next_lsn w, lr_prev_lsn := (if t \<noteq> 0 then last_lsn w t else 0)\<rparr>"
  have f: "wm_file w = log_bytes ds @ ?t" "wm_offset w = length (wm_file w)" "wm_write_buffer w = []"
    "wm_txn_last_lsn w = Map.empty"
    using assms(5) by (auto simp: wal_open_def bindE_eq_Inr Let_def)
  have run: "r = Inr (wm_next_lsn w)" "wm_file w' = wm_file w @ serialize ?c" "wm_write_buffer w' = []"
    using assms(6) f(2-4)
    by (auto simp: log_commit_def bindS_def wal_append_def wal_flush_def forget_txn_def lr_commit_def Let_def
        file_append last_lsn_def split: if_splits)
  have "length (serialize ?c) = 41" by (simp add: lr_commit_def)
  then have "\<exists>e. deserialize (?t @ serialize ?c) = Inl (Err e)"
    using deserialize_short [OF assms(2,3), of "serialize ?c"] assms(4)
    by (simp add: serialized_size_def RECORD_HEADER_SIZE_def)
  then have "read_all_records (log_bytes ds @ ?t @ serialize ?c) = Inr ds"
    using read_all_tail [of ds "?t @ serialize ?c"] assms(1) by (auto simp: log_ok_def)
  with run f(1) show ?thesis by simp
qed

theorem commit_after_torn_tail_lost_witness:
  "\<exists>w w'. log_commit 1 w = (Inr 1, w') \<and> read_all_records (wm_file w') = Inr []"
proof -
  define q where "q = lr_page_write 1 1 0 0 [] (replicate 100 0)"
  have q: "record_ok q" "serialized_size q = 145" "length (serialize q) = 145"
    by (simp_all add: q_def lr_page_write_def record_ok_def serialized_size_def RECORD_HEADER_SIZE_def)
  have torn: "read_all_records (log_bytes [] @ take 50 (serialize q)) = Inr []"
    by (rule read_all_tail) (use deserialize_torn [OF q(1), of 50] q(3) in simp_all)
  obtain w where w: "wal_open ''w'' (log_bytes [] @ take 50 (serialize q)) = Inr w" "wm_next_lsn w = 1"
    using torn q(3) by (simp add: wal_open_def max_lsn_def Let_def)
  obtain r w' where run: "log_commit 1 w = (r, w')" by fastforce
  have "log_ok [] 0" by (simp add: log_ok_def)
  from commit_after_torn_tail_lost [OF this q(1) _ _ w(1) run] q(2)
  have c: "\<exists>l. r = Inr l" "read_all_records (wm_file w') = Inr []" by simp_all
  have "r = Inr 1" using c(1) run w(2)
    by (auto simp: log_commit_def bindS_def wal_append_def Let_def split: prod.splits sum.splits if_splits)
  with c(2) run show ?thesis by blast
qed

text \<open>
  C23. The recovery plan: redo is the after images of exactly the page writes of transactions with
  a commit record, in log order; undo is the before images of exactly the page writes of
  transactions that began and did not end, last write first. If transaction ids are not reused
  in the log, no transaction is both redone and undone.
\<close>

theorem recovery_plan:
  assumes "\<forall>r \<in> set rs. images_ok r"
  shows "\<exists>acts. recover_records rs = Inr acts
    \<and> ra_redo acts = map (\<lambda>r. (lr_page_id r, snd (images r)))
        (filter (\<lambda>r. lr_type r = LrPageWrite \<and> committed_in rs (lr_txn_id r)) rs)
    \<and> ra_undo acts = map (\<lambda>r. (lr_page_id r, fst (images r)))
        (rev (filter (\<lambda>r. lr_type r = LrPageWrite \<and> active_in rs (lr_txn_id r)) rs))
    \<and> ra_committed_txns acts = {t. committed_in rs t} \<and> ra_aborted_txns acts = {t. active_in rs t}
    \<and> (fresh_ids rs \<longrightarrow> ra_committed_txns acts \<inter> ra_aborted_txns acts = {})"
  using recover_records_ok [OF assms] fresh_ids_disjoint [of rs] by (auto simp: writes_of_def rev_filter)

lemma images_page_write [simp]:
  "length bi < 2 ^ 32 \<Longrightarrow> images (lr_page_write l t p pid bi ai) = (bi, ai)"
  "length bi < 2 ^ 32 \<Longrightarrow> images_ok (lr_page_write l t p pid bi ai)"
  using page_write_images_ok [of bi l t p pid ai] by (simp_all add: images_def images_ok_def)

theorem recovery_plan_witness:
  "\<exists>acts. recover_records [lr_begin 1 5, lr_page_write 2 5 1 3 [1] [2]] = Inr acts
     \<and> ra_redo acts = [] \<and> ra_undo acts = [(3, [1])]"
proof -
  let ?rs = "[lr_begin 1 5, lr_page_write 2 5 1 3 [1] [2]]"
  have "images_ok (lr_begin 1 5)" by (simp add: images_ok_def lr_begin_def)
  then have "\<forall>r \<in> set ?rs. images_ok r" by simp
  moreover have "active_in ?rs 5" unfolding active_in_def
    by (intro exI [of _ "[]"] exI [of _ "lr_begin 1 5"] exI [of _ "[lr_page_write 2 5 1 3 [1] [2]]"])
      (simp add: lr_begin_def ends_def)
  moreover have "\<not> committed_in ?rs 5" by (simp add: committed_in_def lr_begin_def)
  ultimately show ?thesis using recovery_plan [of ?rs] by (auto simp: lr_begin_def)
qed

end
