(* ===== verification/Txn_Manager.thy ===== *)
theory Txn_Manager
  imports Lock_Manager Wal
begin

text \<open>
  The transaction manager of \<^verbatim>\<open>src/src/txn/txn_manager.rs\<close>. A method that takes the log
  manager is an operation on the pair of the two managers. The ids of the active transactions are
  listed in ascending order; the code lists them in the order of the hash map.

  \<open>tm_inv\<close> is the invariant: the active transactions are in state \<open>Active\<close>, hold an exclusive
  lock on every page of their write set and some lock on every page of their read set, and only
  active transactions hold locks. \<open>txn_reach\<close> is the state machine whose steps are the calls of
  the manager; the isolation of concurrent transactions is proved for every state it reaches.
\<close>

section \<open>The code\<close>

datatype transaction_state = Active | Committed | Aborted

record transaction =
  tx_txn_id :: u64
  tx_state :: transaction_state
  tx_write_set :: "u32 \<rightharpoonup> bytes"
  tx_read_set :: "u32 list"

record txn_manager =
  tm_next_txn_id :: u64
  tm_active_txns :: "u64 \<rightharpoonup> transaction"
  tm_lock_manager :: lock_manager

type_synonym txn_wal = "txn_manager \<times> wal_manager"

definition transaction_new :: "u64 \<Rightarrow> transaction" where
  "transaction_new txn = \<lparr>tx_txn_id = txn, tx_state = Active, tx_write_set = Map.empty, tx_read_set = []\<rparr>"

definition tx_is_active :: "transaction \<Rightarrow> bool" where
  "tx_is_active x \<longleftrightarrow> tx_state x = Active"

definition tm_new :: txn_manager where
  "tm_new = \<lparr>tm_next_txn_id = 1, tm_active_txns = Map.empty, tm_lock_manager = lm_new\<rparr>"

definition in_wal :: "(wal_manager, 'a) op \<Rightarrow> (txn_wal, 'a) op" where
  "in_wal m = (\<lambda>(tm, w). case m w of (r, w') \<Rightarrow> (r, (tm, w')))"

definition in_locks :: "(lock_manager, 'a) op \<Rightarrow> (txn_manager, 'a) op" where
  "in_locks m tm = (case m (tm_lock_manager tm) of (r, lm) \<Rightarrow> (r, tm\<lparr>tm_lock_manager := lm\<rparr>))"

definition set_txn :: "u64 \<Rightarrow> transaction option \<Rightarrow> txn_manager \<Rightarrow> txn_manager" where
  "set_txn txn x tm = tm\<lparr>tm_active_txns := (tm_active_txns tm)(txn := x)\<rparr>"

text \<open>\<^verbatim>\<open>if let Some(txn) = self.active_txns.get_mut(&txn_id) { .. }\<close>\<close>

definition update_txn :: "u64 \<Rightarrow> (transaction \<Rightarrow> transaction) \<Rightarrow> (txn_manager, unit) op" where
  "update_txn txn f tm = (case tm_active_txns tm txn of
     None \<Rightarrow> (Inr (), tm) | Some x \<Rightarrow> (Inr (), set_txn txn (Some (f x)) tm))"

definition tm_begin :: "(txn_wal, u64) op" where
  "tm_begin = (\<lambda>(tm, w).
     let txn = tm_next_txn_id tm;
         tm1 = set_txn txn (Some (transaction_new txn)) (tm\<lparr>tm_next_txn_id := txn + 1\<rparr>)
     in bindS (in_wal (log_begin txn)) (\<lambda>_. retS txn) (tm1, w))"

definition acquire_read_lock :: "u64 \<Rightarrow> u32 \<Rightarrow> (txn_manager, unit) op" where
  "acquire_read_lock txn pid tm =
     (if tm_active_txns tm txn = None then (Inl (Err (TransactionAborted txn)), tm)
      else bindS (in_locks (acquire txn pid Shared)) (\<lambda>_.
           update_txn txn (\<lambda>x. x\<lparr>tx_read_set := tx_read_set x @ [pid]\<rparr>)) tm)"

definition acquire_write_lock :: "u64 \<Rightarrow> u32 \<Rightarrow> bytes \<Rightarrow> (txn_manager, unit) op" where
  "acquire_write_lock txn pid before_image tm =
     (if tm_active_txns tm txn = None then (Inl (Err (TransactionAborted txn)), tm)
      else bindS (in_locks (acquire txn pid Exclusive)) (\<lambda>_.
           update_txn txn (\<lambda>x. x\<lparr>tx_write_set := (case tx_write_set x pid of
               None \<Rightarrow> (tx_write_set x)(pid \<mapsto> before_image)
             | Some _ \<Rightarrow> tx_write_set x)\<rparr>)) tm)"

definition tm_log_write :: "u64 \<Rightarrow> u32 \<Rightarrow> bytes \<Rightarrow> bytes \<Rightarrow> (txn_wal, unit) op" where
  "tm_log_write txn pid before_image after_image = (\<lambda>(tm, w).
     if tm_active_txns tm txn = None then (Inl (Err (TransactionAborted txn)), (tm, w))
     else bindS (in_wal (log_page_write txn pid before_image after_image)) (\<lambda>_. retS ()) (tm, w))"

text \<open>Releasing the locks and forgetting the transaction, the end of commit and abort.\<close>

definition end_txn :: "u64 \<Rightarrow> (txn_wal, unit) op" where
  "end_txn txn = (\<lambda>(tm, w).
     (Inr (), (set_txn txn None (tm\<lparr>tm_lock_manager := release_all txn (tm_lock_manager tm)\<rparr>), w)))"

definition tm_commit :: "u64 \<Rightarrow> (txn_wal, unit) op" where
  "tm_commit txn = (\<lambda>(tm, w).
     case tm_active_txns tm txn of
       None \<Rightarrow> (Inl (Err (TransactionAborted txn)), (tm, w))
     | Some x \<Rightarrow>
         if tx_state x \<noteq> Active then (Inl (Err (TransactionAborted txn)), (tm, w))
         else bindS (in_wal (log_commit txn)) (\<lambda>_. end_txn txn)
                (set_txn txn (Some (x\<lparr>tx_state := Committed\<rparr>)) tm, w))"

definition tm_abort :: "u64 \<Rightarrow> (txn_wal, u32 \<rightharpoonup> bytes) op" where
  "tm_abort txn = (\<lambda>(tm, w).
     case tm_active_txns tm txn of
       None \<Rightarrow> (Inl (Err (TransactionAborted txn)), (tm, w))
     | Some x \<Rightarrow>
         bindS (in_wal (log_abort txn)) (\<lambda>_.
         bindS (end_txn txn) (\<lambda>_.
         retS (tx_write_set x)))
           (set_txn txn (Some (x\<lparr>tx_state := Aborted\<rparr>)) tm, w))"

definition active_transaction_ids :: "txn_manager \<Rightarrow> u64 list" where
  "active_transaction_ids tm = sorted_list_of_set (dom (tm_active_txns tm))"

definition active_count :: "txn_manager \<Rightarrow> nat" where
  "active_count tm = card (dom (tm_active_txns tm))"

definition tm_is_active :: "txn_manager \<Rightarrow> u64 \<Rightarrow> bool" where
  "tm_is_active tm txn \<longleftrightarrow> tm_active_txns tm txn \<noteq> None"

section \<open>The invariant\<close>

definition txn_ok :: "lock_manager \<Rightarrow> u64 \<Rightarrow> transaction \<Rightarrow> bool" where
  "txn_ok lm t x \<longleftrightarrow> tx_txn_id x = t \<and> tx_state x = Active
     \<and> (\<forall>p. tx_write_set x p \<noteq> None \<longrightarrow> held lm t p = Some Exclusive)
     \<and> (\<forall>p \<in> set (tx_read_set x). held lm t p \<noteq> None)"

definition tm_inv :: "txn_manager \<Rightarrow> bool" where
  "tm_inv tm \<longleftrightarrow> lock_ok (tm_lock_manager tm) \<and> finite (dom (tm_active_txns tm))
     \<and> (\<forall>t x. tm_active_txns tm t = Some x \<longrightarrow> txn_ok (tm_lock_manager tm) t x \<and> t < tm_next_txn_id tm)
     \<and> (\<forall>t r. held (tm_lock_manager tm) t r \<noteq> None \<longrightarrow> tm_active_txns tm t \<noteq> None)"

lemma tm_new_inv [simp]: "tm_inv tm_new"
  by (simp add: tm_inv_def tm_new_def)

lemma tm_invD:
  assumes "tm_inv tm"
  shows "lock_ok (tm_lock_manager tm)" and "finite (dom (tm_active_txns tm))"
    and "tm_active_txns tm t = Some x \<Longrightarrow> txn_ok (tm_lock_manager tm) t x \<and> t < tm_next_txn_id tm"
    and "held (tm_lock_manager tm) t r \<noteq> None \<Longrightarrow> tm_active_txns tm t \<noteq> None"
  using assms unfolding tm_inv_def by blast+

lemma txn_ok_mono:
  assumes "txn_ok lm t x" and "\<And>p m. covers (held lm t p) m \<Longrightarrow> covers (held lm' t p) m"
  shows "txn_ok lm' t x"
proof -
  have some: "held lm' t p \<noteq> None" if "held lm t p \<noteq> None" for p
    using that assms(2) [of p "the (held lm t p)"] by (auto simp: covers_def split: option.splits)
  have "held lm' t p = Some Exclusive" if "held lm t p = Some Exclusive" for p
    using that assms(2) [of p Exclusive] by (auto simp: covers_def split: option.splits)
  with some assms(1) show ?thesis by (simp add: txn_ok_def)
qed

lemma set_txn_simps [simp]:
  "tm_lock_manager (set_txn t x tm) = tm_lock_manager tm"
  "tm_next_txn_id (set_txn t x tm) = tm_next_txn_id tm"
  "tm_active_txns (set_txn t x tm) = (tm_active_txns tm)(t := x)"
  by (simp_all add: set_txn_def)

text \<open>A transaction starts: its id is new, so that nobody holds a lock in its name.\<close>

lemma id_succ: "(n :: u64) \<noteq> - 1 \<Longrightarrow> n < n + 1"
  by (rule lsn_succ)

lemma start_txn_inv:
  assumes inv: "tm_inv tm" and n: "tm_next_txn_id tm \<noteq> - 1"
  shows "tm_inv (set_txn (tm_next_txn_id tm) (Some (transaction_new (tm_next_txn_id tm)))
           (tm\<lparr>tm_next_txn_id := tm_next_txn_id tm + 1\<rparr>))"
proof -
  have new: "txn_ok lm t (transaction_new t)" for lm t by (simp add: txn_ok_def transaction_new_def)
  have "t < tm_next_txn_id tm + 1" if "t < tm_next_txn_id tm" for t
    using that id_succ [OF n] by (rule less_trans)
  then show ?thesis using inv new id_succ [OF n] unfolding tm_inv_def by auto
qed

lemma update_txn_run:
  assumes "tm_active_txns tm t \<noteq> None"
  shows "\<exists>x. tm_active_txns tm t = Some x \<and> update_txn t f tm = (Inr (), set_txn t (Some (f x)) tm)"
  using assms by (auto simp: update_txn_def)

lemma lock_step_inv:
  assumes inv: "tm_inv tm" and act: "tm_active_txns tm t = Some x"
    and run: "acquire t p m (tm_lock_manager tm) = (Inr b, lm)"
    and f: "txn_ok lm t x \<Longrightarrow> covers (held lm t p) m \<Longrightarrow> txn_ok lm t (f x)"
  shows "tm_inv (set_txn t (Some (f x)) (tm\<lparr>tm_lock_manager := lm\<rparr>))"
proof -
  note lo = tm_invD(1) [OF inv]
  have ok: "lock_ok lm" using locks.acq_inv [OF lo, of t p m] run by simp
  have keep: "txn_ok lm u y" if "tm_active_txns tm u = Some y" for u y
    using tm_invD(3) [OF inv that] locks.acq_keeps [OF lo, of u _ _ t p m] run txn_ok_mono [of _ u y lm] by auto
  have cov: "covers (held lm t p) m" by (rule locks.acq_covers [OF lo run])
  have "tm_active_txns tm u \<noteq> None" if "u \<noteq> t" "held lm u r \<noteq> None" for u r
    using that tm_invD(4) [OF inv, of u r] locks.acq_frame [OF lo that(1), of p m r] run by simp
  then show ?thesis
    using inv ok keep f [OF keep [OF act] cov] act unfolding tm_inv_def by auto
qed

lemma acquire_read_lock_ok:
  assumes inv: "tm_inv tm" and run: "acquire_read_lock t p tm = (r, tm')"
  shows "tm_inv tm'"
proof (cases "tm_active_txns tm t")
  case None
  with assms show ?thesis by (simp add: acquire_read_lock_def)
next
  case (Some x)
  obtain res lm where a: "acquire t p Shared (tm_lock_manager tm) = (res, lm)" by (metis surj_pair)
  show ?thesis
  proof (cases res)
    case (Inl e)
    with acquire_run(3) [OF tm_invD(1) [OF inv] a] run Some a inv show ?thesis
      by (simp add: acquire_read_lock_def bindS_def in_locks_def)
  next
    case (Inr b)
    let ?f = "\<lambda>x. x\<lparr>tx_read_set := tx_read_set x @ [p]\<rparr>"
    have "txn_ok lm t (?f x)" if "txn_ok lm t x" "covers (held lm t p) Shared"
      using that by (auto simp: txn_ok_def covers_def split: option.splits)
    with lock_step_inv [OF inv Some a [unfolded Inr], where f = ?f] run Some a Inr show ?thesis
      by (simp add: acquire_read_lock_def bindS_def in_locks_def update_txn_def)
  qed
qed

definition note_image :: "u32 \<Rightarrow> bytes \<Rightarrow> transaction \<Rightarrow> transaction" where
  "note_image p img x = x\<lparr>tx_write_set := (case tx_write_set x p of
     None \<Rightarrow> (tx_write_set x)(p \<mapsto> img) | Some _ \<Rightarrow> tx_write_set x)\<rparr>"

lemma acquire_write_lock_run:
  assumes inv: "tm_inv tm" and run: "acquire_write_lock t p img tm = (r, tm')"
  shows "tm_inv tm'"
    and "r = Inr u \<Longrightarrow> \<exists>x. tm_active_txns tm t = Some x \<and> tm_active_txns tm' t = Some (note_image p img x)"
proof -
  have "tm_inv tm' \<and> (\<forall>u. r = Inr u \<longrightarrow>
      (\<exists>x. tm_active_txns tm t = Some x \<and> tm_active_txns tm' t = Some (note_image p img x)))"
  proof (cases "tm_active_txns tm t")
    case None
    with assms show ?thesis by (auto simp: acquire_write_lock_def)
  next
    case (Some x)
    obtain res lm where a: "acquire t p Exclusive (tm_lock_manager tm) = (res, lm)" by (metis surj_pair)
    show ?thesis
    proof (cases res)
      case (Inl e)
      with acquire_run(3) [OF tm_invD(1) [OF inv] a] run Some a inv show ?thesis
        by (auto simp: acquire_write_lock_def bindS_def in_locks_def)
    next
      case (Inr b)
      have "txn_ok lm t (note_image p img x)" if "txn_ok lm t x" "covers (held lm t p) Exclusive"
        using that by (auto simp: txn_ok_def covers_def note_image_def split: option.splits)
      with lock_step_inv [OF inv Some a [unfolded Inr], where f = "note_image p img"]
      have "tm_inv (set_txn t (Some (note_image p img x)) (tm\<lparr>tm_lock_manager := lm\<rparr>))" by blast
      moreover have "acquire_write_lock t p img tm
          = (Inr (), set_txn t (Some (note_image p img x)) (tm\<lparr>tm_lock_manager := lm\<rparr>))"
        using Some a Inr
        by (simp add: acquire_write_lock_def bindS_def in_locks_def update_txn_def note_image_def)
      ultimately show ?thesis using run Some by auto
    qed
  qed
  then show "tm_inv tm'"
    and "r = Inr u \<Longrightarrow> \<exists>x. tm_active_txns tm t = Some x \<and> tm_active_txns tm' t = Some (note_image p img x)"
    by blast+
qed

text \<open>The end of a transaction.\<close>

abbreviation ended :: "u64 \<Rightarrow> txn_manager \<Rightarrow> txn_manager" where
  "ended t tm \<equiv> set_txn t None (tm\<lparr>tm_lock_manager := release_all t (tm_lock_manager tm)\<rparr>)"

lemma ended_inv:
  assumes inv: "tm_inv tm"
  shows "tm_inv (ended t tm)"
proof -
  note lo = tm_invD(1) [OF inv]
  have keep: "txn_ok (release_all t (tm_lock_manager tm)) u x" if "tm_active_txns tm u = Some x" "u \<noteq> t" for u x
    using tm_invD(3) [OF inv that(1)] locks.rel_hld [OF lo, of t] that(2) by (simp add: txn_ok_def)
  have "tm_active_txns tm u \<noteq> None" if "held (release_all t (tm_lock_manager tm)) u r \<noteq> None" for u r
    using that tm_invD(4) [OF inv, of u r] locks.rel_hld [OF lo, of t u r] by (simp split: if_splits)
  then show ?thesis
    using inv keep locks.rel_inv [OF lo] locks.rel_hld [OF lo] unfolding tm_inv_def by auto
qed

lemma ended_set_txn: "ended t (set_txn t x tm) = ended t tm"
  by (simp add: set_txn_def)

lemma commit_run:
  assumes inv: "tm_inv tm" and act: "tm_active_txns tm t = Some x"
    and h: "wal_holds w ds ps" "wm_next_lsn w \<noteq> - 1"
  obtains w' where "log_commit t w = (Inr (wm_next_lsn w), w')" "tm_commit t (tm, w) = (Inr (), (ended t tm, w'))"
proof (rule log_commit_ok [OF h, of t])
  fix w' assume c: "log_commit t w = (Inr (wm_next_lsn w), w')"
  have "tx_state x = Active" using tm_invD(3) [OF inv act] by (simp add: txn_ok_def)
  with act c have "tm_commit t (tm, w) = (Inr (), (ended t tm, w'))"
    by (simp add: tm_commit_def bindS_def in_wal_def end_txn_def set_txn_def)
  with c that show thesis by blast
qed

lemma abort_run:
  assumes inv: "tm_inv tm" and act: "tm_active_txns tm t = Some x"
    and h: "wal_holds w ds ps" "wm_next_lsn w \<noteq> - 1"
  obtains w' where "log_abort t w = (Inr (wm_next_lsn w), w')"
    "tm_abort t (tm, w) = (Inr (tx_write_set x), (ended t tm, w'))"
proof (rule log_abort_ok [OF h, of t])
  fix w' assume c: "log_abort t w = (Inr (wm_next_lsn w), w')"
  with act have "tm_abort t (tm, w) = (Inr (tx_write_set x), (ended t tm, w'))"
    by (simp add: tm_abort_def bindS_def in_wal_def end_txn_def set_txn_def)
  with c that show thesis by blast
qed

section \<open>The transactions as a state machine\<close>

inductive txn_reach :: "txn_wal \<Rightarrow> bool" where
  start: "wal_reach w \<Longrightarrow> txn_reach (tm_new, w)"
| begin_txn: "txn_reach (tm, w) \<Longrightarrow> wm_next_lsn w \<noteq> - 1 \<Longrightarrow> tm_next_txn_id tm \<noteq> - 1
    \<Longrightarrow> tm_begin (tm, w) = (r, s) \<Longrightarrow> txn_reach s"
| read_lock: "txn_reach (tm, w) \<Longrightarrow> acquire_read_lock t p tm = (r', tm') \<Longrightarrow> txn_reach (tm', w)"
| write_lock: "txn_reach (tm, w) \<Longrightarrow> acquire_write_lock t p img tm = (r', tm') \<Longrightarrow> txn_reach (tm', w)"
| log_write: "txn_reach (tm, w) \<Longrightarrow> wm_next_lsn w \<noteq> - 1 \<Longrightarrow> 45 + length bi + length ai < 2 ^ 32
    \<Longrightarrow> tm_log_write t p bi ai (tm, w) = (r', s) \<Longrightarrow> txn_reach s"
| commit_txn: "txn_reach (tm, w) \<Longrightarrow> wm_next_lsn w \<noteq> - 1 \<Longrightarrow> tm_commit t (tm, w) = (r', s) \<Longrightarrow> txn_reach s"
| abort_txn: "txn_reach (tm, w) \<Longrightarrow> wm_next_lsn w \<noteq> - 1 \<Longrightarrow> tm_abort t (tm, w) = (r'', s) \<Longrightarrow> txn_reach s"
| page_write: "txn_reach (tm, w) \<Longrightarrow> wm_next_lsn w \<noteq> - 1 \<Longrightarrow> 45 + length bi + length ai < 2 ^ 32
    \<Longrightarrow> log_page_write t p bi ai w = (r, w') \<Longrightarrow> txn_reach (tm, w')"
| checkpoint: "txn_reach (tm, w) \<Longrightarrow> wm_next_lsn w \<noteq> - 1 \<Longrightarrow> 45 + 8 * length ts < 2 ^ 32
    \<Longrightarrow> log_checkpoint ts w = (r, w') \<Longrightarrow> txn_reach (tm, w')"
| flush: "txn_reach (tm, w) \<Longrightarrow> wal_flush w = (r', w') \<Longrightarrow> txn_reach (tm, w')"

lemma txn_reach_inv: "txn_reach s \<Longrightarrow> tm_inv (fst s) \<and> wal_reach (snd s)"
proof (induction rule: txn_reach.induct)
  case (begin_txn tm w r s)
  obtain r' w' where b: "log_begin (tm_next_txn_id tm) w = (r', w')" by (metis surj_pair)
  with begin_txn have "wal_reach w'" using wal_reach_calls(1) by auto
  with b begin_txn start_txn_inv [of tm] show ?case
    by (cases r') (auto simp: tm_begin_def bindS_def in_wal_def Let_def)
next
  case (log_write tm w bi ai t p r' s)
  obtain r1 w' where b: "log_page_write t p bi ai w = (r1, w')" by (metis surj_pair)
  with log_write have "wal_reach w'" using wal_reach_calls(4) by auto
  with b log_write show ?case
    by (cases r1) (auto simp: tm_log_write_def bindS_def in_wal_def split: if_splits)
next
  case (commit_txn tm w t r' s)
  then have inv: "tm_inv tm" and w: "wal_reach w" by simp_all
  show ?case
  proof (cases "tm_active_txns tm t")
    case None
    with commit_txn show ?thesis by (auto simp: tm_commit_def)
  next
    case (Some x)
    obtain ds ps where h: "wal_holds w ds ps" using wal_reach_holds [OF w] by blast
    obtain w' where c: "log_commit t w = (Inr (wm_next_lsn w), w')" "tm_commit t (tm, w) = (Inr (), (ended t tm, w'))"
      by (rule commit_run [OF inv Some h commit_txn(2)])
    have "wal_reach w'" by (rule wal_reach_calls(2) [OF w commit_txn(2) c(1)])
    with c(2) commit_txn(3) ended_inv [OF inv, of t] show ?thesis by auto
  qed
next
  case (abort_txn tm w t r' s)
  then have inv: "tm_inv tm" and w: "wal_reach w" by simp_all
  show ?case
  proof (cases "tm_active_txns tm t")
    case None
    with abort_txn show ?thesis by (auto simp: tm_abort_def)
  next
    case (Some x)
    obtain ds ps where h: "wal_holds w ds ps" using wal_reach_holds [OF w] by blast
    obtain w' where c: "log_abort t w = (Inr (wm_next_lsn w), w')"
        "tm_abort t (tm, w) = (Inr (tx_write_set x), (ended t tm, w'))"
      by (rule abort_run [OF inv Some h abort_txn(2)])
    have "wal_reach w'" by (rule wal_reach_calls(3) [OF w abort_txn(2) c(1)])
    with c(2) abort_txn(3) ended_inv [OF inv, of t] show ?thesis by auto
  qed
qed (auto intro: wal_reach_calls wal_reach.truncate dest: acquire_read_lock_ok acquire_write_lock_run)

section \<open>Properties\<close>

text \<open>
  C18. Isolation: in every state the transaction manager can reach, a page in the write set of an
  active transaction is in neither the write set nor the read set of any other active transaction,
  and no other transaction holds a lock on it.
\<close>

theorem txn_isolation:
  assumes "txn_reach (tm, w)" and "tm_active_txns tm t = Some x" and "tx_write_set x p \<noteq> None"
    and "t' \<noteq> t" and "tm_active_txns tm t' = Some x'"
  shows "tx_write_set x' p = None \<and> p \<notin> set (tx_read_set x') \<and> held (tm_lock_manager tm) t' p = None"
proof -
  have inv: "tm_inv tm" using txn_reach_inv [OF assms(1)] by simp
  have "held (tm_lock_manager tm) t p = Some Exclusive"
    using tm_invD(3) [OF inv assms(2)] assms(3) by (simp add: txn_ok_def)
  from locks.exclusive [OF tm_invD(1) [OF inv] this, of t'] assms(4)
  have none: "held (tm_lock_manager tm) t' p = None" by blast
  then show ?thesis using tm_invD(3) [OF inv assms(5)] by (auto simp: txn_ok_def)
qed

lemma begin_run:
  assumes h: "wal_holds w ds ps" "wm_next_lsn w \<noteq> - 1"
  obtains w' where "wal_holds w' ds (ps @ [stamped w (lr_begin 0 (tm_next_txn_id tm))])"
    "wm_next_lsn w' = wm_next_lsn w + 1"
    "tm_begin (tm, w) = (Inr (tm_next_txn_id tm), (set_txn (tm_next_txn_id tm)
       (Some (transaction_new (tm_next_txn_id tm))) (tm\<lparr>tm_next_txn_id := tm_next_txn_id tm + 1\<rparr>), w'))"
proof -
  let ?t = "tm_next_txn_id tm"
  have ok: "record_ok (lr_begin 0 ?t)" by (simp add: record_ok_def lr_begin_def)
  show thesis
  proof (rule wal_append_ok [OF h ok])
    fix w1 assume "wal_append (lr_begin 0 ?t) w = (Inr (wm_next_lsn w), w1)"
      "wal_holds w1 ds (ps @ [stamped w (lr_begin 0 ?t)])" "wm_next_lsn w1 = wm_next_lsn w + 1"
    with that [of w1] show thesis by (simp add: tm_begin_def log_begin_def bindS_def in_wal_def Let_def)
  qed
qed

text \<open>One transaction, and two of which the first has a write lock on page 7.\<close>

abbreviation one_active :: txn_manager where
  "one_active \<equiv> set_txn 1 (Some (transaction_new 1)) (tm_new\<lparr>tm_next_txn_id := 2\<rparr>)"

lemma one_txn:
  obtains w ps where "txn_reach (one_active, w)" "wal_holds w [] ps" "wm_next_lsn w = 2"
proof (rule wal_example)
  fix w assume w: "wal_holds w [] []" "wm_next_lsn w = 1" "wal_reach w"
  have n: "wm_next_lsn w \<noteq> - 1" "tm_next_txn_id tm_new = 1" using w(2) by (simp_all add: tm_new_def)
  obtain w1 where b1: "wal_holds w1 [] ([] @ [stamped w (lr_begin 0 1)])" "wm_next_lsn w1 = 2"
    "tm_begin (tm_new, w) = (Inr 1, (one_active, w1))"
    by (rule begin_run [OF w(1) n(1), of tm_new]) (use w(2) n in auto)
  have "txn_reach (one_active, w1)"
    by (rule txn_reach.begin_txn [OF txn_reach.start [OF w(3)] n(1) _ b1(3)]) (simp add: tm_new_def)
  with b1 that show thesis by blast
qed

lemma two_txns:
  obtains tm w where "txn_reach (tm, w)" "wm_next_lsn w = 3"
    "tm_active_txns tm 1 = Some (note_image 7 [5] (transaction_new 1))"
    "tm_active_txns tm 2 = Some (transaction_new 2)"
proof (rule one_txn)
  fix w1 ps assume w1: "txn_reach (one_active, w1)" "wal_holds w1 [] ps" "wm_next_lsn w1 = 2"
  let ?tm2 = "set_txn 2 (Some (transaction_new 2)) (one_active\<lparr>tm_next_txn_id := 3\<rparr>)"
  have n1: "wm_next_lsn w1 \<noteq> - 1" using w1(3) by simp
  obtain w2 where b2: "wm_next_lsn w2 = 3" "tm_begin (one_active, w1) = (Inr 2, (?tm2, w2))"
    by (rule begin_run [OF w1(2) n1, of one_active]) (use w1(3) in auto)
  have r2: "txn_reach (?tm2, w2)"
    by (rule txn_reach.begin_txn [OF w1(1) n1 _ b2(2)]) simp
  obtain lm where a: "acquire 1 7 Exclusive lm_new = (Inr True, lm)" by (simp add: acquire_def lm_new_def)
  let ?tm3 = "set_txn 1 (Some (note_image 7 [5] (transaction_new 1))) (?tm2\<lparr>tm_lock_manager := lm\<rparr>)"
  have "acquire_write_lock 1 7 [5] ?tm2 = (Inr (), ?tm3)"
    using a by (simp add: acquire_write_lock_def bindS_def in_locks_def update_txn_def note_image_def tm_new_def)
  from txn_reach.write_lock [OF r2 this] b2(1) show thesis by (rule that) simp_all
qed

theorem txn_isolation_witness:
  "\<exists>tm w x. txn_reach (tm, w) \<and> tm_active_txns tm 2 = Some x \<and> tx_write_set x 7 = None"
proof (rule two_txns)
  fix tm w assume t: "txn_reach (tm, w)" "tm_active_txns tm 1 = Some (note_image 7 [5] (transaction_new 1))"
    "tm_active_txns tm 2 = Some (transaction_new 2)"
  from txn_isolation [OF t(1,2) _ _ t(3), of 7] t(1,3) show ?thesis
    by (auto simp: note_image_def transaction_new_def)
qed

text \<open>
  C26. Commit of an active transaction succeeds, leaves a commit record as the last record of the log
  file on disk, with every record logged before it, ends the transaction and gives up its locks and
  no others. A commit of any other id fails and changes nothing.
\<close>

theorem txn_commit_correct:
  assumes "txn_reach (tm, w)" and "wm_next_lsn w \<noteq> - 1" and "tm_commit t (tm, w) = (r, (tm', w'))"
  shows "if tm_is_active tm t then r = Inr () \<and> tm_active_txns tm' = (tm_active_txns tm)(t := None)
      \<and> (\<forall>u p. held (tm_lock_manager tm') u p = (if u = t then None else held (tm_lock_manager tm) u p))
      \<and> (\<exists>ds ps c. read_all_records (wm_file w) = Inr ds \<and> wm_write_buffer w = log_bytes ps
           \<and> read_all_records (wm_file w') = Inr (ds @ ps @ [c]) \<and> lr_type c = LrCommit \<and> lr_txn_id c = t)
    else r = Inl (Err (TransactionAborted t)) \<and> tm' = tm \<and> w' = w"
proof (cases "tm_active_txns tm t")
  case None
  with assms(3) show ?thesis by (auto simp: tm_commit_def tm_is_active_def)
next
  case (Some x)
  have inv: "tm_inv tm" and wr: "wal_reach w" using txn_reach_inv [OF assms(1)] by simp_all
  obtain ds ps where h: "wal_holds w ds ps" using wal_reach_holds [OF wr] by blast
  obtain w1 where c: "log_commit t w = (Inr (wm_next_lsn w), w1)" "tm_commit t (tm, w) = (Inr (), (ended t tm, w1))"
    by (rule commit_run [OF inv Some h assms(2)])
  have eq: "r = Inr ()" "tm' = ended t tm" "w' = w1" using c(2) assms(3) by simp_all
  let ?c = "stamped w (lr_commit 0 t (last_lsn w t))"
  have log: "wal_holds w1 (ds @ ps @ [?c]) []"
    by (rule log_commit_ok [OF h assms(2), of t]) (use c(1) in simp)
  have "read_all_records (wm_file w) = Inr ds" "read_all_records (wm_file w') = Inr (ds @ ps @ [?c])"
    using h log eq(3) read_all_log by (auto simp: wal_holds_def log_ok_def simp del: map_append concat_append)
  moreover have "wm_write_buffer w = log_bytes ps" using h by (simp add: wal_holds_def)
  moreover have "lr_type ?c = LrCommit" "lr_txn_id ?c = t" by (simp_all add: stamped_def lr_commit_def)
  moreover have "held (tm_lock_manager tm') u p = (if u = t then None else held (tm_lock_manager tm) u p)" for u p
    using locks.rel_hld [OF tm_invD(1) [OF inv]] eq(2) by simp
  ultimately show ?thesis using Some eq(1,2) by (auto simp: tm_is_active_def)
qed

theorem txn_commit_correct_witness:
  "\<exists>tm w tm' w'. tm_is_active tm 1 \<and> tm_commit 1 (tm, w) = (Inr (), (tm', w')) \<and> \<not> tm_is_active tm' 1"
proof (rule two_txns)
  fix tm w assume t: "txn_reach (tm, w)" "wm_next_lsn w = 3" "tm_active_txns tm 1 = Some (note_image 7 [5] (transaction_new 1))"
  obtain r tm' w' where run: "tm_commit 1 (tm, w) = (r, (tm', w'))" by (metis surj_pair)
  have "wm_next_lsn w \<noteq> - 1" using t(2) by simp
  from txn_commit_correct [OF t(1) this run] t(3) run show ?thesis
    by (intro exI [of _ tm] exI [of _ w] exI [of _ tm'] exI [of _ w']) (simp add: tm_is_active_def)
qed

lemma write_locks_images:
  assumes "tm_inv tm" and "tm_active_txns tm t = Some x"
    and "foldS (\<lambda>(p, img). acquire_write_lock t p img) pbs tm = (Inr (), tm')"
  shows "tm_inv tm' \<and> (\<exists>x'. tm_active_txns tm' t = Some x' \<and> tx_write_set x' = map_of pbs ++ tx_write_set x)"
  using assms
proof (induction pbs arbitrary: tm x)
  case (Cons pb pbs)
  obtain p img where pb: "pb = (p, img)" by (cases pb)
  obtain tm1 where 1: "acquire_write_lock t p img tm = (Inr (), tm1)"
    "foldS (\<lambda>(p, img). acquire_write_lock t p img) pbs tm1 = (Inr (), tm')"
    using Cons.prems(3) pb by (auto simp: bindS_Inr_iff)
  note a = acquire_write_lock_run [OF Cons.prems(1) 1(1)]
  have x1: "tm_active_txns tm1 t = Some (note_image p img x)" using a(2) Cons.prems(2) by auto
  from Cons.IH [OF a(1) x1 1(2)] obtain x' where x': "tm_inv tm'" "tm_active_txns tm' t = Some x'"
    "tx_write_set x' = map_of pbs ++ tx_write_set (note_image p img x)" by blast
  have "map_of pbs ++ tx_write_set (note_image p img x) = map_of (pb # pbs) ++ tx_write_set x"
    by (rule ext) (auto simp: pb note_image_def map_add_def split: option.splits)
  with x' show ?case by (simp del: map_of.simps)
qed simp

text \<open>
  Abort hands back, for every page the transaction locked for writing, the first before image it
  gave for that page, whatever images followed.
\<close>

theorem txn_abort_first_images:
  assumes "txn_reach (tm, w)" and "tm_active_txns tm t = Some x" and "tx_write_set x = Map.empty"
    and "foldS (\<lambda>(p, img). acquire_write_lock t p img) pbs tm = (Inr (), tm1)"
    and "wm_next_lsn w \<noteq> - 1" and "tm_abort t (tm1, w) = (r, (tm2, w2))"
  shows "r = Inr (map_of pbs) \<and> \<not> tm_is_active tm2 t \<and> (\<forall>p. held (tm_lock_manager tm2) t p = None)"
proof -
  have inv: "tm_inv tm" and wr: "wal_reach w" using txn_reach_inv [OF assms(1)] by simp_all
  from write_locks_images [OF inv assms(2,4)] obtain x' where
    x': "tm_inv tm1" "tm_active_txns tm1 t = Some x'" "tx_write_set x' = map_of pbs" using assms(3) by auto
  obtain ds ps where h: "wal_holds w ds ps" using wal_reach_holds [OF wr] by blast
  obtain w1 where "tm_abort t (tm1, w) = (Inr (tx_write_set x'), (ended t tm1, w1))"
    by (rule abort_run [OF x'(1,2) h assms(5)])
  then have eq: "r = Inr (map_of pbs)" "tm2 = ended t tm1" using assms(6) x'(3) by simp_all
  moreover have "held (tm_lock_manager tm2) t p = None" for p
    using locks.rel_hld [OF tm_invD(1) [OF x'(1)], of t t p] eq(2) by simp
  ultimately show ?thesis by (simp add: tm_is_active_def)
qed

end
