(* ===== verification/Engine.thy ===== *)
theory Engine
  imports Insert Txn_Manager
begin

text \<open>
  The storage engine of \<^verbatim>\<open>src/src/engine.rs\<close>, which ties the tree, the buffer pool, the log
  and the transaction manager together. Opening takes the contents of the two files of the database
  directory; printing the recovery summary is left out. A failing \<^verbatim>\<open>open\<close> returns no engine.

  \<open>engine_ok e es\<close> relates an engine to the sorted list of the entries it stores: the tree is
  well-formed and holds exactly \<open>es\<close>, and the managers are in a reachable state. Every call
  of the interface is shown to act on that list as the corresponding operation of theory \<open>Kv\<close>.
\<close>

section \<open>The code\<close>

definition DEFAULT_POOL_CAPACITY :: nat where "DEFAULT_POOL_CAPACITY = 1024"

record storage_engine =
  se_btree :: bplus_tree
  se_pool :: buffer_pool
  se_wal :: wal_manager
  se_txn_manager :: txn_manager
  se_db_path :: string

definition on_tree :: "(tree_pool, 'a) op \<Rightarrow> (storage_engine, 'a) op" where
  "on_tree m e = (case m (se_btree e, se_pool e) of (r, (t, bp)) \<Rightarrow> (r, e\<lparr>se_btree := t, se_pool := bp\<rparr>))"

definition on_pool :: "(buffer_pool, 'a) op \<Rightarrow> (storage_engine, 'a) op" where
  "on_pool m e = (case m (se_pool e) of (r, bp) \<Rightarrow> (r, e\<lparr>se_pool := bp\<rparr>))"

definition on_wal :: "(wal_manager, 'a) op \<Rightarrow> (storage_engine, 'a) op" where
  "on_wal m e = (case m (se_wal e) of (r, w) \<Rightarrow> (r, e\<lparr>se_wal := w\<rparr>))"

definition on_txn :: "(txn_wal, 'a) op \<Rightarrow> (storage_engine, 'a) op" where
  "on_txn m e = (case m (se_txn_manager e, se_wal e) of
     (r, (tm, w)) \<Rightarrow> (r, e\<lparr>se_txn_manager := tm, se_wal := w\<rparr>))"

text \<open>One redo or undo action: the image goes over the start of the page.\<close>

definition overlay :: "bytes \<Rightarrow> page \<Rightarrow> page" where
  "overlay img p = (let copy_len = min (length img) PAGE_SIZE
     in p\<lparr>pg_data := wr (pg_data p) 0 (take copy_len img)\<rparr>)"

definition apply_image :: "u32 \<Rightarrow> u32 \<times> bytes \<Rightarrow> (buffer_pool, unit) op" where
  "apply_image num_pages = (\<lambda>(pid, img).
     if pid < num_pages then
       bindS (bp_fetch_page_mut pid) (\<lambda>page.
       bindS (bp_update_page page (overlay img)) (\<lambda>_.
       bp_unpin_page pid True))
     else retS ())"

text \<open>
  Recovery can be cut short by a crash, so it is given as the list of its steps: an action or the write of
  one frame each, then the truncation of the log. Every step writes to one file at most.
\<close>

definition recover_steps :: "storage_engine \<Rightarrow> (storage_engine, unit) op list" where
  "recover_steps e =
     (case wal_recover (se_wal e) of
        Inl f \<Rightarrow> [failS f]
      | Inr actions \<Rightarrow>
          if ra_redo actions = [] \<and> ra_undo actions = [] then []
          else let num_pages = dm_num_pages (bp_disk (se_pool e))
            in map (\<lambda>a. on_pool (apply_image num_pages a)) (ra_redo actions)
             @ map (\<lambda>a. on_pool (apply_image num_pages a)) (ra_undo actions)
             @ map on_pool (flush_steps (se_pool e))
             @ [on_wal wal_truncate])"

definition engine_recover :: "(storage_engine, unit) op" where
  "engine_recover e = runS (recover_steps e) e"

text \<open>\<^verbatim>\<open>open\<close> up to the call of \<^verbatim>\<open>recover\<close>, and all of it.\<close>

definition engine_load :: "string \<Rightarrow> bytes \<Rightarrow> bytes \<Rightarrow> storage_engine res" where
  "engine_load db_path data_file wal_file =
     bindE (wal_open (db_path @ ''/wal.log'') wal_file) (\<lambda>wal.
       let disk = dm_open (db_path @ ''/data.db'') data_file;
           num_pages = dm_num_pages disk;
           pool = bp_new disk DEFAULT_POOL_CAPACITY
       in case (if num_pages = 0 then bt_create pool else (Inr (bt_open 0), pool)) of
            (Inl e, _) \<Rightarrow> Inl e
          | (Inr btree, pool') \<Rightarrow>
              Inr \<lparr>se_btree = btree, se_pool = pool', se_wal = wal, se_txn_manager = tm_new, se_db_path = db_path\<rparr>)"

definition engine_open :: "string \<Rightarrow> bytes \<Rightarrow> bytes \<Rightarrow> storage_engine res" where
  "engine_open db_path data_file wal_file =
     bindE (engine_load db_path data_file wal_file) (\<lambda>engine.
       case engine_recover engine of
         (Inl e, _) \<Rightarrow> Inl e
       | (Inr _, engine') \<Rightarrow> Inr engine')"

definition engine_put :: "key \<Rightarrow> bytes \<Rightarrow> (storage_engine, unit) op" where
  "engine_put key value = bindS (on_tree (bt_insert key value)) (\<lambda>_. retS ())"

definition engine_get :: "key \<Rightarrow> (storage_engine, bytes option) op" where
  "engine_get key = on_tree (with_tree (\<lambda>t. bt_search t key))"

definition engine_delete :: "key \<Rightarrow> (storage_engine, bytes option) op" where
  "engine_delete key = on_tree (bt_delete key)"

definition engine_scan_all :: "(storage_engine, entry list) op" where
  "engine_scan_all = on_tree (with_tree bt_scan_all)"

definition engine_range_scan :: "key \<Rightarrow> key \<Rightarrow> (storage_engine, entry list) op" where
  "engine_range_scan lo hi = on_tree (with_tree (\<lambda>t. bt_range_scan t lo hi))"

definition begin_transaction :: "(storage_engine, u64) op" where
  "begin_transaction = on_txn tm_begin"

definition txn_put :: "u64 \<Rightarrow> key \<Rightarrow> bytes \<Rightarrow> (storage_engine, unit) op" where
  "txn_put txn key value =
     bindS (on_wal (log_page_write txn 0 key value)) (\<lambda>_.
     bindS (on_tree (bt_insert key value)) (\<lambda>_.
     retS ()))"

definition txn_get :: "u64 \<Rightarrow> key \<Rightarrow> (storage_engine, bytes option) op" where
  "txn_get txn key = on_tree (with_tree (\<lambda>t. bt_search t key))"

definition txn_delete :: "u64 \<Rightarrow> key \<Rightarrow> (storage_engine, bytes option) op" where
  "txn_delete txn key =
     bindS (on_tree (bt_delete key)) (\<lambda>old.
     bindS (case old of
         Some val \<Rightarrow> bindS (on_wal (log_page_write txn 0 key val)) (\<lambda>_. retS ())
       | None \<Rightarrow> retS ()) (\<lambda>_.
     retS old))"

definition commit_transaction :: "u64 \<Rightarrow> (storage_engine, unit) op" where
  "commit_transaction txn = on_txn (tm_commit txn)"

definition abort_transaction :: "u64 \<Rightarrow> (storage_engine, unit) op" where
  "abort_transaction txn = bindS (on_txn (tm_abort txn)) (\<lambda>write_set. retS ())"

definition engine_checkpoint :: "(storage_engine, unit) op" where
  "engine_checkpoint e =
     (let active = active_transaction_ids (se_txn_manager e)
      in bindS (on_wal (log_checkpoint active)) (\<lambda>_. retS ()) e)"

definition engine_sync :: "(storage_engine, unit) op" where
  "engine_sync = bindS (on_wal wal_flush) (\<lambda>_. on_pool bp_flush_all)"

record engine_stats =
  es_num_pages :: u32
  es_root_page_id :: u32
  es_active_transactions :: nat
  es_wal_lsn :: u64
  es_db_path :: string

definition engine_stats_of :: "storage_engine \<Rightarrow> engine_stats" where
  "engine_stats_of e =
     \<lparr>es_num_pages = dm_num_pages (bp_disk (se_pool e)), es_root_page_id = root_page_id (se_btree e),
      es_active_transactions = active_count (se_txn_manager e), es_wal_lsn = current_lsn (se_wal e),
      es_db_path = se_db_path e\<rparr>"

section \<open>The invariant\<close>

definition engine_holds :: "(tree_pool \<Rightarrow> entry list \<Rightarrow> bool) \<Rightarrow> storage_engine \<Rightarrow> entry list \<Rightarrow> bool" where
  "engine_holds holds e es \<longleftrightarrow> holds (se_btree e, se_pool e) es \<and> txn_reach (se_txn_manager e, se_wal e)"

section \<open>The calls of the interface\<close>

datatype engine_call =
    Put key bytes | Get key | Delete key | ScanAll | RangeScan key key
  | BeginTxn | TxnPut u64 key bytes | TxnGet u64 key | TxnDelete u64 key | CommitTxn u64 | AbortTxn u64
  | Checkpoint | Sync

datatype reply = RUnit | RValue "bytes option" | REntries "entry list" | RTxn u64

definition mapS :: "('a \<Rightarrow> 'b) \<Rightarrow> ('s, 'a) op \<Rightarrow> ('s, 'b) op" where
  "mapS f m = bindS m (\<lambda>a. retS (f a))"

fun run_call :: "engine_call \<Rightarrow> (storage_engine, reply) op" where
  "run_call (Put k v) = mapS (\<lambda>_. RUnit) (engine_put k v)"
| "run_call (Get k) = mapS RValue (engine_get k)"
| "run_call (Delete k) = mapS RValue (engine_delete k)"
| "run_call ScanAll = mapS REntries engine_scan_all"
| "run_call (RangeScan lo hi) = mapS REntries (engine_range_scan lo hi)"
| "run_call BeginTxn = mapS RTxn begin_transaction"
| "run_call (TxnPut t k v) = mapS (\<lambda>_. RUnit) (txn_put t k v)"
| "run_call (TxnGet t k) = mapS RValue (txn_get t k)"
| "run_call (TxnDelete t k) = mapS RValue (txn_delete t k)"
| "run_call (CommitTxn t) = mapS (\<lambda>_. RUnit) (commit_transaction t)"
| "run_call (AbortTxn t) = mapS (\<lambda>_. RUnit) (abort_transaction t)"
| "run_call Checkpoint = mapS (\<lambda>_. RUnit) engine_checkpoint"
| "run_call Sync = mapS (\<lambda>_. RUnit) engine_sync"

text \<open>
  The specification: what a call does to the entries, and the reply where the entries alone
  decide it. Aborting a transaction leaves the entries as they are.
\<close>

fun call_effect :: "engine_call \<Rightarrow> entry list \<Rightarrow> entry list" where
  "call_effect (Put k v) es = kv_insert k v es"
| "call_effect (TxnPut t k v) es = kv_insert k v es"
| "call_effect (Delete k) es = kv_delete k es"
| "call_effect (TxnDelete t k) es = kv_delete k es"
| "call_effect _ es = es"

fun call_reply :: "engine_call \<Rightarrow> entry list \<Rightarrow> reply option" where
  "call_reply (Put k v) es = Some RUnit"
| "call_reply (TxnPut t k v) es = Some RUnit"
| "call_reply (Get k) es = Some (RValue (map_of es k))"
| "call_reply (TxnGet t k) es = Some (RValue (map_of es k))"
| "call_reply (Delete k) es = Some (RValue (map_of es k))"
| "call_reply (TxnDelete t k) es = Some (RValue (map_of es k))"
| "call_reply ScanAll es = Some (REntries es)"
| "call_reply (RangeScan lo hi) es = Some (REntries (filter (\<lambda>e. lo \<le> fst e \<and> fst e \<le> hi) es))"
| "call_reply Checkpoint es = Some RUnit"
| "call_reply Sync es = Some RUnit"
| "call_reply _ es = None"

text \<open>
  When a call is covered: counters have not run out, the tree can take an insert, and a
  checkpoint record stays below 4 GB.
\<close>

definition call_within :: "(tree_pool \<Rightarrow> key \<Rightarrow> bytes \<Rightarrow> bool) \<Rightarrow> storage_engine \<Rightarrow> engine_call \<Rightarrow> bool" where
  "call_within room e c \<longleftrightarrow> wm_next_lsn (se_wal e) \<noteq> - 1 \<and> tm_next_txn_id (se_txn_manager e) \<noteq> - 1
     \<and> (case c of
          Put k v \<Rightarrow> room (se_btree e, se_pool e) k v
        | TxnPut t k v \<Rightarrow> room (se_btree e, se_pool e) k v \<and> 45 + length k + length v < 2 ^ 32
        | Checkpoint \<Rightarrow> 45 + 8 * active_count (se_txn_manager e) < 2 ^ 32
        | _ \<Rightarrow> True)"

lemma mapS_run: "m e = (Inr a, e') \<Longrightarrow> mapS f m e = (Inr (f a), e')"
  by (simp add: mapS_def bindS_def)

lemma mapS_any: "m e = (r, e') \<Longrightarrow> \<exists>r'. mapS f m e = (r', e')"
  by (cases r) (simp_all add: mapS_def bindS_def)

lemma log_page_write_run:
  assumes "txn_reach (tm, w)" and "wm_next_lsn w \<noteq> - 1" and "45 + length bi + length ai < 2 ^ 32"
  obtains w' where "log_page_write t p bi ai w = (Inr (wm_next_lsn w), w')" "txn_reach (tm, w')"
proof -
  have "wal_reach w" using txn_reach_inv [OF assms(1)] by simp
  then obtain ds ps where h: "wal_holds w ds ps" using wal_reach_holds by blast
  have r: "record_ok (lr_page_write 0 t (last_lsn w t) p bi ai)"
    using assms(3) by (simp add: record_ok_def lr_page_write_def)
  obtain w' where w': "log_page_write t p bi ai w = (Inr (wm_next_lsn w), w')"
    by (rule wal_append_ok [OF h assms(2) r]) (auto simp: log_page_write_def)
  with txn_reach.page_write [OF assms(1-3) w'] that show thesis by blast
qed

lemma wal_flush_run:
  assumes "txn_reach (tm, w)"
  obtains w' where "wal_flush w = (Inr (), w')" "txn_reach (tm, w')" "wm_write_buffer w' = []"
proof -
  have "wal_reach w" using txn_reach_inv [OF assms] by simp
  then obtain ds ps where h: "wal_holds w ds ps" using wal_reach_holds by blast
  show thesis
  proof (rule wal_flush_ok [OF h])
    fix w' assume "wal_flush w = (Inr (), w')" "wal_holds w' (ds @ ps) []"
    with txn_reach.flush [OF assms] that show thesis by (auto simp: wal_holds_def)
  qed
qed

lemma log_checkpoint_run:
  assumes "txn_reach (tm, w)" and "wm_next_lsn w \<noteq> - 1" and "45 + 8 * length ts < 2 ^ 32"
  obtains l w' where "log_checkpoint ts w = (Inr l, w')" "txn_reach (tm, w')"
proof -
  have "wal_reach w" using txn_reach_inv [OF assms(1)] by simp
  then obtain ds ps where h: "wal_holds w ds ps" using wal_reach_holds by blast
  have r: "record_ok (lr_checkpoint 0 ts)" using assms(3) by (simp add: record_ok_def lr_checkpoint_def length_ids)
  show thesis
  proof (rule wal_append_ok [OF h assms(2) r])
    fix w1 assume a: "wal_append (lr_checkpoint 0 ts) w = (Inr (wm_next_lsn w), w1)"
      "wal_holds w1 ds (ps @ [stamped w (lr_checkpoint 0 ts)])"
    obtain w2 where "wal_flush w1 = (Inr (), w2)" by (rule wal_flush_ok [OF a(2)])
    with a(1) have run: "log_checkpoint ts w = (Inr (wm_next_lsn w), w2)" by (simp add: log_checkpoint_def bindS_def)
    from that [OF run txn_reach.checkpoint [OF assms run]] show thesis .
  qed
qed

section \<open>Every call refines the specification\<close>

text \<open>
  The engine relies on the tree only through the contracts \<open>kv_index\<close> and \<open>shaped_tree\<close> of its
  operations. The calls are correct for every invariant of the tree that fulfils them.
\<close>

locale engine_index = shaped_tree
begin

lemma engine_holdsD:
  assumes "engine_holds holds e es"
  shows "holds (se_btree e, se_pool e) es" and "txn_reach (se_txn_manager e, se_wal e)"
  using assms by (simp_all add: engine_holds_def holds_def)

lemma on_tree_run:
  assumes "m (se_btree e, se_pool e) = (r, s')" and "holds s' es'" and "txn_reach (se_txn_manager e, se_wal e)"
  shows "\<exists>e'. on_tree m e = (r, e') \<and> engine_holds holds e' es' \<and> se_wal e' = se_wal e \<and> se_txn_manager e' = se_txn_manager e
    \<and> (se_btree e', se_pool e') = s'"
  using assms by (cases s') (simp add: on_tree_def engine_holds_def holds_def)

lemma on_wal_run:
  assumes "m (se_wal e) = (r, w')" and "engine_holds holds e es" and "txn_reach (se_txn_manager e, w')"
  shows "\<exists>e'. on_wal m e = (r, e') \<and> engine_holds holds e' es \<and> se_wal e' = w' \<and> se_txn_manager e' = se_txn_manager e
    \<and> se_btree e' = se_btree e \<and> se_pool e' = se_pool e"
  using assms by (simp add: on_wal_def engine_holds_def)

lemma on_txn_run:
  assumes "m (se_txn_manager e, se_wal e) = (r, s')" and "engine_holds holds e es" and "txn_reach s'"
  shows "\<exists>e'. on_txn m e = (r, e') \<and> engine_holds holds e' es \<and> (se_txn_manager e', se_wal e') = s'
    \<and> se_btree e' = se_btree e \<and> se_pool e' = se_pool e"
  using assms by (cases s') (simp add: on_txn_def engine_holds_def)

lemma on_tree_total:
  assumes ok: "engine_holds holds e es"
    and run: "\<exists>s'. m (se_btree e, se_pool e) = (Inr a, s') \<and> holds s' es'"
  shows "\<exists>e'. on_tree m e = (Inr a, e') \<and> engine_holds holds e' es' \<and> se_wal e' = se_wal e \<and> se_txn_manager e' = se_txn_manager e"
  using run on_tree_run [OF _ _ engine_holdsD(2) [OF ok]] by blast

lemma put_ok:
  assumes ok: "engine_holds holds e es" and room: "room (se_btree e, se_pool e) k v"
  shows "\<exists>e'. on_tree (bt_insert k v) e = (Inr (map_of es k = None), e') \<and> engine_holds holds e' (kv_insert k v es)
    \<and> se_wal e' = se_wal e \<and> se_txn_manager e' = se_txn_manager e"
  by (rule on_tree_total [where m = "bt_insert k v", OF ok ins_ok [OF engine_holdsD(1) [OF ok] room]])

lemma delete_ok:
  assumes ok: "engine_holds holds e es"
  shows "\<exists>e'. on_tree (bt_delete k) e = (Inr (map_of es k), e') \<and> engine_holds holds e' (kv_delete k es)
    \<and> se_wal e' = se_wal e \<and> se_txn_manager e' = se_txn_manager e"
  by (rule on_tree_total [where m = "bt_delete k", OF ok del_ok [OF engine_holdsD(1) [OF ok]]])

lemma get_ok:
  assumes ok: "engine_holds holds e es"
  shows "\<exists>e'. engine_get k e = (Inr (map_of es k), e') \<and> engine_holds holds e' es"
  using on_tree_total [where m = "with_tree (\<lambda>t. bt_search t k)", OF ok lookup_ok [OF engine_holdsD(1) [OF ok]]]
  by (auto simp: engine_get_def)

lemma scan_all_ok:
  assumes ok: "engine_holds holds e es"
  shows "\<exists>e'. engine_scan_all e = (Inr es, e') \<and> engine_holds holds e' es"
  using on_tree_total [where m = "with_tree bt_scan_all", OF ok scan_ok [OF engine_holdsD(1) [OF ok]]]
  by (auto simp: engine_scan_all_def)

lemma range_scan_ok:
  assumes ok: "engine_holds holds e es"
  shows "\<exists>e'. engine_range_scan lo hi e = (Inr (filter (\<lambda>x. lo \<le> fst x \<and> fst x \<le> hi) es), e') \<and> engine_holds holds e' es"
  using on_tree_total [where m = "with_tree (\<lambda>t. bt_range_scan t lo hi)", OF ok range_ok [OF engine_holdsD(1) [OF ok]]]
  by (auto simp: engine_range_scan_def)

lemma on_wal_log:
  assumes ok: "engine_holds holds e es" and "wm_next_lsn (se_wal e) \<noteq> - 1" and "45 + length bi + length ai < 2 ^ 32"
  shows "\<exists>l e'. on_wal (log_page_write t p bi ai) e = (Inr l, e') \<and> engine_holds holds e' es
    \<and> se_btree e' = se_btree e \<and> se_pool e' = se_pool e \<and> se_txn_manager e' = se_txn_manager e"
proof (rule log_page_write_run [OF engine_holdsD(2) [OF ok] assms(2,3), of t p])
  fix w' assume "log_page_write t p bi ai (se_wal e) = (Inr (wm_next_lsn (se_wal e)), w')" "txn_reach (se_txn_manager e, w')"
  from on_wal_run [where m = "log_page_write t p bi ai", OF this(1) ok this(2)] show ?thesis by blast
qed

lemma txn_put_ok:
  assumes ok: "engine_holds holds e es" and fit: "call_within room e (TxnPut t k v)"
  shows "\<exists>e'. txn_put t k v e = (Inr (), e') \<and> engine_holds holds e' (kv_insert k v es)"
proof -
  from fit have f: "wm_next_lsn (se_wal e) \<noteq> - 1" "room (se_btree e, se_pool e) k v" "45 + length k + length v < 2 ^ 32"
    by (simp_all add: call_within_def)
  from on_wal_log [OF ok f(1,3), of t 0] obtain l e1 where
    1: "on_wal (log_page_write t 0 k v) e = (Inr l, e1)" "engine_holds holds e1 es" "se_btree e1 = se_btree e" "se_pool e1 = se_pool e"
    by blast
  from put_ok [OF 1(2), of k v] f(2) 1(3,4) 1(1) show ?thesis by (auto simp: txn_put_def bindS_def)
qed

lemma txn_delete_ok:
  assumes ok: "engine_holds holds e es" and n: "wm_next_lsn (se_wal e) \<noteq> - 1"
  shows "\<exists>e'. txn_delete t k e = (Inr (map_of es k), e') \<and> engine_holds holds e' (kv_delete k es)"
proof -
  from delete_ok [OF ok, of k] obtain e1 where
    1: "on_tree (bt_delete k) e = (Inr (map_of es k), e1)" "engine_holds holds e1 (kv_delete k es)" "se_wal e1 = se_wal e" by blast
  show ?thesis
  proof (cases "map_of es k")
    case None
    with 1 show ?thesis by (simp add: txn_delete_def bindS_def)
  next
    case (Some v)
    have "length k + length v < PAGE_SIZE"
      using holds_index [OF engine_holdsD(1) [OF ok]] index_entry_small [OF _ map_of_SomeD [OF Some]] by (auto simp: tree_index_def)
    then have len: "45 + length k + length v < 2 ^ 32" by simp
    have n1: "wm_next_lsn (se_wal e1) \<noteq> - 1" using n 1(3) by simp
    from on_wal_log [OF 1(2) n1 len, of t 0] 1(1) Some show ?thesis by (auto simp: txn_delete_def bindS_def)
  qed
qed

lemma on_txn_step:
  assumes ok: "engine_holds holds e es"
    and step: "\<And>r s. m (se_txn_manager e, se_wal e) = (r, s) \<Longrightarrow> txn_reach s"
  shows "\<exists>r e'. on_txn m e = (r, e') \<and> engine_holds holds e' es"
proof -
  obtain r s where run: "m (se_txn_manager e, se_wal e) = (r, s)" by (metis surj_pair)
  from on_txn_run [where m = m, OF run ok step [OF run]] run show ?thesis by blast
qed

lemma pool_flush_run:
  assumes h: "holds (tr, bp) es"
  obtains bp' where "bp_flush_all bp = (Inr (), bp')" "holds (tr, bp') es" "dm_pages (bp_disk bp') = bp_view bp"
    "bp_view bp' = bp_view bp" "bp_count bp' = bp_count bp"
proof -
  have "pool_quiet bp" using holds_index [OF h] by (auto simp: tree_index_def index_def tree_ok_def)
  then show thesis by (rule flush_quiet) (use that holds_view [OF h] in blast)
qed

lemma sync_ok:
  assumes ok: "engine_holds holds e es"
  shows "\<exists>e'. engine_sync e = (Inr (), e') \<and> engine_holds holds e' es \<and> wm_write_buffer (se_wal e') = []
    \<and> dm_pages (bp_disk (se_pool e')) = bp_view (se_pool e) \<and> bp_view (se_pool e') = bp_view (se_pool e)
    \<and> bp_count (se_pool e') = bp_count (se_pool e)
    \<and> se_btree e' = se_btree e \<and> se_txn_manager e' = se_txn_manager e \<and> wal_flush (se_wal e) = (Inr (), se_wal e')"
proof (rule wal_flush_run [OF engine_holdsD(2) [OF ok]])
  fix w' assume w': "wal_flush (se_wal e) = (Inr (), w')" "txn_reach (se_txn_manager e, w')" "wm_write_buffer w' = []"
  show ?thesis
  proof (rule pool_flush_run)
    show "holds (se_btree e, se_pool e) es" using ok by (simp add: engine_holds_def)
    fix bp' assume "bp_flush_all (se_pool e) = (Inr (), bp')" "holds (se_btree e, bp') es"
      "dm_pages (bp_disk bp') = bp_view (se_pool e)" "bp_view bp' = bp_view (se_pool e)" "bp_count bp' = bp_count (se_pool e)"
    with w' show ?thesis by (simp add: engine_sync_def bindS_def on_wal_def on_pool_def engine_holds_def)
  qed
qed

lemma checkpoint_ok:
  assumes ok: "engine_holds holds e es" and fit: "call_within room e Checkpoint"
  shows "\<exists>e'. engine_checkpoint e = (Inr (), e') \<and> engine_holds holds e' es"
proof -
  have "tm_inv (se_txn_manager e)" using txn_reach_inv [OF engine_holdsD(2) [OF ok]] by simp
  then have "finite (dom (tm_active_txns (se_txn_manager e)))" by (rule tm_invD)
  then have len: "45 + 8 * length (active_transaction_ids (se_txn_manager e)) < 2 ^ 32" and n: "wm_next_lsn (se_wal e) \<noteq> - 1"
    using fit by (simp_all add: call_within_def active_count_def active_transaction_ids_def)
  show ?thesis
  proof (rule log_checkpoint_run [OF engine_holdsD(2) [OF ok] n len])
    fix l w' assume "log_checkpoint (active_transaction_ids (se_txn_manager e)) (se_wal e) = (Inr l, w')"
      "txn_reach (se_txn_manager e, w')"
    from on_wal_run [where m = "log_checkpoint _", OF this(1) ok this(2)] show ?thesis by (auto simp: engine_checkpoint_def bindS_def)
  qed
qed

lemma mapS_step:
  fixes m :: "(storage_engine, 'a) op"
  shows "\<exists>r e'. m e = (r, e') \<and> engine_holds holds e' es \<Longrightarrow> \<exists>r e'. mapS f m e = (r, e') \<and> engine_holds holds e' es"
  using mapS_any by metis

lemma call_ok:
  assumes ok: "engine_holds holds e es" and fit: "call_within room e c"
  shows "\<exists>r e'. run_call c e = (r, e') \<and> engine_holds holds e' (call_effect c es)
    \<and> (\<forall>rep. call_reply c es = Some rep \<longrightarrow> r = Inr rep)"
proof -
  have n: "wm_next_lsn (se_wal e) \<noteq> - 1" "tm_next_txn_id (se_txn_manager e) \<noteq> - 1" using fit by (simp_all add: call_within_def)
  have reach: "txn_reach (se_txn_manager e, se_wal e)" by (rule engine_holdsD [OF ok])
  show ?thesis
  proof (cases c)
    case (Put k v)
    with fit put_ok [OF ok, of k v] show ?thesis by (auto simp: call_within_def engine_put_def mapS_def bindS_def)
  next
    case (Get k)
    with get_ok [OF ok, of k] show ?thesis by (auto simp: mapS_def bindS_def)
  next
    case (Delete k)
    with delete_ok [OF ok, of k] show ?thesis by (auto simp: engine_delete_def mapS_def bindS_def)
  next
    case ScanAll
    with scan_all_ok [OF ok] show ?thesis by (auto simp: mapS_def bindS_def)
  next
    case (RangeScan lo hi)
    with range_scan_ok [OF ok, of lo hi] show ?thesis by (auto simp: mapS_def bindS_def)
  next
    case BeginTxn
    have "\<exists>r e'. begin_transaction e = (r, e') \<and> engine_holds holds e' es" unfolding begin_transaction_def
      by (rule on_txn_step [OF ok]) (rule txn_reach.begin_txn [OF reach n])
    from mapS_step [where m = begin_transaction and f = RTxn, OF this] BeginTxn show ?thesis by simp
  next
    case (TxnPut t k v)
    with fit txn_put_ok [OF ok, of t k v] show ?thesis by (auto simp: mapS_def bindS_def)
  next
    case (TxnGet t k)
    with get_ok [OF ok, of k] show ?thesis by (auto simp: txn_get_def engine_get_def mapS_def bindS_def)
  next
    case (TxnDelete t k)
    with txn_delete_ok [OF ok n(1), of t k] show ?thesis by (auto simp: mapS_def bindS_def)
  next
    case (CommitTxn t)
    have "\<exists>r e'. commit_transaction t e = (r, e') \<and> engine_holds holds e' es" unfolding commit_transaction_def
      by (rule on_txn_step [OF ok]) (rule txn_reach.commit_txn [OF reach n(1)])
    from mapS_step [where m = "commit_transaction t" and f = "\<lambda>_. RUnit", OF this] CommitTxn show ?thesis by simp
  next
    case (AbortTxn t)
    have "\<exists>r e'. on_txn (tm_abort t) e = (r, e') \<and> engine_holds holds e' es"
      by (rule on_txn_step [OF ok]) (rule txn_reach.abort_txn [OF reach n(1)])
    from mapS_step [where m = "on_txn (tm_abort t)" and f = "\<lambda>_. ()", OF this]
    have "\<exists>r e'. abort_transaction t e = (r, e') \<and> engine_holds holds e' es" by (simp add: abort_transaction_def mapS_def)
    from mapS_step [where m = "abort_transaction t" and f = "\<lambda>_. RUnit", OF this] AbortTxn show ?thesis by simp
  next
    case Checkpoint
    with fit checkpoint_ok [OF ok] show ?thesis by (auto simp: mapS_def bindS_def)
  next
    case Sync
    with sync_ok [OF ok] show ?thesis by (auto simp: mapS_def bindS_def)
  qed
qed

end

text \<open>Two invariants of the tree.\<close>

interpretation tree_engine: engine_index tree_index tree_room ..

interpretation linked_engine: engine_index linked_index linked_room ..

abbreviation engine_ok :: "storage_engine \<Rightarrow> entry list \<Rightarrow> bool" where
  "engine_ok \<equiv> engine_holds tree_index"

abbreviation call_fits :: "storage_engine \<Rightarrow> engine_call \<Rightarrow> bool" where
  "call_fits \<equiv> call_within tree_room"

lemma engine_ok_def: "engine_ok e es \<longleftrightarrow> index (se_btree e) (se_pool e) es \<and> txn_reach (se_txn_manager e, se_wal e)"
  by (simp add: engine_holds_def tree_index_def)

end
