(* ===== verification/Recovery.thy ===== *)
theory Recovery
  imports Engine
begin

text \<open>
  Opening a database and crash recovery. \<open>reopened\<close> describes the engine that \<open>engine_open\<close>
  builds from the files of an engine whose pool was flushed, just before recovery runs;
  \<open>overlay_view\<close> is what one redo or undo action does to the pages. Overlays of one plan absorb
  each other, which makes recovery restartable.
\<close>

section \<open>Opening\<close>

lemma wal_open_fresh:
  obtains w where "wal_open path [] = Inr w" "txn_reach (tm_new, w)" "wm_next_lsn w = 1" "wm_file w = []"
    "wm_write_buffer w = []" "wal_holds w [] []"
proof -
  have ok: "log_ok [] 0" by (simp add: log_ok_def)
  from wal_open_ok [OF ok, of path] obtain w where w: "wal_open path [] = Inr w" "wal_holds w [] []" by auto
  from w(1) have "wm_next_lsn w = 1" "wm_file w = []" "wm_write_buffer w = []" by (auto simp: wal_open_def max_lsn_def Let_def)
  with that w txn_reach.start [OF wal_reach.create [OF w(1)]] show thesis by blast
qed

lemma recover_nothing:
  assumes "wal_recover (se_wal e) = Inr acts" and "ra_redo acts = []" and "ra_undo acts = []"
  shows "engine_recover e = (Inr (), e)"
  using assms by (simp add: engine_recover_def recover_steps_def runS_def)

lemma open_ran:
  assumes "engine_open p d w = Inr e"
  obtains e0 where "engine_load p d w = Inr e0" "engine_recover e0 = (Inr (), e)"
proof -
  from assms obtain e0 where e0: "engine_load p d w = Inr e0"
    "(case engine_recover e0 of (Inl x, _) \<Rightarrow> Inl x | (Inr _, e') \<Rightarrow> Inr e') = Inr e"
    by (auto simp: engine_open_def bindE_eq_Inr)
  moreover obtain r e1 where "engine_recover e0 = (r, e1)" by (metis surj_pair)
  ultimately show thesis using that by (cases r) auto
qed

lemma recover_empty_log: "wm_file w = [] \<Longrightarrow> \<exists>acts. wal_recover w = Inr acts \<and> ra_redo acts = [] \<and> ra_undo acts = []"
  by (simp add: wal_recover_def read_all_records_def read_records.simps recover_records_def)

lemma pool_capacity_pos: "0 < DEFAULT_POOL_CAPACITY"
  by (simp add: DEFAULT_POOL_CAPACITY_def)

lemma new_pool_quiet:
  assumes "dm_inv d"
  shows "pool_quiet (bp_new d DEFAULT_POOL_CAPACITY)" "bp_view (bp_new d DEFAULT_POOL_CAPACITY) = dm_pages d"
    "bp_count (bp_new d DEFAULT_POOL_CAPACITY) = dm_num_pages d"
  using bp_new_ok [OF assms pool_capacity_pos] by (simp_all add: pool_quiet_def bp_count_def)

lemma open_fresh:
  obtains e where "engine_open p [] [] = Inr e" "engine_ok e []" "se_txn_manager e = tm_new"
    "wm_next_lsn (se_wal e) = 1" "root_page_id (se_btree e) = 0" "wm_file (se_wal e) = []" "wm_write_buffer (se_wal e) = []"
    "wal_holds (se_wal e) [] []" "engine_holds linked_index e []" "bp_count (se_pool e) = 1"
    "bt_create (bp_new (dm_open (p @ ''/data.db'') []) DEFAULT_POOL_CAPACITY) = (Inr (se_btree e), se_pool e)"
proof (rule wal_open_fresh [of "p @ ''/wal.log''"])
  let ?d = "dm_open (p @ ''/data.db'') []"
  let ?bp = "bp_new ?d DEFAULT_POOL_CAPACITY"
  fix w assume w: "wal_open (p @ ''/wal.log'') [] = Inr w" "txn_reach (tm_new, w)" "wm_next_lsn w = 1" "wm_file w = []"
    "wm_write_buffer w = []" "wal_holds w [] []"
  note new = new_pool_quiet [OF dm_inv_open_empty(1), of "p @ ''/data.db''"]
  have c: "bp_count ?bp = 0" using new(3) by simp
  then have n: "bp_count ?bp \<noteq> 0xFFFFFFFF" by simp
  show thesis
  proof (rule bt_create_ok [OF new(1) n])
    fix bp assume b: "bt_create ?bp = (Inr \<lparr>root_page_id = bp_count ?bp\<rparr>, bp)" "index \<lparr>root_page_id = bp_count ?bp\<rparr> bp []"
      "linked_index (\<lparr>root_page_id = bp_count ?bp\<rparr>, bp) []" "bp_count bp = bp_count ?bp + 1"
    let ?e = "\<lparr>se_btree = \<lparr>root_page_id = 0\<rparr>, se_pool = bp, se_wal = w, se_txn_manager = tm_new, se_db_path = p\<rparr>"
    have "engine_recover ?e = (Inr (), ?e)" using recover_empty_log [OF w(4)] recover_nothing [of ?e] by auto
    with b(1) w(1) c have "engine_open p [] [] = Inr ?e" by (simp add: engine_open_def engine_load_def Let_def)
    moreover have "engine_ok ?e []" "engine_holds linked_index ?e []" using b(2,3) c w(2) by (simp_all add: engine_holds_def tree_index_def)
    ultimately show thesis using that [of ?e] w(3-6) b(1,4) c by simp
  qed
qed

text \<open>A database file that was written by the pool is opened with the same pages.\<close>

lemma dm_reopen:
  assumes "dm_inv d"
  shows "dm_inv (dm_open p (dm_file d))" "dm_pages (dm_open p (dm_file d)) = dm_pages d"
    "dm_num_pages (dm_open p (dm_file d)) = dm_num_pages d"
proof -
  let ?n = "dm_num_pages d"
  have len: "length (dm_file d) = unat ?n * 4096" using assms by (simp add: dm_inv_def)
  have "length (dm_file d) div 4096 = unat ?n" using len by simp
  then show num: "dm_num_pages (dm_open p (dm_file d)) = ?n"
    using len by (cases "dm_file d = []") (auto simp: dm_open_def Let_def unat_eq_zero)
  then show "dm_inv (dm_open p (dm_file d))" using len by (simp add: dm_inv_def) (simp add: dm_open_def)
  show "dm_pages (dm_open p (dm_file d)) = dm_pages d" by (rule ext) (simp add: dm_pages_def dm_open_def)
qed

lemma wal_reopen:
  assumes "wal_reach w"
  obtains w' where "wal_open path (wm_file w) = Inr w'" "txn_reach (tm_new, w')" "wm_file w' = wm_file w"
proof -
  obtain ds ps where h: "wal_holds w ds ps" using wal_reach_holds [OF assms] by blast
  then have ok: "log_ok ds (wm_next_lsn w)" and f: "wm_file w = log_bytes ds" using log_ok_mono by (auto simp: wal_holds_def)
  show thesis
  proof (rule wal_open_ok [OF ok, of path])
    fix w' assume w': "wal_open path (log_bytes ds) = Inr w'" "wal_holds w' ds []"
    then have "wal_open path (wm_file w) = Inr w'" by (simp add: f)
    moreover have "wm_file w' = wm_file w" using w'(2) f by (simp add: wal_holds_def)
    ultimately show thesis using that txn_reach.start [OF wal_reach.reopen [OF assms]] by blast
  qed
qed

text \<open>Opening the files of an engine whose pool was flushed, up to recovery.\<close>

definition reopened :: "string \<Rightarrow> storage_engine \<Rightarrow> storage_engine \<Rightarrow> bool" where
  "reopened p e e1 \<longleftrightarrow> pool_quiet (se_pool e1) \<and> bp_view (se_pool e1) = bp_view (se_pool e)
     \<and> bp_count (se_pool e1) = bp_count (se_pool e)
     \<and> se_btree e1 = bt_open 0 \<and> se_txn_manager e1 = tm_new \<and> txn_reach (tm_new, se_wal e1)
     \<and> wm_file (se_wal e1) = wm_file (se_wal e) \<and> wal_open (p @ ''/wal.log'') (wm_file (se_wal e)) = Inr (se_wal e1)
     \<and> engine_open p (dm_file (bp_disk (se_pool e))) (wm_file (se_wal e))
         = (case engine_recover e1 of (Inl x, _) \<Rightarrow> Inl x | (Inr _, e2) \<Rightarrow> Inr e2)"

lemma reopen_ok:
  assumes ok: "engine_ok e es" and durable: "dm_pages (bp_disk (se_pool e)) = bp_view (se_pool e)"
  shows "\<exists>e1. reopened p e e1"
proof -
  let ?d = "bp_disk (se_pool e)"
  let ?d1 = "dm_open (p @ ''/data.db'') (dm_file ?d)"
  let ?bp = "bp_new ?d1 DEFAULT_POOL_CAPACITY"
  from ok obtain t where t: "tree_ok (se_pool e) t" by (auto simp: engine_ok_def index_def)
  then have "dm_inv ?d" by (simp add: tree_ok_def pool_quiet_def pool_inv_def)
  note d = dm_reopen [OF this, of "p @ ''/data.db''"]
  have root: "bp_view (se_pool e) (root_id t) \<noteq> None" using t rep_root by (fastforce simp: tree_ok_def)
  then have "root_id t < bp_count (se_pool e)" using t pool.view_dom by (simp add: tree_ok_def)
  then have "bp_count (se_pool e) \<noteq> 0" by auto
  then have n: "dm_num_pages ?d1 \<noteq> 0" using d(3) by (simp add: bp_count_def)
  note new = new_pool_quiet [OF d(1)]
  have "wal_reach (se_wal e)" using txn_reach_inv [OF tree_engine.engine_holdsD(2) [OF ok]] by simp
  then obtain w' where w': "wal_open (p @ ''/wal.log'') (wm_file (se_wal e)) = Inr w'" "txn_reach (tm_new, w')"
    "wm_file w' = wm_file (se_wal e)" by (rule wal_reopen)
  let ?e1 = "\<lparr>se_btree = bt_open 0, se_pool = ?bp, se_wal = w', se_txn_manager = tm_new, se_db_path = p\<rparr>"
  have "reopened p e ?e1"
    using new d durable w' n by (simp add: reopened_def bp_count_def engine_open_def engine_load_def Let_def)
  then show ?thesis by blast
qed

text \<open>When recovery finds nothing to do, this engine is the result.\<close>

lemma reopen_clean:
  assumes "engine_ok e es" and "dm_pages (bp_disk (se_pool e)) = bp_view (se_pool e)"
    and "wal_recover (se_wal e) = Inr acts" and "ra_redo acts = []" and "ra_undo acts = []"
  obtains e1 where "reopened p e e1" "engine_open p (dm_file (bp_disk (se_pool e))) (wm_file (se_wal e)) = Inr e1"
proof -
  from reopen_ok [OF assms(1,2), of p] obtain e1 where e1: "reopened p e e1" ..
  then have "wal_recover (se_wal e1) = Inr acts" using assms(3) by (simp add: reopened_def wal_recover_def)
  from recover_nothing [OF this assms(4,5)] e1 that show thesis by (simp add: reopened_def)
qed

lemma reopened_engine_ok:
  assumes "reopened p e e1" and "engine_ok e es" and "root_page_id (se_btree e) = 0"
  shows "engine_ok e1 es"
proof -
  from assms(2) obtain t where t: "tree_ok (se_pool e) t" "root_id t = root_page_id (se_btree e)" "entries t = es"
    by (auto simp: engine_ok_def index_def)
  have "tree_ok (se_pool e1) t" by (rule tree_ok_same [OF t(1)]) (use assms(1) in \<open>simp_all add: reopened_def\<close>)
  moreover have "root_id t = root_page_id (se_btree e1)" using t(2) assms(1,3) by (simp add: reopened_def bt_open_def)
  ultimately show ?thesis using t(3) assms(1) by (auto simp: engine_ok_def index_def reopened_def)
qed

section \<open>Recovery\<close>

definition overlay_view :: "u32 \<Rightarrow> u32 \<times> bytes \<Rightarrow> (page_id \<rightharpoonup> bytes) \<Rightarrow> page_id \<rightharpoonup> bytes" where
  "overlay_view n a v = (if fst a < n then v(fst a := map_option (\<lambda>b. wr b 0 (take PAGE_SIZE (snd a))) (v (fst a))) else v)"

lemma overlay_page: "page_wf p \<Longrightarrow> page_wf (overlay img p) \<and> pg_id (overlay img p) = pg_id p"
  by (simp add: overlay_def page_wf_def Let_def)

lemma overlay_data: "pg_data (overlay img p) = wr (pg_data p) 0 (take PAGE_SIZE img)"
  by (cases "length img \<le> PAGE_SIZE") (simp_all add: overlay_def min_def Let_def)

lemma apply_image_ok:
  assumes q: "pool_quiet bp" and n: "n = bp_count bp"
  shows "\<exists>bp'. apply_image n a bp = (Inr (), bp') \<and> pool_quiet bp' \<and> bp_count bp' = bp_count bp
    \<and> bp_view bp' = overlay_view n a (bp_view bp) \<and> bp_capacity bp' = bp_capacity bp"
proof (cases "fst a < n")
  case True
  then obtain b where b: "bp_view bp (fst a) = Some b" using pool.view_dom [OF q, of "fst a"] n by auto
  from pool_update_ok [where f = "overlay (snd a)", OF q b overlay_page] obtain p bp' where
    "bindS (bp_fetch_page_mut (fst a)) (\<lambda>page. bindS (bp_update_page page (overlay (snd a)))
      (\<lambda>_. bp_unpin_page (fst a) True)) bp = (Inr (), bp')" "pool_quiet bp'" "bp_count bp' = bp_count bp"
    "pg_data p = b" "bp_view bp' = (bp_view bp)(fst a \<mapsto> pg_data (overlay (snd a) p))" "bp_capacity bp' = bp_capacity bp" by blast
  with True b show ?thesis by (auto simp: apply_image_def overlay_view_def overlay_data case_prod_beta)
next
  case False
  with q show ?thesis by (simp add: apply_image_def overlay_view_def case_prod_beta)
qed

lemma apply_images_ok:
  assumes "pool_quiet bp" and "n = bp_count bp"
  shows "\<exists>bp'. foldS (apply_image n) as bp = (Inr (), bp') \<and> pool_quiet bp' \<and> bp_count bp' = bp_count bp
    \<and> bp_view bp' = fold (overlay_view n) as (bp_view bp) \<and> bp_capacity bp' = bp_capacity bp"
  using assms
proof (induction as arbitrary: bp)
  case (Cons a as)
  from apply_image_ok [OF Cons.prems, of a] obtain bp1 where
    1: "apply_image n a bp = (Inr (), bp1)" "pool_quiet bp1" "bp_count bp1 = bp_count bp"
      "bp_view bp1 = overlay_view n a (bp_view bp)" "bp_capacity bp1 = bp_capacity bp" by blast
  have n1: "n = bp_count bp1" using 1(3) Cons.prems(2) by simp
  from Cons.IH [OF 1(2) n1] obtain bp' where
    "foldS (apply_image n) as bp1 = (Inr (), bp')" "pool_quiet bp'" "bp_count bp' = bp_count bp1"
    "bp_view bp' = fold (overlay_view n) as (bp_view bp1)" "bp_capacity bp' = bp_capacity bp1" by blast
  with 1 show ?case by (simp add: bindS_def)
qed simp

text \<open>The steps of recovery one after the other.\<close>

lemma on_pool_fold: "foldS (\<lambda>a. on_pool (f a)) xs = on_pool (foldS f xs)"
  by (induction xs) (auto simp: on_pool_def bindS_def fun_eq_iff split: prod.splits sum.splits)

lemma on_pool_run: "runS (map on_pool ms) = on_pool (runS ms)"
  unfolding runS_map by (simp add: runS_def on_pool_fold)

lemma recover_run:
  assumes "wal_recover (se_wal e) = Inr acts" and "ra_redo acts \<noteq> [] \<or> ra_undo acts \<noteq> []"
  shows "engine_recover e = bindS (on_pool (foldS (apply_image (bp_count (se_pool e))) (ra_redo acts))) (\<lambda>_.
    bindS (on_pool (foldS (apply_image (bp_count (se_pool e))) (ra_undo acts))) (\<lambda>_.
    bindS (on_pool (runS (flush_steps (se_pool e)))) (\<lambda>_. on_wal wal_truncate))) e"
  using assms by (auto simp: engine_recover_def recover_steps_def bp_count_def Let_def runS_append runS_map on_pool_fold
      runS_def [of "flush_steps _"])

text \<open>
  What recovery does to the pages: the redo images, then the undo images, each over the start of its
  page; afterwards the pages are on disk and the log is empty.
\<close>

lemma recover_ok:
  assumes q: "pool_quiet (se_pool e)" and acts: "wal_recover (se_wal e) = Inr acts"
    and some: "ra_redo acts \<noteq> [] \<or> ra_undo acts \<noteq> []"
  shows "\<exists>e'. engine_recover e = (Inr (), e') \<and> pool_quiet (se_pool e')
    \<and> bp_view (se_pool e') = fold (overlay_view (bp_count (se_pool e))) (ra_redo acts @ ra_undo acts) (bp_view (se_pool e))
    \<and> dm_pages (bp_disk (se_pool e')) = bp_view (se_pool e') \<and> wm_file (se_wal e') = []
    \<and> se_btree e' = se_btree e \<and> se_txn_manager e' = se_txn_manager e \<and> bp_count (se_pool e') = bp_count (se_pool e)"
proof -
  let ?n = "bp_count (se_pool e)"
  from apply_images_ok [OF q refl, of "ra_redo acts"] obtain bp1 where
    1: "foldS (apply_image ?n) (ra_redo acts) (se_pool e) = (Inr (), bp1)" "pool_quiet bp1" "bp_count bp1 = ?n"
      "bp_view bp1 = fold (overlay_view ?n) (ra_redo acts) (bp_view (se_pool e))" "bp_capacity bp1 = bp_capacity (se_pool e)" by blast
  from apply_images_ok [OF 1(2) 1(3) [symmetric], of "ra_undo acts"] obtain bp2 where
    2: "foldS (apply_image ?n) (ra_undo acts) bp1 = (Inr (), bp2)" "pool_quiet bp2"
      "bp_view bp2 = fold (overlay_view ?n) (ra_undo acts) (bp_view bp1)" "bp_capacity bp2 = bp_capacity bp1" "bp_count bp2 = bp_count bp1" by blast
  show ?thesis
  proof (rule flush_quiet [OF 2(2)])
    fix bp3 assume "bp_flush_all bp2 = (Inr (), bp3)" "pool_quiet bp3" "bp_view bp3 = bp_view bp2"
      "dm_pages (bp_disk bp3) = bp_view bp2" "bp_count bp3 = bp_count bp2"
    moreover have "flush_steps (se_pool e) = flush_steps bp2" using 1(5) 2(4) by (simp add: flush_steps_def)
    ultimately show ?thesis using 1 2
      by (auto simp: recover_run [OF acts some] bp_flush_all_def bindS_def on_pool_def on_wal_def wal_truncate_def)
  qed
qed

text \<open>
  Overlays absorb earlier ones of the same list, so that recovery can be started again after it was
  interrupted between two actions.
\<close>

definition views_pages :: "(page_id \<rightharpoonup> bytes) \<Rightarrow> bool" where
  "views_pages v \<longleftrightarrow> (\<forall>p b. v p = Some b \<longrightarrow> length b = PAGE_SIZE)"

lemma views_overlay: "views_pages v \<Longrightarrow> views_pages (overlay_view n a v)"
  by (auto simp: views_pages_def overlay_view_def)

lemma wr_absorb:
  assumes "length xs \<le> length ys" and "length ys \<le> length b"
  shows "wr (wr b 0 xs) 0 ys = wr b 0 ys"
  using assms by (simp add: wr_def)

lemma overlay_absorb:
  assumes "views_pages v" and "fst a = fst x" and "length (take PAGE_SIZE (snd a)) \<le> length (take PAGE_SIZE (snd x))"
  shows "overlay_view n x (overlay_view n a v) = overlay_view n x v"
proof (cases "v (fst x)")
  case (Some b)
  then have "length b = PAGE_SIZE" using assms(1) by (auto simp: views_pages_def)
  with Some assms(2) wr_absorb [OF assms(3), of b] show ?thesis by (simp add: overlay_view_def)
qed (simp add: overlay_view_def assms(2))

lemma overlay_commute:
  "fst a \<noteq> fst x \<Longrightarrow> overlay_view n x (overlay_view n a v) = overlay_view n a (overlay_view n x v)"
  by (auto simp: overlay_view_def fun_upd_twist)

lemma overlay_again:
  assumes "a \<in> set s" and "views_pages v"
  shows "fold (overlay_view n) s (overlay_view n a v) = fold (overlay_view n) s v"
  using assms
proof (induction s arbitrary: v)
  case (Cons x s)
  let ?ov = "overlay_view n" and ?len = "\<lambda>a :: u32 \<times> bytes. length (take PAGE_SIZE (snd a))"
  note v = Cons.prems(2)
  consider (later) "fst a \<noteq> fst x" "a \<in> set s" | (covered) "fst a = fst x" "?len a \<le> ?len x"
    | (longer) "fst a = fst x" "?len x \<le> ?len a" "a \<in> set s"
    using Cons.prems(1) by fastforce
  then show ?case
  proof cases
    case later
    then show ?thesis using Cons.IH [OF later(2) views_overlay [OF v, of n x]] by (simp add: overlay_commute)
  next
    case covered
    then show ?thesis using overlay_absorb [OF v] by simp
  next
    case longer
    have absorb: "?ov a (?ov x u) = ?ov a u" if "views_pages u" for u
      using overlay_absorb [OF that, of x a n] longer(1,2) by simp
    have again: "fold ?ov s (?ov x u) = fold ?ov s (?ov a u)" if "views_pages u" for u
      using Cons.IH [OF longer(3) views_overlay [OF that, of n x]] absorb [OF that] by simp
    have "?ov a (?ov a v) = ?ov a v" using overlay_absorb [OF v, of a a n] by simp
    then show ?thesis using again [OF v] again [OF views_overlay [OF v, of n a]] by simp
  qed
qed simp

lemma overlays_local: "v p = u p \<Longrightarrow> fold (overlay_view n) s v p = fold (overlay_view n) s u p"
proof (induction s arbitrary: v u)
  case (Cons a s)
  have "overlay_view n a v p = overlay_view n a u p" using Cons.prems by (auto simp: overlay_view_def)
  then show ?case unfolding fold_simps by (rule Cons.IH)
qed simp

lemma overlays_again:
  assumes "set t \<subseteq> set s" and "views_pages v"
  shows "fold (overlay_view n) s (fold (overlay_view n) t v) = fold (overlay_view n) s v"
  using assms
proof (induction t arbitrary: v)
  case (Cons a t)
  then show ?case using overlay_again [of a s v n] views_overlay by simp
qed simp

end
