(* ===== verification/Orphan.thy ===== *)
theory Orphan
  imports Insert
begin

text \<open>
  What goes wrong when an internal node is split and the new child goes into its left half:
  \<open>split_internal\<close> sets the parent pointers of the right half only, and the new child, whose pointer
  was never set, stays without a parent. When such a child is split later, \<open>insert_into_parent\<close> takes
  it for the root of the tree and makes a new root over its two halves alone.
\<close>

section \<open>Splitting a leaf without a parent\<close>

lemma orphan_split_run:
  assumes q: "pool_quiet bp" and nd: "bp_view bp i = Some (pg_data nd)" "pg_id nd = i"
    and at: "leaf_at (bp_view bp) i es sib INVALID_PAGE_ID" and sm: "\<forall>e \<in> set es. length (fst e) + length (snd e) \<le> SMALL"
    and new: "map_of es key = None" "length key + length val \<le> SMALL"
      "\<not> leaf_size es + 12 + length key + length val \<le> LEAF_CAPACITY" and n: "unat (bp_count bp) + 2 < 2 ^ 32"
    and es': "es' = kv_insert key val es" and m: "m = length es' div 2"
    and t': "t' = BNode (bp_count bp + 1) (More (BLeaf i (take m es')) (fst (es' ! m)) (Only (BLeaf (bp_count bp) (drop m es'))))"
  obtains tr' bp' where "split_and_insert_leaf (Suc f) nd key val (tr, bp) = (Inr (), (tr', bp'))" "pool_quiet bp'"
    "rep (bp_view bp') t'" "ord None None t'" "root_id t' = root_page_id tr'" "bp_count bp < bp_count bp'"
proof -
  let ?n = "bp_count bp"
  note leaf = leaf_at_node [OF at nd(1)]
  have srt: "sorted_kv es" "leaf_size es \<le> LEAF_CAPACITY" using leaf(1,2) by (auto simp: leaf_wf_def)
  note sz = leaf_split_sizes [OF srt sm new es' m]
  have n0: "?n \<noteq> 0xFFFFFFFF" using n by auto
  have i: "i < ?n" using pool.view_dom [OF q, of i] nd(1) by simp
  show thesis
  proof (rule leaf_split_run [OF q nd leaf(1-4) new(1) es' m sz(2,4,5) n0, of "Suc f" tr])
    let ?s = "fst (es' ! m)"
    fix bp1 assume 1: "split_and_insert_leaf (Suc f) nd key val (tr, bp) = insert_into_parent (Suc f) i ?s ?n INVALID_PAGE_ID (tr, bp1)"
      "pool_quiet bp1" "bp_count bp1 = ?n + 1" "leaf_at (bp_view bp1) i (take m es') ?n INVALID_PAGE_ID"
      "leaf_at (bp_view bp1) ?n (drop m es') sib INVALID_PAGE_ID"
    have n1: "bp_count bp1 \<noteq> 0xFFFFFFFF" "unat (bp_count bp1) = unat ?n + 1" using 1(3) unat_succ [OF n0] n by auto
    have "length ?s \<le> SMALL" using bspec [OF sz(1) nth_mem [OF sz(3)]] by simp
    then have sl: "8 + length ?s \<le> INTERNAL_CAPACITY" by simp
    have ne: "i \<noteq> ?n" using i by auto
    show thesis
    proof (rule split_root_run [OF 1(2) n1(1) sl leaf_at_dom [OF 1(4)] leaf_at_dom [OF 1(5)] ne, of f tr])
      fix bp2 v1 assume 2: "insert_into_parent (Suc f) i ?s ?n INVALID_PAGE_ID (tr, bp1) = (Inr (), (tr\<lparr>root_page_id := bp_count bp1\<rparr>, bp2))"
        "pool_quiet bp2" "bp_count bp2 = bp_count bp1 + 1" "bp_view bp2 = reparented (bp_count bp1) {i, ?n} v1"
        "int_at v1 (bp_count bp1) i [(?s, ?n)] INVALID_PAGE_ID" "\<And>x. x \<noteq> bp_count bp1 \<Longrightarrow> v1 x = bp_view bp1 x"
      have t: "t' = BNode (bp_count bp1) (More (BLeaf i (take m es')) ?s (Only (BLeaf ?n (drop m es'))))" using t' 1(3) by simp
      have "unat i < unat ?n" using i by (simp add: word_less_nat_alt)
      then have other: "i \<noteq> bp_count bp1" "?n \<noteq> bp_count bp1" using n1(2) by (metis less_irrefl not_add_less1 trans_less_add1, metis Suc_eq_plus1 n_not_Suc_n)
      have "leaf_at v1 i (take m es') ?n INVALID_PAGE_ID" "leaf_at v1 ?n (drop m es') sib INVALID_PAGE_ID"
        using 1(4,5) 2(6) other by (simp_all add: leaf_at_def)
      with 2(5) have "rep v1 t'" unfolding t by auto
      then have "rep (bp_view bp2) t'" unfolding 2(4) by (rule rep_reparented)
      moreover have "sorted_kv es'" unfolding es' by (rule sorted_kv_insert [OF srt(1)])
      from ords_leaf_split [OF this _ sz(2,3), of None None i ?n] have "ord None None t'" unfolding t by simp
      moreover have "bp_count bp < bp_count bp2" using unat_succ [OF n1(1)] n1(2) 2(3) by (simp add: word_less_nat_alt)
      ultimately show thesis using that [of "tr\<lparr>root_page_id := bp_count bp1\<rparr>" bp2] 1(1) 2(1,2) t by simp
    qed
  qed
qed

section \<open>A tree with two leaves\<close>

lemma leaf_node:
  assumes "sorted_kv es" and "leaf_size es \<le> LEAF_CAPACITY"
  obtains nd where "leaf_wf nd" "leaf_abs nd = es" "pg_id nd = i" "get_right_sibling nd = sib" "get_parent nd = par"
proof -
  let ?nd = "set_right_sibling sib (set_parent par (new_leaf i))"
  have w: "leaf_wf ?nd" "leaf_abs ?nd = []" "get_right_sibling ?nd = sib" "get_parent ?nd = par" "pg_id ?nd = i"
    using leaf_set_parent [of "new_leaf i" par] leaf_set_sibling [of "set_parent par (new_leaf i)" sib]
      new_leaf_ok [of i] page_wf_leaf [of "new_leaf i"] by (simp_all add: node_hdr_def)
  show thesis by (rule leaf_refill_new [OF assms w(1,2)]) (use that w in \<open>simp add: node_hdr_def\<close>)
qed

lemma one_page_pool:
  obtains bp where "pool_quiet bp" "bp_count bp = 1"
proof (rule sample_tree [of 0])
  fix bp t assume "tree_ok bp t" "bp_count bp = 1"
  with that show thesis by (auto simp: tree_ok_def)
qed simp

lemma two_leaf_tree:
  assumes es: "sorted_kv es1" "leaf_size es1 \<le> LEAF_CAPACITY" "sorted_kv es2" "leaf_size es2 \<le> LEAF_CAPACITY"
    and s: "8 + length s \<le> INTERNAL_CAPACITY" "\<forall>e \<in> set es1. fst e < s" "\<forall>e \<in> set es2. s \<le> fst e"
  obtains tr :: bplus_tree and bp where "tree_ok bp (BNode 2 (More (BLeaf 0 es1) s (Only (BLeaf 1 es2))))" "root_page_id tr = 2"
    "bp_count bp = 3" "parent_at (bp_view bp) 0 = Some INVALID_PAGE_ID"
proof (rule one_page_pool)
  fix bp assume q: "pool_quiet bp" "bp_count bp = 1"
  obtain a where a: "leaf_wf a" "leaf_abs a = es1" "pg_id a = 0" "get_right_sibling a = 1" "get_parent a = 0" by (rule leaf_node [OF es(1,2)])
  obtain b where b: "leaf_wf b" "leaf_abs b = es2" "pg_id b = 1" "get_right_sibling b = INVALID_PAGE_ID" "get_parent b = 0" by (rule leaf_node [OF es(3,4)])
  have "bp_count bp \<noteq> 0xFFFFFFFF" "0 < bp_count bp" "pg_id b = bp_count bp" using q(2) b(3) by simp_all
  then show thesis
  proof (rule write_two [OF q(1) _ page_wf_leaf [OF a(1)] page_wf_leaf [OF b(1)] a(3)])
    fix bp1 bp2 bp3 assume w: "pool_quiet bp3" "bp_count bp3 = bp_count bp + 1"
      "bp_view bp3 = (bp_view bp)(bp_count bp \<mapsto> pg_data (page_new (bp_count bp)), 0 \<mapsto> pg_data (update_checksum a),
         bp_count bp \<mapsto> pg_data (update_checksum b))"
    have l1: "leaf_at (bp_view bp3) 1 es2 INVALID_PAGE_ID 0"
      unfolding w(3) q(2) using leaf_at_written [OF b(1)] b(2-5) by metis
    have l0: "leaf_at (bp_view bp3) 0 es1 1 0"
      unfolding w(3) q(2) using leaf_at_written [OF a(1)] a(2-5) by (metis leaf_at_other zero_neq_one)
    have c3: "bp_count bp3 = 2" "bp_count bp3 \<noteq> 0xFFFFFFFF" using w(2) q(2) by simp_all
    have ne: "(0 :: page_id) \<noteq> 1" by simp
    show thesis
    proof (rule split_root_run [OF w(1) c3(2) s(1) leaf_at_dom [OF l0] leaf_at_dom [OF l1] ne, of 0 "\<lparr>root_page_id = 0\<rparr>"])
      fix bp4 v1 assume r: "pool_quiet bp4" "bp_count bp4 = bp_count bp3 + 1" "bp_view bp4 = reparented (bp_count bp3) {0, 1} v1"
        "int_at v1 (bp_count bp3) 0 [(s, 1)] INVALID_PAGE_ID" "\<And>x. x \<noteq> bp_count bp3 \<Longrightarrow> v1 x = bp_view bp3 x"
      let ?t = "BNode 2 (More (BLeaf 0 es1) s (Only (BLeaf 1 es2)))"
      have v1: "leaf_at v1 0 es1 1 0" "leaf_at v1 1 es2 INVALID_PAGE_ID 0" using l0 l1 r(5) c3(1) by (simp_all add: leaf_at_def)
      then have t1: "rep v1 ?t" "chained v1 (leaves ?t)" using r(4) c3(1) by (auto simp: next_id_def)
      have "bp_view bp4 0 \<noteq> None" using v1(1) r(3) by (auto simp: reparented_dom leaf_at_def)
      then show thesis
      proof (rule set_parent_run [OF r(1), of 0 INVALID_PAGE_ID])
        fix bp5 assume p: "pool_quiet bp5" "bp_count bp5 = bp_count bp4" "bp_view bp5 = reparented INVALID_PAGE_ID {0} (bp_view bp4)"
        have "tree_ok bp5 ?t" unfolding tree_ok_def p(3) r(3)
          using p(1) t1 es s by (auto simp: chained_reparented rep_reparented simp del: rep.simps leaves.simps)
        moreover have "parent_at (bp_view bp5) 0 = Some INVALID_PAGE_ID"
          using parent_at_leaf [OF leaf_at_reparented [OF leaf_at_reparented [OF v1(1)]]] p(3) r(3) by fastforce
        ultimately show thesis using that [of bp5 "\<lparr>root_page_id = 2\<rparr>"] p(2) r(2) c3(1) by simp
      qed
    qed
  qed
qed

section \<open>A full internal node\<close>

lemma alloc_many:
  assumes "pool_quiet bp" and "unat (bp_count bp) + n < 2 ^ 32"
  obtains bp' where "pool_quiet bp'" "unat (bp_count bp') = unat (bp_count bp) + n"
  using assms
proof (induction n arbitrary: thesis)
  case (Suc n)
  show ?case
  proof (rule Suc.IH)
    fix bp1 assume 1: "pool_quiet bp1" "unat (bp_count bp1) = unat (bp_count bp) + n"
    have "bp_count bp1 \<noteq> 0xFFFFFFFF" using 1(2) Suc.prems(3) by auto
    from pool.alloc_ok [OF 1(1) this] unat_succ [OF this] 1(2) Suc.prems(1) show ?thesis by auto
  qed (use Suc.prems in simp_all)
qed simp

definition wide :: "nat \<Rightarrow> key" where
  "wide i = of_nat i # replicate 1299 0"

lemma wide_less: "i < j \<Longrightarrow> j < 256 \<Longrightarrow> wide i < wide j"
  by (simp add: wide_def word_less_nat_alt unat_of_nat)

lemma wide_length [simp]: "length (wide i) = 1300"
  by (simp add: wide_def)

lemma full_node:
  obtains bp where "pool_quiet bp" "bp_count bp = 6" "int_at (bp_view bp) 0 1 [(wide 1, 2), (wide 2, 3), (wide 3, 4)] INVALID_PAGE_ID"
    "parent_at (bp_view bp) 5 = Some INVALID_PAGE_ID"
proof (rule one_page_pool)
  let ?rs = "[(wide 1, 2), (wide 2, 3), (wide 3, 4)] :: (key \<times> page_id) list"
  fix bp assume q: "pool_quiet bp" "bp_count bp = 1"
  have srt: "sorted_kv ?rs" "int_size ?rs \<le> INTERNAL_CAPACITY" using wide_less by auto
  show thesis
  proof (rule alloc_many [OF q(1), of 5])
    show "unat (bp_count bp) + 5 < 2 ^ 32" using q(2) by simp
    fix bp1 assume 1: "pool_quiet bp1" "unat (bp_count bp1) = unat (bp_count bp) + 5"
    have c1: "bp_count bp1 = 6" using 1(2) q(2) by (simp add: word_unat_eq_iff)
    obtain nd where nd: "int_wf nd" "int_abs nd = ?rs" "get_leftmost_child nd = 1" "get_parent nd = INVALID_PAGE_ID" "pg_id nd = 0"
      by (rule int_fresh [OF srt, of 1 0 1]) blast
    have "bp_view bp1 (pg_id nd) \<noteq> None" using pool.view_dom [OF 1(1), of 0] nd(5) c1 by simp
    then show thesis
    proof (rule pool.wr_node_obtain [OF 1(1) page_wf_int [OF nd(1)]])
      fix bp2 assume w: "pool_quiet bp2" "bp_count bp2 = bp_count bp1" "bp_view bp2 = (bp_view bp1)(pg_id nd \<mapsto> pg_data (update_checksum nd))"
      have at: "int_at (bp_view bp2) 0 1 ?rs INVALID_PAGE_ID" unfolding w(3) using int_at_written [OF nd(1)] nd(2-5) by metis
      have lf: "leaf_wf (new_leaf 5)" "pg_id (new_leaf 5) = 5" using new_leaf_ok [of 5] by (simp_all add: node_hdr_def)
      have "bp_view bp2 (pg_id (new_leaf 5)) \<noteq> None" using pool.view_dom [OF w(1), of 5] w(2) c1 lf(2) by simp
      then show thesis
      proof (rule pool.wr_node_obtain [OF w(1) page_wf_leaf [OF lf(1)]])
        fix bp3 assume x: "pool_quiet bp3" "bp_count bp3 = bp_count bp2"
          "bp_view bp3 = (bp_view bp2)(pg_id (new_leaf 5) \<mapsto> pg_data (update_checksum (new_leaf 5)))"
        have "parent_at (bp_view bp3) 5 = Some INVALID_PAGE_ID"
          unfolding x(3) using parent_at_leaf [OF leaf_at_written [OF lf(1)]] lf(2) new_leaf_ok(3) [of 5] by (simp add: node_hdr_def)
        moreover have "int_at (bp_view bp3) 0 1 ?rs INVALID_PAGE_ID" using at unfolding x(3) lf(2) by simp
        ultimately show thesis using that x(1,2) w(2) c1 by simp
      qed
    qed
  qed
qed

section \<open>Properties\<close>

text \<open>
  Splitting a full internal node whose new child goes into the left half leaves the new child's
  page as it is: it is a child of the node now, but its parent pointer is still the one of a
  page that was just made, that is, none.
\<close>

theorem split_internal_orphan:
  assumes "pool_quiet bp" and "int_at (bp_view bp) i lm rs par" and "i \<noteq> INVALID_PAGE_ID"
    and "map_of rs sep = None" and "\<not> int_size rs + 16 + length sep \<le> INTERNAL_CAPACITY"
    and "es = kv_insert sep c rs" and "m = length es div 2" and "(sep, c) \<in> set (take m es)"
    and "int_size (take m es) \<le> INTERNAL_CAPACITY" and "int_size (drop (Suc m) es) \<le> INTERNAL_CAPACITY"
    and "bp_count bp \<noteq> 0xFFFFFFFF" and "distinct (map snd es)" and "\<forall>x \<in> set (map snd es). bp_view bp x \<noteq> None \<and> x \<noteq> i"
    and "parent_at (bp_view bp) c = Some INVALID_PAGE_ID"
  shows "\<exists>bp'. insert_into_parent (Suc f) lc sep c i (tr, bp) = insert_into_parent f i (fst (es ! m)) (bp_count bp) par (tr, bp')
    \<and> c \<in> snd ` set (take m es) \<and> int_at (bp_view bp') i lm (take m es) par
    \<and> parent_at (bp_view bp') c = Some INVALID_PAGE_ID"
proof -
  let ?cs = "snd (es ! m) # map snd (drop (Suc m) es)"
  have m: "m < length es" using assms(6,7) by (auto simp: kv_insert_def)
  have drop: "drop m es = es ! m # drop (Suc m) es" using m by (simp add: Cons_nth_drop_Suc)
  have cs: "?cs = drop m (map snd es)" by (simp add: drop_map drop)
  then have d: "distinct ?cs" "set ?cs \<subseteq> set (map snd es)" using assms(12) by (simp_all only: distinct_drop set_drop_subset)
  have c: "c \<in> snd ` set (take m es)" using assms(8) by force
  have "set (take m (map snd es)) \<inter> set (drop m (map snd es)) = {}" using assms(12) by (simp add: set_take_disj_set_drop_if_distinct)
  with c cs have nc: "c \<notin> set ?cs" by (auto simp: take_map simp del: set_simps)
  have dom: "\<forall>x \<in> set ?cs. bp_view bp x \<noteq> None" using assms(13) d(2) by blast
  have ci: "c \<noteq> i" "c \<noteq> bp_count bp"
  proof -
    have mem: "c \<in> set (map snd es)" using c by (auto dest: in_set_takeD)
    then show "c \<noteq> i" using assms(13) by blast
    show "c \<noteq> bp_count bp" using mem assms(13) pool.view_dom [OF assms(1), of c] by auto
  qed
  have nth: "es ! m = (fst (es ! m), snd (es ! m))" by simp
  show ?thesis
  proof (rule split_internal_run [OF assms(1-7) nth refl refl assms(9-11) d(1) dom, of f lc tr])
    fix bp' v1 assume r: "insert_into_parent (Suc f) lc sep c i (tr, bp) = insert_into_parent f i (fst (es ! m)) (bp_count bp) par (tr, bp')"
      "bp_view bp' = reparented (bp_count bp) (set ?cs) v1" "int_at v1 i lm (take m es) par"
      "\<And>x. x \<noteq> i \<Longrightarrow> x \<noteq> bp_count bp \<Longrightarrow> v1 x = bp_view bp x"
    have "parent_at (bp_view bp') c = Some INVALID_PAGE_ID"
      unfolding r(2) parent_at_other [OF nc] using r(4) [OF ci] assms(14) by (simp add: parent_at_def)
    moreover have "i \<notin> set ?cs" using assms(13) d(2) by blast
    then have "int_at (bp_view bp') i lm (take m es) par"
      using int_at_reparented [OF r(3), of "bp_count bp" "set ?cs"] unfolding r(2) by simp
    ultimately show ?thesis using r(1) c by blast
  qed
qed

text \<open>
  C35. Splitting a leaf without a parent pointer that is not the root loses the rest of the tree: the
  insert reports success, and afterwards a search finds the entries of this leaf and the new
  entry and nothing else.
\<close>

theorem orphan_split_loses_tree:
  assumes "tree_ok bp t" and "root_id t = root_page_id tr" and "parent_at (bp_view bp) (fst (cover t key)) = Some INVALID_PAGE_ID"
    and "\<forall>e \<in> set (snd (cover t key)). length (fst e) + length (snd e) \<le> 150" and "map_of (entries t) key = None"
    and "length key + length val \<le> 150" and "\<not> leaf_size (snd (cover t key)) + 12 + length key + length val \<le> LEAF_CAPACITY"
    and "unat (bp_count bp) + 2 < 2 ^ 32" and "bt_insert key val (tr, bp) = (r, (tr', bp'))"
  shows "r = Inr True \<and> fst (bt_search tr' k bp') = Inr (map_of (kv_insert key val (snd (cover t key))) k)"
proof -
  let ?c = "cover t key"
  have none: "map_of (snd ?c) key = None" using cover_lookup [of None None t key] assms(1,5) by (simp add: tree_ok_def)
  have sm: "\<forall>e \<in> set (snd ?c). length (fst e) + length (snd e) \<le> SMALL" "length key + length val \<le> SMALL" using assms(4,6) by simp_all
  show ?thesis
  proof (rule bt_insert_full [OF assms(1,2) none assms(7)])
    fix bp2 nd assume b: "\<And>s'. split_and_insert_leaf (loop_fuel bp2) nd key val (tr, bp2) = (Inr (), s')
        \<Longrightarrow> bt_insert key val (tr, bp) = (Inr True, s')" "tree_ok bp2 t" "bp_view bp2 = bp_view bp" "bp_count bp2 = bp_count bp"
      "bp_view bp2 (fst ?c) = Some (pg_data nd)" "pg_id nd = fst ?c"
    have q: "pool_quiet bp2" "rep (bp_view bp2) t" using b(2) by (simp_all add: tree_ok_def)
    obtain sib par where "leaf_at (bp_view bp2) (fst ?c) (snd ?c) sib par"
      using rep_leaf [OF q(2), of "fst ?c" "snd ?c"] cover_in_leaves [of t key] by auto
    with parent_at_leaf [OF this] assms(3) b(3) have at: "leaf_at (bp_view bp2) (fst ?c) (snd ?c) sib INVALID_PAGE_ID" by simp
    have n: "unat (bp_count bp2) + 2 < 2 ^ 32" using assms(8) b(4) by simp
    have fuel: "loop_fuel bp2 = Suc (unat (bp_count bp2))" by (simp add: loop_fuel_def bp_count_def)
    show ?thesis
    proof (rule orphan_split_run [OF q(1) b(5,6) at sm(1) none sm(2) assms(7) n refl refl refl, of "unat (bp_count bp2)" tr])
      let ?es = "kv_insert key val (snd ?c)"
      let ?t = "BNode (bp_count bp2 + 1) (More (BLeaf (fst ?c) (take (length ?es div 2) ?es)) (fst (?es ! (length ?es div 2)))
        (Only (BLeaf (bp_count bp2) (drop (length ?es div 2) ?es))))"
      fix tr1 bp1 assume s: "split_and_insert_leaf (Suc (unat (bp_count bp2))) nd key val (tr, bp2) = (Inr (), (tr1, bp1))" "pool_quiet bp1"
        "rep (bp_view bp1) ?t" "ord None None ?t" "root_id ?t = root_page_id tr1" "bp_count bp2 < bp_count bp1"
      have "bt_insert key val (tr, bp) = (Inr True, (tr1, bp1))" using b(1) s(1) fuel by simp
      then have same: "r = Inr True" "tr' = tr1" "bp' = bp1" using assms(9) by simp_all
      have "unat (bp_count bp1) \<noteq> 0" using s(6) by (auto simp: word_less_nat_alt)
      then have "height ?t < loop_fuel bp1" by (simp add: loop_fuel_def bp_count_def)
      moreover have "entries ?t = ?es" by simp
      ultimately show ?thesis using bt_search_rep [where key = k, OF s(2,3) _ s(5,4)] same by (metis fst_conv)
    qed
  qed
qed

theorem orphan_split_loses_tree_witness:
  "\<exists>tr bp tr' bp'. index tr bp (sample 26 @ [([255], [])]) \<and> bt_insert [26] (replicate 149 0) (tr, bp) = (Inr True, (tr', bp'))
    \<and> fst (bt_search tr' [255] bp') = Inr None"
proof -
  have srt: "sorted_kv (sample 26)" "\<forall>e \<in> set (sample 26). fst e < [255]"
    by (auto simp: sample_def sorted_kv_nth word_less_nat_alt unat_of_nat)
  show ?thesis
  proof (rule two_leaf_tree [of "sample 26" "[([255], [])]" "[255]"])
    let ?t = "BNode 2 (More (BLeaf 0 (sample 26)) [255] (Only (BLeaf 1 [([255], [])])))"
    fix tr :: bplus_tree and bp assume t: "tree_ok bp ?t" "root_page_id tr = 2" "bp_count bp = 3" "parent_at (bp_view bp) 0 = Some INVALID_PAGE_ID"
    have cov: "cover ?t [26] = (0, sample 26)" by simp
    obtain r tr' bp' where run: "bt_insert [26] (replicate 149 0) (tr, bp) = (r, (tr', bp'))" by (metis surj_pair)
    have new: "map_of (entries ?t) [26] = None" using sample_new [of 26] by simp
    have "map_of (kv_insert [26] (replicate 149 0) (sample 26)) [255] = None"
      using sample_Suc [of 26] by (auto simp: map_of_eq_None_iff sample_def word_unat_eq_iff unat_of_nat)
    moreover have "\<forall>e \<in> set (sample 26). length (fst e) + length (snd e) \<le> 150" by (auto simp: sample_def)
    ultimately have "r = Inr True \<and> fst (bt_search tr' [255] bp') = Inr None"
      using orphan_split_loses_tree [OF t(1) _ _ _ new _ _ _ run, of "[255]"] t cov by (simp add: leaf_size_sample)
    moreover have "index tr bp (sample 26 @ [([255], [])])" using t(1,2) by (force simp: index_def)
    ultimately show ?thesis using run by blast
  qed (use srt in \<open>simp_all add: leaf_size_sample\<close>)
qed

end
