(* ===== verification/History.thy ===== *)
theory History
  imports Recovery Orphan
begin

text \<open>
  Sequences of calls on one engine. \<open>engine_reach e cs\<close>: the engine \<open>e\<close> was opened on a new
  database and has answered the calls \<open>cs\<close>. The abstract machine is a map from keys to values;
  \<open>map_effect\<close> and \<open>reply_ok\<close> are its transitions and replies. The last section builds the
  concrete histories the witnesses run on.
\<close>

section \<open>Histories\<close>

text \<open>
  An engine opened on a new database, and the calls made since; \<open>room\<close> says which inserts are
  covered.
\<close>

inductive reach_within :: "(tree_pool \<Rightarrow> key \<Rightarrow> bytes \<Rightarrow> bool) \<Rightarrow> storage_engine \<Rightarrow> engine_call list \<Rightarrow> bool"
  for room where
  fresh: "engine_open p [] [] = Inr e \<Longrightarrow> reach_within room e []"
| call: "reach_within room e cs \<Longrightarrow> call_within room e c \<Longrightarrow> run_call c e = (r, e') \<Longrightarrow> reach_within room e' (cs @ [c])"

abbreviation engine_reach :: "storage_engine \<Rightarrow> engine_call list \<Rightarrow> bool" where
  "engine_reach \<equiv> reach_within tree_room"

definition entries_after :: "engine_call list \<Rightarrow> entry list" where
  "entries_after cs = foldl (\<lambda>es c. call_effect c es) [] cs"

lemma engine_reach_ok: "engine_reach e cs \<Longrightarrow> engine_ok e (entries_after cs)"
proof (induction rule: reach_within.induct)
  case (fresh p e)
  then show ?case by (metis open_fresh sum.inject(2) entries_after_def foldl_Nil)
next
  case (call e cs c r e')
  from tree_engine.call_ok [OF call.IH call.hyps(2)] call.hyps(3) show ?case by (auto simp: entries_after_def)
qed

lemma linked_reach_ok: "reach_within linked_room e cs \<Longrightarrow> engine_holds linked_index e (entries_after cs)"
proof (induction rule: reach_within.induct)
  case (fresh p e)
  then show ?case by (metis open_fresh sum.inject(2) entries_after_def foldl_Nil)
next
  case (call e cs c r e')
  from linked_engine.call_ok [OF call.IH call.hyps(2)] call.hyps(3) show ?case by (auto simp: entries_after_def)
qed

text \<open>The abstract key-value map, and what a reply must be for it.\<close>

fun map_effect :: "engine_call \<Rightarrow> (key \<rightharpoonup> bytes) \<Rightarrow> key \<rightharpoonup> bytes" where
  "map_effect (Put k v) m = m(k \<mapsto> v)"
| "map_effect (TxnPut t k v) m = m(k \<mapsto> v)"
| "map_effect (Delete k) m = m(k := None)"
| "map_effect (TxnDelete t k) m = m(k := None)"
| "map_effect _ m = m"

definition map_after :: "engine_call list \<Rightarrow> key \<rightharpoonup> bytes" where
  "map_after cs = foldl (\<lambda>m c. map_effect c m) Map.empty cs"

fun reply_ok :: "engine_call \<Rightarrow> (key \<rightharpoonup> bytes) \<Rightarrow> reply res \<Rightarrow> bool" where
  "reply_ok (Put k v) m r \<longleftrightarrow> r = Inr RUnit"
| "reply_ok (TxnPut t k v) m r \<longleftrightarrow> r = Inr RUnit"
| "reply_ok (Get k) m r \<longleftrightarrow> r = Inr (RValue (m k))"
| "reply_ok (TxnGet t k) m r \<longleftrightarrow> r = Inr (RValue (m k))"
| "reply_ok (Delete k) m r \<longleftrightarrow> r = Inr (RValue (m k))"
| "reply_ok (TxnDelete t k) m r \<longleftrightarrow> r = Inr (RValue (m k))"
| "reply_ok ScanAll m r \<longleftrightarrow> (\<exists>es. r = Inr (REntries es) \<and> sorted_kv es \<and> map_of es = m)"
| "reply_ok (RangeScan lo hi) m r \<longleftrightarrow> (\<exists>es. r = Inr (REntries es) \<and> sorted_kv es
     \<and> map_of es = (\<lambda>k. if lo \<le> k \<and> k \<le> hi then m k else None))"
| "reply_ok Checkpoint m r \<longleftrightarrow> r = Inr RUnit"
| "reply_ok Sync m r \<longleftrightarrow> r = Inr RUnit"
| "reply_ok _ m r \<longleftrightarrow> True"

lemma call_effect_map:
  "sorted_kv es \<Longrightarrow> sorted_kv (call_effect c es) \<and> map_of (call_effect c es) = map_effect c (map_of es)"
  by (cases c) (auto simp: map_of_kv_insert map_of_kv_delete sorted_kv_insert sorted_kv_delete)

lemma entries_after_map: "sorted_kv (entries_after cs) \<and> map_of (entries_after cs) = map_after cs"
proof (induction cs rule: rev_induct)
  case Nil
  then show ?case by (simp add: entries_after_def map_after_def)
next
  case (snoc c cs)
  with call_effect_map [of "entries_after cs" c] show ?case by (simp add: entries_after_def map_after_def)
qed

lemma map_of_range: "map_of (filter (\<lambda>e. lo \<le> fst e \<and> fst e \<le> hi) es) = (\<lambda>k. if lo \<le> k \<and> k \<le> hi then map_of es k else None)"
  by (induction es) (auto simp: fun_eq_iff)

lemma sorted_kv_filter: "sorted_kv es \<Longrightarrow> sorted_kv (filter P es)"
  by (induction es) auto

text \<open>A list of puts, up to the first that fails.\<close>

definition put_all :: "entry list \<Rightarrow> (storage_engine, unit) op" where
  "put_all kvs = foldS (\<lambda>(k, v). engine_put k v) kvs"

section \<open>Concrete histories\<close>

lemma small_room:
  assumes "engine_ok e es" and "leaf_size es + 12 + length k + length v \<le> LEAF_CAPACITY"
  shows "tree_room (se_btree e, se_pool e) k v"
  using small_index_room [OF _ assms(2)] assms(1) by (auto simp: tree_room_def engine_ok_def)

lemma put_history:
  obtains e where "engine_reach e [Put [1] [2]]" "call_fits e (Get [1])" "root_page_id (se_btree e) = 0"
    "wm_file (se_wal e) = []" "wm_write_buffer (se_wal e) = []"
proof (rule open_fresh [of "''db''"])
  fix e assume e: "engine_open ''db'' [] [] = Inr e" "engine_ok e []" "se_txn_manager e = tm_new"
    "wm_next_lsn (se_wal e) = 1" "root_page_id (se_btree e) = 0" "wm_file (se_wal e) = []" "wm_write_buffer (se_wal e) = []"
  have room: "tree_room (se_btree e, se_pool e) [1] [2]" by (rule small_room [OF e(2)]) simp
  then have fits: "call_fits e (Put [1] [2])" using e(3,4) by (simp add: call_within_def tm_new_def)
  have "index_room (se_btree e) (se_pool e) [1] [2] []"
    by (rule small_index_room) (use e(2) in \<open>simp_all add: engine_ok_def\<close>)
  then obtain bp where "bt_insert [1] [2] (se_btree e, se_pool e) = (Inr True, (se_btree e, bp))"
    by (rule bt_insert_room_ok) simp
  then have run: "run_call (Put [1] [2]) e = (Inr RUnit, e\<lparr>se_pool := bp\<rparr>)"
    by (simp add: engine_put_def mapS_def bindS_def on_tree_def)
  from reach_within.call [OF reach_within.fresh [OF e(1)] fits run] that [of "e\<lparr>se_pool := bp\<rparr>"] fits e(5-7)
  show thesis by (simp add: call_within_def)
qed

text \<open>An engine whose log holds one committed transaction with one put.\<close>

lemma wal_recover_log: "wal_holds w rs [] \<Longrightarrow> wal_recover w = recover_records rs"
  using read_all_log [of rs] by (simp add: wal_recover_def wal_holds_def log_ok_def)

lemma stamped_begin: "lr_type (stamped w (lr_begin l t)) = LrBegin" "lr_txn_id (stamped w (lr_begin l t)) = t"
  by (simp_all add: stamped_def lr_begin_def)

lemma stamped_commit: "lr_type (stamped w (lr_commit l t f)) = LrCommit" "lr_txn_id (stamped w (lr_commit l t f)) = t"
  by (simp_all add: stamped_def lr_commit_def)

lemma stamped_page_write:
  assumes "length k < 2 ^ 32"
  shows "page_write_images (stamped w (lr_page_write l t f pid k v)) = Inr (Some (k, v))"
    "lr_type (stamped w (lr_page_write l t f pid k v)) = LrPageWrite" "lr_txn_id (stamped w (lr_page_write l t f pid k v)) = t"
    "lr_page_id (stamped w (lr_page_write l t f pid k v)) = pid"
  using page_write_images_ok [OF assms, of l t f pid v] by (auto simp: page_write_images_def stamped_def split: if_splits)

lemma committed_write_plan:
  assumes "length k < 2 ^ 32"
  shows "recover_records [stamped w1 (lr_begin 0 t), stamped w2 (lr_page_write 0 t c 0 k v), stamped w3 (lr_commit 0 t f)]
    = Inr \<lparr>ra_redo = [(0, v)], ra_undo = [], ra_committed_txns = {t}, ra_aborted_txns = {}\<rparr>"
  by (simp add: recover_records_def collect_def analyse_def stamped_begin stamped_commit stamped_page_write [OF assms])

text \<open>Single calls: what they leave in the log.\<close>

lemma begin_call:
  assumes "se_txn_manager e = tm_new" and "wal_holds (se_wal e) ds ps" and "wm_next_lsn (se_wal e) \<noteq> - 1"
  obtains w where "call_fits e BeginTxn"
    "run_call BeginTxn e = (Inr (RTxn 1), e\<lparr>se_txn_manager := one_active, se_wal := w\<rparr>)"
    "wal_holds w ds (ps @ [stamped (se_wal e) (lr_begin 0 1)])" "wm_next_lsn w = wm_next_lsn (se_wal e) + 1"
proof -
  obtain w where b: "wal_holds w ds (ps @ [stamped (se_wal e) (lr_begin 0 1)])" "wm_next_lsn w = wm_next_lsn (se_wal e) + 1"
    "tm_begin (tm_new, se_wal e) = (Inr 1, (one_active, w))"
    by (rule begin_run [OF assms(2,3), of tm_new]) (auto simp: tm_new_def)
  show thesis
    by (rule that [OF _ _ b(1,2)])
      (use b(3) assms in \<open>simp_all add: begin_transaction_def on_txn_def mapS_def bindS_def call_within_def tm_new_def\<close>)
qed

lemma txn_put_call:
  assumes ok: "engine_ok e es" and sz: "leaf_size es + 12 + length k + length v \<le> LEAF_CAPACITY"
    and wal: "wal_holds (se_wal e) ds ps" "wm_next_lsn (se_wal e) \<noteq> - 1" and tm: "tm_next_txn_id (se_txn_manager e) \<noteq> - 1"
  obtains w bp where "call_fits e (TxnPut t k v)"
    "run_call (TxnPut t k v) e = (Inr RUnit, e\<lparr>se_wal := w, se_pool := bp\<rparr>)"
    "wal_holds w ds (ps @ [stamped (se_wal e) (lr_page_write 0 t (last_lsn (se_wal e) t) 0 k v)])"
    "wm_next_lsn w = wm_next_lsn (se_wal e) + 1"
proof -
  let ?pw = "lr_page_write 0 t (last_lsn (se_wal e) t) 0 k v"
  have "record_ok ?pw" using sz by (simp add: record_ok_def lr_page_write_def)
  then obtain w where p: "wal_append ?pw (se_wal e) = (Inr (wm_next_lsn (se_wal e)), w)"
    "wal_holds w ds (ps @ [stamped (se_wal e) ?pw])" "wm_next_lsn w = wm_next_lsn (se_wal e) + 1"
    by (rule wal_append_ok [OF wal])
  have "index_room (se_btree e) (se_pool e) k v es"
    by (rule small_index_room) (use ok sz in \<open>simp_all add: engine_ok_def\<close>)
  then obtain bp where bp: "bt_insert k v (se_btree e, se_pool e) = (Inr (map_of es k = None), (se_btree e, bp))"
    by (rule bt_insert_room_ok)
  show thesis
  proof (rule that [OF _ _ p(2,3)])
    show "call_fits e (TxnPut t k v)" using small_room [OF ok sz] sz wal(2) tm by (simp add: call_within_def)
    show "run_call (TxnPut t k v) e = (Inr RUnit, e\<lparr>se_wal := w, se_pool := bp\<rparr>)"
      using p(1) bp by (simp add: txn_put_def log_page_write_def on_wal_def on_tree_def mapS_def bindS_def)
  qed
qed

lemma one_active_inv: "tm_inv one_active" "tm_active_txns one_active 1 = Some (transaction_new 1)"
proof -
  have "tm_next_txn_id tm_new = 1" by (simp add: tm_new_def)
  with start_txn_inv [OF tm_new_inv] show "tm_inv one_active" by simp
qed simp

lemma commit_call:
  assumes "se_txn_manager e = one_active" and "wal_holds (se_wal e) ds ps" and "wm_next_lsn (se_wal e) \<noteq> - 1"
  obtains w where "call_fits e (CommitTxn 1)"
    "run_call (CommitTxn 1) e = (Inr RUnit, e\<lparr>se_txn_manager := ended 1 one_active, se_wal := w\<rparr>)"
    "wal_holds w (ds @ ps @ [stamped (se_wal e) (lr_commit 0 1 (last_lsn (se_wal e) 1))]) []"
    "wm_next_lsn w = wm_next_lsn (se_wal e) + 1"
proof -
  obtain w where c: "log_commit 1 (se_wal e) = (Inr (wm_next_lsn (se_wal e)), w)"
      "tm_commit 1 (one_active, se_wal e) = (Inr (), (ended 1 one_active, w))"
    by (rule commit_run [OF one_active_inv assms(2,3)])
  have h: "wal_holds w (ds @ ps @ [stamped (se_wal e) (lr_commit 0 1 (last_lsn (se_wal e) 1))]) []"
    "wm_next_lsn w = wm_next_lsn (se_wal e) + 1"
    by (rule log_commit_ok [OF assms(2,3), of 1], use c(1) in simp)+
  show thesis
    by (rule that [OF _ _ h])
      (use c(2) assms(1,3) in \<open>simp_all add: commit_transaction_def on_txn_def mapS_def bindS_def call_within_def\<close>)
qed

text \<open>A transaction that puts one entry into a new database, and its commit.\<close>

lemma begun_put:
  assumes kv: "12 + length k + length v \<le> LEAF_CAPACITY"
  obtains e1 e2 w0 w1 c where "engine_reach e1 [BeginTxn]" "call_fits e1 (TxnPut 1 k v)"
    "run_call (TxnPut 1 k v) e1 = (Inr RUnit, e2)" "se_txn_manager e2 = one_active"
    "wal_holds (se_wal e2) [] [stamped w0 (lr_begin 0 1), stamped w1 (lr_page_write 0 1 c 0 k v)]"
    "wm_next_lsn (se_wal e2) = 3" "root_page_id (se_btree e2) = 0"
proof (rule open_fresh [of "''db''"])
  fix e0 assume e0: "engine_open ''db'' [] [] = Inr e0" "engine_ok e0 []" "se_txn_manager e0 = tm_new"
    "wm_next_lsn (se_wal e0) = 1" "root_page_id (se_btree e0) = 0" "wal_holds (se_wal e0) [] []"
  have n0: "wm_next_lsn (se_wal e0) \<noteq> - 1" using e0(4) by simp
  from begin_call [OF e0(3,6) n0] obtain w1 where b: "call_fits e0 BeginTxn"
    "run_call BeginTxn e0 = (Inr (RTxn 1), e0\<lparr>se_txn_manager := one_active, se_wal := w1\<rparr>)"
    "wal_holds w1 [] ([] @ [stamped (se_wal e0) (lr_begin 0 1)])" "wm_next_lsn w1 = wm_next_lsn (se_wal e0) + 1" .
  let ?e1 = "e0\<lparr>se_txn_manager := one_active, se_wal := w1\<rparr>"
  have r1: "engine_reach ?e1 [BeginTxn]" using reach_within.call [OF reach_within.fresh [OF e0(1)] b(1,2)] by simp
  have ok: "engine_ok ?e1 []" using engine_reach_ok [OF r1] by (simp add: entries_after_def)
  have "leaf_size [] + 12 + length k + length v \<le> LEAF_CAPACITY" "wal_holds (se_wal ?e1) [] [stamped (se_wal e0) (lr_begin 0 1)]"
    "wm_next_lsn (se_wal ?e1) \<noteq> - 1" "tm_next_txn_id (se_txn_manager ?e1) \<noteq> - 1" using kv b(3,4) e0(4) by simp_all
  from txn_put_call [OF ok this, of 1] obtain w2 bp where p: "call_fits ?e1 (TxnPut 1 k v)"
    "run_call (TxnPut 1 k v) ?e1 = (Inr RUnit, ?e1\<lparr>se_wal := w2, se_pool := bp\<rparr>)"
    "wal_holds w2 [] ([stamped (se_wal e0) (lr_begin 0 1)] @ [stamped (se_wal ?e1) (lr_page_write 0 1 (last_lsn (se_wal ?e1) 1) 0 k v)])"
    "wm_next_lsn w2 = wm_next_lsn (se_wal ?e1) + 1" .
  show thesis by (rule that [OF r1 p(1,2)]) (use p(3,4) b(4) e0(4,5) in simp_all)
qed

lemma committed_put:
  assumes kv: "12 + length k + length v \<le> LEAF_CAPACITY"
  obtains e where "engine_reach e [BeginTxn, TxnPut 1 k v, CommitTxn 1]" "root_page_id (se_btree e) = 0"
    "wal_recover (se_wal e) = Inr \<lparr>ra_redo = [(0, v)], ra_undo = [], ra_committed_txns = {1}, ra_aborted_txns = {}\<rparr>"
    "wm_write_buffer (se_wal e) = []"
proof (rule begun_put [OF kv])
  fix e1 e2 w0 w1 c
  let ?ps = "[stamped w0 (lr_begin 0 1), stamped w1 (lr_page_write 0 1 c 0 k v)]"
  assume p: "engine_reach e1 [BeginTxn]" "call_fits e1 (TxnPut 1 k v)" "run_call (TxnPut 1 k v) e1 = (Inr RUnit, e2)"
    "se_txn_manager e2 = one_active" "wal_holds (se_wal e2) [] ?ps" "wm_next_lsn (se_wal e2) = 3" "root_page_id (se_btree e2) = 0"
  have r2: "engine_reach e2 [BeginTxn, TxnPut 1 k v]" using reach_within.call [OF p(1-3)] by simp
  let ?rs = "?ps @ [stamped (se_wal e2) (lr_commit 0 1 (last_lsn (se_wal e2) 1))]"
  have "wm_next_lsn (se_wal e2) \<noteq> - 1" using p(6) by simp
  from commit_call [OF p(4,5) this] obtain w3 where cm: "call_fits e2 (CommitTxn 1)"
    "run_call (CommitTxn 1) e2 = (Inr RUnit, e2\<lparr>se_txn_manager := ended 1 one_active, se_wal := w3\<rparr>)"
    "wal_holds w3 ([] @ ?rs) []" .
  from wal_recover_log [OF cm(3)] have "wal_recover w3 = recover_records ?rs" by simp
  then have plan: "wal_recover w3 = Inr \<lparr>ra_redo = [(0, v)], ra_undo = [], ra_committed_txns = {1}, ra_aborted_txns = {}\<rparr>"
    using committed_write_plan [of k] kv by simp
  have "wm_write_buffer w3 = []" using cm(3) by (simp add: wal_holds_def)
  with that reach_within.call [OF r2 cm(1,2)] plan p(7) show thesis by simp
qed

text \<open>Puts that fill a leaf and split it.\<close>

definition puts :: "nat \<Rightarrow> engine_call list" where
  "puts n = map (\<lambda>i. Put [of_nat i] (replicate 149 0)) [0..<n]"

lemma entries_after_puts: "n < 255 \<Longrightarrow> entries_after (puts n) = sample n"
proof (induction n)
  case 0
  show ?case by (simp add: entries_after_def puts_def sample_def)
next
  case (Suc n)
  then show ?case using sample_Suc [of n] by (simp add: entries_after_def puts_def)
qed

lemma put_linked:
  assumes "reach_within linked_room e (puts n)" and "n < 27" and "bp_count (se_pool e) = 1"
    and "wm_next_lsn (se_wal e) = 1" and "tm_next_txn_id (se_txn_manager e) = 1"
  shows "call_within linked_room e (Put [of_nat n] (replicate 149 0))"
proof -
  have "engine_holds linked_index e (sample n)" using linked_reach_ok [OF assms(1)] entries_after_puts assms(2) by simp
  then have idx: "tree_index (se_btree e, se_pool e) (sample n)" using linked_index_index by (auto simp: engine_holds_def)
  have "es = sample n" if "tree_index (se_btree e, se_pool e) es" for es
    using that idx tree.holds_unique by blast
  then have "linked_room (se_btree e, se_pool e) [of_nat n] (replicate 149 0)"
    using assms(2,3) sample_new [of n] by (auto simp: linked_room_def FEW_PAGES_def)
  then show ?thesis using assms(4,5) by (simp add: call_within_def)
qed

lemma put_run:
  assumes "bt_insert k v (se_btree e, se_pool e) = (Inr b, (tr, bp))"
  shows "run_call (Put k v) e = (Inr RUnit, e\<lparr>se_btree := tr, se_pool := bp\<rparr>)"
  using assms by (simp add: engine_put_def mapS_def bindS_def on_tree_def)

lemma puts_history:
  assumes "n \<le> 26"
  obtains e where "reach_within linked_room e (puts n)" "bp_count (se_pool e) = 1" "wm_next_lsn (se_wal e) = 1"
    "tm_next_txn_id (se_txn_manager e) = 1" "wm_file (se_wal e) = []" "wm_write_buffer (se_wal e) = []"
  using assms
proof (induction n arbitrary: thesis)
  case 0
  show ?case
  proof (rule open_fresh [of "''db''"])
    fix e assume "engine_open ''db'' [] [] = Inr e" "se_txn_manager e = tm_new" "wm_next_lsn (se_wal e) = 1" "bp_count (se_pool e) = 1"
      "wm_file (se_wal e) = []" "wm_write_buffer (se_wal e) = []"
    then show ?thesis by (intro 0(1) [of e]) (auto simp: puts_def tm_new_def intro: reach_within.fresh)
  qed
next
  case (Suc n)
  let ?k = "[of_nat n] :: key" and ?v = "replicate 149 0 :: bytes"
  have n: "n \<le> 26" "n < 26" "n < 27" using Suc.prems(2) by simp_all
  show ?case
  proof (rule Suc.IH [OF _ n(1)])
    fix e assume e: "reach_within linked_room e (puts n)" "bp_count (se_pool e) = 1" "wm_next_lsn (se_wal e) = 1"
      "tm_next_txn_id (se_txn_manager e) = 1" "wm_file (se_wal e) = []" "wm_write_buffer (se_wal e) = []"
    note fits = put_linked [OF e(1) n(3) e(2-4)]
    have "engine_holds linked_index e (sample n)" using linked_reach_ok [OF e(1)] entries_after_puts n by simp
    then obtain t where t: "tree_ok (se_pool e) t" "root_id t = root_page_id (se_btree e)" "entries t = sample n"
      by (auto simp: engine_holds_def linked_index_def)
    show ?thesis
    proof (rule bt_insert_room_tree [OF t(1,2) sample_room [OF t(1,3) n(2)]])
      fix bp' assume i: "bt_insert ?k ?v (se_btree e, se_pool e) = (Inr (map_of (entries t) ?k = None), (se_btree e, bp'))"
        "bp_count bp' = bp_count (se_pool e)"
      from reach_within.call [OF e(1) fits put_run [OF i(1)]] Suc.prems(1) i(2) e(2-6)
      show ?thesis by (simp add: puts_def)
    qed
  qed
qed

text \<open>After one more put the root is a new page, and page 0 is the left one of two leaves.\<close>

lemma split_history:
  obtains e sib par where "engine_ok e (sample 27)" "leaf_at (bp_view (se_pool e)) 0 (take 13 (sample 27)) sib par"
    "wm_file (se_wal e) = []" "wm_write_buffer (se_wal e) = []"
proof (rule puts_history [of 26])
  let ?k = "[26] :: key" and ?v = "replicate 149 0 :: bytes"
  fix e assume e: "reach_within linked_room e (puts 26)" "bp_count (se_pool e) = 1" "wm_next_lsn (se_wal e) = 1"
    "tm_next_txn_id (se_txn_manager e) = 1" "wm_file (se_wal e) = []" "wm_write_buffer (se_wal e) = []"
  have fits: "call_within linked_room e (Put ?k ?v)" using put_linked [OF e(1) _ e(2-4)] by simp
  have "engine_holds linked_index e (sample 26)" using linked_reach_ok [OF e(1)] entries_after_puts by simp
  then obtain t where t: "tree_ok (se_pool e) t" "root_id t = root_page_id (se_btree e)" "entries t = sample 26" "linked_tree (se_pool e) t"
    by (auto simp: engine_holds_def linked_index_def)
  obtain i where i: "t = BLeaf i (sample 26)" using one_page_leaf [OF t(1) e(2)] t(3) by metis
  have i0: "i = 0" using tree_ok_pages(1) [OF t(1), of i] e(2) i by simp
  have new: "map_of (snd (cover t ?k)) ?k = None" "\<not> leaf_size (snd (cover t ?k)) + 12 + length ?k + length ?v \<le> LEAF_CAPACITY"
    using sample_new [of 26] i by (simp_all add: leaf_size_sample)
  have sm: "\<forall>x \<in> set (sample 26). length (fst x) + length (snd x) \<le> SMALL" by (auto simp: sample_def)
  have es: "sample 27 = kv_insert ?k ?v (sample 26)" "13 = length (sample 27) div 2" using sample_Suc [of 26] by (simp_all add: sample_def)
  show thesis
  proof (rule bt_insert_full [OF t(1,2) new])
    fix bp2 nd assume b: "\<And>s'. split_and_insert_leaf (loop_fuel bp2) nd ?k ?v (se_btree e, bp2) = (Inr (), s')
        \<Longrightarrow> bt_insert ?k ?v (se_btree e, se_pool e) = (Inr True, s')" "tree_ok bp2 t" "bp_view bp2 = bp_view (se_pool e)"
      "bp_count bp2 = bp_count (se_pool e)" "bp_view bp2 (fst (cover t ?k)) = Some (pg_data nd)" "pg_id nd = fst (cover t ?k)"
    from b(2) i i0 obtain sib par where l: "leaf_at (bp_view bp2) 0 (sample 26) sib par" by (auto simp: tree_ok_def)
    with parent_at_leaf [OF l] t(4) b(3) i i0 have at: "leaf_at (bp_view bp2) 0 (sample 26) sib INVALID_PAGE_ID" by (simp add: linked_tree_def)
    have fuel: "loop_fuel bp2 = Suc (unat (bp_count bp2))" by (simp add: loop_fuel_def bp_count_def)
    have q: "pool_quiet bp2" "bp_view bp2 0 = Some (pg_data nd)" "pg_id nd = 0" using b(2,5,6) i i0 by (simp_all add: tree_ok_def)
    have n: "map_of (sample 26) ?k = None" "length ?k + length ?v \<le> SMALL" "\<not> leaf_size (sample 26) + 12 + length ?k + length ?v \<le> LEAF_CAPACITY"
      "unat (bp_count bp2) + 2 < 2 ^ 32" using new i b(4) e(2) by simp_all
    show thesis
    proof (rule orphan_split_run [OF q at sm n es refl, of "unat (bp_count bp2)" "se_btree e"])
      fix tr' bp' assume s: "split_and_insert_leaf (Suc (unat (bp_count bp2))) nd ?k ?v (se_btree e, bp2) = (Inr (), (tr', bp'))"
        "rep (bp_view bp') (BNode (bp_count bp2 + 1) (More (BLeaf 0 (take 13 (sample 27))) (fst (sample 27 ! 13))
          (Only (BLeaf (bp_count bp2) (drop 13 (sample 27))))))"
      have "bt_insert ?k ?v (se_btree e, se_pool e) = (Inr True, (tr', bp'))" using b(1) s(1) fuel by simp
      note run = put_run [OF this]
      from linked_engine.call_ok [OF linked_reach_ok [OF e(1)] fits] run
      have "engine_holds linked_index (e\<lparr>se_btree := tr', se_pool := bp'\<rparr>) (sample 27)" by (simp add: entries_after_puts es(1))
      then have "engine_ok (e\<lparr>se_btree := tr', se_pool := bp'\<rparr>) (sample 27)" using linked_index_index by (auto simp: engine_holds_def)
      moreover from s(2) obtain sib' par' where "leaf_at (bp_view bp') 0 (take 13 (sample 27)) sib' par'" by auto
      ultimately show thesis using that [of "e\<lparr>se_btree := tr', se_pool := bp'\<rparr>"] e(5,6) by simp
    qed
  qed
qed simp

end
