(* ===== verification/Stale.thy ===== *)
theory Stale
  imports History
begin

text \<open>
  Transaction numbers across processes. Every process numbers its transactions from 1, and opening a
  database keeps the log when recovery has nothing to do. The commit record of an earlier process
  then stands for a transaction of the same number that was never committed.
\<close>

section \<open>Sequences of calls and their replies\<close>

fun run_calls :: "engine_call list \<Rightarrow> storage_engine \<Rightarrow> reply res list \<times> storage_engine" where
  "run_calls [] e = ([], e)"
| "run_calls (c # cs) e = (case run_call c e of (r, e1) \<Rightarrow> case run_calls cs e1 of (rs, e2) \<Rightarrow> (r # rs, e2))"

lemma sync_call:
  assumes "engine_ok e es" and "wal_holds (se_wal e) ds ps"
  obtains e' where "run_call Sync e = (Inr RUnit, e')" "engine_ok e' es" "se_btree e' = se_btree e"
    "dm_pages (bp_disk (se_pool e')) = bp_view (se_pool e')" "wal_holds (se_wal e') (ds @ ps) []"
    "wm_next_lsn (se_wal e') = wm_next_lsn (se_wal e)"
proof -
  from tree_engine.sync_ok [OF assms(1)] obtain e' where e': "engine_sync e = (Inr (), e')" "engine_ok e' es" "se_btree e' = se_btree e"
    "dm_pages (bp_disk (se_pool e')) = bp_view (se_pool e')" "wal_flush (se_wal e) = (Inr (), se_wal e')" by auto
  have w: "wal_holds (se_wal e') (ds @ ps) []" "wm_next_lsn (se_wal e') = wm_next_lsn (se_wal e)"
    by (rule wal_flush_ok [OF assms(2)], use e'(5) in simp)+
  show thesis by (rule that [OF _ e'(2-4) w]) (use e'(1) in \<open>simp add: mapS_def bindS_def\<close>)
qed

section \<open>Two processes\<close>

lemma empty_txn_synced:
  obtains e0 e1 w0 w1 c where "engine_open p [] [] = Inr e0"
    "run_calls [BeginTxn, CommitTxn 1, Sync] e0 = ([Inr (RTxn 1), Inr RUnit, Inr RUnit], e1)" "engine_ok e1 []"
    "root_page_id (se_btree e1) = 0" "dm_pages (bp_disk (se_pool e1)) = bp_view (se_pool e1)"
    "wal_holds (se_wal e1) [stamped w0 (lr_begin 0 1), stamped w1 (lr_commit 0 1 c)] []" "wm_next_lsn (se_wal e1) = 3"
proof (rule open_fresh [of p])
  fix e0 assume e0: "engine_open p [] [] = Inr e0" "engine_ok e0 []" "se_txn_manager e0 = tm_new"
    "wm_next_lsn (se_wal e0) = 1" "root_page_id (se_btree e0) = 0" "wal_holds (se_wal e0) [] []"
  have n0: "wm_next_lsn (se_wal e0) \<noteq> - 1" using e0(4) by simp
  from begin_call [OF e0(3,6) n0] obtain w1 where b: "call_fits e0 BeginTxn"
    "run_call BeginTxn e0 = (Inr (RTxn 1), e0\<lparr>se_txn_manager := one_active, se_wal := w1\<rparr>)"
    "wal_holds w1 [] ([] @ [stamped (se_wal e0) (lr_begin 0 1)])" "wm_next_lsn w1 = wm_next_lsn (se_wal e0) + 1" .
  let ?b = "e0\<lparr>se_txn_manager := one_active, se_wal := w1\<rparr>" and ?r = "stamped (se_wal e0) (lr_begin 0 1)"
  have ok1: "engine_ok ?b []" using tree_engine.call_ok [OF e0(2) b(1)] b(2) by auto
  have h1: "se_txn_manager ?b = one_active" "wal_holds (se_wal ?b) [] [?r]" "wm_next_lsn (se_wal ?b) \<noteq> - 1"
    using b(3,4) e0(4) by simp_all
  from commit_call [OF h1] obtain w2 where c: "call_fits ?b (CommitTxn 1)"
    "run_call (CommitTxn 1) ?b = (Inr RUnit, ?b\<lparr>se_txn_manager := ended 1 one_active, se_wal := w2\<rparr>)"
    "wal_holds w2 ([] @ [?r] @ [stamped (se_wal ?b) (lr_commit 0 1 (last_lsn (se_wal ?b) 1))]) []"
    "wm_next_lsn w2 = wm_next_lsn (se_wal ?b) + 1" .
  let ?c = "?b\<lparr>se_txn_manager := ended 1 one_active, se_wal := w2\<rparr>"
  have ok2: "engine_ok ?c []" using tree_engine.call_ok [OF ok1 c(1)] c(2) by auto
  have "wal_holds (se_wal ?c) [?r, stamped w1 (lr_commit 0 1 (last_lsn w1 1))] []" using c(3) by simp
  from sync_call [OF ok2 this] obtain e1 where s: "run_call Sync ?c = (Inr RUnit, e1)" "engine_ok e1 []"
    "se_btree e1 = se_btree ?c" "dm_pages (bp_disk (se_pool e1)) = bp_view (se_pool e1)"
    "wal_holds (se_wal e1) ([?r, stamped w1 (lr_commit 0 1 (last_lsn w1 1))] @ []) []" "wm_next_lsn (se_wal e1) = wm_next_lsn (se_wal ?c)" .
  have "run_calls [BeginTxn, CommitTxn 1, Sync] e0 = ([Inr (RTxn 1), Inr RUnit, Inr RUnit], e1)"
    using b(2) c(2) s(1) by (simp del: run_call.simps)
  from that [OF e0(1) this s(2)] s(3-6) b(4) c(4) e0(4,5) show thesis by simp
qed

lemma reopened_wal:
  assumes "reopened p e e1" and "wal_holds (se_wal e) ds []"
  shows "wal_holds (se_wal e1) ds []" "wm_next_lsn (se_wal e1) \<le> wm_next_lsn (se_wal e) \<or> wm_next_lsn (se_wal e1) = 1"
proof -
  have ok: "log_ok ds (wm_next_lsn (se_wal e))" and f: "wm_file (se_wal e) = log_bytes ds" using assms(2) by (simp_all add: wal_holds_def)
  from wal_open_ok [OF ok, of "p @ ''/wal.log''"] obtain w where w: "wal_open (p @ ''/wal.log'') (log_bytes ds) = Inr w"
    "wal_holds w ds []" "wm_next_lsn w = max_lsn 0 ds + 1" by blast
  have e1: "se_wal e1 = w" using w(1) f assms(1) by (simp add: reopened_def)
  with w(2) show "wal_holds (se_wal e1) ds []" by simp
  have "max_lsn 0 ds = 0 \<or> max_lsn 0 ds < wm_next_lsn (se_wal e)"
    using max_lsn_bounds(3) [of 0 ds] ok by (auto simp: log_ok_def)
  then show "wm_next_lsn (se_wal e1) \<le> wm_next_lsn (se_wal e) \<or> wm_next_lsn (se_wal e1) = 1"
    using e1 w(3) inc_le by auto
qed

lemma small_lsn: "(n :: lsn) \<le> 3 \<Longrightarrow> n \<noteq> - 1 \<and> n + 1 \<noteq> - 1"
proof -
  assume "n \<le> 3"
  then have n: "unat n \<le> 3" by (simp add: word_le_nat_alt)
  then have "unat (n + 1) = unat n + 1" by (simp add: unat_word_ariths(1))
  moreover have "unat (- 1 :: lsn) = 2 ^ 64 - 1" by (simp add: unsigned_minus_1_eq_mask mask_eq_exp_minus_1)
  ultimately have "unat n \<noteq> unat (- 1 :: lsn)" "unat (n + 1) \<noteq> unat (- 1 :: lsn)" using n by simp_all
  then show ?thesis by metis
qed

lemma begun_put_synced:
  assumes ok: "engine_ok e []" and tm: "se_txn_manager e = tm_new" and h: "wal_holds (se_wal e) ds []" and n: "wm_next_lsn (se_wal e) \<le> 3"
    and kv: "12 + length k + length v \<le> LEAF_CAPACITY"
  obtains e' w0 w1 c where "run_calls [BeginTxn, TxnPut 1 k v, Sync] e = ([Inr (RTxn 1), Inr RUnit, Inr RUnit], e')"
    "wal_holds (se_wal e') (ds @ [stamped w0 (lr_begin 0 1), stamped w1 (lr_page_write 0 1 c 0 k v)]) []"
proof -
  have n0: "wm_next_lsn (se_wal e) \<noteq> - 1" "wm_next_lsn (se_wal e) + 1 \<noteq> - 1" using small_lsn [OF n] by simp_all
  from begin_call [OF tm h n0(1)] obtain w1 where b: "call_fits e BeginTxn"
    "run_call BeginTxn e = (Inr (RTxn 1), e\<lparr>se_txn_manager := one_active, se_wal := w1\<rparr>)"
    "wal_holds w1 ds ([] @ [stamped (se_wal e) (lr_begin 0 1)])" "wm_next_lsn w1 = wm_next_lsn (se_wal e) + 1" .
  let ?b = "e\<lparr>se_txn_manager := one_active, se_wal := w1\<rparr>" and ?r = "stamped (se_wal e) (lr_begin 0 1)"
  have ok1: "engine_ok ?b []" using tree_engine.call_ok [OF ok b(1)] b(2) by auto
  have h1: "leaf_size [] + 12 + length k + length v \<le> LEAF_CAPACITY" "wal_holds (se_wal ?b) ds [?r]" "wm_next_lsn (se_wal ?b) \<noteq> - 1"
    "tm_next_txn_id (se_txn_manager ?b) \<noteq> - 1" using b(3,4) n0(2) kv by simp_all
  from txn_put_call [OF ok1 h1, of 1] obtain w2 bp where c: "call_fits ?b (TxnPut 1 k v)"
    "run_call (TxnPut 1 k v) ?b = (Inr RUnit, ?b\<lparr>se_wal := w2, se_pool := bp\<rparr>)"
    "wal_holds w2 ds ([?r] @ [stamped (se_wal ?b) (lr_page_write 0 1 (last_lsn (se_wal ?b) 1) 0 k v)])" .
  let ?c = "?b\<lparr>se_wal := w2, se_pool := bp\<rparr>"
  have ok2: "engine_ok ?c (kv_insert k v [])" using tree_engine.call_ok [OF ok1 c(1)] c(2) by auto
  have "wal_holds (se_wal ?c) ds [?r, stamped w1 (lr_page_write 0 1 (last_lsn w1 1) 0 k v)]" using c(3) by simp
  from sync_call [OF ok2 this] obtain e' where s: "run_call Sync ?c = (Inr RUnit, e')"
    "wal_holds (se_wal e') (ds @ [?r, stamped w1 (lr_page_write 0 1 (last_lsn w1 1) 0 k v)]) []" .
  have "run_calls [BeginTxn, TxnPut 1 k v, Sync] e = ([Inr (RTxn 1), Inr RUnit, Inr RUnit], e')"
    using b(2) c(2) s(1) by (simp del: run_call.simps)
  with that s(2) show thesis by blast
qed

lemma empty_txn_plan:
  "recover_records [stamped w0 (lr_begin 0 t), stamped w1 (lr_commit 0 t c)]
    = Inr \<lparr>ra_redo = [], ra_undo = [], ra_committed_txns = {t}, ra_aborted_txns = {}\<rparr>"
  by (simp add: recover_records_def collect_def analyse_def stamped_def lr_begin_def lr_commit_def)

lemma stale_commit_plan:
  assumes "length k < 2 ^ 32"
  shows "recover_records [stamped w0 (lr_begin 0 t), stamped w1 (lr_commit 0 t c), stamped w2 (lr_begin 0 t), stamped w3 (lr_page_write 0 t d 0 k v)]
    = Inr \<lparr>ra_redo = [(0, v)], ra_undo = [(0, k)], ra_committed_txns = {t}, ra_aborted_txns = {t}\<rparr>"
  by (simp add: recover_records_def collect_def analyse_def stamped_begin stamped_commit stamped_page_write [OF assms])

section \<open>Property\<close>

text \<open>
  C32. Recovery takes an unfinished transaction for a committed one. A process begins a transaction,
  commits it without writes and syncs; the next process opens the same files, its first transaction
  gets the number 1 again, puts an entry and is never committed. Recovery from the log that this leaves
  counts transaction 1 as committed and as unfinished at once, and redoes its write.
\<close>

theorem stale_commit_redone:
  assumes "12 + length k + length v \<le> LEAF_CAPACITY"
  shows "\<exists>e0 e1 e2 e3. engine_open p [] [] = Inr e0
    \<and> run_calls [BeginTxn, CommitTxn 1, Sync] e0 = ([Inr (RTxn 1), Inr RUnit, Inr RUnit], e1)
    \<and> engine_open p (dm_file (bp_disk (se_pool e1))) (wm_file (se_wal e1)) = Inr e2
    \<and> run_calls [BeginTxn, TxnPut 1 k v, Sync] e2 = ([Inr (RTxn 1), Inr RUnit, Inr RUnit], e3)
    \<and> wal_recover (se_wal e3)
        = Inr \<lparr>ra_redo = [(0, v)], ra_undo = [(0, k)], ra_committed_txns = {1}, ra_aborted_txns = {1}\<rparr>"
proof (rule empty_txn_synced [of p])
  fix e0 e1 w0 w1 c
  let ?ds = "[stamped w0 (lr_begin 0 1), stamped w1 (lr_commit 0 1 c)]"
  assume 1: "engine_open p [] [] = Inr e0"
    "run_calls [BeginTxn, CommitTxn 1, Sync] e0 = ([Inr (RTxn 1), Inr RUnit, Inr RUnit], e1)" "engine_ok e1 []"
    "root_page_id (se_btree e1) = 0" "dm_pages (bp_disk (se_pool e1)) = bp_view (se_pool e1)"
    "wal_holds (se_wal e1) ?ds []" "wm_next_lsn (se_wal e1) = 3"
  have plan: "wal_recover (se_wal e1) = Inr \<lparr>ra_redo = [], ra_undo = [], ra_committed_txns = {1}, ra_aborted_txns = {}\<rparr>"
    using wal_recover_log [OF 1(6)] empty_txn_plan by simp
  from reopen_clean [OF 1(3,5) plan, of p] obtain e2 where 2: "reopened p e1 e2"
    "engine_open p (dm_file (bp_disk (se_pool e1))) (wm_file (se_wal e1)) = Inr e2" by auto
  have ok: "engine_ok e2 []" by (rule reopened_engine_ok [OF 2(1) 1(3,4)])
  have tm: "se_txn_manager e2 = tm_new" using 2(1) by (simp add: reopened_def)
  have n: "wm_next_lsn (se_wal e2) \<le> 3" using reopened_wal(2) [OF 2(1) 1(6)] 1(7) by auto
  from begun_put_synced [OF ok tm reopened_wal(1) [OF 2(1) 1(6)] n assms] obtain e3 w2 w3 d where
    3: "run_calls [BeginTxn, TxnPut 1 k v, Sync] e2 = ([Inr (RTxn 1), Inr RUnit, Inr RUnit], e3)"
      "wal_holds (se_wal e3) (?ds @ [stamped w2 (lr_begin 0 1), stamped w3 (lr_page_write 0 1 d 0 k v)]) []" .
  have "length k < 2 ^ 32" using assms by simp
  from stale_commit_plan [OF this, of w0 1 w1 c w2 w3 d v] wal_recover_log [OF 3(2)] 1(1,2) 2(2) 3(1) show ?thesis by auto
qed

theorem stale_commit_redone_witness:
  "\<exists>e e1. run_calls [BeginTxn, TxnPut 1 [9] [7], Sync] e = ([Inr (RTxn 1), Inr RUnit, Inr RUnit], e1)
    \<and> wal_recover (se_wal e1) = Inr \<lparr>ra_redo = [(0, [7])], ra_undo = [(0, [9])], ra_committed_txns = {1}, ra_aborted_txns = {1}\<rparr>"
proof -
  have "12 + length ([9] :: key) + length ([7] :: bytes) \<le> LEAF_CAPACITY" by simp
  from stale_commit_redone [OF this] show ?thesis by blast
qed

end
