(* ===== verification/Replay.thy ===== *)
theory Replay
  imports Stale
begin

text \<open>
  Recovery of a committed transactional put: the calls of the transaction, the records they leave in the log, and what
  the next process does with them when it opens the files.
\<close>

section \<open>A committed put\<close>

lemma lsn_room: "(n :: lsn) < - 3 \<Longrightarrow> n \<noteq> - 1 \<and> n + 1 \<noteq> - 1 \<and> n + 1 + 1 \<noteq> - 1"
proof -
  assume n: "n < - 3"
  have "n \<noteq> - 1" using n by auto
  moreover have "n + 1 \<noteq> - 1"
  proof
    assume "n + 1 = - 1"
    then have "n = - 2" by (simp add: eq_diff_eq [symmetric])
    with n show False by simp
  qed
  moreover have "n + 1 + 1 \<noteq> - 1"
  proof
    assume "n + 1 + 1 = - 1"
    then have "n = - 1 - 1 - 1" by (metis add_diff_cancel_right')
    with n show False by simp
  qed
  ultimately show ?thesis by blast
qed

lemma committed_put_synced:
  assumes ok: "engine_ok e es" and tm: "se_txn_manager e = tm_new" and h: "wal_holds (se_wal e) [] []" and n: "wm_next_lsn (se_wal e) < - 3"
    and kv: "leaf_size es + 12 + length k + length v \<le> LEAF_CAPACITY"
  obtains e' acts where
    "run_calls [BeginTxn, TxnPut 1 k v, CommitTxn 1, Sync] e = ([Inr (RTxn 1), Inr RUnit, Inr RUnit, Inr RUnit], e')"
    "engine_ok e' (kv_insert k v es)" "dm_pages (bp_disk (se_pool e')) = bp_view (se_pool e')" "se_btree e' = se_btree e"
    "wal_recover (se_wal e') = Inr acts" "ra_redo acts = [(0, v)]" "ra_undo acts = []"
proof -
  note n0 = lsn_room [OF n]
  from begin_call [OF tm h conjunct1 [OF n0]] obtain w1 where b: "call_fits e BeginTxn"
    "run_call BeginTxn e = (Inr (RTxn 1), e\<lparr>se_txn_manager := one_active, se_wal := w1\<rparr>)"
    "wal_holds w1 [] ([] @ [stamped (se_wal e) (lr_begin 0 1)])" "wm_next_lsn w1 = wm_next_lsn (se_wal e) + 1" .
  let ?b = "e\<lparr>se_txn_manager := one_active, se_wal := w1\<rparr>" and ?r = "stamped (se_wal e) (lr_begin 0 1)"
  have ok1: "engine_ok ?b es" using tree_engine.call_ok [OF ok b(1)] b(2) by auto
  have h1: "wal_holds (se_wal ?b) [] [?r]" "wm_next_lsn (se_wal ?b) \<noteq> - 1" "tm_next_txn_id (se_txn_manager ?b) \<noteq> - 1"
    using b(3,4) n0 by simp_all
  from txn_put_call [OF ok1 kv h1, of 1] obtain w2 bp where c: "call_fits ?b (TxnPut 1 k v)"
    "run_call (TxnPut 1 k v) ?b = (Inr RUnit, ?b\<lparr>se_wal := w2, se_pool := bp\<rparr>)"
    "wal_holds w2 [] ([?r] @ [stamped (se_wal ?b) (lr_page_write 0 1 (last_lsn (se_wal ?b) 1) 0 k v)])"
    "wm_next_lsn w2 = wm_next_lsn (se_wal ?b) + 1" .
  let ?c = "?b\<lparr>se_wal := w2, se_pool := bp\<rparr>" and ?q = "stamped w1 (lr_page_write 0 1 (last_lsn w1 1) 0 k v)"
  have ok2: "engine_ok ?c (kv_insert k v es)" using tree_engine.call_ok [OF ok1 c(1)] c(2) by auto
  have h2: "se_txn_manager ?c = one_active" "wal_holds (se_wal ?c) [] [?r, ?q]" "wm_next_lsn (se_wal ?c) \<noteq> - 1"
    using b(4) c(3,4) n0 by simp_all
  from commit_call [OF h2] obtain w3 where d: "call_fits ?c (CommitTxn 1)"
    "run_call (CommitTxn 1) ?c = (Inr RUnit, ?c\<lparr>se_txn_manager := ended 1 one_active, se_wal := w3\<rparr>)"
    "wal_holds w3 ([] @ [?r, ?q] @ [stamped (se_wal ?c) (lr_commit 0 1 (last_lsn (se_wal ?c) 1))]) []" .
  let ?d = "?c\<lparr>se_txn_manager := ended 1 one_active, se_wal := w3\<rparr>" and ?e = "stamped w2 (lr_commit 0 1 (last_lsn w2 1))"
  have ok3: "engine_ok ?d (kv_insert k v es)" using tree_engine.call_ok [OF ok2 d(1)] d(2) by auto
  have h3: "wal_holds (se_wal ?d) [?r, ?q, ?e] []" using d(3) by simp
  from sync_call [OF ok3 h3] obtain e' where s: "run_call Sync ?d = (Inr RUnit, e')" "engine_ok e' (kv_insert k v es)"
    "se_btree e' = se_btree ?d" "dm_pages (bp_disk (se_pool e')) = bp_view (se_pool e')" "wal_holds (se_wal e') ([?r, ?q, ?e] @ []) []" .
  have run: "run_calls [BeginTxn, TxnPut 1 k v, CommitTxn 1, Sync] e = ([Inr (RTxn 1), Inr RUnit, Inr RUnit, Inr RUnit], e')"
    using b(2) c(2) d(2) s(1) by (simp del: run_call.simps)
  have "12 + length k + length v \<le> LEAF_CAPACITY" using kv by simp
  with wal_recover_log [OF s(5)] have plan: "wal_recover (se_wal e')
      = Inr \<lparr>ra_redo = [(0, v)], ra_undo = [], ra_committed_txns = {1}, ra_aborted_txns = {}\<rparr>"
    using committed_write_plan [of k] by simp
  show thesis by (rule that [OF run s(2,4) _ plan]) (use s(3) in simp_all)
qed

text \<open>What recovery does to the root when the plan is to write to page 0.\<close>

lemma redo_overwrites_root:
  assumes ok: "engine_ok e es" and durable: "dm_pages (bp_disk (se_pool e)) = bp_view (se_pool e)" and root: "root_page_id (se_btree e) = 0"
    and acts: "wal_recover (se_wal e) = Inr acts" "ra_redo acts = [(0, v)]" "ra_undo acts = []"
  shows "\<exists>e2 b. bp_view (se_pool e) 0 = Some b
    \<and> engine_open p (dm_file (bp_disk (se_pool e))) (wm_file (se_wal e)) = Inr e2
    \<and> root_page_id (se_btree e2) = 0 \<and> bp_view (se_pool e2) 0 = Some (wr b 0 (take PAGE_SIZE v))
    \<and> (5 \<le> length v \<and> v ! 4 \<noteq> 3 \<longrightarrow> (\<forall>nd. bp_view (se_pool e2) 0 = Some (pg_data nd) \<longrightarrow> \<not> is_leaf nd))"
proof -
  from reopen_ok [OF ok durable, of p] obtain e1 where e1: "reopened p e e1" ..
  then have q: "pool_quiet (se_pool e1)" and rec: "wal_recover (se_wal e1) = Inr acts"
    using acts(1) by (simp_all add: reopened_def wal_recover_def)
  have some: "ra_redo acts \<noteq> [] \<or> ra_undo acts \<noteq> []" using acts(2) by simp
  from recover_ok [OF q rec some] obtain e2 where e2: "engine_recover e1 = (Inr (), e2)"
    "bp_view (se_pool e2) = overlay_view (bp_count (se_pool e1)) (0, v) (bp_view (se_pool e1))" "se_btree e2 = se_btree e1"
    using acts(2,3) by auto
  have op: "engine_open p (dm_file (bp_disk (se_pool e))) (wm_file (se_wal e)) = Inr e2"
    using e1 e2(1) by (simp add: reopened_def)
  from ok root obtain t where t: "tree_ok (se_pool e) t" "root_id t = 0" by (auto simp: engine_ok_def index_def)
  then obtain b where b: "bp_view (se_pool e) 0 = Some b" using rep_root by (fastforce simp: tree_ok_def)
  have len: "length b = 4096" using pool.view_length [of "se_pool e" 0 b] t(1) b by (simp add: tree_ok_def)
  have v1: "bp_view (se_pool e1) 0 = Some b" using b e1 by (simp add: reopened_def)
  then have "0 < bp_count (se_pool e1)" using pool.view_dom [OF q, of 0] by simp
  with e2(2) v1 have v2: "bp_view (se_pool e2) 0 = Some (wr b 0 (take PAGE_SIZE v))" by (simp add: overlay_view_def)
  have "\<not> is_leaf nd" if "5 \<le> length v" "v ! 4 \<noteq> 3" "pg_data nd = wr b 0 (take PAGE_SIZE v)" for nd
  proof -
    have "pg_data nd ! 4 = v ! 4" using that(1) len by (simp add: that(3) nth_wr)
    with that(2) show ?thesis by (simp add: is_leaf_def get_page_type_def page_type_from_def)
  qed
  moreover have "root_page_id (se_btree e2) = 0" using e1 e2(3) by (simp add: reopened_def bt_open_def)
  ultimately show ?thesis using op b v2 by (intro exI [of _ e2] exI [of _ b]) auto
qed

end
