(* ===== verification/Crash.thy ===== *)
theory Crash
  imports History
begin

text \<open>
  Crashes during recovery. A crash stops recovery between two of its steps, each of which writes to one
  file at most; what is left are the two files, and the next process starts recovery again from
  them. This can happen any number of times. \<open>mixed\<close> is what such crashes leave of the pages: each of them
  has some images of the plan on it, as eviction and flushing have written it.
\<close>

section \<open>Crashes\<close>

definition files :: "storage_engine \<Rightarrow> bytes \<times> bytes" where
  "files e = (dm_file (bp_disk (se_pool e)), wm_file (se_wal e))"

inductive crashed :: "string \<Rightarrow> bytes \<times> bytes \<Rightarrow> bytes \<times> bytes \<Rightarrow> bool" for p f0 where
  start: "crashed p f0 f0"
| crash: "crashed p f0 (d, w) \<Longrightarrow> engine_load p d w = Inr e \<Longrightarrow> runS (take k (recover_steps e)) e = (r, e') \<Longrightarrow> crashed p f0 (files e')"

section \<open>Pages with some of the images\<close>

definition mixed :: "u32 \<Rightarrow> (u32 \<times> bytes) list \<Rightarrow> (page_id \<rightharpoonup> bytes) \<Rightarrow> (page_id \<rightharpoonup> bytes) \<Rightarrow> bool" where
  "mixed n as v0 v \<longleftrightarrow> (\<forall>p. \<exists>t. set t \<subseteq> set as \<and> v p = fold (overlay_view n) t v0 p)"

lemma mixed_refl [simp]: "mixed n as v v"
  unfolding mixed_def by (intro allI exI [of _ "[]"]) simp

lemma mixed_some: "mixed n as v0 v \<Longrightarrow> \<forall>p. v' p = v p \<or> v' p = u p \<Longrightarrow> mixed n as v0 u \<Longrightarrow> mixed n as v0 v'"
  unfolding mixed_def by metis

lemma mixed_overlay:
  assumes "mixed n as v0 v" and "a \<in> set as"
  shows "mixed n as v0 (overlay_view n a v)"
  unfolding mixed_def
proof
  fix p
  from assms(1) obtain t where t: "set t \<subseteq> set as" "v p = fold (overlay_view n) t v0 p" unfolding mixed_def by blast
  have "overlay_view n a v p = fold (overlay_view n) (t @ [a]) v0 p"
    using overlays_local [of v p "fold (overlay_view n) t v0" n "[a]"] t(2) by simp
  with t(1) assms(2) show "\<exists>t. set t \<subseteq> set as \<and> overlay_view n a v p = fold (overlay_view n) t v0 p"
    by (intro exI [of _ "t @ [a]"]) simp
qed

lemma mixed_again:
  assumes "mixed n as v0 v" and "views_pages v0"
  shows "fold (overlay_view n) as v = fold (overlay_view n) as v0"
proof
  fix p
  from assms(1) obtain t where t: "set t \<subseteq> set as" "v p = fold (overlay_view n) t v0 p" unfolding mixed_def by blast
  from overlays_local [of v p "fold (overlay_view n) t v0" n as] t(2) overlays_again [OF t(1) assms(2)]
  show "fold (overlay_view n) as v p = fold (overlay_view n) as v0 p" by simp
qed

section \<open>The steps keep pages mixed\<close>

definition recovering :: "u32 \<Rightarrow> nat \<Rightarrow> (u32 \<times> bytes) list \<Rightarrow> (page_id \<rightharpoonup> bytes) \<Rightarrow> buffer_pool \<Rightarrow> bool" where
  "recovering n c as v0 bp \<longleftrightarrow> pool_quiet bp \<and> bp_count bp = n \<and> bp_capacity bp = c
     \<and> mixed n as v0 (bp_view bp) \<and> mixed n as v0 (dm_pages (bp_disk bp))"

lemma apply_spills:
  assumes "pool_inv bp"
  shows "spills bp (snd (apply_image n a bp))"
  using update_spills [OF assms] by (simp add: apply_image_def case_prod_beta spills_def)

lemma apply_recovering:
  assumes "a \<in> set as" and "recovering n c as v0 bp"
  shows "\<exists>bp'. apply_image n a bp = (Inr (), bp') \<and> recovering n c as v0 bp'"
proof -
  have bp: "pool_quiet bp" "n = bp_count bp" "mixed n as v0 (bp_view bp)" "mixed n as v0 (dm_pages (bp_disk bp))"
    using assms(2) by (simp_all add: recovering_def)
  from apply_image_ok [OF bp(1,2), of a] obtain bp' where bp': "apply_image n a bp = (Inr (), bp')" "pool_quiet bp'"
    "bp_count bp' = bp_count bp" "bp_view bp' = overlay_view n a (bp_view bp)" "bp_capacity bp' = bp_capacity bp" by blast
  have "spills bp bp'" using apply_spills [of bp n a] bp(1) bp'(1) by (simp add: pool_quiet_def)
  then have "mixed n as v0 (dm_pages (bp_disk bp'))" using mixed_some [OF bp(4) _ bp(3)] by (simp add: spills_def)
  then show ?thesis using bp' mixed_overlay [OF bp(3) assms(1)] assms(2) by (auto simp: recovering_def)
qed

lemma flush_frame_recovering:
  assumes "i < c" and "recovering n c as v0 bp"
  shows "\<exists>bp'. flush_frame i bp = (Inr (), bp') \<and> recovering n c as v0 bp'"
proof -
  have bp: "pool_quiet bp" "pool_inv bp" "i < bp_capacity bp" "mixed n as v0 (bp_view bp)" "mixed n as v0 (dm_pages (bp_disk bp))"
    using assms by (simp_all add: recovering_def pool_quiet_def)
  show ?thesis
  proof (rule flush_frame_ok [OF bp(2,3)])
    fix bp' assume bp': "flush_frame i bp = (Inr (), bp')" "moves bp bp' (bp_view bp) (bp_pins bp)"
      "dm_num_pages (bp_disk bp') = dm_num_pages (bp_disk bp)"
    have "spills bp bp'" using flush_frame_spills [OF bp(2,3)] bp'(1) by simp
    then have "mixed n as v0 (dm_pages (bp_disk bp'))" using mixed_some [OF bp(5) _ bp(4)] by (simp add: spills_def)
    then show ?thesis using bp' bp(1) assms(2) by (auto simp: recovering_def moves_def pool_quiet_def bp_count_def)
  qed
qed

lemma sync_recovering: "recovering n c as v0 bp \<Longrightarrow> \<exists>bp'. on_disk dm_sync bp = (Inr (), bp') \<and> recovering n c as v0 bp'"
  by (simp add: on_disk_def dm_sync_def)

lemma pool_steps_recovering:
  assumes "set ms \<subseteq> apply_image n ` set as \<union> set (flush_steps bp)" and "recovering n (bp_capacity bp) as v0 s"
  shows "\<exists>s'. runS ms s = (Inr (), s') \<and> recovering n (bp_capacity bp) as v0 s'"
proof (rule runS_invariant [where I = "recovering n (bp_capacity bp) as v0", OF _ assms(2)])
  fix m s assume m: "m \<in> set ms" and s: "recovering n (bp_capacity bp) as v0 s"
  from m assms(1) consider a where "a \<in> set as" "m = apply_image n a" | i where "i < bp_capacity bp" "m = flush_frame i"
    | "m = on_disk dm_sync" by (auto simp: flush_steps_def)
  then show "\<exists>s'. m s = (Inr (), s') \<and> recovering n (bp_capacity bp) as v0 s'"
    using apply_recovering [OF _ s] flush_frame_recovering [OF _ s] sync_recovering [OF s] by cases auto
qed

section \<open>The files after a crash\<close>

text \<open>Either recovery has still to be done, on mixed pages, or it is done and the log is empty.\<close>

definition left_by :: "disk_manager \<Rightarrow> bytes \<Rightarrow> (u32 \<times> bytes) list \<Rightarrow> bytes \<times> bytes \<Rightarrow> bool" where
  "left_by d0 w0 as f \<longleftrightarrow> (\<exists>d. fst f = dm_file d \<and> dm_inv d \<and> dm_num_pages d = dm_num_pages d0
     \<and> (snd f = w0 \<and> mixed (dm_num_pages d0) as (dm_pages d0) (dm_pages d)
       \<or> snd f = [] \<and> dm_pages d = fold (overlay_view (dm_num_pages d0)) as (dm_pages d0)))"

lemma loaded_files:
  assumes "dm_inv d" and "dm_num_pages d \<noteq> 0" and "engine_load p (dm_file d) w = Inr e"
  shows "pool_quiet (se_pool e)" "bp_view (se_pool e) = dm_pages d" "bp_count (se_pool e) = dm_num_pages d"
    "bp_disk (se_pool e) = dm_open (p @ ''/data.db'') (dm_file d)" "se_btree e = bt_open 0" "wm_file (se_wal e) = w"
proof -
  note re = dm_reopen [OF assms(1), of "p @ ''/data.db''"]
  from assms(2,3) re(3) obtain w' where w': "wal_open (p @ ''/wal.log'') w = Inr w'" and
    e: "e = \<lparr>se_btree = bt_open 0, se_pool = bp_new (dm_open (p @ ''/data.db'') (dm_file d)) DEFAULT_POOL_CAPACITY,
      se_wal = w', se_txn_manager = tm_new, se_db_path = p\<rparr>"
    by (auto simp: engine_load_def bindE_eq_Inr Let_def)
  show "pool_quiet (se_pool e)" "bp_view (se_pool e) = dm_pages d" "bp_count (se_pool e) = dm_num_pages d"
    using new_pool_quiet [OF re(1)] re(2,3) by (simp_all add: e)
  show "bp_disk (se_pool e) = dm_open (p @ ''/data.db'') (dm_file d)" "se_btree e = bt_open 0" by (simp_all add: e bp_new_def)
  show "wm_file (se_wal e) = w" using w' by (auto simp: e wal_open_def bindE_eq_Inr Let_def)
qed

lemma recover_same_file: "wm_file w = wm_file w' \<Longrightarrow> wal_recover w = wal_recover w'"
  by (simp add: wal_recover_def)

text \<open>A recovery that is cut short before the truncation leaves the log and mixed pages.\<close>

lemma cut_short:
  assumes d: "dm_inv d" "dm_num_pages d \<noteq> 0" and l: "engine_load p (dm_file d) (wm_file w) = Inr e"
    and acts: "wal_recover w = Inr acts" and some: "ra_redo acts \<noteq> [] \<or> ra_undo acts \<noteq> []"
    and mix: "mixed (dm_num_pages d) (ra_redo acts @ ra_undo acts) v0 (dm_pages d)"
    and k: "k < length (recover_steps e)" and run: "runS (take k (recover_steps e)) e = (r, e')"
  shows "wm_file (se_wal e') = wm_file w" "dm_inv (bp_disk (se_pool e'))" "dm_num_pages (bp_disk (se_pool e')) = dm_num_pages d"
    "mixed (dm_num_pages d) (ra_redo acts @ ra_undo acts) v0 (dm_pages (bp_disk (se_pool e')))"
proof -
  let ?n = "dm_num_pages d" and ?as = "ra_redo acts @ ra_undo acts"
  note lf = loaded_files [OF d l]
  let ?ms = "map (apply_image ?n) ?as @ flush_steps (se_pool e)"
  have "wal_recover (se_wal e) = Inr acts" using recover_same_file [OF lf(6)] acts by simp
  moreover have "dm_num_pages (bp_disk (se_pool e)) = ?n" using lf(3) by (simp add: bp_count_def)
  ultimately have steps: "recover_steps e = map on_pool ?ms @ [on_wal wal_truncate]"
    using some by (auto simp: recover_steps_def Let_def)
  have "set (take k ?ms) \<subseteq> set ?ms" by (rule set_take_subset)
  then have sub: "set (take k ?ms) \<subseteq> apply_image ?n ` set ?as \<union> set (flush_steps (se_pool e))" by auto
  have "recovering ?n (bp_capacity (se_pool e)) ?as v0 (se_pool e)"
    using lf(1-4) mix dm_reopen(2) [OF d(1)] by (simp add: recovering_def)
  from pool_steps_recovering [OF sub this] obtain bp' where
    bp': "runS (take k ?ms) (se_pool e) = (Inr (), bp')" "recovering ?n (bp_capacity (se_pool e)) ?as v0 bp'" by blast
  have "k \<le> length (map on_pool ?ms)" using k unfolding steps by simp
  then have "take k (recover_steps e) = take k (map on_pool ?ms)" unfolding steps by simp
  then have "take k (recover_steps e) = map on_pool (take k ?ms)" unfolding take_map .
  then have "on_pool (runS (take k ?ms)) e = (r, e')" using run by (simp only: on_pool_run)
  then have "e' = e\<lparr>se_pool := bp'\<rparr>" unfolding on_pool_def bp'(1) by simp
  with bp'(2) lf(6) show "wm_file (se_wal e') = wm_file w" "dm_inv (bp_disk (se_pool e'))" "dm_num_pages (bp_disk (se_pool e')) = ?n"
    "mixed ?n ?as v0 (dm_pages (bp_disk (se_pool e')))"
    by (simp_all add: recovering_def pool_quiet_def pool_inv_def bp_count_def)
qed

lemma no_steps: "runS (take k []) e = (r, e') \<Longrightarrow> e' = e"
  by (simp add: runS_def)

lemma nothing_to_do:
  assumes "dm_inv d" and "dm_num_pages d \<noteq> 0" and "engine_load p (dm_file d) w = Inr e"
    and "wal_recover (se_wal e) = Inr acts" and "ra_redo acts = []" and "ra_undo acts = []" and "runS (take k (recover_steps e)) e = (r, e')"
  shows "files e' = (dm_file d, w)"
proof -
  have "recover_steps e = []" using assms(4-6) by (simp add: recover_steps_def)
  then have "e' = e" using assms(7) no_steps by metis
  then show ?thesis using loaded_files(4,6) [OF assms(1-3)] by (simp add: files_def dm_open_def Let_def)
qed

lemma crashed_left:
  assumes d0: "dm_inv d0" "dm_num_pages d0 \<noteq> 0" and acts: "wal_recover w0 = Inr acts" and c: "crashed p (dm_file d0, wm_file w0) f"
  shows "left_by d0 (wm_file w0) (ra_redo acts @ ra_undo acts) f"
  using c
proof (induction rule: crashed.induct)
  case start
  show ?case using d0(1) unfolding left_by_def by (intro exI [of _ d0]) simp
next
  case (crash d w e k r e')
  let ?as = "ra_redo acts @ ra_undo acts" and ?n = "dm_num_pages d0"
  from crash(4) obtain dm where dm: "d = dm_file dm" "dm_inv dm" "dm_num_pages dm = ?n"
    and alt: "w = wm_file w0 \<and> mixed ?n ?as (dm_pages d0) (dm_pages dm)
      \<or> w = [] \<and> dm_pages dm = fold (overlay_view ?n) ?as (dm_pages d0)" by (auto simp: left_by_def)
  have n: "dm_num_pages dm \<noteq> 0" using dm(3) d0(2) by simp
  note l = crash(2) [unfolded dm(1)]
  note lf = loaded_files [OF dm(2) n l]
  show ?case
  proof (cases "w = wm_file w0 \<and> mixed ?n ?as (dm_pages d0) (dm_pages dm) \<and> ?as \<noteq> []")
    case False
    obtain acts' where "wal_recover (se_wal e) = Inr acts'" "ra_redo acts' = []" "ra_undo acts' = []"
      using alt False recover_empty_log [of "se_wal e"] recover_same_file [of "se_wal e" w0] lf(6) acts by auto
    from nothing_to_do [OF dm(2) n l this crash(3)] crash(4) dm(1) show ?thesis by simp
  next
    case True
    then have w: "w = wm_file w0" and mix: "mixed (dm_num_pages dm) ?as (dm_pages d0) (dm_pages dm)"
      and some: "ra_redo acts \<noteq> [] \<or> ra_undo acts \<noteq> []" using dm(3) by auto
    show ?thesis
    proof (cases "k < length (recover_steps e)")
      case True
      from cut_short [OF dm(2) n l [unfolded w] acts some mix True crash(3)] dm(3) show ?thesis
        unfolding left_by_def files_def by (intro exI [of _ "bp_disk (se_pool e')"]) simp
    next
      case False
      then have run: "engine_recover e = (r, e')" using crash(3) by (simp add: engine_recover_def)
      have a: "wal_recover (se_wal e) = Inr acts" using recover_same_file [of "se_wal e" w0] lf(6) w acts by simp
      have "views_pages (dm_pages d0)" using disk.pages_length [OF d0(1)] by (auto simp: views_pages_def)
      with recover_ok [OF lf(1) a some] run lf(2,3) dm(3) mixed_again [of ?n ?as "dm_pages d0" "dm_pages dm"] mix
      show ?thesis unfolding left_by_def files_def
        by (intro exI [of _ "bp_disk (se_pool e')"]) (auto simp: pool_quiet_def pool_inv_def bp_count_def)
    qed
  qed
qed

lemma load_left:
  assumes "wal_reach w0" and "dm_inv d" and "dm_num_pages d \<noteq> 0" and "w = wm_file w0 \<or> w = []"
  obtains e where "engine_load p (dm_file d) w = Inr e"
proof -
  obtain w' where "wal_open (p @ ''/wal.log'') w = Inr w'"
    using assms(4) wal_reopen [OF assms(1), of "p @ ''/wal.log''"] wal_open_fresh [of "p @ ''/wal.log''"] by metis
  with that dm_reopen(3) [OF assms(2), of "p @ ''/data.db''"] assms(3) show thesis by (simp add: engine_load_def Let_def)
qed

section \<open>Property\<close>

text \<open>
  C20. Recovery survives crashes during recovery. Take any database file of whole pages and any log that the log
  manager can have written, and let recovery be stopped between any two of its steps, any number of
  times: opening what is left ends with the pages of the first file with the images of the plan on
  them, the redo images in log order and then the undo images, as a recovery that was never stopped
  does; these pages are on disk, and the log is empty if there was anything to do.
\<close>

theorem recovery_restartable:
  assumes "dm_inv d" and "dm_num_pages d \<noteq> 0" and "wal_reach w" and "wal_recover w = Inr acts"
    and "crashed p (dm_file d, wm_file w) (d', w')"
  shows "\<exists>e. engine_open p d' w' = Inr e \<and> root_page_id (se_btree e) = 0
    \<and> bp_view (se_pool e) = fold (overlay_view (dm_num_pages d)) (ra_redo acts @ ra_undo acts) (dm_pages d)
    \<and> dm_pages (bp_disk (se_pool e)) = bp_view (se_pool e)
    \<and> (ra_redo acts = [] \<and> ra_undo acts = [] \<or> wm_file (se_wal e) = [])"
proof -
  let ?as = "ra_redo acts @ ra_undo acts" and ?n = "dm_num_pages d"
  from crashed_left [OF assms(1,2,4,5)] obtain dm where dm: "d' = dm_file dm" "dm_inv dm" "dm_num_pages dm = ?n"
    and alt: "w' = wm_file w \<and> mixed ?n ?as (dm_pages d) (dm_pages dm)
      \<or> w' = [] \<and> dm_pages dm = fold (overlay_view ?n) ?as (dm_pages d)" by (auto simp: left_by_def)
  have n: "dm_num_pages dm \<noteq> 0" using dm(3) assms(2) by simp
  from load_left [OF assms(3) dm(2) n, of w' p] alt obtain e where l: "engine_load p (dm_file dm) w' = Inr e" by auto
  note lf = loaded_files [OF dm(2) n l]
  have op: "engine_open p d' w' = (case engine_recover e of (Inl x, _) \<Rightarrow> Inl x | (Inr _, e') \<Rightarrow> Inr e')"
    using l dm(1) by (simp add: engine_open_def)
  have v: "views_pages (dm_pages d)" using disk.pages_length [OF assms(1)] by (auto simp: views_pages_def)
  show ?thesis
  proof (cases "w' = wm_file w \<and> mixed ?n ?as (dm_pages d) (dm_pages dm) \<and> ?as \<noteq> []")
    case False
    obtain acts' where a: "wal_recover (se_wal e) = Inr acts'" "ra_redo acts' = []" "ra_undo acts' = []"
      using alt False recover_empty_log [of "se_wal e"] recover_same_file [of "se_wal e" w] lf(6) assms(4) by auto
    have "fold (overlay_view ?n) ?as (dm_pages dm) = fold (overlay_view ?n) ?as (dm_pages d)" if "mixed ?n ?as (dm_pages d) (dm_pages dm)"
      using mixed_again [OF that v] .
    then have "dm_pages dm = fold (overlay_view ?n) ?as (dm_pages d)" using alt False by (cases "?as = []") auto
    then have "bp_view (se_pool e) = fold (overlay_view ?n) ?as (dm_pages d)" using lf(2) by simp
    moreover have "engine_open p d' w' = Inr e" using op recover_nothing [OF a] by simp
    moreover have "root_page_id (se_btree e) = 0" using lf(5) by (simp add: bt_open_def)
    moreover have "dm_pages (bp_disk (se_pool e)) = bp_view (se_pool e)" using lf(2,4) dm_reopen(2) [OF dm(2)] by simp
    moreover have "ra_redo acts = [] \<and> ra_undo acts = [] \<or> wm_file (se_wal e) = []" using alt False lf(6) by auto
    ultimately show ?thesis by blast
  next
    case True
    have a: "wal_recover (se_wal e) = Inr acts" using recover_same_file [of "se_wal e" w] lf(6) True assms(4) by simp
    have "ra_redo acts \<noteq> [] \<or> ra_undo acts \<noteq> []" using True by auto
    from recover_ok [OF lf(1) a this] obtain e1 where e1: "engine_recover e = (Inr (), e1)"
      "bp_view (se_pool e1) = fold (overlay_view ?n) ?as (dm_pages dm)" "dm_pages (bp_disk (se_pool e1)) = bp_view (se_pool e1)"
      "wm_file (se_wal e1) = []" "se_btree e1 = se_btree e" unfolding lf(2,3) dm(3) by blast
    have "engine_open p d' w' = Inr e1" using op e1(1) by simp
    moreover have "bp_view (se_pool e1) = fold (overlay_view ?n) ?as (dm_pages d)" unfolding e1(2) by (rule mixed_again [OF _ v]) (use True in blast)
    moreover have "root_page_id (se_btree e1) = 0" using e1(5) lf(5) by (simp add: bt_open_def)
    ultimately show ?thesis using e1(3,4) by blast
  qed
qed

text \<open>A crash after the first step of the recovery of a committed put.\<close>

theorem recovery_restartable_witness:
  "\<exists>e e0 e1 e2. engine_reach e [BeginTxn, TxnPut 1 [9] [0], CommitTxn 1]
    \<and> engine_load ''db'' (dm_file (bp_disk (se_pool e))) (wm_file (se_wal e)) = Inr e0 \<and> 1 < length (recover_steps e0)
    \<and> snd (runS (take 1 (recover_steps e0)) e0) = e1 \<and> wm_file (se_wal e1) = wm_file (se_wal e)
    \<and> engine_open ''db'' (dm_file (bp_disk (se_pool e1))) (wm_file (se_wal e1)) = Inr e2 \<and> wm_file (se_wal e2) = []"
proof (rule committed_put [of "[9]" "[0]"])
  let ?acts = "\<lparr>ra_redo = [(0, [0])], ra_undo = [], ra_committed_txns = {1}, ra_aborted_txns = {}\<rparr>"
  fix e assume e: "engine_reach e [BeginTxn, TxnPut 1 [9] [0], CommitTxn 1]" "wal_recover (se_wal e) = Inr ?acts"
  let ?d = "bp_disk (se_pool e)"
  note ok = engine_reach_ok [OF e(1)]
  then obtain t where t: "tree_ok (se_pool e) t" by (auto simp: engine_ok_def index_def)
  have d: "dm_inv ?d" "dm_num_pages ?d \<noteq> 0"
    using t tree_ok_pages(1) [OF t root_in_pages] by (auto simp: tree_ok_def pool_quiet_def pool_inv_def bp_count_def)
  have w: "wal_reach (se_wal e)" using txn_reach_inv [OF tree_engine.engine_holdsD(2) [OF ok]] by simp
  obtain e0 where l: "engine_load ''db'' (dm_file ?d) (wm_file (se_wal e)) = Inr e0" by (rule load_left [OF w d]) auto
  have "wal_recover (se_wal e0) = Inr ?acts" using recover_same_file [OF loaded_files(6) [OF d l]] e(2) by simp
  then have k: "1 < length (recover_steps e0)" by (simp add: recover_steps_def flush_steps_def)
  obtain r e1 where run: "runS (take 1 (recover_steps e0)) e0 = (r, e1)" by (metis surj_pair)
  have "crashed ''db'' (dm_file ?d, wm_file (se_wal e)) (files e1)" by (rule crashed.crash [OF crashed.start l run])
  from recovery_restartable [OF d w e(2) this [unfolded files_def]] obtain e2 where
    "engine_open ''db'' (dm_file (bp_disk (se_pool e1))) (wm_file (se_wal e1)) = Inr e2" "wm_file (se_wal e2) = []" by auto
  moreover have "wm_file (se_wal e1) = wm_file (se_wal e)" by (rule cut_short(1) [OF d l e(2) _ mixed_refl k run]) simp
  ultimately show ?thesis using e(1) l k run by (intro exI [of _ e] exI [of _ e0] exI [of _ e1] exI [of _ e2]) simp
qed simp

end
