(* ===== verification/Testing.thy ===== *)
theory Testing
  imports Prelude
begin

text \<open>
  The tests are programs on the same operations as the rest of the code; the theories \<open>Page_Tests\<close>,
  \<open>Node_Tests\<close>, \<open>Tree_Tests\<close>, \<open>Txn_Tests\<close> and \<open>Engine_Tests\<close> translate them and show that each of them passes.
  Here is what they share: \<^verbatim>\<open>assert!\<close> and \<^verbatim>\<open>unwrap\<close> end a test that they do not agree with.
\<close>

definition assertE :: "bool \<Rightarrow> unit res" where
  "assertE b = (if b then Inr () else Inl Panic)"

definition assertS :: "bool \<Rightarrow> ('s, unit) op" where
  "assertS b = liftE (assertE b)"

text \<open>\<^verbatim>\<open>unwrap\<close> of a result is the sequencing of operations itself: an error ends the test. \<open>is_err\<close> looks at it.\<close>

definition is_err :: "('s, 'a) op \<Rightarrow> ('s, bool) op" where
  "is_err m s = (case m s of (Inl (Err _), s') \<Rightarrow> (Inr True, s') | (Inl f, s') \<Rightarrow> (Inl f, s') | (Inr _, s') \<Rightarrow> (Inr False, s'))"

definition unwrap_option :: "'a option \<Rightarrow> 'a res" where
  "unwrap_option x = (case x of None \<Rightarrow> Inl Panic | Some a \<Rightarrow> Inr a)"

definition lookS :: "('s \<Rightarrow> 'a) \<Rightarrow> ('s, 'a) op" where
  "lookS f s = (Inr (f s), s)"

definition updS :: "('s \<Rightarrow> 's) \<Rightarrow> ('s, unit) op" where
  "updS f s = (Inr (), f s)"

text \<open>A test passes if it ends without a panic.\<close>

definition passes :: "('s, unit) op \<Rightarrow> 's \<Rightarrow> bool" where
  "passes test s \<longleftrightarrow> fst (test s) = Inr ()"

definition passes_on :: "'s res \<Rightarrow> ('s, unit) op \<Rightarrow> bool" where
  "passes_on start test = (case start of Inl _ \<Rightarrow> False | Inr s \<Rightarrow> passes test s)"

text \<open>Byte string literals.\<close>

definition bstr :: "string \<Rightarrow> bytes" where
  "bstr s = map (\<lambda>c. of_nat (of_char c)) s"

lemma length_bstr [simp]: "length (bstr s) = length s"
  by (simp add: bstr_def)

lemma passes_on_Inr [simp]: "passes_on (Inr s) test \<longleftrightarrow> passes test s"
  by (simp add: passes_on_def)

lemma assert_simps [simp]: "assertE b = Inr () \<longleftrightarrow> b" "assertS b s = (assertE b, s)"
  by (simp_all add: assertE_def assertS_def)

lemma assertE_True [simp]: "assertE True = Inr ()"
  by simp

lemma bind_assert [simp]: "bindE (assertE b) f = Inr x \<longleftrightarrow> b \<and> f () = Inr x" "b \<Longrightarrow> bindS (assertS b) g = g ()"
  by (auto simp: bindE_eq_Inr assertS_def)

lemma unwrap_Some [simp]: "unwrap_option (Some a) = Inr a"
  by (simp add: unwrap_option_def)

lemma passes_retS [simp]: "passes (retS ()) s" "passes (Pair (Inr ())) s"
  by (simp_all add: passes_def)

lemma passes_run: "m s = (Inr a, s') \<Longrightarrow> passes (bindS m f) s \<longleftrightarrow> passes (f a) s'"
  by (simp add: passes_def bindS_def)

lemma passes_look [simp]: "passes (bindS (lookS f) g) s \<longleftrightarrow> passes (g (f s)) s"
  by (simp add: passes_def bindS_def lookS_def)

lemma passes_upd [simp]: "passes (bindS (updS f) g) s \<longleftrightarrow> passes (g ()) (f s)"
  by (simp add: passes_def bindS_def updS_def)

lemma passes_assert [simp]: "passes (bindS (assertS b) g) s \<longleftrightarrow> b \<and> passes (g ()) s" "passes (assertS b) s \<longleftrightarrow> b"
  by (auto simp: passes_def bindS_def assertE_def assertS_def)

lemma passes_lift: "m = Inr a \<Longrightarrow> passes (bindS (liftE m) g) s \<longleftrightarrow> passes (g a) s"
  by (simp add: passes_def)

end
