(* ===== verification/Text.thy ===== *)
theory Text
  imports Prelude
begin

text \<open>
  What the program uses of Rust's text: a \<^verbatim>\<open>str\<close> is a list of Unicode scalar values, its bytes are
  their UTF-8 encoding, and \<^verbatim>\<open>std::str::from_utf8\<close> decodes. Decoding inverts encoding, and encoding
  preserves the order, so that keys sorted by their bytes are sorted as texts. The second part holds
  the string functions and number formats of the shell and of the \<^verbatim>\<open>Display\<close> implementations.
\<close>

type_synonym str = "nat list"

section \<open>UTF-8\<close>

definition scalar :: "nat \<Rightarrow> bool" where
  "scalar c \<longleftrightarrow> c < 0xD800 \<or> 0xE000 \<le> c \<and> c < 0x110000"

definition lead :: "nat \<Rightarrow> nat \<Rightarrow> u8" where
  "lead base n = of_nat (base + n)"

definition continuation :: "nat \<Rightarrow> u8" where
  "continuation n = lead 0x80 (n mod 64)"

definition utf8_char :: "nat \<Rightarrow> bytes" where
  "utf8_char c =
     (if c < 0x80 then [lead 0 c]
      else if c < 0x800 then [lead 0xC0 (c div 64), continuation c]
      else if c < 0x10000 then [lead 0xE0 (c div 4096), continuation (c div 64), continuation c]
      else [lead 0xF0 (c div 262144), continuation (c div 4096), continuation (c div 64), continuation c])"

definition as_bytes :: "str \<Rightarrow> bytes" where
  "as_bytes t = concat (map utf8_char t)"

text \<open>The payload of a continuation byte, and the scalar value at the start of a byte string.\<close>

definition payload :: "u8 \<Rightarrow> nat option" where
  "payload b = (if 0x80 \<le> unat b \<and> unat b < 0xC0 then Some (unat b - 0x80) else None)"

fun payloads :: "nat \<Rightarrow> nat \<Rightarrow> bytes \<Rightarrow> (nat \<times> bytes) option" where
  "payloads 0 c bs = Some (c, bs)"
| "payloads (Suc n) c [] = None"
| "payloads (Suc n) c (b # bs) = (case payload b of Some x \<Rightarrow> payloads n (c * 64 + x) bs | None \<Rightarrow> None)"

definition in_bounds :: "nat \<Rightarrow> nat \<Rightarrow> (nat \<times> bytes) option \<Rightarrow> (nat \<times> bytes) option" where
  "in_bounds lo hi r = (case r of Some (c, bs) \<Rightarrow> if lo \<le> c \<and> c < hi \<and> scalar c then Some (c, bs) else None | None \<Rightarrow> None)"

fun next_char :: "bytes \<Rightarrow> (nat \<times> bytes) option" where
  "next_char [] = None"
| "next_char (b # bs) =
     (let n = unat b in
      if n < 0x80 then Some (n, bs)
      else if n < 0xC0 then None
      else if n < 0xE0 then in_bounds 0x80 0x800 (payloads 1 (n - 0xC0) bs)
      else if n < 0xF0 then in_bounds 0x800 0x10000 (payloads 2 (n - 0xE0) bs)
      else in_bounds 0x10000 0x110000 (payloads 3 (n - 0xF0) bs))"

lemma payloads_shorter: "payloads n c bs = Some (d, rest) \<Longrightarrow> length rest \<le> length bs"
  by (induction n c bs rule: payloads.induct) (auto split: option.splits)

lemma in_bounds_Some: "in_bounds lo hi r = Some (c, bs) \<longleftrightarrow> r = Some (c, bs) \<and> lo \<le> c \<and> c < hi \<and> scalar c"
  by (auto simp: in_bounds_def split: option.splits)

lemma next_char_shorter: "next_char bs = Some (c, rest) \<Longrightarrow> length rest < length bs"
  by (cases bs) (auto simp: Let_def in_bounds_Some dest: payloads_shorter split: if_splits)

function from_utf8 :: "bytes \<Rightarrow> str option" where
  "from_utf8 bs = (if bs = [] then Some [] else
     case next_char bs of Some (c, rest) \<Rightarrow> map_option ((#) c) (from_utf8 rest) | None \<Rightarrow> None)"
  by auto
termination
  by (relation "measure length") (auto dest: next_char_shorter)

declare from_utf8.simps [simp del]

lemma unat_lead: "base + n < 256 \<Longrightarrow> unat (lead base n) = base + n"
  unfolding lead_def by (simp only: unat_of_nat take_bit_eq_mod) simp

lemma payload_continuation [simp]: "payload (continuation n) = Some (n mod 64)"
proof -
  have "n mod 64 < 64" by simp
  then have "0x80 + n mod 64 < 256" by linarith
  then show ?thesis by (simp add: payload_def continuation_def unat_lead)
qed

lemma payloads_numeral [simp]:
  "payloads 1 c (b # bs) = (case payload b of Some x \<Rightarrow> Some (c * 64 + x, bs) | None \<Rightarrow> None)"
  "payloads 2 c (b # bs) = (case payload b of Some x \<Rightarrow> payloads 1 (c * 64 + x) bs | None \<Rightarrow> None)"
  "payloads 3 c (b # bs) = (case payload b of Some x \<Rightarrow> payloads 2 (c * 64 + x) bs | None \<Rightarrow> None)"
  by (simp_all only: One_nat_def numeral_2_eq_2 numeral_3_eq_3 payloads.simps)

lemma div_parts:
  fixes c :: nat
  shows "c div 64 * 64 + c mod 64 = c" and "c div 4096 * 64 + c div 64 mod 64 = c div 64"
    and "c div 262144 * 64 + c div 4096 mod 64 = c div 4096"
  using div_mult_mod_eq [of c 64] div_mult_mod_eq [of "c div 64" 64] div_mult_mod_eq [of "c div 4096" 64]
  by (simp_all add: div_mult2_eq [symmetric])

lemma next_char_utf8:
  assumes "scalar c"
  shows "next_char (utf8_char c @ bs) = Some (c, bs)"
proof -
  have c: "c < 1114112" using assms by (auto simp: scalar_def)
  consider "c < 128" | "128 \<le> c" "c < 2048" | "2048 \<le> c" "c < 65536" | "65536 \<le> c" by linarith
  then show ?thesis
  proof cases
    case 1
    then show ?thesis by (simp add: utf8_char_def unat_lead)
  next
    case 2
    then have "c div 64 < 32" by linarith
    with 2 assms show ?thesis by (simp add: utf8_char_def unat_lead in_bounds_def div_parts)
  next
    case 3
    then have "c div 4096 < 16" by linarith
    with 3 assms show ?thesis by (simp add: utf8_char_def unat_lead in_bounds_def div_parts)
  next
    case 4
    then have "c div 262144 < 5" using c by linarith
    with 4 assms c show ?thesis by (simp add: utf8_char_def unat_lead in_bounds_def div_parts)
  qed
qed

lemma utf8_char_not_Nil [simp]: "utf8_char c \<noteq> []"
  by (simp add: utf8_char_def)

lemma as_bytes_simps [simp]: "as_bytes [] = []" "as_bytes (c # t) = utf8_char c @ as_bytes t"
  by (simp_all add: as_bytes_def)

lemma from_utf8_as_bytes:
  assumes "\<forall>c \<in> set t. scalar c"
  shows "from_utf8 (as_bytes t) = Some t"
  using assms
proof (induction t)
  case Nil
  show ?case by (subst from_utf8.simps) simp
next
  case (Cons c t)
  then have "next_char (as_bytes (c # t)) = Some (c, as_bytes t)" by (simp add: next_char_utf8)
  with Cons have "(case next_char (as_bytes (c # t)) of Some (c, rest) \<Rightarrow> map_option ((#) c) (from_utf8 rest) | None \<Rightarrow> None)
      = Some (c # t)" by simp
  moreover have "as_bytes (c # t) \<noteq> []" by simp
  ultimately show ?case by (metis from_utf8.simps)
qed

lemma as_bytes_inject:
  assumes "\<forall>c \<in> set s. scalar c" and "\<forall>c \<in> set t. scalar c"
  shows "as_bytes s = as_bytes t \<longleftrightarrow> s = t"
  using from_utf8_as_bytes [OF assms(1)] from_utf8_as_bytes [OF assms(2)] by (metis option.inject)

text \<open>The order of the bytes is the order of the scalar values.\<close>

lemma lead_less: "base + n < 256 \<Longrightarrow> base' + n' < 256 \<Longrightarrow> base + n < base' + n' \<Longrightarrow> lead base n < lead base' n'"
  by (simp add: word_less_nat_alt unat_lead)

lemma continuation_less: "m mod 64 < n mod 64 \<Longrightarrow> continuation m < continuation n"
  by (simp add: continuation_def word_less_nat_alt unat_lead less_trans [OF mod_less_divisor])

lemma continuation_cong: "m mod 64 = n mod 64 \<Longrightarrow> continuation m = continuation n"
  by (simp add: continuation_def)

lemma div_mod_less:
  fixes c d :: nat
  assumes "c < d"
  shows "c div m < d div m \<or> c div m = d div m \<and> c mod m < d mod m"
  using assms div_le_mono [of c d m] by (metis le_neq_implies_less less_imp_le_nat mult_div_mod_eq nat_add_left_cancel_less)

lemma append_less_append [simp]: "(xs @ ys :: ('a :: order) list) < xs @ zs \<longleftrightarrow> ys < zs"
  by (induction xs) auto

lemma continuation_step:
  assumes "c < d" and "\<And>r r'. c div 64 < d div 64 \<Longrightarrow> p (c div 64) @ r < p (d div 64) @ r'"
  shows "p (c div 64) @ continuation c # r < p (d div 64) @ continuation d # r'"
  using div_mod_less [OF assms(1), of 64] assms(2) by (auto simp: continuation_less)

lemma utf8_char_less:
  assumes "c < d" and "d < 0x110000"
  shows "utf8_char c @ r < utf8_char d @ r'"
proof -
  have one: "[lead b m] @ r < [lead b n] @ r'" if "b + n < 256" "m < n" for b m n r r'
    using that by (simp add: lead_less)
  have two: "[lead b (m div 64), continuation m] @ r < [lead b (n div 64), continuation n] @ r'"
    if "b + n div 64 < 256" "m < n" for b m n r r'
    using continuation_step [OF that(2), of "\<lambda>n. [lead b n]", OF one [OF that(1)]] by simp
  have three: "[lead b (m div 64 div 64), continuation (m div 64), continuation m] @ r
      < [lead b (n div 64 div 64), continuation (n div 64), continuation n] @ r'"
    if "b + n div 64 div 64 < 256" "m < n" for b m n r r'
    using continuation_step [OF that(2), of "\<lambda>n. [lead b (n div 64), continuation n]", OF two [OF that(1)]] by simp
  have four: "[lead b (m div 64 div 64 div 64), continuation (m div 64 div 64), continuation (m div 64), continuation m] @ r
      < [lead b (n div 64 div 64 div 64), continuation (n div 64 div 64), continuation (n div 64), continuation n] @ r'"
    if "b + n div 64 div 64 div 64 < 256" "m < n" for b m n r r'
    using continuation_step [OF that(2), of "\<lambda>n. [lead b (n div 64 div 64), continuation (n div 64), continuation n]", OF three [OF that(1)]]
    by simp
  have div: "n div 4096 = n div 64 div 64" "n div 262144 = n div 64 div 64 div 64" for n :: nat
    by (simp_all add: div_mult2_eq [symmetric])
  consider "d < 128" | "c < 128" "128 \<le> d" | "128 \<le> c" "c < 2048" "2048 \<le> d" | "2048 \<le> c" "c < 65536" "65536 \<le> d"
    | "128 \<le> c" "d < 2048" | "2048 \<le> c" "d < 65536" | "65536 \<le> c" using assms(1) by linarith
  then show ?thesis
  proof cases
    case 1
    with assms show ?thesis by (simp add: utf8_char_def lead_less)
  next
    case 2
    with assms show ?thesis by (auto simp: utf8_char_def lead_less)
  next
    case 3
    then have "c div 64 < 32" by linarith
    with 3 assms show ?thesis by (auto simp: utf8_char_def lead_less)
  next
    case 4
    then have "c div 4096 < 16" by linarith
    with 4 assms show ?thesis by (auto simp: utf8_char_def lead_less)
  next
    case 5
    then have "192 + d div 64 < 256" by linarith
    from two [OF this assms(1)] 5 assms(1) show ?thesis by (simp add: utf8_char_def)
  next
    case 6
    then have "224 + d div 4096 < 256" by linarith
    from three [OF this [unfolded div] assms(1)] 6 assms(1) show ?thesis by (simp add: utf8_char_def div)
  next
    case 7
    have "240 + d div 262144 < 256" using assms(2) by linarith
    from four [OF this [unfolded div] assms(1)] 7 assms(1) show ?thesis by (simp add: utf8_char_def div)
  qed
qed

lemma as_bytes_mono:
  assumes "\<forall>c \<in> set s. scalar c" and "\<forall>c \<in> set t. scalar c" and "s < t"
  shows "as_bytes s < as_bytes t"
  using assms
proof (induction s arbitrary: t)
  case Nil
  then obtain c u where "t = c # u" by (cases t) auto
  then show ?case by (cases "utf8_char c") (use utf8_char_not_Nil [of c] in auto)
next
  case (Cons c s)
  then obtain d u where t: "t = d # u" "c < d \<or> c = d \<and> s < u" by (cases t) auto
  then have "d < 0x110000" using Cons.prems(2) by (auto simp: scalar_def)
  with t Cons show ?case using utf8_char_less [of c d] by auto
qed

lemma as_bytes_less_iff:
  assumes "\<forall>c \<in> set s. scalar c" and "\<forall>c \<in> set t. scalar c"
  shows "as_bytes s < as_bytes t \<longleftrightarrow> s < t"
  using as_bytes_mono [OF assms] as_bytes_mono [OF assms(2,1)] by (metis less_asym less_linear)

section \<open>Strings and numbers\<close>

text \<open>String literals, as scalar values.\<close>

definition lit :: "string \<Rightarrow> str" where
  "lit s = map of_char s"

definition space :: nat where "space = 32"
definition newline :: nat where "newline = 10"

text \<open>\<^verbatim>\<open>char::is_whitespace\<close>: the Unicode property White_Space.\<close>

definition white_space :: "nat \<Rightarrow> bool" where
  "white_space c \<longleftrightarrow> 9 \<le> c \<and> c \<le> 13 \<or> 0x2000 \<le> c \<and> c \<le> 0x200A
     \<or> c \<in> {0x20, 0x85, 0xA0, 0x1680, 0x2028, 0x2029, 0x202F, 0x205F, 0x3000}"

definition trim :: "str \<Rightarrow> str" where
  "trim t = rev (dropWhile white_space (rev (dropWhile white_space t)))"

text \<open>\<^verbatim>\<open>str::splitn\<close>: at most so many parts, the last one with the separators that are left.\<close>

fun splitn :: "nat \<Rightarrow> nat \<Rightarrow> str \<Rightarrow> str list" where
  "splitn 0 sep t = []"
| "splitn (Suc 0) sep t = [t]"
| "splitn (Suc (Suc n)) sep t =
     (case dropWhile (\<lambda>c. c \<noteq> sep) t of
        [] \<Rightarrow> [t]
      | _ # rest \<Rightarrow> takeWhile (\<lambda>c. c \<noteq> sep) t # splitn (Suc n) sep rest)"

text \<open>\<^verbatim>\<open>BufRead::lines\<close>: a line ends at a newline, with the carriage return before it, or at the end of input.\<close>

definition strip_cr :: "bytes \<Rightarrow> bytes" where
  "strip_cr l = (if l \<noteq> [] \<and> last l = 13 then butlast l else l)"

function read_lines :: "bytes \<Rightarrow> bytes list" where
  "read_lines bs = (if bs = [] then [] else
     case dropWhile (\<lambda>b. b \<noteq> 10) bs of
       [] \<Rightarrow> [bs]
     | _ # rest \<Rightarrow> strip_cr (takeWhile (\<lambda>b. b \<noteq> 10) bs) # read_lines rest)"
  by auto
termination
proof (relation "measure length")
  fix bs rest :: bytes and b
  assume "dropWhile (\<lambda>b. b \<noteq> 10) bs = b # rest"
  then show "(rest, bs) \<in> measure length" using length_dropWhile_le [of "\<lambda>b. b \<noteq> 10" bs] by simp
qed simp

declare read_lines.simps [simp del]

function show_dec :: "nat \<Rightarrow> str" where
  "show_dec n = (if n < 10 then [48 + n] else show_dec (n div 10) @ [48 + n mod 10])"
  by auto
termination
  by (relation "measure id") auto

declare show_dec.simps [simp del]

function show_hex :: "nat \<Rightarrow> str" where
  "show_hex n = (let d = (if n mod 16 < 10 then 48 + n mod 16 else 87 + n mod 16)
     in if n < 16 then [d] else show_hex (n div 16) @ [d])"
  by auto
termination
  by (relation "measure id") auto

declare show_hex.simps [simp del]

definition pad_zeros :: "nat \<Rightarrow> str \<Rightarrow> str" where
  "pad_zeros w t = replicate (w - length t) 48 @ t"

text \<open>The format \<^verbatim>\<open>{:#010x}\<close>: the width counts the prefix.\<close>

definition show_hex32 :: "u32 \<Rightarrow> str" where
  "show_hex32 w = lit ''0x'' @ pad_zeros 8 (show_hex (unat w))"

text \<open>The format \<^verbatim>\<open>{:?}\<close> of a byte vector.\<close>

fun commas :: "str list \<Rightarrow> str" where
  "commas [] = []"
| "commas [t] = t"
| "commas (t # ts) = t @ lit '', '' @ commas ts"

definition show_debug :: "bytes \<Rightarrow> str" where
  "show_debug bs = lit ''['' @ commas (map (\<lambda>b. show_dec (unat b)) bs) @ lit '']''"

text \<open>\<^verbatim>\<open>str::parse::<usize>\<close>: decimal digits after an optional plus sign, below \<open>2 ^ 64\<close>.\<close>

definition digit :: "nat \<Rightarrow> bool" where
  "digit c \<longleftrightarrow> 48 \<le> c \<and> c < 58"

definition decimal :: "str \<Rightarrow> nat" where
  "decimal ds = foldl (\<lambda>n d. 10 * n + (d - 48)) 0 ds"

definition parse_usize :: "str \<Rightarrow> nat option" where
  "parse_usize t =
     (let ds = (case t of c # d # rest \<Rightarrow> if c = 43 then d # rest else t | _ \<Rightarrow> t)
      in if ds \<noteq> [] \<and> list_all digit ds \<and> decimal ds < 2 ^ 64 then Some (decimal ds) else None)"

lemma decimal_snoc: "decimal (ds @ [d]) = 10 * decimal ds + (d - 48)"
  by (simp add: decimal_def)

lemma show_dec_digits: "show_dec n \<noteq> []" "list_all digit (show_dec n)" "decimal (show_dec n) = n"
proof (induction n rule: show_dec.induct)
  case (1 n)
  have digit: "digit (48 + m mod 10)" "m < 10 \<Longrightarrow> digit (48 + m)" for m by (auto simp: digit_def)
  { case 1 show ?case by (subst show_dec.simps) simp }
  { case 2 show ?case using "1.IH"(2) by (subst show_dec.simps) (simp add: digit) }
  { case 3 show ?case using "1.IH"(3) by (subst show_dec.simps) (auto simp: decimal_snoc, simp add: decimal_def) }
qed

lemma parse_show_dec:
  assumes "n < 2 ^ 64"
  shows "parse_usize (show_dec n) = Some n"
proof -
  have "(case show_dec n of c # d # rest \<Rightarrow> if c = 43 then d # rest else show_dec n | _ \<Rightarrow> show_dec n) = show_dec n"
    using show_dec_digits(2) [of n] by (auto simp: digit_def split: list.splits)
  with assms show_dec_digits [of n] show ?thesis by (simp add: parse_usize_def)
qed

lemma decimal_zeros: "decimal (replicate k 48 @ ds) = decimal ds"
  by (induction k) (simp_all add: decimal_def)

lemma pad_zeros_inject: "pad_zeros w (show_dec m) = pad_zeros w (show_dec n) \<longleftrightarrow> m = n"
  using show_dec_digits(3) [of m] show_dec_digits(3) [of n] decimal_zeros unfolding pad_zeros_def by metis

text \<open>Numbers padded to the same width are ordered as texts.\<close>

lemma decimal_Cons: "decimal (d # ds) = (d - 48) * 10 ^ length ds + decimal ds"
proof -
  have "foldl (\<lambda>n d. 10 * n + (d - 48)) a ds = a * 10 ^ length ds + foldl (\<lambda>n d. 10 * n + (d - 48)) 0 ds" for a
  proof (induction ds arbitrary: a)
    case (Cons d ds)
    show ?case using Cons [of "10 * a + (d - 48)"] Cons [of "d - 48"] by (simp add: algebra_simps)
  qed simp
  from this [of "d - 48"] show ?thesis by (simp add: decimal_def)
qed

lemma decimal_bound: "list_all digit ds \<Longrightarrow> decimal ds < 10 ^ length ds"
proof (induction ds)
  case (Cons d ds)
  then have d: "d - 48 \<le> 9" and ds: "decimal ds < 10 ^ length ds" by (auto simp: digit_def)
  have "(d - 48) * 10 ^ length ds \<le> 9 * 10 ^ length ds" by (rule mult_le_mono1 [OF d])
  with ds show ?case unfolding decimal_Cons length_Cons power_Suc by linarith
qed (simp add: decimal_def)

lemma digits_less:
  assumes "length ds = length es" and "list_all digit ds" and "list_all digit es" and "decimal ds < decimal es"
  shows "ds < es"
  using assms
proof (induction ds es rule: list_induct2)
  case (Cons d ds e es)
  consider "d < e" | "d = e" | "e < d" by linarith
  then show ?case
  proof cases
    case 3
    then have "Suc (e - 48) \<le> d - 48" using Cons.prems by (auto simp: digit_def)
    then have "Suc (e - 48) * 10 ^ length ds \<le> (d - 48) * 10 ^ length ds" by (rule mult_le_mono1)
    moreover have "decimal es < 10 ^ length ds" using decimal_bound [of es] Cons by simp
    ultimately show ?thesis using Cons.prems(3) Cons.hyps by (simp add: decimal_Cons)
  qed (use Cons in \<open>auto simp: decimal_Cons\<close>)
qed (simp add: decimal_def)

lemma length_show_dec: "n < 10 ^ Suc k \<Longrightarrow> length (show_dec n) \<le> Suc k"
proof (induction k arbitrary: n)
  case 0
  then show ?case by (subst show_dec.simps) simp
next
  case (Suc k)
  then have "n div 10 < 10 ^ Suc k" by (simp add: div_less_iff_less_mult)
  from Suc.IH [OF this] show ?case by (subst show_dec.simps) auto
qed

lemma padded_digits: "list_all digit (pad_zeros w (show_dec n))" "decimal (pad_zeros w (show_dec n)) = n"
  using show_dec_digits [of n] by (simp_all add: pad_zeros_def decimal_zeros) (simp add: list_all_iff digit_def)

lemma length_padded: "n < 10 ^ Suc k \<Longrightarrow> length (pad_zeros (Suc k) (show_dec n)) = Suc k"
  using length_show_dec [of n k] by (simp add: pad_zeros_def)

lemma padded_less:
  assumes "i < j" and "j < 10 ^ Suc k"
  shows "pad_zeros (Suc k) (show_dec i) < pad_zeros (Suc k) (show_dec j)"
proof (rule digits_less)
  have "i < 10 ^ Suc k" using assms by simp
  then show "length (pad_zeros (Suc k) (show_dec i)) = length (pad_zeros (Suc k) (show_dec j))"
    using assms(2) by (simp only: length_padded)
qed (use assms(1) in \<open>simp_all add: padded_digits\<close>)

text \<open>What a line of a command consists of: the parts of the line without the separators between them.\<close>

lemma splitn_word: "sep \<notin> set t \<Longrightarrow> splitn (Suc n) sep t = [t]"
proof (cases n)
  case (Suc m)
  assume "sep \<notin> set t"
  then have "dropWhile (\<lambda>c. c \<noteq> sep) t = []" unfolding dropWhile_eq_Nil_conv by metis
  then show ?thesis unfolding Suc splitn.simps by (simp only: list.case)
qed simp

lemma splitn_cons:
  assumes "sep \<notin> set t"
  shows "splitn (Suc (Suc n)) sep (t @ sep # rest) = t # splitn (Suc n) sep rest"
proof -
  have "\<forall>c \<in> set t. c \<noteq> sep" using assms by metis
  then have "dropWhile (\<lambda>c. c \<noteq> sep) (t @ sep # rest) = sep # rest" "takeWhile (\<lambda>c. c \<noteq> sep) (t @ sep # rest) = t"
    by (simp_all add: dropWhile_append2 takeWhile_append2)
  then show ?thesis by simp
qed

end
