(* ===== verification/Cli.thy ===== *)
theory Cli
  imports History Text
begin

text \<open>
  The command line shell of \<^verbatim>\<open>src/src/bin/cli.rs\<close> and the \<^verbatim>\<open>Display\<close> texts it prints. Standard input is
  a list of bytes, standard output a text. What the program takes from its environment is the record
  \<open>cli_env\<close>: the operating system's text for an error number, and the text of the elapsed time and the
  throughput that \<^verbatim>\<open>bench\<close> prints, for the number of the input line and the number of records.
  A panic, or a loop that does not end, stops the program in the middle of a command. On standard error
  only the shell's own message is recorded.
\<close>

section \<open>Display\<close>

record cli_env =
  strerror :: "nat \<Rightarrow> str"
  clock :: "nat \<Rightarrow> nat \<Rightarrow> str"

fun show_io_error :: "cli_env \<Rightarrow> io_error \<Rightarrow> str" where
  "show_io_error env UnexpectedEof = lit ''failed to fill whole buffer''"
| "show_io_error env (OsError n) = strerror env n @ lit '' (os error '' @ show_dec n @ lit '')''"

fun show_error :: "cli_env \<Rightarrow> error \<Rightarrow> str" where
  "show_error env (Io e) = lit ''I/O error: '' @ show_io_error env e"
| "show_error env (PageNotFound i) = lit ''Page '' @ show_dec (unat i) @ lit '' not found''"
| "show_error env (PageFull i) = lit ''Page '' @ show_dec (unat i) @ lit '' is full''"
| "show_error env KeyNotFound = lit ''Key not found''"
| "show_error env DuplicateKey = lit ''Duplicate key''"
| "show_error env (WalCorrupted msg) = lit ''WAL corrupted: '' @ lit msg"
| "show_error env BufferPoolFull = lit ''Buffer pool full, no evictable pages''"
| "show_error env (TransactionAborted t) = lit ''Transaction '' @ show_dec (unat t) @ lit '' aborted''"
| "show_error env (DeadlockDetected t) = lit ''Deadlock detected for transaction '' @ show_dec (unat t)"
| "show_error env (LockConflict t) = lit ''Lock conflict for transaction '' @ show_dec (unat t)"
| "show_error env (InvalidData msg) = lit ''Invalid data: '' @ lit msg"
| "show_error env (ChecksumMismatch expected actual) =
     lit ''Checksum mismatch: expected '' @ show_hex32 expected @ lit '', got '' @ show_hex32 actual"

definition show_pool_stats :: "buffer_pool_stats \<Rightarrow> str" where
  "show_pool_stats s =
     lit ''BufferPool[capacity='' @ show_dec (bs_capacity s) @ lit '', occupied='' @ show_dec (bs_occupied s)
     @ lit '', pinned='' @ show_dec (bs_pinned s) @ lit '', dirty='' @ show_dec (bs_dirty s)
     @ lit '', free='' @ show_dec (bs_free s) @ lit '']''"

definition show_engine_stats :: "engine_stats \<Rightarrow> str" where
  "show_engine_stats s =
     lit ''StorageEngine[path='' @ lit (es_db_path s) @ lit '', pages='' @ show_dec (unat (es_num_pages s))
     @ lit '', root='' @ show_dec (unat (es_root_page_id s)) @ lit '', active_txns='' @ show_dec (es_active_transactions s)
     @ lit '', wal_lsn='' @ show_dec (unat (es_wal_lsn s)) @ lit '']''"

section \<open>Commands\<close>

datatype flow = Continue | Break | Stopped fault

type_synonym 's shell_result = "str \<times> flow \<times> 's"

definition println :: "str \<Rightarrow> str" where
  "println t = t @ [newline]"

text \<open>\<^verbatim>\<open>match\<close> on the result of a call: print the value or the error.\<close>

definition report :: "('a \<Rightarrow> str) \<Rightarrow> (error \<Rightarrow> str) \<Rightarrow> 'a res \<times> 's \<Rightarrow> 's shell_result" where
  "report ok err = (\<lambda>(r, e). case r of
     Inr a \<Rightarrow> (ok a, Continue, e)
   | Inl (Err x) \<Rightarrow> (err x, Continue, e)
   | Inl f \<Rightarrow> ([], Stopped f, e))"

definition print_error :: "cli_env \<Rightarrow> error \<Rightarrow> str" where
  "print_error env x = println (lit ''Error: '' @ show_error env x)"

definition usage :: "string \<Rightarrow> 's \<Rightarrow> 's shell_result" where
  "usage t e = (println (lit ''Usage: '' @ lit t), Continue, e)"

definition show_value :: "bytes \<Rightarrow> str" where
  "show_value v = (case from_utf8 v of Some s \<Rightarrow> s | None \<Rightarrow> show_debug v)"

definition show_found :: "str \<Rightarrow> bytes option \<Rightarrow> str" where
  "show_found prefix r = println (case r of Some v \<Rightarrow> prefix @ show_value v | None \<Rightarrow> lit ''(not found)'')"

definition show_text :: "bytes \<Rightarrow> str" where
  "show_text b = (case from_utf8 b of Some s \<Rightarrow> s | None \<Rightarrow> lit ''(binary)'')"

definition show_entry :: "entry \<Rightarrow> str" where
  "show_entry x = println (lit ''  '' @ show_text (fst x) @ lit '' => '' @ show_text (snd x))"

definition show_entries :: "entry list \<Rightarrow> str" where
  "show_entries es = concat (map show_entry es) @ println (lit ''('' @ show_dec (length es) @ lit '' entries)'')"

definition show_scan :: "entry list \<Rightarrow> str" where
  "show_scan es = (if es = [] then println (lit ''(empty)'') else show_entries es)"

definition cmd_put :: "cli_env \<Rightarrow> str list \<Rightarrow> storage_engine \<Rightarrow> storage_engine shell_result" where
  "cmd_put env parts e =
     (if length parts < 3 then usage ''put <key> <value>'' e
      else report (\<lambda>_. println (lit ''OK'')) (print_error env) (engine_put (as_bytes (parts ! 1)) (as_bytes (parts ! 2)) e))"

definition cmd_get :: "cli_env \<Rightarrow> str list \<Rightarrow> storage_engine \<Rightarrow> storage_engine shell_result" where
  "cmd_get env parts e =
     (if length parts < 2 then usage ''get <key>'' e
      else report (show_found []) (print_error env) (engine_get (as_bytes (parts ! 1)) e))"

definition cmd_del :: "cli_env \<Rightarrow> str list \<Rightarrow> storage_engine \<Rightarrow> storage_engine shell_result" where
  "cmd_del env parts e =
     (if length parts < 2 then usage ''del <key>'' e
      else report (show_found (lit ''Deleted: '')) (print_error env) (engine_delete (as_bytes (parts ! 1)) e))"

definition cmd_scan :: "cli_env \<Rightarrow> storage_engine \<Rightarrow> storage_engine shell_result" where
  "cmd_scan env e = report show_scan (print_error env) (engine_scan_all e)"

definition cmd_range :: "cli_env \<Rightarrow> str list \<Rightarrow> storage_engine \<Rightarrow> storage_engine shell_result" where
  "cmd_range env parts e =
     (if length parts < 3 then usage ''range <start> <end>'' e
      else report show_entries (print_error env) (engine_range_scan (as_bytes (parts ! 1)) (as_bytes (parts ! 2)) e))"

definition cmd_stats :: "storage_engine \<Rightarrow> storage_engine shell_result" where
  "cmd_stats e = (println (show_engine_stats (engine_stats_of e)), Continue, e)"

text \<open>\<^verbatim>\<open>bench\<close>: the records from \<open>i\<close> on, as many as the second argument says; an error ends the loop.\<close>

definition bench_key :: "nat \<Rightarrow> str" where
  "bench_key i = lit ''bench_key_'' @ pad_zeros 8 (show_dec i)"

definition bench_val :: "nat \<Rightarrow> str" where
  "bench_val i = lit ''bench_val_'' @ pad_zeros 8 (show_dec i)"

primrec bench_puts :: "cli_env \<Rightarrow> nat \<Rightarrow> nat \<Rightarrow> storage_engine \<Rightarrow> storage_engine shell_result" where
  "bench_puts env 0 i e = ([], Continue, e)"
| "bench_puts env (Suc k) i e =
     (case engine_put (as_bytes (bench_key i)) (as_bytes (bench_val i)) e of
        (Inr _, e') \<Rightarrow> bench_puts env k (Suc i) e'
      | (Inl (Err x), e') \<Rightarrow> (println (lit ''Error at '' @ show_dec i @ lit '': '' @ show_error env x), Continue, e')
      | (Inl f, e') \<Rightarrow> ([], Stopped f, e'))"

definition show_verification :: "str \<Rightarrow> bytes option \<Rightarrow> str" where
  "show_verification sample_val r = println (lit ''Verification: '' @ (case r of
     Some v \<Rightarrow> if v = as_bytes sample_val then lit ''OK''
       else lit ''MISMATCH (expected '' @ show_debug (as_bytes sample_val) @ lit '', got '' @ show_debug v @ lit '')''
   | None \<Rightarrow> lit ''MISSING''))"

text \<open>Output of one stretch of code followed by another, unless the first one leaves the loop.\<close>

definition followed_by :: "'s shell_result \<Rightarrow> ('s \<Rightarrow> 's shell_result) \<Rightarrow> 's shell_result" where
  "followed_by r f = (case r of
     (out, Continue, e) \<Rightarrow> (case f e of (out', fl, e') \<Rightarrow> (out @ out', fl, e'))
   | _ \<Rightarrow> r)"

definition bench_count :: "str list \<Rightarrow> nat" where
  "bench_count parts = (case parts of
     _ # s # _ \<Rightarrow> (case parse_usize s of Some n \<Rightarrow> n | None \<Rightarrow> 10000)
   | _ \<Rightarrow> 10000)"

definition cmd_bench :: "cli_env \<Rightarrow> nat \<Rightarrow> str list \<Rightarrow> storage_engine \<Rightarrow> storage_engine shell_result" where
  "cmd_bench env line_no parts e =
     (let n = bench_count parts in
      followed_by (println (lit ''Inserting '' @ show_dec n @ lit '' records...''), Continue, e) (\<lambda>e.
      followed_by (bench_puts env n 0 e) (\<lambda>e.
      followed_by (println (lit ''Inserted '' @ show_dec n @ lit '' records in '' @ clock env line_no n), Continue, e) (\<lambda>e.
      report (show_verification (bench_val (n div 2)))
        (\<lambda>x. println (lit ''Verification error: '' @ show_error env x)) (engine_get (as_bytes (bench_key (n div 2))) e)))))"

definition cmd_quit :: "storage_engine \<Rightarrow> storage_engine shell_result" where
  "cmd_quit e =
     (case engine_sync e of
        (Inl (Err _), e') \<Rightarrow> (println (lit ''Syncing...'') @ println (lit ''Goodbye!''), Break, e')
      | (Inr _, e') \<Rightarrow> (println (lit ''Syncing...'') @ println (lit ''Goodbye!''), Break, e')
      | (Inl f, e') \<Rightarrow> (println (lit ''Syncing...''), Stopped f, e'))"

definition dispatch :: "cli_env \<Rightarrow> nat \<Rightarrow> str list \<Rightarrow> storage_engine \<Rightarrow> storage_engine shell_result" where
  "dispatch env line_no parts e =
     (let cmd = parts ! 0 in
      if cmd = lit ''put'' then cmd_put env parts e
      else if cmd = lit ''get'' then cmd_get env parts e
      else if cmd = lit ''del'' then cmd_del env parts e
      else if cmd = lit ''scan'' then cmd_scan env e
      else if cmd = lit ''range'' then cmd_range env parts e
      else if cmd = lit ''stats'' then cmd_stats e
      else if cmd = lit ''bench'' then cmd_bench env line_no parts e
      else if cmd = lit ''quit'' \<or> cmd = lit ''exit'' \<or> cmd = lit ''q'' then cmd_quit e
      else (println (lit ''Unknown command: '' @ cmd), Continue, e))"

definition prompt :: str where
  "prompt = lit ''> ''"

text \<open>One line of input; a command that leaves the loop prints no further prompt.\<close>

definition cli_line :: "cli_env \<Rightarrow> nat \<Rightarrow> str \<Rightarrow> storage_engine \<Rightarrow> storage_engine shell_result" where
  "cli_line env line_no line e =
     (let parts = splitn 3 space (trim line) in
      if parts = [] \<or> parts ! 0 = [] then (prompt, Continue, e)
      else followed_by (dispatch env line_no parts e) (\<lambda>e. (prompt, Continue, e)))"

text \<open>The loop over the lines; a line that is not UTF-8 ends it.\<close>

primrec cli_loop :: "cli_env \<Rightarrow> nat \<Rightarrow> bytes list \<Rightarrow> storage_engine \<Rightarrow> storage_engine shell_result" where
  "cli_loop env line_no [] e = ([], Continue, e)"
| "cli_loop env line_no (l # ls) e =
     (case from_utf8 l of
        None \<Rightarrow> ([], Break, e)
      | Some line \<Rightarrow> followed_by (cli_line env line_no line e) (cli_loop env (Suc line_no) ls))"

definition help_text :: str where
  "help_text = concat (map (\<lambda>t. println (lit t))
     [''Commands:'', ''  put <key> <value>   - Store a key-value pair'', ''  get <key>           - Retrieve a value by key'',
      ''  del <key>           - Delete a key'', ''  scan                - List all key-value pairs'',
      ''  range <start> <end> - Range scan'', ''  stats               - Show database statistics'',
      ''  bench <n>           - Insert n records and measure throughput'', ''  quit                - Exit''])"

datatype exit_status = Exit nat | Crash fault

record cli_outcome =
  co_stdout :: str
  co_stderr :: str
  co_status :: exit_status
  co_engine :: "storage_engine option"

definition status_of :: "flow \<Rightarrow> exit_status" where
  "status_of fl = (case fl of Stopped f \<Rightarrow> Crash f | _ \<Rightarrow> Exit 0)"

definition cli_main :: "cli_env \<Rightarrow> string list \<Rightarrow> bytes \<Rightarrow> bytes \<Rightarrow> bytes \<Rightarrow> cli_outcome" where
  "cli_main env args data_file wal_file stdin =
     (let db_path = (case args of _ # p # _ \<Rightarrow> p | _ \<Rightarrow> ''storagedb_data'');
          banner = println (lit ''StorageDB - A database storage engine'') @ println (lit ''Opening database at: '' @ lit db_path)
      in case engine_open db_path data_file wal_file of
           Inl (Err x) \<Rightarrow> \<lparr>co_stdout = banner, co_stderr = println (lit ''Failed to open database: '' @ show_error env x),
                          co_status = Exit 1, co_engine = None\<rparr>
         | Inl f \<Rightarrow> \<lparr>co_stdout = banner, co_stderr = [], co_status = Crash f, co_engine = None\<rparr>
         | Inr engine \<Rightarrow>
             (case cli_loop env 0 (read_lines stdin) engine of
                (out, fl, engine') \<Rightarrow>
                  \<lparr>co_stdout = banner @ println (show_engine_stats (engine_stats_of engine)) @ println []
                     @ help_text @ println [] @ prompt @ out,
                   co_stderr = [], co_status = status_of fl, co_engine = Some engine'\<rparr>))"

end
