(* ===== verification/Shell.thy ===== *)
theory Shell
  imports Cli
begin

text \<open>
  Correctness of the shell. Its specification is a map from texts to texts: \<open>shell_spec\<close> says what a
  command prints and how it changes the map, and \<open>session_spec\<close> runs the lines of a session. The engine
  stores such a map as the sorted list of its encoded entries (\<open>enc\<close>); since encoding preserves the
  order of texts, scans print the map in the order of its keys.
\<close>

section \<open>Maps of texts as entries\<close>

definition text_ok :: "str \<Rightarrow> bool" where
  "text_ok t \<longleftrightarrow> (\<forall>c \<in> set t. scalar c)"

definition texts :: "(str \<rightharpoonup> str) \<Rightarrow> bool" where
  "texts m \<longleftrightarrow> finite (dom m) \<and> (\<forall>k v. m k = Some v \<longrightarrow> text_ok k \<and> text_ok v)"

definition enc_entry :: "(str \<rightharpoonup> str) \<Rightarrow> str \<Rightarrow> entry" where
  "enc_entry m k = (as_bytes k, as_bytes (the (m k)))"

definition keys_of :: "(str \<rightharpoonup> str) \<Rightarrow> str list" where
  "keys_of m = sorted_list_of_set (dom m)"

definition enc :: "(str \<rightharpoonup> str) \<Rightarrow> entry list" where
  "enc m = map (enc_entry m) (keys_of m)"

lemma sorted_kv_unique:
  fixes xs ys :: "entry list"
  assumes "sorted_kv xs" and "sorted_kv ys" and "map_of xs = map_of ys"
  shows "xs = ys"
proof (rule map_sorted_distinct_set_unique)
  have s: "set zs = {(k, v). map_of zs k = Some v}" if "sorted_kv zs" for zs :: "entry list"
    using map_of_eq_Some_iff [OF sorted_kv_distinct [OF that]] by auto
  show eq: "set xs = set ys" using s [OF assms(1)] s [OF assms(2)] assms(3) by simp
  show "sorted (map fst xs)" "sorted (map fst ys)" using assms(1,2) by (auto simp: sorted_kv_def strict_sorted_iff)
  show d: "distinct (map fst xs)" "distinct (map fst ys)" using assms(1,2) by (auto intro: sorted_kv_distinct)
  show "inj_on fst (set xs \<union> set ys)" using d(1) eq by (simp add: distinct_map)
qed

lemma texts_key: "texts m \<Longrightarrow> k \<in> set (keys_of m) \<Longrightarrow> text_ok k \<and> (\<exists>v. m k = Some v \<and> text_ok v)"
  by (auto simp: texts_def keys_of_def)

lemma enc_less: "text_ok k \<Longrightarrow> text_ok l \<Longrightarrow> as_bytes k < as_bytes l \<longleftrightarrow> k < l"
  using as_bytes_less_iff by (simp add: text_ok_def)

lemma enc_le: "text_ok k \<Longrightarrow> text_ok l \<Longrightarrow> as_bytes k \<le> as_bytes l \<longleftrightarrow> k \<le> l"
  using enc_less [of l k] by (simp add: linorder_not_less [symmetric])

lemma enc_inject: "text_ok k \<Longrightarrow> text_ok l \<Longrightarrow> as_bytes k = as_bytes l \<longleftrightarrow> k = l"
  using as_bytes_inject by (simp add: text_ok_def)

lemma dec_enc: "text_ok t \<Longrightarrow> from_utf8 (as_bytes t) = Some t"
  using from_utf8_as_bytes by (simp add: text_ok_def)

lemma sorted_enc:
  assumes "texts m"
  shows "sorted_kv (enc m)"
proof -
  have "sorted_wrt (<) (keys_of m)" by (simp add: keys_of_def)
  then have "sorted_wrt (\<lambda>k l. as_bytes k < as_bytes l) (keys_of m)"
    by (rule sorted_wrt_mono_rel [rotated]) (use texts_key [OF assms] enc_less in blast)
  then show ?thesis by (simp add: sorted_kv_def enc_def sorted_wrt_map enc_entry_def comp_def)
qed

lemma map_of_enc:
  assumes "texts m"
  shows "map_of (enc m) b = Some w \<longleftrightarrow> (\<exists>k v. m k = Some v \<and> b = as_bytes k \<and> w = as_bytes v)"
proof -
  have "(b, w) \<in> set (enc m) \<longleftrightarrow> (\<exists>k v. m k = Some v \<and> b = as_bytes k \<and> w = as_bytes v)"
    using assms by (force simp: enc_def enc_entry_def keys_of_def texts_def)
  then show ?thesis using map_of_eq_Some_iff [OF sorted_kv_distinct [OF sorted_enc [OF assms]]] by simp
qed

lemma enc_lookup:
  assumes "texts m" and "text_ok k"
  shows "map_of (enc m) (as_bytes k) = map_option as_bytes (m k)"
proof (cases "m k")
  case None
  have "text_ok l" if "m l = Some u" for l u using that assms(1) by (simp add: texts_def)
  with None have "map_of (enc m) (as_bytes k) \<noteq> Some w" for w
    using map_of_enc [OF assms(1)] enc_inject [OF assms(2)] by (metis option.distinct(1))
  then have "map_of (enc m) (as_bytes k) = None" by (metis option.exhaust)
  with None show ?thesis by simp
next
  case (Some v)
  then show ?thesis using map_of_enc [OF assms(1)] by auto
qed

lemma texts_upd: "texts m \<Longrightarrow> text_ok k \<Longrightarrow> text_ok v \<Longrightarrow> texts (m(k \<mapsto> v))"
  by (auto simp: texts_def)

lemma texts_del: "texts m \<Longrightarrow> texts (m(k := None))"
  by (auto simp: texts_def)

lemma ex_upd:
  assumes "\<And>l u. m l = Some u \<Longrightarrow> f k = f l \<longleftrightarrow> k = l"
  shows "(\<exists>l u. (m(k := r)) l = Some u \<and> b = f l \<and> w = g u)
    \<longleftrightarrow> (if b = f k then (\<exists>u. r = Some u \<and> w = g u) else (\<exists>l u. m l = Some u \<and> b = f l \<and> w = g u))"
  using assms by (metis fun_upd_apply)

lemma enc_upd:
  assumes "texts m" and "text_ok k" and "text_ok v"
  shows "enc (m(k \<mapsto> v)) = kv_insert (as_bytes k) (as_bytes v) (enc m)"
proof (rule sorted_kv_unique)
  note t = texts_upd [OF assms]
  show "sorted_kv (enc (m(k \<mapsto> v)))" "sorted_kv (kv_insert (as_bytes k) (as_bytes v) (enc m))"
    using sorted_enc [OF t] sorted_kv_insert [OF sorted_enc [OF assms(1)]] by simp_all
  have inj: "as_bytes k = as_bytes l \<longleftrightarrow> k = l" if "m l = Some w" for l w
    using that enc_inject [OF assms(2)] assms(1) by (auto simp: texts_def)
  have "map_of (enc (m(k \<mapsto> v))) b = Some w \<longleftrightarrow> map_of (kv_insert (as_bytes k) (as_bytes v) (enc m)) b = Some w" for b w
    using ex_upd [where m = m and f = as_bytes and g = as_bytes and r = "Some v" and b = b and w = w, OF inj]
    unfolding map_of_enc [OF t, symmetric] map_of_enc [OF assms(1), symmetric]
    by (auto simp: map_of_kv_insert [OF sorted_enc [OF assms(1)]])
  then show "map_of (enc (m(k \<mapsto> v))) = map_of (kv_insert (as_bytes k) (as_bytes v) (enc m))"
    by (intro ext) (metis option.exhaust)
qed

lemma enc_del:
  assumes "texts m" and "text_ok k"
  shows "enc (m(k := None)) = kv_delete (as_bytes k) (enc m)"
proof (rule sorted_kv_unique)
  note t = texts_del [OF assms(1), of k]
  show "sorted_kv (enc (m(k := None)))" "sorted_kv (kv_delete (as_bytes k) (enc m))"
    using sorted_enc [OF t] sorted_kv_delete [OF sorted_enc [OF assms(1)]] by simp_all
  have inj: "as_bytes k = as_bytes l \<longleftrightarrow> k = l" if "m l = Some w" for l w
    using that enc_inject [OF assms(2)] assms(1) by (auto simp: texts_def)
  have "map_of (enc (m(k := None))) b = Some w \<longleftrightarrow> map_of (kv_delete (as_bytes k) (enc m)) b = Some w" for b w
    using ex_upd [where m = m and f = as_bytes and g = as_bytes and r = None and b = b and w = w, OF inj]
    unfolding map_of_enc [OF t, symmetric] map_of_enc [OF assms(1), symmetric] by (auto simp: map_of_kv_delete)
  then show "map_of (enc (m(k := None))) = map_of (kv_delete (as_bytes k) (enc m))"
    by (intro ext) (metis option.exhaust)
qed

lemma enc_range:
  assumes "texts m" and "text_ok lo" and "text_ok hi"
  shows "filter (\<lambda>x. as_bytes lo \<le> fst x \<and> fst x \<le> as_bytes hi) (enc m)
    = map (enc_entry m) (filter (\<lambda>k. lo \<le> k \<and> k \<le> hi) (keys_of m))"
  unfolding enc_def filter_map comp_def
  by (rule arg_cong [of _ _ "map (enc_entry m)"], rule filter_cong [OF refl])
    (use texts_key [OF assms(1)] enc_le assms(2,3) in \<open>auto simp: enc_entry_def\<close>)

section \<open>Specification\<close>

type_synonym text_map = "str \<rightharpoonup> str"

definition spec_found :: "str \<Rightarrow> str option \<Rightarrow> str" where
  "spec_found prefix r = println (case r of Some v \<Rightarrow> prefix @ v | None \<Rightarrow> lit ''(not found)'')"

definition spec_entries :: "text_map \<Rightarrow> str list \<Rightarrow> str" where
  "spec_entries m ks = concat (map (\<lambda>k. println (lit ''  '' @ k @ lit '' => '' @ the (m k))) ks)
     @ println (lit ''('' @ show_dec (length ks) @ lit '' entries)'')"

definition spec_put :: "str list \<Rightarrow> text_map \<Rightarrow> text_map shell_result" where
  "spec_put parts m = (if length parts < 3 then usage ''put <key> <value>'' m
     else (println (lit ''OK''), Continue, m(parts ! 1 \<mapsto> parts ! 2)))"

definition spec_get :: "str list \<Rightarrow> text_map \<Rightarrow> text_map shell_result" where
  "spec_get parts m = (if length parts < 2 then usage ''get <key>'' m
     else (spec_found [] (m (parts ! 1)), Continue, m))"

definition spec_del :: "str list \<Rightarrow> text_map \<Rightarrow> text_map shell_result" where
  "spec_del parts m = (if length parts < 2 then usage ''del <key>'' m
     else (spec_found (lit ''Deleted: '') (m (parts ! 1)), Continue, m(parts ! 1 := None)))"

definition spec_scan :: "text_map \<Rightarrow> text_map shell_result" where
  "spec_scan m = ((if keys_of m = [] then println (lit ''(empty)'') else spec_entries m (keys_of m)), Continue, m)"

definition spec_range :: "str list \<Rightarrow> text_map \<Rightarrow> text_map shell_result" where
  "spec_range parts m = (if length parts < 3 then usage ''range <start> <end>'' m
     else (spec_entries m (filter (\<lambda>k. parts ! 1 \<le> k \<and> k \<le> parts ! 2) (keys_of m)), Continue, m))"

definition bench_map :: "nat \<Rightarrow> text_map \<Rightarrow> text_map" where
  "bench_map n m = foldl (\<lambda>m i. m(bench_key i \<mapsto> bench_val i)) m [0..<n]"

definition spec_bench :: "cli_env \<Rightarrow> nat \<Rightarrow> str list \<Rightarrow> text_map \<Rightarrow> text_map shell_result" where
  "spec_bench env line_no parts m =
     (let n = bench_count parts; m' = bench_map n m in
      (println (lit ''Inserting '' @ show_dec n @ lit '' records...'')
       @ println (lit ''Inserted '' @ show_dec n @ lit '' records in '' @ clock env line_no n)
       @ show_verification (bench_val (n div 2)) (map_option as_bytes (m' (bench_key (n div 2)))), Continue, m'))"

definition spec_quit :: "text_map \<Rightarrow> text_map shell_result" where
  "spec_quit m = (println (lit ''Syncing...'') @ println (lit ''Goodbye!''), Break, m)"

text \<open>All commands but \<^verbatim>\<open>stats\<close>, whose output the map does not determine.\<close>

definition shell_spec :: "cli_env \<Rightarrow> nat \<Rightarrow> str list \<Rightarrow> text_map \<Rightarrow> text_map shell_result" where
  "shell_spec env line_no parts m =
     (let cmd = parts ! 0 in
      if cmd = lit ''put'' then spec_put parts m
      else if cmd = lit ''get'' then spec_get parts m
      else if cmd = lit ''del'' then spec_del parts m
      else if cmd = lit ''scan'' then spec_scan m
      else if cmd = lit ''range'' then spec_range parts m
      else if cmd = lit ''bench'' then spec_bench env line_no parts m
      else if cmd = lit ''quit'' \<or> cmd = lit ''exit'' \<or> cmd = lit ''q'' then spec_quit m
      else (println (lit ''Unknown command: '' @ cmd), Continue, m))"

definition spec_line :: "cli_env \<Rightarrow> nat \<Rightarrow> str \<Rightarrow> text_map \<Rightarrow> text_map shell_result" where
  "spec_line env line_no line m =
     (let parts = splitn 3 space (trim line) in
      if parts ! 0 = [] then (prompt, Continue, m)
      else followed_by (shell_spec env line_no parts m) (\<lambda>m. (prompt, Continue, m)))"

primrec session_spec :: "cli_env \<Rightarrow> nat \<Rightarrow> bytes list \<Rightarrow> text_map \<Rightarrow> text_map shell_result" where
  "session_spec env line_no [] m = ([], Continue, m)"
| "session_spec env line_no (l # ls) m =
     (case from_utf8 l of
        None \<Rightarrow> ([], Break, m)
      | Some line \<Rightarrow> followed_by (spec_line env line_no line m) (session_spec env (Suc line_no) ls))"

text \<open>Sessions that are covered: every insert finds room, and the command is not \<^verbatim>\<open>stats\<close>.\<close>

type_synonym room = "tree_pool \<Rightarrow> key \<Rightarrow> bytes \<Rightarrow> bool"

definition put_fits :: "room \<Rightarrow> str \<Rightarrow> str \<Rightarrow> storage_engine \<Rightarrow> bool" where
  "put_fits room k v e \<longleftrightarrow> room (se_btree e, se_pool e) (as_bytes k) (as_bytes v)"

primrec bench_fits :: "room \<Rightarrow> nat \<Rightarrow> nat \<Rightarrow> storage_engine \<Rightarrow> bool" where
  "bench_fits room 0 i e \<longleftrightarrow> True"
| "bench_fits room (Suc k) i e \<longleftrightarrow> put_fits room (bench_key i) (bench_val i) e
     \<and> bench_fits room k (Suc i) (snd (engine_put (as_bytes (bench_key i)) (as_bytes (bench_val i)) e))"

definition line_fits :: "room \<Rightarrow> str list \<Rightarrow> storage_engine \<Rightarrow> bool" where
  "line_fits room parts e \<longleftrightarrow> (parts ! 0 = lit ''put'' \<and> 3 \<le> length parts \<longrightarrow> put_fits room (parts ! 1) (parts ! 2) e)
     \<and> (parts ! 0 = lit ''bench'' \<longrightarrow> bench_fits room (bench_count parts) 0 e) \<and> parts ! 0 \<noteq> lit ''stats''"

primrec session_fits :: "room \<Rightarrow> cli_env \<Rightarrow> nat \<Rightarrow> bytes list \<Rightarrow> storage_engine \<Rightarrow> bool" where
  "session_fits room env line_no [] e \<longleftrightarrow> True"
| "session_fits room env line_no (l # ls) e \<longleftrightarrow>
     (case from_utf8 l of
        None \<Rightarrow> True
      | Some line \<Rightarrow> line_fits room (splitn 3 space (trim line)) e
          \<and> (case cli_line env line_no line e of (_, Continue, e') \<Rightarrow> session_fits room env (Suc line_no) ls e' | _ \<Rightarrow> True))"

section \<open>Lines\<close>

lemma payloads_scalar: "next_char bs = Some (c, rest) \<Longrightarrow> scalar c"
  by (cases bs) (auto simp: Let_def in_bounds_Some scalar_def split: if_splits)

lemma from_utf8_scalar: "from_utf8 bs = Some t \<Longrightarrow> \<forall>c \<in> set t. scalar c"
proof (induction bs arbitrary: t rule: from_utf8.induct)
  case (1 bs)
  show ?case
  proof (cases "bs = []")
    case True
    with "1.prems" show ?thesis by (subst (asm) from_utf8.simps) simp
  next
    case False
    with "1.prems" obtain c rest u where c: "next_char bs = Some (c, rest)" "from_utf8 rest = Some u" "t = c # u"
      by (subst (asm) from_utf8.simps) (auto split: option.splits)
    from "1.IH" [OF False c(1) refl c(2)] payloads_scalar [OF c(1)] c(3) show ?thesis by simp
  qed
qed

lemma trim_set: "set (trim t) \<subseteq> set t"
  unfolding trim_def set_rev by (metis set_dropWhileD set_rev subsetI)

lemma splitn_set: "p \<in> set (splitn n sep t) \<Longrightarrow> set p \<subseteq> set t"
proof (induction n sep t rule: splitn.induct)
  case (3 n sep t)
  show ?case
  proof (cases "dropWhile (\<lambda>c. c \<noteq> sep) t")
    case Nil
    with "3.prems" show ?thesis by simp
  next
    case (Cons c rest)
    then have "set (c # rest) \<subseteq> set t" using set_dropWhileD by (metis subsetI)
    with Cons 3 show ?thesis by (auto dest: set_takeWhileD)
  qed
qed simp_all

lemma splitn_3_not_Nil: "splitn 3 sep t \<noteq> []"
  by (simp add: numeral_3_eq_3 split: list.split)

section \<open>Every command refines its specification\<close>

lemma text_ok_lit: "(\<forall>c \<in> set s. of_char c < (128 :: nat)) \<Longrightarrow> text_ok (lit s)"
  by (auto simp: text_ok_def lit_def scalar_def)

lemma text_ok_append [simp]: "text_ok (s @ t) \<longleftrightarrow> text_ok s \<and> text_ok t"
  by (auto simp: text_ok_def)

lemma text_ok_bench: "text_ok (bench_key i)" "text_ok (bench_val i)"
proof -
  have "list_all digit (pad_zeros 8 (show_dec i))"
    using show_dec_digits(2) [of i] by (auto simp: pad_zeros_def list_all_iff digit_def)
  then have d: "text_ok (pad_zeros 8 (show_dec i))" by (auto simp: text_ok_def list_all_iff digit_def scalar_def)
  show "text_ok (bench_key i)" "text_ok (bench_val i)"
    using d by (simp_all add: bench_key_def bench_val_def text_ok_lit)
qed

lemma show_found_enc:
  "(\<And>v. r = Some v \<Longrightarrow> text_ok v) \<Longrightarrow> show_found prefix (map_option as_bytes r) = spec_found prefix r"
  by (cases r) (simp_all add: show_found_def spec_found_def show_value_def dec_enc)

lemma show_entries_enc:
  assumes "texts m" and "set ks \<subseteq> set (keys_of m)"
  shows "show_entries (map (enc_entry m) ks) = spec_entries m ks"
proof -
  have "show_entry (enc_entry m k) = println (lit ''  '' @ k @ lit '' => '' @ the (m k))" if "k \<in> set ks" for k
  proof -
    have "k \<in> set (keys_of m)" using that assms(2) by blast
    from texts_key [OF assms(1) this] show ?thesis by (auto simp: show_entry_def enc_entry_def show_text_def dec_enc)
  qed
  then show ?thesis by (simp add: show_entries_def spec_entries_def comp_def cong: map_cong)
qed

definition agrees :: "(tree_pool \<Rightarrow> entry list \<Rightarrow> bool) \<Rightarrow> storage_engine shell_result \<Rightarrow> text_map shell_result \<Rightarrow> bool" where
  "agrees holds r s \<longleftrightarrow> (\<exists>out fl e m. r = (out, fl, e) \<and> s = (out, fl, m) \<and> engine_holds holds e (enc m) \<and> texts m)"

lemma agreesI: "engine_holds holds e (enc m) \<Longrightarrow> texts m \<Longrightarrow> agrees holds (out, fl, e) (out, fl, m)"
  by (auto simp: agrees_def)

lemma agrees_followed_by:
  assumes "agrees holds r s"
    and "\<And>out e m. r = (out, Continue, e) \<Longrightarrow> engine_holds holds e (enc m) \<Longrightarrow> texts m \<Longrightarrow> agrees holds (f e) (g m)"
  shows "agrees holds (followed_by r f) (followed_by s g)"
proof -
  from assms(1) obtain out fl e m where r: "r = (out, fl, e)" "s = (out, fl, m)" "engine_holds holds e (enc m)" "texts m"
    by (auto simp: agrees_def)
  show ?thesis
  proof (cases fl)
    case Continue
    with assms(2) [of out e m] r show ?thesis by (auto simp: agrees_def followed_by_def)
  qed (use r in \<open>auto simp: agrees_def followed_by_def\<close>)
qed

context engine_index
begin

lemma engine_put_ok:
  assumes "engine_holds holds e (enc m)" and "texts m" and "text_ok k" and "text_ok v" and "put_fits room k v e"
  shows "\<exists>e'. engine_put (as_bytes k) (as_bytes v) e = (Inr (), e') \<and> engine_holds holds e' (enc (m(k \<mapsto> v))) \<and> texts (m(k \<mapsto> v))"
  using put_ok [OF assms(1), of "as_bytes k" "as_bytes v"] assms(5) texts_upd [OF assms(2-4)]
  by (auto simp: engine_put_def bindS_def put_fits_def enc_upd [OF assms(2-4)])

lemma cmd_put_ok:
  assumes "engine_holds holds e (enc m)" and "texts m" and "\<forall>p \<in> set parts. text_ok p"
    and "3 \<le> length parts \<Longrightarrow> put_fits room (parts ! 1) (parts ! 2) e"
  shows "agrees holds (cmd_put env parts e) (spec_put parts m)"
  using engine_put_ok [OF assms(1,2), of "parts ! 1" "parts ! 2"] assms
  by (auto simp: cmd_put_def spec_put_def usage_def report_def intro!: agreesI)

lemma cmd_get_ok:
  assumes "engine_holds holds e (enc m)" and "texts m" and "\<forall>p \<in> set parts. text_ok p"
  shows "agrees holds (cmd_get env parts e) (spec_get parts m)"
proof (cases "length parts < 2")
  case True
  with assms(1,2) show ?thesis by (auto simp: cmd_get_def spec_get_def usage_def intro!: agreesI)
next
  case False
  then have k: "text_ok (parts ! 1)" using assms(3) by simp
  from get_ok [OF assms(1), of "as_bytes (parts ! 1)"] obtain e' where
    "engine_get (as_bytes (parts ! 1)) e = (Inr (map_option as_bytes (m (parts ! 1))), e')" "engine_holds holds e' (enc m)"
    unfolding enc_lookup [OF assms(2) k] by blast
  with False show ?thesis using show_found_enc [of "m (parts ! 1)" "[]"] assms(2)
    by (auto simp: cmd_get_def spec_get_def report_def texts_def intro!: agreesI)
qed

lemma cmd_del_ok:
  assumes "engine_holds holds e (enc m)" and "texts m" and "\<forall>p \<in> set parts. text_ok p"
  shows "agrees holds (cmd_del env parts e) (spec_del parts m)"
proof (cases "length parts < 2")
  case True
  with assms(1,2) show ?thesis by (auto simp: cmd_del_def spec_del_def usage_def intro!: agreesI)
next
  case False
  then have k: "text_ok (parts ! 1)" using assms(3) by simp
  from delete_ok [OF assms(1), of "as_bytes (parts ! 1)"] obtain e' where
    "engine_delete (as_bytes (parts ! 1)) e = (Inr (map_option as_bytes (m (parts ! 1))), e')"
    "engine_holds holds e' (enc (m(parts ! 1 := None)))"
    unfolding enc_lookup [OF assms(2) k] enc_del [OF assms(2) k, symmetric] engine_delete_def by blast
  with False show ?thesis using show_found_enc [of "m (parts ! 1)" "lit ''Deleted: ''"] assms(2) texts_del [OF assms(2)]
    by (auto simp: cmd_del_def spec_del_def report_def texts_def intro!: agreesI)
qed

lemma cmd_scan_ok:
  assumes "engine_holds holds e (enc m)" and "texts m"
  shows "agrees holds (cmd_scan env e) (spec_scan m)"
proof -
  obtain e' where "engine_scan_all e = (Inr (enc m), e')" "engine_holds holds e' (enc m)" using scan_all_ok [OF assms(1)] by blast
  with assms(2) show ?thesis using show_entries_enc [OF assms(2), of "keys_of m"]
    by (auto simp: cmd_scan_def spec_scan_def report_def show_scan_def enc_def intro!: agreesI)
qed

lemma cmd_range_ok:
  assumes "engine_holds holds e (enc m)" and "texts m" and "\<forall>p \<in> set parts. text_ok p"
  shows "agrees holds (cmd_range env parts e) (spec_range parts m)"
proof (cases "length parts < 3")
  case True
  with assms(1,2) show ?thesis by (auto simp: cmd_range_def spec_range_def usage_def intro!: agreesI)
next
  case False
  let ?ks = "filter (\<lambda>k. parts ! 1 \<le> k \<and> k \<le> parts ! 2) (keys_of m)"
  have k: "text_ok (parts ! 1)" "text_ok (parts ! 2)" using assms(3) False by simp_all
  from range_scan_ok [OF assms(1), of "as_bytes (parts ! 1)" "as_bytes (parts ! 2)"] obtain e' where
    "engine_range_scan (as_bytes (parts ! 1)) (as_bytes (parts ! 2)) e = (Inr (map (enc_entry m) ?ks), e')" "engine_holds holds e' (enc m)"
    unfolding enc_range [OF assms(2) k] by blast
  with False assms(2) show ?thesis using show_entries_enc [OF assms(2), of ?ks]
    by (auto simp: cmd_range_def spec_range_def report_def intro!: agreesI)
qed

lemma bench_puts_ok:
  assumes "engine_holds holds e (enc m)" and "texts m" and "bench_fits room k i e"
  shows "agrees holds (bench_puts env k i e) ([], Continue, foldl (\<lambda>m i. m(bench_key i \<mapsto> bench_val i)) m [i..<i + k])"
  using assms
proof (induction k arbitrary: i e m)
  case 0
  then show ?case by (auto intro!: agreesI)
next
  case (Suc k)
  have fits: "put_fits room (bench_key i) (bench_val i) e" using Suc.prems(3) by simp
  from engine_put_ok [OF Suc.prems(1,2) text_ok_bench(1,2) fits] obtain e' where
    p: "engine_put (as_bytes (bench_key i)) (as_bytes (bench_val i)) e = (Inr (), e')"
      "engine_holds holds e' (enc (m(bench_key i \<mapsto> bench_val i)))" "texts (m(bench_key i \<mapsto> bench_val i))" by blast
  have "[i..<i + Suc k] = i # [Suc i..<Suc i + k]" by (simp add: upt_conv_Cons)
  with Suc.IH [OF p(2,3), of "Suc i"] Suc.prems(3) p(1) show ?case by simp
qed

lemma cmd_bench_ok:
  assumes "engine_holds holds e (enc m)" and "texts m" and "bench_fits room (bench_count parts) 0 e"
  shows "agrees holds (cmd_bench env line_no parts e) (spec_bench env line_no parts m)"
proof -
  let ?n = "bench_count parts"
  from bench_puts_ok [OF assms, of env] obtain e1 where
    p: "bench_puts env ?n 0 e = ([], Continue, e1)" "engine_holds holds e1 (enc (bench_map ?n m))" "texts (bench_map ?n m)"
    by (auto simp: agrees_def bench_map_def)
  from get_ok [OF p(2), of "as_bytes (bench_key (?n div 2))"] obtain e2 where
    "engine_get (as_bytes (bench_key (?n div 2))) e1 = (Inr (map_option as_bytes (bench_map ?n m (bench_key (?n div 2)))), e2)"
    "engine_holds holds e2 (enc (bench_map ?n m))"
    unfolding enc_lookup [OF p(3) text_ok_bench(1)] by blast
  with p(1,3) show ?thesis by (auto simp: cmd_bench_def spec_bench_def Let_def followed_by_def report_def intro!: agreesI)
qed

lemma cmd_quit_ok:
  assumes "engine_holds holds e (enc m)" and "texts m"
  shows "agrees holds (cmd_quit e) (spec_quit m)"
  using sync_ok [OF assms(1)] assms(2) by (auto simp: cmd_quit_def spec_quit_def intro!: agreesI)

lemma dispatch_ok:
  assumes "engine_holds holds e (enc m)" and "texts m" and "\<forall>p \<in> set parts. text_ok p" and "line_fits room parts e"
  shows "agrees holds (dispatch env line_no parts e) (shell_spec env line_no parts m)"
  unfolding dispatch_def shell_spec_def Let_def
  using cmd_put_ok [OF assms(1-3)] cmd_get_ok [OF assms(1-3)] cmd_del_ok [OF assms(1-3)] cmd_scan_ok [OF assms(1,2)]
    cmd_range_ok [OF assms(1-3)] cmd_bench_ok [OF assms(1,2)] cmd_quit_ok [OF assms(1,2)] agreesI [OF assms(1,2)] assms(4)
  by (simp add: line_fits_def)

lemma cli_line_ok:
  assumes "engine_holds holds e (enc m)" and "texts m" and "text_ok line" and "line_fits room (splitn 3 space (trim line)) e"
  shows "agrees holds (cli_line env line_no line e) (spec_line env line_no line m)"
proof -
  have "\<forall>p \<in> set (splitn 3 space (trim line)). text_ok p"
    using splitn_set [of _ 3 space "trim line"] trim_set [of line] assms(3) by (auto simp: text_ok_def)
  then have "agrees holds (followed_by (dispatch env line_no (splitn 3 space (trim line)) e) (\<lambda>e. (prompt, Continue, e)))
      (followed_by (shell_spec env line_no (splitn 3 space (trim line)) m) (\<lambda>m. (prompt, Continue, m)))"
    by (intro agrees_followed_by [OF dispatch_ok [OF assms(1,2) _ assms(4)]]) (auto intro: agreesI)
  then show ?thesis using agreesI [OF assms(1,2)] by (simp add: cli_line_def spec_line_def Let_def splitn_3_not_Nil)
qed

lemma cli_loop_ok:
  assumes "engine_holds holds e (enc m)" and "texts m" and "session_fits room env line_no ls e"
  shows "agrees holds (cli_loop env line_no ls e) (session_spec env line_no ls m)"
  using assms
proof (induction ls arbitrary: line_no e m)
  case Nil
  then show ?case by (auto intro!: agreesI)
next
  case (Cons l ls)
  show ?case
  proof (cases "from_utf8 l")
    case None
    with Cons.prems show ?thesis by (auto intro!: agreesI)
  next
    case (Some line)
    then have fits: "line_fits room (splitn 3 space (trim line)) e" using Cons.prems(3) by simp
    have ok: "text_ok line" using from_utf8_scalar [OF Some] by (simp add: text_ok_def)
    have "agrees holds (cli_loop env (Suc line_no) ls e') (session_spec env (Suc line_no) ls m')"
      if "cli_line env line_no line e = (out, Continue, e')" "engine_holds holds e' (enc m')" "texts m'" for out e' m'
      using that Cons.prems(3) Some by (intro Cons.IH) simp_all
    from agrees_followed_by [OF cli_line_ok [OF Cons.prems(1,2) ok fits] this] show ?thesis using Some by simp
  qed
qed

end

section \<open>Properties\<close>

text \<open>
  C4. The shell is a map from texts to texts: started on an engine that stores such a map, a session
  prints exactly what the map prescribes for the commands on its lines, ends the way it should, and
  leaves an engine that stores the resulting map. Texts of any Unicode characters are read back as they
  were typed, and scans list the keys in order. The session has no \<^verbatim>\<open>stats\<close> line, whose output depends on
  more than the map, and each insert of a \<^verbatim>\<open>put\<close> or \<^verbatim>\<open>bench\<close> line finds room in its leaf, or adds a new key,
  with its value at most 150 bytes, to a tree with right parent pointers and small entries while page numbers last.
\<close>

theorem shell_refines_text_map:
  assumes "engine_ok e (enc m)" and "texts m" and "session_fits tree_room env line_no ls e"
    and "cli_loop env line_no ls e = (out, fl, e')"
  shows "\<exists>m'. session_spec env line_no ls m = (out, fl, m') \<and> engine_ok e' (enc m') \<and> texts m'"
  using tree_engine.cli_loop_ok [OF assms(1-3)] assms(4) by (auto simp: agrees_def)

text \<open>A session on a new database: a value outside ASCII, put and got.\<close>

definition quiet_env :: cli_env where
  "quiet_env = \<lparr>strerror = \<lambda>_. [], clock = \<lambda>_ _. []\<rparr>"

lemma enc_empty [simp]: "enc Map.empty = []" "texts Map.empty"
  by (simp_all add: enc_def keys_of_def texts_def)

lemma sample_lines:
  "from_utf8 (as_bytes (lit ''put k '' @ [8364])) = Some (lit ''put k '' @ [8364])"
  "from_utf8 (as_bytes (lit ''get k'')) = Some (lit ''get k'')"
  by (rule dec_enc, simp add: text_ok_def lit_def scalar_def)+

lemma sample_parts:
  "splitn 3 space (trim (lit ''put k '' @ [8364])) = [lit ''put'', lit ''k'', [8364]]"
  "splitn 3 space (trim (lit ''get k'')) = [lit ''get'', lit ''k'']"
  "lit ''put'' \<noteq> []" "lit ''get'' \<noteq> []" "lit ''get'' \<noteq> lit ''put''" "lit ''put'' \<noteq> lit ''bench''" "lit ''get'' \<noteq> lit ''bench''"
  "lit ''put'' \<noteq> lit ''stats''" "lit ''get'' \<noteq> lit ''stats''"
  by (simp_all add: lit_def trim_def space_def numeral_3_eq_3 white_space_def)

theorem shell_refines_text_map_witness:
  "\<exists>e e'. engine_open ''db'' [] [] = Inr e
    \<and> cli_loop quiet_env 0 [as_bytes (lit ''put k '' @ [8364]), as_bytes (lit ''get k'')] e
      = (println (lit ''OK'') @ prompt @ println [8364] @ prompt, Continue, e')"
proof (rule open_fresh [of "''db''"])
  let ?ls = "[as_bytes (lit ''put k '' @ [8364]), as_bytes (lit ''get k'')]"
  fix e assume e: "engine_open ''db'' [] [] = Inr e" "engine_ok e []"
  have "leaf_size [] + 12 + length (as_bytes (lit ''k'')) + length (as_bytes [8364]) \<le> LEAF_CAPACITY"
    by (simp add: lit_def utf8_char_def)
  from small_room [OF e(2) this] have "session_fits tree_room quiet_env 0 ?ls e"
    by (auto simp: sample_lines sample_parts line_fits_def put_fits_def split: flow.split prod.split)
  moreover obtain out fl e' where run: "cli_loop quiet_env 0 ?ls e = (out, fl, e')" by (metis surj_pair)
  ultimately obtain m' where "session_spec quiet_env 0 ?ls Map.empty = (out, fl, m')"
    using shell_refines_text_map [of e Map.empty] e(2) by (metis enc_empty)
  moreover have "session_spec quiet_env 0 ?ls Map.empty
      = (println (lit ''OK'') @ prompt @ println [8364] @ prompt, Continue, [lit ''k'' \<mapsto> [8364]])"
    by (simp add: sample_lines sample_parts spec_line_def shell_spec_def spec_put_def spec_get_def spec_found_def followed_by_def Let_def)
  ultimately show ?thesis using run e(1) by auto
qed

end
