(* ===== verification/Ascend.thy ===== *)
theory Ascend
  imports Insert
begin

text \<open>
  Loading keys in ascending order. When every separator of a tree is at or below the key that is
  inserted, the key belongs into the last child all the way down, and a split of an internal node puts
  the new child into the right half: the parent pointers stay right (\<open>tame\<close>). The leaf that is split
  adds its middle key as a separator, and that key is again not above the new key if at most
  \<open>FEW_ABOVE\<close> entries are above it. \<open>loadable\<close> is the invariant of such a load; it also bounds the
  pages a load of \<open>n\<close> entries can take, so that up to \<open>MAX_LOAD\<close> entries no condition on the
  counters is left.
\<close>

section \<open>The middle of a full leaf\<close>

definition FEW_ABOVE :: nat where "FEW_ABOVE = 13"

definition over :: "key \<Rightarrow> entry list \<Rightarrow> nat" where
  "over key es = length (filter (\<lambda>e. key < fst e) es)"

lemma over_Nil [simp]: "over key [] = 0"
  by (simp add: over_def)

lemma over_part: "x \<in> set xs \<Longrightarrow> over key (snd x) \<le> over key (concat (map snd xs))"
  by (induction xs) (auto simp: over_def)

lemma over_cover: "over key (snd (cover t key)) \<le> over key (entries t)"
  unfolding entries_def by (rule over_part [OF cover_in_leaves])

lemma length_filter_dropWhile: "length (filter P (dropWhile Q xs)) \<le> length (filter P xs)"
  by (induction xs) auto

lemma over_insert:
  assumes "key < key'"
  shows "over key' (kv_insert key val es) \<le> over key es"
proof -
  have "filter (\<lambda>e. key' < fst e) (takeWhile (\<lambda>e. fst e < key) es) = []"
    using assms by (auto simp: filter_empty_conv dest!: set_takeWhileD)
  then have "over key' (kv_insert key val es) \<le> length (filter (\<lambda>e. key' < fst e) es)"
    using assms length_filter_dropWhile [of "\<lambda>e. key' < fst e" "\<lambda>e. fst e \<le> key" es] by (simp add: over_def kv_insert_def)
  also have "\<dots> \<le> over key es"
    unfolding over_def using assms by (induction es) auto
  finally show ?thesis .
qed

lemma middle_below:
  assumes pos: "kv_pos es key p" and few: "over key es \<le> FEW_ABOVE" and len: "27 \<le> Suc (length es)"
  shows "middle (kv_insert key val es) \<le> key"
proof -
  let ?es = "kv_insert key val es"
  let ?m = "length ?es div 2"
  have es: "?es = take p es @ (key, val) # drop p es" using kv_pos_insert [OF pos] .
  have p: "p \<le> length es" "\<forall>j < p. fst (es ! j) < key" using pos by (simp_all add: kv_pos_def)
  have "key < fst (drop p es ! i)" if "i < length (drop p es)" for i using pos that by (simp add: kv_pos_def)
  then have "\<forall>e \<in> set (drop p es). key < fst e" by (metis in_set_conv_nth)
  note p = p this
  have "over key es = over key (take p es) + length (drop p es)"
    using p(3) append_take_drop_id [of p es] by (metis (no_types, lifting) filter_True filter_append length_append over_def)
  then have "length es - p \<le> 13" using few by (simp add: FEW_ABOVE_def)
  moreover have l: "length ?es = Suc (length es)" using p(1) by (simp add: es)
  ultimately have m: "?m \<le> p" using len by simp
  show ?thesis
  proof (cases "?m = p")
    case True
    then show ?thesis using p(1) by (simp add: middle_def es nth_append)
  next
    case False
    with m have "?es ! ?m = es ! ?m" using p(1) by (simp add: es nth_append)
    with False m p(2) show ?thesis by (simp add: middle_def less_imp_le)
  qed
qed

lemma full_leaf_length:
  assumes "\<forall>e \<in> set es. length (fst e) + length (snd e) \<le> SMALL" and "length key + length val \<le> SMALL"
    and "\<not> leaf_size es + 12 + length key + length val \<le> LEAF_CAPACITY"
  shows "27 \<le> Suc (length es)"
proof -
  have "leaf_size es \<le> 156 * length es" by (rule leaf_size_bounds(1) [OF assms(1)])
  then show ?thesis using assms(2,3) by simp
qed

section \<open>The invariant of a load\<close>

definition loadable :: "tree_pool \<Rightarrow> entry list \<Rightarrow> key \<Rightarrow> nat \<Rightarrow> bool" where
  "loadable s es x n \<longleftrightarrow> (\<exists>t. tree_ok (snd s) t \<and> root_id t = root_page_id (fst s) \<and> entries t = es \<and> linked_tree (snd s) t
     \<and> (\<forall>k \<in> set (seps t). k \<le> x) \<and> height t \<le> n \<and> unat (bp_count (snd s)) \<le> 1 + n * (n + 3))"

definition MAX_LOAD :: nat where "MAX_LOAD = 65000"

lemma low_tame: "\<forall>k \<in> set (seps t). k \<le> key \<Longrightarrow> tame t key"
  and low_ktame: "\<forall>k \<in> set (kseps ks). k \<le> key \<Longrightarrow> ktame ks key"
  by (induction t and ks) (auto dest: routes_seps)

lemma loadable_index: "loadable s es x n \<Longrightarrow> linked_index s es"
  by (auto simp: loadable_def linked_index_def)

lemma view_count:
  assumes "pool_quiet bp" and "pool_quiet bp'" and "bp_view bp' = bp_view bp"
  shows "bp_count bp' = bp_count bp"
proof -
  have "i < bp_count bp' \<longleftrightarrow> i < bp_count bp" for i
    using pool.view_dom [OF assms(1), of i] pool.view_dom [OF assms(2), of i] assms(3) by simp
  then show ?thesis by (metis less_irrefl linorder_neqE)
qed

lemma loadable_view:
  assumes "loadable (tr, bp) es x n" and "pool_quiet bp'" and "bp_view bp' = bp_view bp"
  shows "loadable (tr, bp') es x n"
proof -
  have "pool_quiet bp" using assms(1) by (auto simp: loadable_def tree_ok_def)
  from view_count [OF this assms(2,3)] assms tree_ok_same [of bp _ bp'] show ?thesis
    by (auto simp: loadable_def linked_tree_def)
qed

lemma loadable_above: "loadable s es x n \<Longrightarrow> x \<le> y \<Longrightarrow> loadable s es y n"
  by (auto simp: loadable_def intro: order_trans)

lemma load_step:
  assumes l: "loadable (tr, bp) es x n" and new: "map_of es key = None" "length key + length val \<le> SMALL"
    and x: "x \<le> key" and few: "over key es \<le> FEW_ABOVE" and n: "n < MAX_LOAD"
  obtains s' where "bt_insert key val (tr, bp) = (Inr True, s')" "loadable s' (kv_insert key val es) key (Suc n)"
proof -
  from l obtain t where t: "tree_ok bp t" "root_id t = root_page_id tr" "entries t = es" "linked_tree bp t"
    "\<forall>k \<in> set (seps t). k \<le> x" "height t \<le> n" "unat (bp_count bp) \<le> 1 + n * (n + 3)" by (auto simp: loadable_def)
  have low: "\<forall>k \<in> set (seps t). k \<le> key" using t(5) x by auto
  have sq: "n * (n + 3) \<le> 65000 * 65003" using n by (intro mult_mono) (auto simp: MAX_LOAD_def)
  have c: "unat (bp_count bp) + height t + 2 < 2 ^ 32" using t(6,7) sq n by (simp add: MAX_LOAD_def)
  have new': "map_of (entries t) key = None" using new(1) t(3) by simp
  have ord: "ord None None t" using t(1) by (simp add: tree_ok_def)
  have none: "map_of (snd (cover t key)) key = None" using cover_lookup [OF ord, of key] new' by simp
  have mid: "middle (kv_insert key val (snd (cover t key))) \<le> key" if "\<not> room_for t key val"
  proof -
    have full: "\<not> leaf_size (snd (cover t key)) + 12 + length key + length val \<le> LEAF_CAPACITY"
      using that none by (simp add: room_for_def Let_def)
    have sm: "\<forall>e \<in> set (snd (cover t key)). length (fst e) + length (snd e) \<le> SMALL"
      using small_cover t(4) by (auto simp: linked_tree_def)
    have "sorted_kv (snd (cover t key))"
      using rep_leaf [of "bp_view bp" t "fst (cover t key)" "snd (cover t key)"] cover_in_leaves [of t key] t(1)
      by (auto simp: tree_ok_def leaf_at_def leaf_wf_def)
    then obtain p where "kv_pos (snd (cover t key)) key p" using kv_pos_ex none by blast
    moreover have "over key (snd (cover t key)) \<le> FEW_ABOVE" using over_cover [of key t] few t(3) by simp
    ultimately show ?thesis using full_leaf_length [OF sm new(2) full] by (rule middle_below)
  qed
  show thesis
  proof (rule bt_insert_linked [OF t(1,2,4) new' new(2) c])
    fix tr' bp' assume i: "bt_insert key val (tr, bp) = (Inr True, (tr', bp'))" "inserted bp t key val tr' bp'"
    then obtain t' where t': "tree_ok bp' t'" "root_id t' = root_page_id tr'" "entries t' = kv_insert key val es" "linked_tree bp' t'"
      "unat (bp_count bp') \<le> unat (bp_count bp) + height t + 2" "height t' \<le> Suc (height t)"
      "set (seps t') \<subseteq> (if room_for t key val then {} else {middle (kv_insert key val (snd (cover t key)))}) \<union> set (seps t)"
      using low_tame [OF low] t(3) by (auto simp: inserted_def)
    have "\<forall>k \<in> set (seps t'). k \<le> key" using t'(7) low mid by (auto split: if_splits)
    moreover have "unat (bp_count bp') \<le> 1 + Suc n * (Suc n + 3)" using t'(5) t(6,7) by (simp add: algebra_simps)
    ultimately have "loadable (tr', bp') (kv_insert key val es) key (Suc n)"
      using t' t(6) by (auto simp: loadable_def)
    with that i(1) show thesis by blast
  qed
qed

text \<open>
  Inserts while all entries fit into one leaf, replacing a value by one that is not longer, and deleting
  a key keep the shape of the tree.
\<close>

definition load_room :: "tree_pool \<Rightarrow> key \<Rightarrow> bytes \<Rightarrow> bool" where
  "load_room s key val \<longleftrightarrow> length key + length val \<le> SMALL
     \<and> (\<exists>es. tree_index s es \<and> (leaf_size es + 12 + length key + length val \<le> LEAF_CAPACITY
          \<or> (\<exists>old. map_of es key = Some old \<and> length val \<le> length old)))"

lemma load_update:
  assumes l: "loadable s es x n" and r: "load_room s key val"
  shows "\<exists>s'. bt_insert key val s = (Inr (map_of es key = None), s') \<and> loadable s' (kv_insert key val es) x n"
proof -
  obtain tr bp where s: "s = (tr, bp)" by (cases s)
  from l s obtain t where t: "tree_ok bp t" "root_id t = root_page_id tr" "entries t = es" "linked_tree bp t"
    "\<forall>k \<in> set (seps t). k \<le> x" "height t \<le> n" "unat (bp_count bp) \<le> 1 + n * (n + 3)" by (auto simp: loadable_def)
  have sm: "length key + length val \<le> SMALL" using r by (simp add: load_room_def)
  have "es' = es" if "tree_index s es'" for es'
    using tree.holds_unique [OF that linked_index_index [OF loadable_index [OF l]]] .
  with r t(3) have "leaf_size (entries t) + 12 + length key + length val \<le> LEAF_CAPACITY
      \<or> (\<exists>old. map_of (entries t) key = Some old \<and> length val \<le> length old)" by (auto simp: load_room_def)
  then have "room_for t key val" using small_room_for [OF t(1)] shorter_room_for [OF t(1)] by blast
  then show ?thesis
  proof (rule bt_insert_room_tree [OF t(1,2)])
    fix bp' t' assume "bt_insert key val (tr, bp) = (Inr (map_of (entries t) key = None), (tr, bp'))" "tree_ok bp' t'"
      "root_id t' = root_id t" "entries t' = kv_insert key val (entries t)" "bp_count bp' = bp_count bp"
      "linked_tree bp t \<Longrightarrow> length key + length val \<le> SMALL \<Longrightarrow> linked_tree bp' t'" "seps t' = seps t" "height t' = height t"
    with t sm s show ?thesis by (auto simp: loadable_def)
  qed
qed

lemma load_delete:
  assumes "loadable (tr, bp) es x n"
  shows "\<exists>s'. bt_delete key (tr, bp) = (Inr (map_of es key), s') \<and> loadable s' (kv_delete key es) x n"
proof -
  from assms obtain t where t: "tree_ok bp t" "root_id t = root_page_id tr" "entries t = es" "linked_tree bp t"
    "\<forall>k \<in> set (seps t). k \<le> x" "height t \<le> n" "unat (bp_count bp) \<le> 1 + n * (n + 3)" by (auto simp: loadable_def)
  show ?thesis
    by (rule bt_delete_tree [OF t(1,2), of key]) (use t in \<open>auto simp: loadable_def\<close>)
qed

lemma new_loadable:
  assumes "linked_index s []" and "bp_count (snd s) = 1"
  shows "loadable s [] x 0"
proof -
  from assms(1) obtain t where t: "tree_ok (snd s) t" "root_id t = root_page_id (fst s)" "entries t = []" "linked_tree (snd s) t"
    by (auto simp: linked_index_def)
  obtain i where "t = BLeaf i (entries t)" by (rule one_page_leaf [OF t(1) assms(2)])
  then have "seps t = []" "height t = 0" by (metis seps.simps(1), metis height.simps(1))
  with t assms(2) show ?thesis by (auto simp: loadable_def)
qed

interpretation loaded: shaped_tree "\<lambda>s es. loadable s es x n" load_room for x n
proof
  fix s :: tree_pool and es k assume "loadable s es x n"
  then show "\<exists>s'. bt_delete k s = (Inr (map_of es k), s') \<and> loadable s' (kv_delete k es) x n" using load_delete by (cases s) blast
qed (auto intro: linked_index_index loadable_index loadable_view simp del: split_paired_Ex intro: load_update)

end
