(* ===== verification/Load.thy ===== *)
theory Load
  imports Shell Ascend
begin

text \<open>
  Loading a database in ascending order of the keys, at the level of the engine: what theory
  \<open>Ascend\<close> shows of the tree, for sequences of puts of any length up to \<open>MAX_LOAD\<close>. No condition on room,
  parent pointers or counters is left.
\<close>

interpretation loaded_engine: engine_index "\<lambda>s es. loadable s es x n" load_room for x n ..

abbreviation loads :: "storage_engine \<Rightarrow> entry list \<Rightarrow> key \<Rightarrow> nat \<Rightarrow> bool" where
  "loads e es x n \<equiv> engine_holds (\<lambda>s es. loadable s es x n) e es"

lemma loads_ok: "loads e es x n \<Longrightarrow> engine_ok e es"
  using linked_index_index [OF loadable_index] by (auto simp: engine_holds_def)

lemma loads_above: "loads e es x n \<Longrightarrow> x \<le> y \<Longrightarrow> loads e es y n"
  by (auto simp: engine_holds_def intro: loadable_above)

lemma open_loads:
  assumes "engine_open p [] [] = Inr e"
  shows "loads e [] x 0"
proof (rule open_fresh [of p])
  fix e' assume "engine_open p [] [] = Inr e'" "engine_holds linked_index e' []" "bp_count (se_pool e') = 1"
  with assms have h: "engine_holds linked_index e []" "bp_count (se_pool e) = 1" by simp_all
  then have "loadable (se_btree e, se_pool e) [] x 0" by (simp add: new_loadable engine_holds_def)
  with h(1) show ?thesis by (simp add: engine_holds_def)
qed

section \<open>Puts\<close>

lemma load_tree_put:
  assumes l: "loads e es x n" and new: "map_of es k = None" "length k + length v \<le> SMALL"
    and x: "x \<le> k" and few: "over k es \<le> FEW_ABOVE" and n: "n < MAX_LOAD"
  shows "\<exists>e'. on_tree (bt_insert k v) e = (Inr True, e') \<and> loads e' (kv_insert k v es) k (Suc n)
    \<and> se_wal e' = se_wal e \<and> se_txn_manager e' = se_txn_manager e"
proof -
  have "loadable (se_btree e, se_pool e) es x n" using l by (simp add: engine_holds_def)
  then obtain s' where s': "bt_insert k v (se_btree e, se_pool e) = (Inr True, s')" "loadable s' (kv_insert k v es) k (Suc n)"
    by (rule load_step [OF _ new x few n])
  from loaded_engine.on_tree_run [where m = "bt_insert k v", OF s'(1,2)] l show ?thesis by (auto simp: engine_holds_def)
qed

lemma load_put:
  assumes "loads e es x n" and "map_of es k = None" "length k + length v \<le> SMALL" and "x \<le> k" and "over k es \<le> FEW_ABOVE" and "n < MAX_LOAD"
  obtains e' where "engine_put k v e = (Inr (), e')" "loads e' (kv_insert k v es) k (Suc n)"
    "se_wal e' = se_wal e" "se_txn_manager e' = se_txn_manager e"
  using load_tree_put [OF assms] by (auto simp: engine_put_def bindS_def)

definition kv_inserts :: "entry list \<Rightarrow> entry list \<Rightarrow> entry list" where
  "kv_inserts kvs es = foldl (\<lambda>es (k, v). kv_insert k v es) es kvs"

definition load_fits :: "entry list \<Rightarrow> key \<Rightarrow> entry list \<Rightarrow> bool" where
  "load_fits es x kvs \<longleftrightarrow> sorted_kv kvs \<and> (\<forall>(k, v) \<in> set kvs. map_of es k = None \<and> length k + length v \<le> SMALL \<and> x \<le> k
     \<and> over k es \<le> FEW_ABOVE)"

lemma load_fits_step:
  assumes "sorted_kv es" and "load_fits es x ((k, v) # kvs)"
  shows "load_fits (kv_insert k v es) k kvs"
  using assms over_insert [of k _ v es] unfolding load_fits_def
  by (fastforce simp: map_of_kv_insert [OF assms(1)] intro: order_trans less_imp_le)

lemma load_puts:
  assumes "loads e es x n" and "load_fits es x kvs" and "n + length kvs \<le> MAX_LOAD"
  shows "\<exists>e' y. put_all kvs e = (Inr (), e') \<and> loads e' (kv_inserts kvs es) y (n + length kvs)
    \<and> (\<forall>k. x \<le> k \<longrightarrow> (\<forall>a \<in> set kvs. fst a \<le> k) \<longrightarrow> y \<le> k) \<and> se_wal e' = se_wal e \<and> se_txn_manager e' = se_txn_manager e"
  using assms
proof (induction kvs arbitrary: e es x n)
  case Nil
  then show ?case by (auto simp: put_all_def kv_inserts_def)
next
  case (Cons a kvs)
  obtain k v where a: "a = (k, v)" by (cases a)
  have f: "map_of es k = None" "length k + length v \<le> SMALL" "x \<le> k" "over k es \<le> FEW_ABOVE"
    using Cons.prems(2) a by (auto simp: load_fits_def)
  have n: "n < MAX_LOAD" "Suc n + length kvs \<le> MAX_LOAD" using Cons.prems(3) by simp_all
  have srt: "sorted_kv es" using tree_engine.engine_holdsD(1) [OF loads_ok [OF Cons.prems(1)]] tree.holds_sorted by blast
  obtain e1 where e1: "engine_put k v e = (Inr (), e1)" "loads e1 (kv_insert k v es) k (Suc n)"
    "se_wal e1 = se_wal e" "se_txn_manager e1 = se_txn_manager e"
    by (rule load_put [OF Cons.prems(1) f n(1)])
  from Cons.IH [OF e1(2) load_fits_step [OF srt Cons.prems(2) [unfolded a]] n(2)] e1(1,3,4) show ?case
    by (auto simp: put_all_def kv_inserts_def a bindS_def)
qed

lemma kv_inserts_append: "sorted_kv (es @ kvs) \<Longrightarrow> kv_inserts kvs es = es @ kvs"
proof (induction kvs arbitrary: es)
  case Nil
  show ?case by (simp add: kv_inserts_def)
next
  case (Cons a kvs)
  obtain k v where a: "a = (k, v)" by (cases a)
  have "\<forall>e \<in> set es. fst e < k" using Cons.prems a by (auto simp: sorted_kv_append)
  then have "takeWhile (\<lambda>e. fst e < k) es = es" "dropWhile (\<lambda>e. fst e \<le> k) es = []"
    by (auto simp: takeWhile_eq_all_conv)
  then have "kv_insert k v es = es @ [(k, v)]" by (simp only: kv_insert_def)
  with Cons.IH [of "es @ [(k, v)]"] Cons.prems show ?case by (simp add: kv_inserts_def a)
qed

lemma sorted_sample:
  assumes "n < 256"
  shows "sorted_kv (sample n)"
proof -
  have "sorted_wrt (\<lambda>i j. (of_nat i :: u8) < of_nat j) [0..<n]"
    by (rule sorted_wrt_mono_rel [OF _ sorted_wrt_upt]) (use assms in \<open>simp add: word_less_nat_alt unat_of_nat\<close>)
  then show ?thesis by (simp add: sample_def sorted_kv_def sorted_wrt_map comp_def)
qed

section \<open>Properties\<close>

text \<open>
  C6. Loading a new database with keys in ascending order never fails, whatever number of pages and
  levels the tree takes: up to 65000 entries of at most 150 bytes are all stored, and every key is
  looked up with its value afterwards.
\<close>

theorem ascending_load:
  assumes "engine_open p [] [] = Inr e" and "sorted_kv kvs" and "length kvs \<le> 65000"
    and "\<forall>(k, v) \<in> set kvs. length k + length v \<le> 150"
  shows "\<exists>e'. put_all kvs e = (Inr (), e') \<and> engine_ok e' kvs \<and> (\<forall>k. fst (engine_get k e') = Inr (map_of kvs k))"
proof -
  have "load_fits [] [] kvs" using assms(2,4) by (auto simp: load_fits_def)
  moreover have "0 + length kvs \<le> MAX_LOAD" using assms(3) by (simp add: MAX_LOAD_def)
  ultimately obtain e' y where e': "put_all kvs e = (Inr (), e')" "loads e' (kv_inserts kvs []) y (length kvs)"
    using load_puts [OF open_loads [OF assms(1), of "[]"]] by (metis add_0)
  have ok: "engine_ok e' kvs" using loads_ok [OF e'(2)] kv_inserts_append [of "[]" kvs] assms(2) by simp
  have "fst (engine_get k e') = Inr (map_of kvs k)" for k using tree_engine.get_ok [OF ok, of k] by auto
  with e'(1) ok show ?thesis by blast
qed

theorem ascending_load_witness:
  "\<exists>e e'. engine_open ''db'' [] [] = Inr e \<and> put_all (sample 200) e = (Inr (), e') \<and> engine_ok e' (sample 200)"
proof (rule open_fresh [of "''db''"])
  fix e assume e: "engine_open ''db'' [] [] = Inr e"
  have "sorted_kv (sample 200)" "length (sample 200) \<le> 65000" "\<forall>(k, v) \<in> set (sample 200). length k + length v \<le> 150"
    by (simp_all add: sorted_sample) (auto simp: sample_def)
  from ascending_load [OF e this] e show ?thesis by blast
qed

section \<open>The benchmark of the shell\<close>

definition bench_entry :: "nat \<Rightarrow> entry" where
  "bench_entry i = (as_bytes (bench_key i), as_bytes (bench_val i))"

lemma length_ascii: "\<forall>c \<in> set t. c < 128 \<Longrightarrow> length (as_bytes t) = length t"
  by (induction t) (auto simp: utf8_char_def)

lemma padded_ascii: "\<forall>c \<in> set (pad_zeros w (show_dec i)). c < 128"
  using padded_digits(1) [of w i] by (auto simp: list_all_iff digit_def)

lemma bench_entry_small:
  assumes "i < 10 ^ 8"
  shows "length (fst (bench_entry i)) + length (snd (bench_entry i)) = 36"
proof -
  have "length (pad_zeros 8 (show_dec i)) = 8" using length_padded [of i 7] assms by simp
  moreover have "\<forall>c \<in> set (lit ''bench_key_''). c < 128" "\<forall>c \<in> set (lit ''bench_val_''). c < 128" by (simp_all add: lit_def)
  ultimately show ?thesis using padded_ascii [of 8 i] length_ascii [of "bench_key i"] length_ascii [of "bench_val i"]
    by (auto simp: bench_entry_def bench_key_def bench_val_def lit_def)
qed

lemma bench_entry_less:
  assumes "i < j" and "j < 10 ^ 8"
  shows "fst (bench_entry i) < fst (bench_entry j)"
proof -
  have "pad_zeros 8 (show_dec i) < pad_zeros 8 (show_dec j)" using padded_less [OF assms(1), of 7] assms(2) by simp
  then show ?thesis using enc_less [OF text_ok_bench(1) text_ok_bench(1)] by (simp add: bench_entry_def bench_key_def)
qed

lemma bench_puts_all:
  assumes "put_all (map bench_entry [i..<i + k]) e = (Inr (), e')"
  shows "bench_puts env k i e = ([], Continue, e')"
  using assms
proof (induction k arbitrary: i e)
  case 0
  then show ?case by (simp add: put_all_def)
next
  case (Suc k)
  have up: "[i..<i + Suc k] = i # [Suc i..<Suc i + k]" by (simp add: upt_conv_Cons)
  from Suc.prems [unfolded up] obtain u e1 where "engine_put (as_bytes (bench_key i)) (as_bytes (bench_val i)) e = (Inr u, e1)"
    "put_all (map bench_entry [Suc i..<Suc i + k]) e1 = (Inr (), e')"
    by (auto simp: put_all_def bench_entry_def [of i] bindS_Inr_iff)
  with Suc.IH show ?case by simp
qed

text \<open>
  C7. The benchmark of the shell on a new database: for every number of records from 1 to 65000 (10000
  when none is given) all records are inserted, the sample is read back and verified, and the
  database holds exactly the records.
\<close>

theorem bench_new_database:
  assumes "engine_open p [] [] = Inr e" and "parts ! 0 = lit ''bench''" and "bench_count parts = n" and "1 \<le> n" "n \<le> 65000"
  shows "\<exists>e'. dispatch env line_no parts e
      = (println (lit ''Inserting '' @ show_dec n @ lit '' records...'')
         @ println (lit ''Inserted '' @ show_dec n @ lit '' records in '' @ clock env line_no n)
         @ println (lit ''Verification: OK''), Continue, e')
    \<and> engine_ok e' (map bench_entry [0..<n])"
proof -
  let ?kvs = "map bench_entry [0..<n]"
  have le: "i < 10 ^ 8" if "i < n" for i using that assms(5) by simp
  have "sorted_wrt (\<lambda>i j. fst (bench_entry i) < fst (bench_entry j)) [0..<n]"
    by (rule sorted_wrt_mono_rel [OF _ sorted_wrt_upt]) (use bench_entry_less le in auto)
  then have srt: "sorted_kv ?kvs" by (simp add: sorted_kv_def sorted_wrt_map comp_def)
  then have fits: "load_fits [] [] ?kvs" by (auto simp: load_fits_def case_prod_beta bench_entry_small [OF le])
  have "0 + length ?kvs \<le> MAX_LOAD" using assms(5) by (simp add: MAX_LOAD_def)
  then obtain e1 y where e1: "put_all ?kvs e = (Inr (), e1)" "loads e1 (kv_inserts ?kvs []) y (0 + length ?kvs)"
    using load_puts [OF open_loads [OF assms(1)] fits] by blast
  have ok: "engine_ok e1 ?kvs" using loads_ok [OF e1(2)] kv_inserts_append [of "[]" ?kvs] srt by simp
  have run: "bench_puts env n 0 e = ([], Continue, e1)" using bench_puts_all [of 0 n e e1] e1(1) by simp
  have "bench_entry (n div 2) \<in> set ?kvs" using assms(4) by simp
  then have "map_of ?kvs (as_bytes (bench_key (n div 2))) = Some (as_bytes (bench_val (n div 2)))"
    using map_of_is_SomeI [OF sorted_kv_distinct [OF srt]] by (simp add: bench_entry_def)
  with tree_engine.get_ok [OF ok, of "as_bytes (bench_key (n div 2))"] obtain e2 where
    e2: "engine_get (as_bytes (bench_key (n div 2))) e1 = (Inr (Some (as_bytes (bench_val (n div 2)))), e2)" "engine_ok e2 ?kvs" by auto
  have words: "lit ''bench'' \<noteq> lit ''put''" "lit ''bench'' \<noteq> lit ''get''" "lit ''bench'' \<noteq> lit ''del''" "lit ''bench'' \<noteq> lit ''scan''"
    "lit ''bench'' \<noteq> lit ''range''" "lit ''bench'' \<noteq> lit ''stats''" by (simp_all add: lit_def)
  have ver: "lit ''Verification: '' @ lit ''OK'' = lit ''Verification: OK''" by (simp add: lit_def)
  have "dispatch env line_no parts e = cmd_bench env line_no parts e" using assms(2) words by (simp add: dispatch_def Let_def)
  with e2 run ver assms(3) show ?thesis
    by (simp add: cmd_bench_def Let_def followed_by_def report_def show_verification_def)
qed

theorem bench_new_database_witness:
  "\<exists>e e' out. engine_open ''db'' [] [] = Inr e
    \<and> dispatch quiet_env 0 [lit ''bench''] e = (out @ println (lit ''Verification: OK''), Continue, e')
    \<and> engine_ok e' (map bench_entry [0..<10000])"
proof (rule open_fresh [of "''db''"])
  fix e assume e: "engine_open ''db'' [] [] = Inr e"
  have "bench_count [lit ''bench''] = 10000" by (simp add: bench_count_def)
  from bench_new_database [OF e _ this, of quiet_env 0] obtain e' where
    "dispatch quiet_env 0 [lit ''bench''] e = ((println (lit ''Inserting '' @ show_dec 10000 @ lit '' records...'')
       @ println (lit ''Inserted '' @ show_dec 10000 @ lit '' records in '' @ clock quiet_env 0 10000)) @ println (lit ''Verification: OK''), Continue, e')"
    "engine_ok e' (map bench_entry [0..<10000])" by (auto simp del: upt_rec_numeral)
  with e show ?thesis by blast
qed

end
