(* ===== verification/Node_Tests.thy ===== *)
theory Node_Tests
  imports Testing Load
begin

text \<open>
  The unit tests of the nodes of the tree. A test owns one node and calls its methods; \<open>has_leaf\<close> and
  \<open>has_internal\<close> say what the node holds after the calls so far.
\<close>

section \<open>Numbered texts\<close>

text \<open>\<^verbatim>\<open>format!("prefix{:0w}", i).as_bytes()\<close>\<close>

definition numbered :: "string \<Rightarrow> nat \<Rightarrow> nat \<Rightarrow> bytes" where
  "numbered s w i = as_bytes (lit s @ pad_zeros w (show_dec i))"

definition ascii_string :: "string \<Rightarrow> bool" where
  "ascii_string s \<longleftrightarrow> list_all (\<lambda>c. of_char c < (128 :: nat)) s"

lemma numbered_text:
  assumes "ascii_string s"
  shows "\<forall>c \<in> set (lit s @ pad_zeros w (show_dec i)). c < 128"
  using assms padded_ascii [of w i] by (auto simp: lit_def ascii_string_def list_all_iff)

lemma length_numbered: "ascii_string s \<Longrightarrow> i < 10 ^ Suc w \<Longrightarrow> length (numbered s (Suc w) i) = length s + Suc w"
  using length_ascii [OF numbered_text, of s "Suc w" i] length_padded [of i w] by (simp add: numbered_def lit_def)

lemma numbered_less:
  assumes "ascii_string s" and "i < j" and "j < 10 ^ Suc w"
  shows "numbered s (Suc w) i < numbered s (Suc w) j"
proof -
  have sc: "\<forall>c \<in> set (lit s @ pad_zeros (Suc w) (show_dec k)). scalar c" for k
    using numbered_text [OF assms(1), of "Suc w" k] by (fastforce simp: scalar_def)
  have "lit s @ pad_zeros (Suc w) (show_dec i) < lit s @ pad_zeros (Suc w) (show_dec j)" using padded_less [OF assms(2,3)] by simp
  from as_bytes_mono [OF sc sc this] show ?thesis by (simp add: numbered_def)
qed

lemma numbered_eq:
  assumes "ascii_string s" and "i < 10 ^ Suc w" and "j < 10 ^ Suc w"
  shows "numbered s (Suc w) i = numbered s (Suc w) j \<longleftrightarrow> i = j"
  using numbered_less [OF assms(1) _ assms(2), of j] numbered_less [OF assms(1) _ assms(3), of i] by (metis less_irrefl linorder_neqE_nat)

lemma numbered_le:
  assumes "ascii_string s" and "i < 10 ^ Suc w" and "j < 10 ^ Suc w"
  shows "numbered s (Suc w) i \<le> numbered s (Suc w) j \<longleftrightarrow> i \<le> j"
  by (cases i j rule: linorder_cases)
    (use numbered_less [OF assms(1) _ assms(2), of j] numbered_less [OF assms(1) _ assms(3), of i] in \<open>auto simp: not_le\<close>)

text \<open>The entries number \<open>a\<close> to \<open>n - 1\<close> of a test, in key order.\<close>

definition numbered_entries :: "string \<Rightarrow> string \<Rightarrow> nat \<Rightarrow> nat list \<Rightarrow> entry list" where
  "numbered_entries s t w is = map (\<lambda>i. (numbered s w i, numbered t w i)) is"

lemma sorted_numbered:
  assumes "ascii_string s" and "sorted_wrt (<) is" and "\<forall>i \<in> set is. i < 10 ^ Suc w"
  shows "sorted_kv (numbered_entries s t (Suc w) is)"
proof -
  have "sorted_wrt (\<lambda>i j. numbered s (Suc w) i < numbered s (Suc w) j) is"
    by (rule sorted_wrt_mono_rel [OF _ assms(2)]) (use numbered_less [OF assms(1)] assms(3) in blast)
  then show ?thesis by (simp add: numbered_entries_def sorted_kv_def sorted_wrt_map)
qed

lemma numbered_snoc:
  assumes "ascii_string s" and "n < 10 ^ Suc w"
  shows "kv_insert (numbered s (Suc w) n) (numbered t (Suc w) n) (numbered_entries s t (Suc w) [0..<n]) = numbered_entries s t (Suc w) [0..<Suc n]"
proof -
  have "sorted_kv (numbered_entries s t (Suc w) [0..<Suc n])"
    by (rule sorted_numbered) (use assms in \<open>simp_all del: upt_Suc\<close>)
  then show ?thesis using kv_insert_last(1) by (simp add: numbered_entries_def)
qed

lemma map_of_numbered:
  assumes "ascii_string s" and "i < 10 ^ Suc w" and "\<forall>i \<in> set is. i < 10 ^ Suc w"
  shows "map_of (numbered_entries s t (Suc w) is) (numbered s (Suc w) i) = (if i \<in> set is then Some (numbered t (Suc w) i) else None)"
  using assms(3)
proof (induction "is")
  case (Cons a "is")
  have "numbered s (Suc w) a = numbered s (Suc w) i \<longleftrightarrow> a = i" by (rule numbered_eq [OF assms(1) _ assms(2)]) (use Cons.prems in simp)
  with Cons show ?case by (auto simp: numbered_entries_def)
qed (simp add: numbered_entries_def)

section \<open>Nodes\<close>

definition node_leaf_insert :: "bytes \<Rightarrow> bytes \<Rightarrow> (btree_node, bool) op" where
  "node_leaf_insert k v nd = (case leaf_insert nd k v of Inl f \<Rightarrow> (Inl f, nd) | Inr (nd', b) \<Rightarrow> (Inr b, nd'))"

definition node_leaf_delete :: "bytes \<Rightarrow> (btree_node, bytes option) op" where
  "node_leaf_delete k nd = (case leaf_delete nd k of Inl f \<Rightarrow> (Inl f, nd) | Inr (nd', b) \<Rightarrow> (Inr b, nd'))"

definition node_internal_insert :: "bytes \<Rightarrow> page_id \<Rightarrow> (btree_node, unit) op" where
  "node_internal_insert k c nd = (case internal_insert nd k c of Inl f \<Rightarrow> (Inl f, nd) | Inr nd' \<Rightarrow> (Inr (), nd'))"

definition node_get :: "(btree_node \<Rightarrow> 'a res) \<Rightarrow> (btree_node, 'a) op" where
  "node_get f nd = (f nd, nd)"

definition test_leaf_insert_and_search :: "(btree_node, unit) op" where
  "test_leaf_insert_and_search =
     bindS (node_leaf_insert (bstr ''key1'') (bstr ''val1'')) (\<lambda>b. bindS (assertS b) (\<lambda>_.
     bindS (node_leaf_insert (bstr ''key3'') (bstr ''val3'')) (\<lambda>b. bindS (assertS b) (\<lambda>_.
     bindS (node_leaf_insert (bstr ''key2'') (bstr ''val2'')) (\<lambda>b. bindS (assertS b) (\<lambda>_.
     bindS (lookS num_keys) (\<lambda>n. bindS (assertS (n = 3)) (\<lambda>_.
     bindS (node_get (\<lambda>nd. leaf_key nd 0)) (\<lambda>k. bindS (assertS (k = bstr ''key1'')) (\<lambda>_.
     bindS (node_get (\<lambda>nd. leaf_key nd 1)) (\<lambda>k. bindS (assertS (k = bstr ''key2'')) (\<lambda>_.
     bindS (node_get (\<lambda>nd. leaf_key nd 2)) (\<lambda>k. bindS (assertS (k = bstr ''key3'')) (\<lambda>_.
     bindS (node_get (\<lambda>nd. leaf_value nd 0)) (\<lambda>v. bindS (assertS (v = bstr ''val1'')) (\<lambda>_.
     bindS (node_get (\<lambda>nd. leaf_value nd 1)) (\<lambda>v. bindS (assertS (v = bstr ''val2'')) (\<lambda>_.
     bindS (node_get (\<lambda>nd. leaf_value nd 2)) (\<lambda>v. bindS (assertS (v = bstr ''val3'')) (\<lambda>_.
     bindS (node_get (\<lambda>nd. leaf_find_slot nd (bstr ''key2''))) (\<lambda>(idx, found).
     bindS (assertS found) (\<lambda>_. bindS (assertS (idx = 1)) (\<lambda>_.
     bindS (node_get (\<lambda>nd. leaf_find_slot nd (bstr ''key4''))) (\<lambda>(_, found). assertS (\<not> found)))))))))))))))))))))))))"

definition test_leaf_update :: "(btree_node, unit) op" where
  "test_leaf_update =
     bindS (node_leaf_insert (bstr ''key1'') (bstr ''old_value'')) (\<lambda>_.
     bindS (node_get (\<lambda>nd. leaf_value nd 0)) (\<lambda>v. bindS (assertS (v = bstr ''old_value'')) (\<lambda>_.
     bindS (node_leaf_insert (bstr ''key1'') (bstr ''new_value'')) (\<lambda>was_new. bindS (assertS (\<not> was_new)) (\<lambda>_.
     bindS (lookS num_keys) (\<lambda>n. bindS (assertS (n = 1)) (\<lambda>_.
     bindS (node_get (\<lambda>nd. leaf_value nd 0)) (\<lambda>v. assertS (v = bstr ''new_value'')))))))))"

definition test_leaf_delete :: "(btree_node, unit) op" where
  "test_leaf_delete =
     bindS (node_leaf_insert (bstr ''a'') (bstr ''1'')) (\<lambda>_.
     bindS (node_leaf_insert (bstr ''b'') (bstr ''2'')) (\<lambda>_.
     bindS (node_leaf_insert (bstr ''c'') (bstr ''3'')) (\<lambda>_.
     bindS (node_leaf_delete (bstr ''b'')) (\<lambda>old. bindS (assertS (old = Some (bstr ''2''))) (\<lambda>_.
     bindS (lookS num_keys) (\<lambda>n. bindS (assertS (n = 2)) (\<lambda>_.
     bindS (node_get (\<lambda>nd. leaf_key nd 0)) (\<lambda>k. bindS (assertS (k = bstr ''a'')) (\<lambda>_.
     bindS (node_get (\<lambda>nd. leaf_key nd 1)) (\<lambda>k. bindS (assertS (k = bstr ''c'')) (\<lambda>_.
     bindS (node_leaf_delete (bstr ''z'')) (\<lambda>not_found. assertS (not_found = None)))))))))))))"

definition test_internal_node :: "(btree_node, unit) op" where
  "test_internal_node =
     bindS (updS (set_leftmost_child 100)) (\<lambda>_.
     bindS (node_internal_insert (bstr ''mid'') 101) (\<lambda>_.
     bindS (node_internal_insert (bstr ''high'') 102) (\<lambda>_.
     bindS (node_internal_insert (bstr ''aaa'') 99) (\<lambda>_.
     bindS (lookS num_keys) (\<lambda>n. bindS (assertS (n = 3)) (\<lambda>_.
     bindS (node_get (\<lambda>nd. internal_key nd 0)) (\<lambda>k. bindS (assertS (k = bstr ''aaa'')) (\<lambda>_.
     bindS (node_get (\<lambda>nd. internal_key nd 1)) (\<lambda>k. bindS (assertS (k = bstr ''high'')) (\<lambda>_.
     bindS (node_get (\<lambda>nd. internal_key nd 2)) (\<lambda>k. bindS (assertS (k = bstr ''mid'')) (\<lambda>_.
     bindS (node_get (\<lambda>nd. internal_child nd 0)) (\<lambda>c. bindS (assertS (c = 100)) (\<lambda>_.
     bindS (node_get (\<lambda>nd. internal_child nd 1)) (\<lambda>c. bindS (assertS (c = 99)) (\<lambda>_.
     bindS (node_get (\<lambda>nd. internal_child nd 2)) (\<lambda>c. bindS (assertS (c = 102)) (\<lambda>_.
     bindS (node_get (\<lambda>nd. internal_child nd 3)) (\<lambda>c. bindS (assertS (c = 101)) (\<lambda>_.
     bindS (node_get (\<lambda>nd. internal_find_child nd (bstr ''bbb''))) (\<lambda>i. bindS (assertS (i = 1)) (\<lambda>_.
     bindS (node_get (\<lambda>nd. internal_find_child nd (bstr ''aaa''))) (\<lambda>i. bindS (assertS (i = 1)) (\<lambda>_.
     bindS (node_get (\<lambda>nd. internal_find_child nd (bstr ''a''))) (\<lambda>i. bindS (assertS (i = 0)) (\<lambda>_.
     bindS (node_get (\<lambda>nd. internal_find_child nd (bstr ''zzz''))) (\<lambda>i. assertS (i = 3))))))))))))))))))))))))))))"

text \<open>The loop of the capacity test; each round takes at least one byte of the page, which bounds the rounds.\<close>

fun capacity_loop :: "nat \<Rightarrow> nat \<Rightarrow> (btree_node, nat) op" where
  "capacity_loop 0 count = failS OutOfFuel"
| "capacity_loop (Suc fuel) count =
     bindS (node_get (\<lambda>nd. leaf_can_fit nd (numbered ''key'' 4 count) (numbered ''val'' 4 count))) (\<lambda>fits.
     if \<not> fits then retS count
     else bindS (node_leaf_insert (numbered ''key'' 4 count) (numbered ''val'' 4 count)) (\<lambda>_.
          capacity_loop fuel (count + 1)))"

definition test_leaf_capacity :: "(btree_node, unit) op" where
  "test_leaf_capacity = bindS (capacity_loop PAGE_SIZE 0) (\<lambda>count. assertS (count > 100))"

section \<open>The tests pass\<close>

definition has_leaf :: "entry list \<Rightarrow> btree_node \<Rightarrow> bool" where
  "has_leaf es nd \<longleftrightarrow> leaf_wf nd \<and> leaf_abs nd = es"

lemma leaf_insert_has:
  assumes "has_leaf es nd" and "leaf_size (kv_insert k v es) \<le> LEAF_CAPACITY"
  obtains nd' where "leaf_insert nd k v = Inr (nd', map_of es k = None)" "has_leaf (kv_insert k v es) nd'"
  using assms leaf_insert_ok [of nd k v] unfolding has_leaf_def by blast

lemma leaf_test_insert:
  assumes "has_leaf es nd" and "leaf_size (kv_insert k v es) \<le> LEAF_CAPACITY"
    and "\<And>nd'. has_leaf (kv_insert k v es) nd' \<Longrightarrow> passes (f (map_of es k = None)) nd'"
  shows "passes (bindS (node_leaf_insert k v) f) nd"
proof -
  from assms(1,2) obtain nd' where "leaf_insert nd k v = Inr (nd', map_of es k = None)" "has_leaf (kv_insert k v es) nd'"
    by (rule leaf_insert_has)
  then show ?thesis by (simp add: passes_run [where m = "node_leaf_insert k v"] node_leaf_insert_def assms(3))
qed

lemma leaf_test_delete:
  assumes "has_leaf es nd" and "\<And>nd'. has_leaf (kv_delete k es) nd' \<Longrightarrow> passes (f (map_of es k)) nd'"
  shows "passes (bindS (node_leaf_delete k) f) nd"
proof -
  from assms(1) obtain nd' where "leaf_delete nd k = Inr (nd', map_of es k)" "has_leaf (kv_delete k es) nd'"
    using leaf_delete_ok [of nd k] unfolding has_leaf_def by blast
  then show ?thesis by (simp add: passes_run [where m = "node_leaf_delete k"] node_leaf_delete_def assms(2))
qed

lemma passes_get: "g nd = Inr a \<Longrightarrow> passes (bindS (node_get g) f) nd \<longleftrightarrow> passes (f a) nd"
  by (simp add: passes_run node_get_def)

lemma leaf_queries:
  assumes "has_leaf es nd"
  shows "num_keys nd = length es" "i < length es \<Longrightarrow> leaf_key nd i = Inr (fst (es ! i))" "i < length es \<Longrightarrow> leaf_value nd i = Inr (snd (es ! i))"
    "leaf_can_fit nd k v = Inr (leaf_size es + 12 + length k + length v \<le> LEAF_CAPACITY)"
  using assms leaf_key_ok [of nd i] leaf_value_ok [of nd i] leaf_can_fit_ok [of nd k v] length_leaf_abs [of nd] by (auto simp: has_leaf_def)

lemma leaf_found:
  assumes "has_leaf es nd" and "i < length es" and "fst (es ! i) = k"
  shows "leaf_find_slot nd k = Inr (i, True)"
proof -
  have wf: "leaf_wf nd" and abs: "leaf_abs nd = es" and n: "num_keys nd = length es" using assms(1) leaf_queries(1) by (auto simp: has_leaf_def)
  show ?thesis
  proof (cases rule: leaf_find_slot_ok [OF wf, of k, case_names found absent])
    case (found j)
    moreover have "sorted_kv es" using wf abs by (simp add: leaf_wf_def)
    from sorted_kv_distinct [OF this] have "j = i" using found(2,3) assms(2,3) abs n by (simp add: distinct_conv_nth) metis
    ultimately show ?thesis by simp
  next
    case (absent j)
    from kv_pos_absent [OF this(2)] assms(2,3) abs show ?thesis by (metis fst_conv map_of_eq_None_iff nth_mem image_eqI)
  qed
qed

lemma leaf_missing:
  assumes "has_leaf es nd" and "map_of es k = None"
  shows "\<exists>i. leaf_find_slot nd k = Inr (i, False)"
proof -
  have wf: "leaf_wf nd" and abs: "leaf_abs nd = es" and n: "num_keys nd = length es" using assms(1) leaf_queries(1) by (auto simp: has_leaf_def)
  show ?thesis
  proof (cases rule: leaf_find_slot_ok [OF wf, of k, case_names found absent])
    case (found j)
    then have "k \<in> fst ` set es" using abs n by (metis image_eqI nth_mem)
    with assms(2) show ?thesis by (simp add: map_of_eq_None_iff)
  qed blast
qed

lemma new_leaf_has [simp]: "has_leaf [] (new_leaf i)"
  by (simp add: has_leaf_def)

lemmas small_leaf = kv_insert_Cons kv_insert_def [of _ _ "[]"] bstr_def leaf_size_def kv_bytes_def

text \<open>Each call of a test is one step: its condition on the size, then the assertions up to the next call.\<close>

lemmas leaf_checks = passes_get leaf_queries small_leaf kv_delete_def

lemma leaf_update_test: "passes test_leaf_update (new_leaf 0)"
  unfolding test_leaf_update_def
  by (rule leaf_test_insert [OF new_leaf_has], simp add: small_leaf, simp add: leaf_checks)
    (rule leaf_test_insert, assumption, simp_all add: leaf_checks)

lemma leaf_delete_test: "passes test_leaf_delete (new_leaf 0)"
  unfolding test_leaf_delete_def
  by (rule leaf_test_insert [OF new_leaf_has], simp add: small_leaf)
    (rule leaf_test_insert, assumption, simp add: small_leaf,
     rule leaf_test_insert, assumption, simp add: small_leaf,
     rule leaf_test_delete, assumption, simp add: leaf_checks,
     rule leaf_test_delete [where f = "\<lambda>x. assertS (x = None)"], assumption, simp)

lemma leaf_search_test: "passes test_leaf_insert_and_search (new_leaf 0)"
proof -
  let ?es = "[(bstr ''key1'', bstr ''val1''), (bstr ''key2'', bstr ''val2''), (bstr ''key3'', bstr ''val3'')]"
  have missing: "\<exists>i. leaf_find_slot nd (bstr ''key4'') = Inr (i, False)" if "has_leaf ?es nd" for nd
    by (rule leaf_missing [OF that]) (simp add: bstr_def)
  have found: "leaf_find_slot nd (bstr ''key2'') = Inr (1, True)" if "has_leaf ?es nd" for nd
    by (rule leaf_found [OF that]) simp_all
  show ?thesis
    unfolding test_leaf_insert_and_search_def
    by (rule leaf_test_insert [OF new_leaf_has], simp add: small_leaf, simp add: leaf_checks)
      (rule leaf_test_insert, assumption, simp add: small_leaf, simp add: leaf_checks,
       rule leaf_test_insert, assumption, simp add: small_leaf,
       use missing [unfolded bstr_def, simplified] found [unfolded bstr_def, simplified] in \<open>fastforce simp: leaf_checks passes_run node_get_def\<close>)
qed

definition has_internal :: "page_id \<Rightarrow> (key \<times> page_id) list \<Rightarrow> btree_node \<Rightarrow> bool" where
  "has_internal c es nd \<longleftrightarrow> int_wf nd \<and> int_abs nd = es \<and> get_leftmost_child nd = c"

lemma internal_test_insert:
  assumes "has_internal c es nd" and "map_of es k = None" and "int_size (kv_insert k d es) \<le> INTERNAL_CAPACITY"
    and "\<And>nd'. has_internal c (kv_insert k d es) nd' \<Longrightarrow> passes (f ()) nd'"
  shows "passes (bindS (node_internal_insert k d) f) nd"
proof -
  from assms(1-3) obtain nd' where "internal_insert nd k d = Inr nd'" "has_internal c (kv_insert k d es) nd'"
    using internal_insert_ok [of nd k d] unfolding has_internal_def int_hdr_def by (metis prod.inject)
  then show ?thesis by (simp add: passes_run [where m = "node_internal_insert k d"] node_internal_insert_def assms(4))
qed

lemma internal_queries:
  assumes "has_internal c es nd"
  shows "num_keys nd = length es" "i < length es \<Longrightarrow> internal_key nd i = Inr (fst (es ! i))"
    "i \<le> length es \<Longrightarrow> internal_child nd i = Inr (if i = 0 then c else snd (es ! (i - 1)))"
    "internal_find_child nd k = Inr (length (takeWhile (\<lambda>e. fst e \<le> k) es))"
proof -
  have wf: "int_wf nd" "int_abs nd = es" "get_leftmost_child nd = c" "num_keys nd = length es"
    using assms length_int_abs [of nd] by (simp_all add: has_internal_def)
  show "internal_find_child nd k = Inr (length (takeWhile (\<lambda>e. fst e \<le> k) es))"
  proof (rule internal_find_all [OF wf(1), of k])
    fix i assume i: "internal_find_loop nd k 0 (num_keys nd) = Inr i" "up_to (int_abs nd) k i"
    then have "length (takeWhile (\<lambda>e. fst e \<le> k) es) = i" using up_to_takeWhile [OF i(2)] wf(2) by (simp add: up_to_def)
    with i wf(4) show ?thesis by (cases "num_keys nd = 0") (auto simp: internal_find_child_def up_to_def)
  qed
qed (use assms internal_key_ok [of nd i] internal_child_ok [of nd i] length_int_abs [of nd] in \<open>auto simp: has_internal_def\<close>)

lemma internal_node_test: "passes test_internal_node (new_internal 0)"
proof -
  have new: "has_internal 100 [] (set_leftmost_child 100 (new_internal 0))"
    using new_internal_ok(3) [of 100 0] by (simp add: has_internal_def int_hdr_def)
  note sizes = kv_insert_Cons kv_insert_def [of _ _ "[]"] bstr_def int_size_def key_bytes_def
  show ?thesis
    unfolding test_internal_node_def passes_upd
    by (rule internal_test_insert [OF new], simp, simp add: sizes)
      (rule internal_test_insert, assumption, simp add: sizes, simp add: sizes,
       rule internal_test_insert, assumption, simp add: sizes, simp add: sizes,
       simp add: passes_get internal_queries sizes)
qed

text \<open>The capacity test ends after 203 entries of 20 bytes, slots included.\<close>

lemma size_numbered:
  assumes "n \<le> 10 ^ 4"
  shows "leaf_size (numbered_entries ''key'' ''val'' 4 [0..<n]) = 20 * n"
  using assms
proof (induction n)
  case (Suc n)
  then have "length (numbered ''key'' 4 n) = 7" "length (numbered ''val'' 4 n) = 7"
    using length_numbered [of "''key''" n 3] length_numbered [of "''val''" n 3] by (simp_all add: ascii_string_def)
  with Suc show ?case by (simp add: numbered_entries_def leaf_size_def kv_bytes_def)
qed (simp add: numbered_entries_def leaf_size_def kv_bytes_def)

lemma capacity_run:
  assumes "has_leaf (numbered_entries ''key'' ''val'' 4 [0..<n]) nd" and "n \<le> 203" and "203 < n + fuel"
  shows "\<exists>nd'. capacity_loop fuel n nd = (Inr 203, nd')"
  using assms
proof (induction fuel arbitrary: n nd)
  case (Suc fuel)
  let ?k = "numbered ''key'' 4 n" and ?v = "numbered ''val'' 4 n" and ?es = "numbered_entries ''key'' ''val'' 4 [0..<n]"
  have len: "length ?k = 7" "length ?v = 7"
    using length_numbered [of "''key''" n 3] length_numbered [of "''val''" n 3] Suc.prems(2) by (simp_all add: ascii_string_def)
  have fits: "leaf_can_fit nd ?k ?v = Inr (n < 203)"
    using leaf_queries(4) [OF Suc.prems(1), of ?k ?v] size_numbered [of n] len Suc.prems(2) by auto
  show ?case
  proof (cases "n = 203")
    case True
    then show ?thesis using fits by (simp add: bindS_def node_get_def)
  next
    case False
    then have n: "n < 203" using Suc.prems(2) by simp
    have snoc: "kv_insert ?k ?v ?es = numbered_entries ''key'' ''val'' 4 [0..<Suc n]"
      using numbered_snoc [of "''key''" n 3 "''val''"] n by (simp add: ascii_string_def)
    have "leaf_size (kv_insert ?k ?v ?es) \<le> LEAF_CAPACITY" unfolding snoc using size_numbered [of "Suc n"] n by simp
    from leaf_insert_has [OF Suc.prems(1) this] obtain nd' where
      i: "leaf_insert nd ?k ?v = Inr (nd', map_of ?es ?k = None)" "has_leaf (kv_insert ?k ?v ?es) nd'" .
    from Suc.IH [OF i(2) [unfolded snoc]] n Suc.prems(3) obtain nd2 where "capacity_loop fuel (Suc n) nd' = (Inr 203, nd2)" by auto
    with fits i(1) n show ?thesis by (simp add: bindS_def node_get_def node_leaf_insert_def)
  qed
qed simp

lemma capacity_test: "passes test_leaf_capacity (new_leaf 0)"
proof -
  have "has_leaf (numbered_entries ''key'' ''val'' 4 [0..<0]) (new_leaf 0)" by (simp add: numbered_entries_def)
  from capacity_run [OF this, of PAGE_SIZE] obtain nd where "capacity_loop PAGE_SIZE 0 (new_leaf 0) = (Inr 203, nd)" by auto
  then show ?thesis by (simp add: test_leaf_capacity_def passes_run del: PAGE_SIZE_def)
qed

end
