(* ===== verification/Tree_Tests.thy ===== *)
theory Tree_Tests
  imports Node_Tests
begin

text \<open>
  The unit tests of the B+ tree, on a new tree in a pool of 256 pages. The tests that fill the tree insert up
  to 1000 entries in ascending order, so that leaves and their parents are split; \<open>Ascend\<close> covers them.
\<close>

section \<open>The tests\<close>

definition create_tree :: "string \<Rightarrow> tree_pool res" where
  "create_tree path = (case bt_create (bp_new (dm_open path []) 256) of (Inl f, _) \<Rightarrow> Inl f | (Inr tree, pool) \<Rightarrow> Inr (tree, pool))"

definition tree_search :: "bytes \<Rightarrow> (tree_pool, bytes option) op" where
  "tree_search k = with_tree (\<lambda>t. bt_search t k)"

definition test_insert_and_search :: "(tree_pool, unit) op" where
  "test_insert_and_search =
     bindS (bt_insert (bstr ''hello'') (bstr ''world'')) (\<lambda>b. bindS (assertS b) (\<lambda>_.
     bindS (bt_insert (bstr ''foo'') (bstr ''bar'')) (\<lambda>b. bindS (assertS b) (\<lambda>_.
     bindS (bt_insert (bstr ''rust'') (bstr ''lang'')) (\<lambda>b. bindS (assertS b) (\<lambda>_.
     bindS (tree_search (bstr ''hello'')) (\<lambda>v. bindS (assertS (v = Some (bstr ''world''))) (\<lambda>_.
     bindS (tree_search (bstr ''foo'')) (\<lambda>v. bindS (assertS (v = Some (bstr ''bar''))) (\<lambda>_.
     bindS (tree_search (bstr ''rust'')) (\<lambda>v. bindS (assertS (v = Some (bstr ''lang''))) (\<lambda>_.
     bindS (tree_search (bstr ''missing'')) (\<lambda>v. assertS (v = None))))))))))))))"

definition test_update :: "(tree_pool, unit) op" where
  "test_update =
     bindS (bt_insert (bstr ''key'') (bstr ''val1'')) (\<lambda>b. bindS (assertS b) (\<lambda>_.
     bindS (bt_insert (bstr ''key'') (bstr ''val2'')) (\<lambda>b. bindS (assertS (\<not> b)) (\<lambda>_.
     bindS (tree_search (bstr ''key'')) (\<lambda>v. assertS (v = Some (bstr ''val2'')))))))"

definition test_delete :: "(tree_pool, unit) op" where
  "test_delete =
     bindS (bt_insert (bstr ''a'') (bstr ''1'')) (\<lambda>_.
     bindS (bt_insert (bstr ''b'') (bstr ''2'')) (\<lambda>_.
     bindS (bt_insert (bstr ''c'') (bstr ''3'')) (\<lambda>_.
     bindS (bt_delete (bstr ''b'')) (\<lambda>v. bindS (assertS (v = Some (bstr ''2''))) (\<lambda>_.
     bindS (tree_search (bstr ''b'')) (\<lambda>v. bindS (assertS (v = None)) (\<lambda>_.
     bindS (tree_search (bstr ''a'')) (\<lambda>v. bindS (assertS (v = Some (bstr ''1''))) (\<lambda>_.
     bindS (tree_search (bstr ''c'')) (\<lambda>v. bindS (assertS (v = Some (bstr ''3''))) (\<lambda>_.
     bindS (bt_delete (bstr ''missing'')) (\<lambda>v. assertS (v = None)))))))))))))"

definition insert_numbered :: "string \<Rightarrow> string \<Rightarrow> nat \<Rightarrow> nat \<Rightarrow> (tree_pool, unit) op" where
  "insert_numbered s t w i = bindS (bt_insert (numbered s w i) (numbered t w i)) (\<lambda>_. retS ())"

definition test_leaf_split :: "(tree_pool, unit) op" where
  "test_leaf_split =
     bindS (foldS (insert_numbered ''key'' ''val'' 5) [0..<500]) (\<lambda>_.
     foldS (\<lambda>i. bindS (tree_search (numbered ''key'' 5 i)) (\<lambda>result. assertS (result = Some (numbered ''val'' 5 i)))) [0..<500])"

definition test_scan_all :: "(tree_pool, unit) op" where
  "test_scan_all =
     bindS (bt_insert (bstr ''c'') (bstr ''3'')) (\<lambda>_.
     bindS (bt_insert (bstr ''a'') (bstr ''1'')) (\<lambda>_.
     bindS (bt_insert (bstr ''b'') (bstr ''2'')) (\<lambda>_.
     bindS (with_tree bt_scan_all) (\<lambda>all.
     bindS (assertS (length all = 3)) (\<lambda>_.
     bindS (assertS (all ! 0 = (bstr ''a'', bstr ''1''))) (\<lambda>_.
     bindS (assertS (all ! 1 = (bstr ''b'', bstr ''2''))) (\<lambda>_.
     assertS (all ! 2 = (bstr ''c'', bstr ''3'')))))))))"

definition test_range_scan :: "(tree_pool, unit) op" where
  "test_range_scan =
     bindS (foldS (insert_numbered ''k'' ''v'' 3) [0..<100]) (\<lambda>_.
     bindS (with_tree (\<lambda>t. bt_range_scan t (bstr ''k020'') (bstr ''k030''))) (\<lambda>rs.
     bindS (assertS (length rs = 11)) (\<lambda>_.
     bindS (assertS (fst (rs ! 0) = bstr ''k020'')) (\<lambda>_.
     assertS (fst (rs ! 10) = bstr ''k030'')))))"

definition delete_key :: "string \<Rightarrow> nat \<Rightarrow> nat \<Rightarrow> (tree_pool, unit) op" where
  "delete_key s w i = bindS (bt_delete (numbered s w i)) (\<lambda>_. retS ())"

definition test_large_insert_and_delete :: "(tree_pool, unit) op" where
  "test_large_insert_and_delete =
     bindS (foldS (insert_numbered ''k'' ''v'' 6) [0..<1000]) (\<lambda>_.
     bindS (foldS (delete_key ''k'' 6) (filter even [0..<1000])) (\<lambda>_.
     foldS (\<lambda>i. bindS (tree_search (numbered ''k'' 6 i)) (\<lambda>result.
         if i mod 2 = 0 then assertS (result = None)
         else assertS (result = Some (numbered ''v'' 6 i)))) [0..<1000]))"

section \<open>The tests pass\<close>

definition has_tree :: "entry list \<Rightarrow> tree_pool \<Rightarrow> bool" where
  "has_tree es s \<longleftrightarrow> (\<exists>x n. loadable s es x n)"

lemma tree_test_insert:
  assumes "has_tree es s" and "length k + length v \<le> 150" and "leaf_size es + 12 + length k + length v \<le> LEAF_CAPACITY"
    and "\<And>s'. has_tree (kv_insert k v es) s' \<Longrightarrow> passes (f (map_of es k = None)) s'"
  shows "passes (bindS (bt_insert k v) f) s"
proof -
  from assms(1) obtain x n where l: "loadable s es x n" by (auto simp: has_tree_def)
  have "load_room s k v" using loaded.holds_index [OF l] assms(2,3) by (auto simp: load_room_def SMALL_def)
  from loaded.insert_shape [OF l this] obtain s' where "bt_insert k v s = (Inr (map_of es k = None), s')" "has_tree (kv_insert k v es) s'"
    unfolding has_tree_def by blast
  then show ?thesis using passes_run [where m = "bt_insert k v"] assms(4) by simp
qed

lemma tree_delete_run:
  assumes "has_tree es s"
  obtains s' where "bt_delete k s = (Inr (map_of es k), s')" "has_tree (kv_delete k es) s'"
  using assms loaded.delete_shape unfolding has_tree_def by blast

lemma tree_search_run:
  assumes "has_tree es s"
  obtains s' where "tree_search k s = (Inr (map_of es k), s')" "has_tree es s'"
  using assms loaded.lookup_ok unfolding has_tree_def tree_search_def by blast

lemma tree_test_delete:
  assumes "has_tree es s" and "\<And>s'. has_tree (kv_delete k es) s' \<Longrightarrow> passes (f (map_of es k)) s'"
  shows "passes (bindS (bt_delete k) f) s"
  by (rule tree_delete_run [OF assms(1), of k]) (use assms(2) in \<open>simp add: passes_run [where m = "bt_delete k"]\<close>)

lemma tree_test_search:
  assumes "has_tree es s" and "\<And>s'. has_tree es s' \<Longrightarrow> passes (f (map_of es k)) s'"
  shows "passes (bindS (tree_search k) f) s"
  by (rule tree_search_run [OF assms(1), of k]) (use assms(2) in \<open>simp add: passes_run [where m = "tree_search k"]\<close>)

lemma tree_test_scan:
  assumes "has_tree es s" and "\<And>s'. passes (f es) s'"
  shows "passes (bindS (with_tree bt_scan_all) f) s"
proof -
  from assms(1) obtain s' where "with_tree bt_scan_all s = (Inr es, s')" using loaded.scan_ok unfolding has_tree_def by blast
  from passes_run [where m = "with_tree bt_scan_all" and s = s, OF this] assms(2) show ?thesis by simp
qed

lemma tree_test_range:
  assumes "has_tree es s" and "\<And>s'. passes (f (filter (\<lambda>e. lo \<le> fst e \<and> fst e \<le> hi) es)) s'"
  shows "passes (bindS (with_tree (\<lambda>t. bt_range_scan t lo hi)) f) s"
proof -
  from assms(1) obtain s' where "with_tree (\<lambda>t. bt_range_scan t lo hi) s = (Inr (filter (\<lambda>e. lo \<le> fst e \<and> fst e \<le> hi) es), s')"
    using loaded.range_ok unfolding has_tree_def by blast
  from passes_run [where m = "with_tree (\<lambda>t. bt_range_scan t lo hi)" and s = s, OF this] assms(2) show ?thesis by simp
qed

lemma created_loadable:
  obtains s where "create_tree p = Inr s" "loadable s [] x 0"
proof -
  let ?bp = "bp_new (dm_open p []) 256"
  have q: "pool_quiet ?bp" using bp_new_ok [of "dm_open p []" 256] by (simp add: pool_quiet_def)
  have c: "bp_count ?bp = 0" by (simp add: bp_count_def bp_new_def)
  then have n: "bp_count ?bp \<noteq> 0xFFFFFFFF" by simp
  show thesis
  proof (rule bt_create_ok [OF q n])
    fix bp assume b: "bt_create ?bp = (Inr \<lparr>root_page_id = bp_count ?bp\<rparr>, bp)" "bp_count bp = bp_count ?bp + 1"
      "linked_index (\<lparr>root_page_id = bp_count ?bp\<rparr>, bp) []"
    have "loadable (\<lparr>root_page_id = bp_count ?bp\<rparr>, bp) [] x 0" by (rule new_loadable [OF b(3)]) (simp add: b(2) c)
    with that b(1) show thesis by (simp add: create_tree_def)
  qed
qed

lemma passes_new_tree:
  assumes "\<And>s. has_tree [] s \<Longrightarrow> passes test s"
  shows "passes_on (create_tree p) test"
  by (rule created_loadable [of p "[]"]) (use assms in \<open>auto simp: has_tree_def\<close>)

lemma update_test: "passes_on (create_tree p) test_update"
  unfolding test_update_def
  by (rule passes_new_tree, rule tree_test_insert, assumption, simp add: small_leaf, simp add: small_leaf, simp add: small_leaf)
    (rule tree_test_insert, assumption, simp add: small_leaf, simp add: small_leaf, simp add: small_leaf,
     rule tree_test_search, assumption, simp add: small_leaf)

lemma scan_test: "passes_on (create_tree p) test_scan_all"
  unfolding test_scan_all_def
  by (rule passes_new_tree, rule tree_test_insert, assumption, simp add: small_leaf, simp add: small_leaf, simp add: small_leaf)
    (rule tree_test_insert, assumption, simp add: small_leaf, simp add: small_leaf, simp add: small_leaf,
     rule tree_test_insert, assumption, simp add: small_leaf, simp add: small_leaf, simp add: small_leaf,
     rule tree_test_scan, assumption, simp add: small_leaf)

lemma delete_test: "passes_on (create_tree p) test_delete"
  unfolding test_delete_def
  by (rule passes_new_tree, rule tree_test_insert, assumption, simp add: small_leaf, simp add: small_leaf, simp add: small_leaf)
    (rule tree_test_insert, assumption, simp add: small_leaf, simp add: small_leaf, simp add: small_leaf,
     rule tree_test_insert, assumption, simp add: small_leaf, simp add: small_leaf, simp add: small_leaf,
     rule tree_test_delete, assumption, simp add: small_leaf kv_delete_def,
     (rule tree_test_search, assumption, simp add: small_leaf)+, rule tree_test_delete, assumption, simp add: small_leaf kv_delete_def)

lemma search_test: "passes_on (create_tree p) test_insert_and_search"
  unfolding test_insert_and_search_def
  by (rule passes_new_tree, rule tree_test_insert, assumption, simp add: small_leaf, simp add: small_leaf, simp add: small_leaf)
    (rule tree_test_insert, assumption, simp add: small_leaf, simp add: small_leaf, simp add: small_leaf,
     rule tree_test_insert, assumption, simp add: small_leaf, simp add: small_leaf, simp add: small_leaf,
     (rule tree_test_search, assumption, simp add: small_leaf)+)

text \<open>Filling the tree in ascending order.\<close>

lemma fill_numbered:
  assumes "ascii_string s" and tt: "ascii_string t" and sz: "length s + length t + 2 * Suc w \<le> 150" and n: "n \<le> 10 ^ Suc w" "n \<le> 1000" and st: "loadable st [] [] 0"
  shows "\<exists>st' x. foldS (insert_numbered s t (Suc w)) [0..<n] st = (Inr (), st') \<and> loadable st' (numbered_entries s t (Suc w) [0..<n]) x n
    \<and> (\<forall>m. n \<le> m \<longrightarrow> m < 10 ^ Suc w \<longrightarrow> x \<le> numbered s (Suc w) m)"
  using n
proof (induction n)
  case 0
  then show ?case using st by (auto simp: numbered_entries_def)
next
  case (Suc n)
  let ?k = "numbered s (Suc w) n" and ?v = "numbered t (Suc w) n" and ?es = "numbered_entries s t (Suc w) [0..<n]"
  have n: "n < 10 ^ Suc w" "n < MAX_LOAD" using Suc.prems by (simp_all add: MAX_LOAD_def)
  from Suc obtain st1 x where 1: "foldS (insert_numbered s t (Suc w)) [0..<n] st = (Inr (), st1)" "loadable st1 ?es x n" "x \<le> ?k"
    using n(1) by fastforce
  have new: "map_of ?es ?k = None" using map_of_numbered [OF assms(1) n(1), of "[0..<n]" t] n(1) by simp
  have len: "length ?k + length ?v \<le> SMALL"
    using length_numbered [OF assms(1) n(1)] length_numbered [OF tt n(1)] sz by (simp add: SMALL_def)
  have "\<not> ?k < numbered s (Suc w) i" if "i < n" for i using numbered_less [OF assms(1) that n(1)] by (rule less_not_sym)
  then have "over ?k ?es = 0" by (simp add: over_def numbered_entries_def filter_empty_conv)
  then have few: "over ?k ?es \<le> FEW_ABOVE" by simp
  obtain tr bp where st1: "st1 = (tr, bp)" by (cases st1)
  show ?case
  proof (rule load_step [OF 1(2) [unfolded st1] new len 1(3) few n(2)])
    fix st' assume "bt_insert ?k ?v (tr, bp) = (Inr True, st')" "loadable st' (kv_insert ?k ?v ?es) ?k (Suc n)"
    moreover have "?k \<le> numbered s (Suc w) m" if "Suc n \<le> m" "m < 10 ^ Suc w" for m
      using numbered_less [OF assms(1) _ that(2), of n] that(1) by simp
    moreover from calculation(1) have "foldS (insert_numbered s t (Suc w)) [0..<Suc n] st = (Inr (), st')"
      using 1(1) st1 by (simp add: foldS_append insert_numbered_def bindS_def)
    ultimately show ?case using numbered_snoc [OF assms(1) n(1), of t] by metis
  qed
qed

lemma filled_tree:
  assumes "ascii_string s" and "ascii_string t" and "length s + length t + 2 * Suc w \<le> 150" and "n \<le> 10 ^ Suc w" "n \<le> 1000"
    and "\<And>st. has_tree (numbered_entries s t (Suc w) [0..<n]) st \<Longrightarrow> passes (f ()) st"
  shows "passes_on (create_tree p) (bindS (foldS (insert_numbered s t (Suc w)) [0..<n]) f)"
proof (rule created_loadable [of p "[]"])
  fix st assume st: "create_tree p = Inr st" "loadable st [] [] 0"
  from fill_numbered [OF assms(1-5) st(2)] obtain st' where
    "foldS (insert_numbered s t (Suc w)) [0..<n] st = (Inr (), st')" "has_tree (numbered_entries s t (Suc w) [0..<n]) st'"
    by (auto simp: has_tree_def)
  with st(1) assms(6) show ?thesis by (simp add: passes_run [where m = "foldS (insert_numbered s t (Suc w)) [0..<n]"])
qed

text \<open>Loops of lookups that each pass.\<close>

lemma passes_each:
  assumes "has_tree es st" and "\<And>i st. i \<in> set is \<Longrightarrow> has_tree es st \<Longrightarrow> \<exists>st'. f i st = (Inr (), st') \<and> has_tree es st'"
  shows "passes (foldS f is) st"
  using assms
proof (induction "is" arbitrary: st)
  case (Cons i "is")
  then obtain st' where "f i st = (Inr (), st')" "has_tree es st'" by (metis list.set_intros(1))
  with Cons show ?case by (simp add: passes_run [where m = "f i"])
qed simp

lemma lookup_each:
  assumes "has_tree es st" and "g (map_of es k) = assertS True"
  shows "\<exists>st'. bindS (tree_search k) g st = (Inr (), st') \<and> has_tree es st'"
  by (rule tree_search_run [OF assms(1), of k]) (use assms(2) in \<open>simp add: bindS_run\<close>)

lemma leaf_split_test: "passes_on (create_tree p) test_leaf_split"
proof -
  have a: "ascii_string ''key''" "ascii_string ''val''" and w: "(5 :: nat) = Suc 4" by (simp_all add: ascii_string_def)
  show ?thesis
    unfolding test_leaf_split_def w
  proof (rule filled_tree [OF a])
    fix st assume h: "has_tree (numbered_entries ''key'' ''val'' (Suc 4) [0..<500]) st"
    show "passes (foldS (\<lambda>i. bindS (tree_search (numbered ''key'' (Suc 4) i)) (\<lambda>result. assertS (result = Some (numbered ''val'' (Suc 4) i)))) [0..<500]) st"
    proof (rule passes_each [OF h], rule lookup_each)
      fix i :: nat assume i: "i \<in> set [0..<500]"
      then have "map_of (numbered_entries ''key'' ''val'' (Suc 4) [0..<500]) (numbered ''key'' (Suc 4) i) = Some (numbered ''val'' (Suc 4) i)"
        by (subst map_of_numbered [OF a(1)]) auto
      then show "assertS (map_of (numbered_entries ''key'' ''val'' (Suc 4) [0..<500]) (numbered ''key'' (Suc 4) i) = Some (numbered ''val'' (Suc 4) i)) = assertS True"
        by (simp only: simp_thms)
    qed
  qed simp_all
qed

lemma range_test: "passes_on (create_tree p) test_range_scan"
proof -
  let ?es = "numbered_entries ''k'' ''v'' (Suc 2)"
  have a: "ascii_string ''k''" "ascii_string ''v''" and w: "(3 :: nat) = Suc 2" by (simp_all add: ascii_string_def)
  have le: "numbered ''k'' (Suc 2) i \<le> numbered ''k'' (Suc 2) j \<longleftrightarrow> i \<le> j" if "i < 100" "j < 100" for i j
    by (rule numbered_le [OF a(1)]) (use that in simp_all)
  have ends: "bstr ''k020'' = numbered ''k'' (Suc 2) 20" "bstr ''k030'' = numbered ''k'' (Suc 2) 30"
    by (simp_all add: bstr_def numbered_def lit_def pad_zeros_def show_dec.simps utf8_char_def lead_def)
  have "filter (\<lambda>e. numbered ''k'' (Suc 2) 20 \<le> fst e \<and> fst e \<le> numbered ''k'' (Suc 2) 30) (?es [0..<100]) = ?es (filter (\<lambda>i. 20 \<le> i \<and> i \<le> 30) [0..<100])"
    unfolding numbered_entries_def filter_map by (rule arg_cong [where f = "map _"], rule filter_cong) (use le in auto)
  also have "filter (\<lambda>i. 20 \<le> i \<and> i \<le> 30) [0..<100 :: nat] = [20..<31]"
    by (rule sorted_distinct_set_unique) (auto intro: sorted_filter [where f = id, simplified] simp del: upt_rec_numeral)
  finally have rs: "filter (\<lambda>e. bstr ''k020'' \<le> fst e \<and> fst e \<le> bstr ''k030'') (?es [0..<100]) = ?es [20..<31]" by (simp only: ends)
  show ?thesis
    unfolding test_range_scan_def w
  proof (rule filled_tree [OF a])
    fix st assume h: "has_tree (?es [0..<100]) st"
    show "passes (bindS (with_tree (\<lambda>t. bt_range_scan t (bstr ''k020'') (bstr ''k030''))) (\<lambda>rs.
      bindS (assertS (length rs = 11)) (\<lambda>_. bindS (assertS (fst (rs ! 0) = bstr ''k020'')) (\<lambda>_. assertS (fst (rs ! 10) = bstr ''k030''))))) st"
      by (rule tree_test_range [OF h], unfold rs) (simp add: numbered_entries_def ends)
  qed simp_all
qed

text \<open>Deleting entries one by one leaves the others.\<close>

lemma delete_numbered:
  assumes "ascii_string s" and "\<forall>i \<in> set is. i < 10 ^ Suc w" and "i < 10 ^ Suc w"
  shows "kv_delete (numbered s (Suc w) i) (numbered_entries s t (Suc w) is) = numbered_entries s t (Suc w) (filter (\<lambda>j. j \<noteq> i) is)"
  using assms(2)
proof (induction "is")
  case (Cons j "is")
  have "numbered s (Suc w) j = numbered s (Suc w) i \<longleftrightarrow> j = i" by (rule numbered_eq [OF assms(1) _ assms(3)]) (use Cons.prems in simp)
  with Cons show ?case by (auto simp: numbered_entries_def kv_delete_def)
qed (simp add: numbered_entries_def kv_delete_def)

lemma delete_each:
  assumes "ascii_string s" and "has_tree (numbered_entries s t (Suc w) is) st" and "\<forall>i \<in> set is. i < 10 ^ Suc w" and "\<forall>i \<in> set ds. i < 10 ^ Suc w"
  shows "\<exists>st'. foldS (delete_key s (Suc w)) ds st = (Inr (), st')
    \<and> has_tree (numbered_entries s t (Suc w) (filter (\<lambda>j. j \<notin> set ds) is)) st'"
  using assms(2-4)
proof (induction ds arbitrary: st "is")
  case (Cons d ds)
  let ?k = "numbered s (Suc w) d" and ?is = "filter (\<lambda>j. j \<noteq> d) is"
  have d: "d < 10 ^ Suc w" using Cons.prems(3) by simp
  obtain st1 where 1: "bt_delete ?k st = (Inr (map_of (numbered_entries s t (Suc w) is) ?k), st1)" "has_tree (numbered_entries s t (Suc w) ?is) st1"
    by (rule tree_delete_run [OF Cons.prems(1), of ?k]) (simp only: delete_numbered [OF assms(1) Cons.prems(2) d])
  have "\<forall>i \<in> set ?is. i < 10 ^ Suc w" "\<forall>i \<in> set ds. i < 10 ^ Suc w" using Cons.prems(2,3) by auto
  from Cons.IH [OF 1(2) this] obtain st' where
    "foldS (delete_key s (Suc w)) ds st1 = (Inr (), st')"
    "has_tree (numbered_entries s t (Suc w) (filter (\<lambda>j. j \<notin> set ds) ?is)) st'" by blast
  moreover have "filter (\<lambda>j. j \<notin> set ds) ?is = filter (\<lambda>j. j \<notin> set (d # ds)) is" by (simp add: conj_commute)
  moreover have "delete_key s (Suc w) d st = (Inr (), st1)" using 1(1) by (simp add: delete_key_def bindS_run)
  ultimately show ?case by (auto simp: bindS_run)
qed auto

lemma large_test: "passes_on (create_tree p) test_large_insert_and_delete"
proof -
  have a: "ascii_string ''k''" "ascii_string ''v''" and w: "(6 :: nat) = Suc 5" by (simp_all add: ascii_string_def)
  let ?evens = "filter even [0..<1000 :: nat]"
  let ?es = "numbered_entries ''k'' ''v'' (Suc 5) (filter (\<lambda>j. j \<notin> set ?evens) [0..<1000])"
  let ?check = "\<lambda>i. bindS (tree_search (numbered ''k'' (Suc 5) i)) (\<lambda>result.
      if i mod 2 = 0 then assertS (result = None) else assertS (result = Some (numbered ''v'' (Suc 5) i)))"
  show ?thesis
    unfolding test_large_insert_and_delete_def w
  proof (rule filled_tree [OF a])
    fix st assume h: "has_tree (numbered_entries ''k'' ''v'' (Suc 5) [0..<1000]) st"
    have "\<forall>i \<in> set [0..<1000]. i < 10 ^ Suc 5" "\<forall>i \<in> set ?evens. i < 10 ^ Suc 5" by auto
    from delete_each [OF a(1) h this] obtain st' where
      d: "foldS (delete_key ''k'' (Suc 5)) ?evens st = (Inr (), st')" "has_tree ?es st'" by blast
    have "passes (foldS ?check [0..<1000]) st'"
    proof (rule passes_each [OF d(2)], rule lookup_each)
      fix i :: nat assume i: "i \<in> set [0..<1000]"
      have "map_of ?es (numbered ''k'' (Suc 5) i) = (if i mod 2 = 0 then None else Some (numbered ''v'' (Suc 5) i))"
        by (subst map_of_numbered [OF a(1)]) (use i in \<open>auto simp: even_iff_mod_2_eq_zero\<close>)
      then show "(if i mod 2 = 0 then assertS (map_of ?es (numbered ''k'' (Suc 5) i) = None)
          else assertS (map_of ?es (numbered ''k'' (Suc 5) i) = Some (numbered ''v'' (Suc 5) i))) = assertS True"
        by (cases "i mod 2 = 0") (simp_all only: simp_thms if_True if_False refl)
    qed
    then show "passes (bindS (foldS (delete_key ''k'' (Suc 5)) ?evens) (\<lambda>_. foldS ?check [0..<1000])) st"
      using passes_run [where m = "foldS (delete_key ''k'' (Suc 5)) ?evens" and s = st, OF d(1)] by simp
  qed simp_all
qed

end
