(* ===== verification/Txn_Tests.thy ===== *)
theory Txn_Tests
  imports Testing Txn_Manager
begin

text \<open>
  The unit tests of the log records, the write-ahead log, the lock manager and the transaction manager.
  A log file of a test is new: its temporary directory was emptied before.
\<close>

unbundle bit_operations_syntax

section \<open>Lock manager\<close>

definition test_basic_lock_acquire_release :: "(lock_manager, unit) op" where
  "test_basic_lock_acquire_release =
     bindS (acquire 1 100 Exclusive) (\<lambda>a. bindS (assertS a) (\<lambda>_.
     bindS (acquire 1 100 Exclusive) (\<lambda>b. bindS (assertS (\<not> b)) (\<lambda>_.
     bindS (lookS (\<lambda>lm. holds_lock lm 1 100)) (\<lambda>c. bindS (assertS c) (\<lambda>_.
     bindS (updS (release_all 1)) (\<lambda>_.
     bindS (lookS (\<lambda>lm. holds_lock lm 1 100)) (\<lambda>d. assertS (\<not> d)))))))))"

definition test_shared_locks_compatible :: "(lock_manager, unit) op" where
  "test_shared_locks_compatible =
     bindS (acquire 1 100 Shared) (\<lambda>a. bindS (assertS a) (\<lambda>_.
     bindS (acquire 2 100 Shared) (\<lambda>b. bindS (assertS b) (\<lambda>_.
     bindS (lookS (\<lambda>lm. holds_lock lm 1 100)) (\<lambda>c. bindS (assertS c) (\<lambda>_.
     bindS (lookS (\<lambda>lm. holds_lock lm 2 100)) assertS))))))"

definition test_exclusive_conflicts_with_shared :: "(lock_manager, unit) op" where
  "test_exclusive_conflicts_with_shared =
     bindS (acquire 1 100 Shared) (\<lambda>_.
     bindS (is_err (acquire 2 100 Exclusive)) assertS)"

definition test_exclusive_conflicts_with_exclusive :: "(lock_manager, unit) op" where
  "test_exclusive_conflicts_with_exclusive =
     bindS (acquire 1 100 Exclusive) (\<lambda>_.
     bindS (is_err (acquire 2 100 Exclusive)) assertS)"

definition test_lock_upgrade :: "(lock_manager, unit) op" where
  "test_lock_upgrade =
     bindS (acquire 1 100 Shared) (\<lambda>_.
     bindS (acquire 1 100 Exclusive) assertS)"

definition test_lock_upgrade_conflict :: "(lock_manager, unit) op" where
  "test_lock_upgrade_conflict =
     bindS (acquire 1 100 Shared) (\<lambda>_.
     bindS (acquire 2 100 Shared) (\<lambda>_.
     bindS (is_err (acquire 1 100 Exclusive)) assertS))"

definition test_release_grants_to_waiter :: "(lock_manager, unit) op" where
  "test_release_grants_to_waiter =
     bindS (acquire 1 100 Exclusive) (\<lambda>_.
     bindS (is_err (acquire 2 100 Exclusive)) (\<lambda>e. bindS (assertS e) (\<lambda>_.
     bindS (updS (release_all 1)) (\<lambda>_.
     bindS (acquire 2 100 Exclusive) assertS))))"

definition test_multiple_resources :: "(lock_manager, unit) op" where
  "test_multiple_resources =
     bindS (acquire 1 100 Exclusive) (\<lambda>_.
     bindS (acquire 1 200 Shared) (\<lambda>_.
     bindS (acquire 2 200 Shared) (\<lambda>_.
     bindS (acquire 2 300 Exclusive) (\<lambda>_.
     bindS (lookS num_locks) (\<lambda>n. bindS (assertS (n = 3)) (\<lambda>_.
     bindS (lookS num_transactions) (\<lambda>t. bindS (assertS (t = 2)) (\<lambda>_.
     bindS (updS (release_all 1)) (\<lambda>_.
     bindS (lookS num_transactions) (\<lambda>t. assertS (t = 1)))))))))))"

lemma lock_simps: "sorted_list_of_set {x} = [x]" "x \<noteq> y \<Longrightarrow> sorted_list_of_set {x, y} = (if x < y then [x, y] else [y, x])"
  for x y :: resource_id
  by (auto simp: insort_remove1)

lemma lock_manager_tests:
  "passes test_basic_lock_acquire_release lm_new" "passes test_shared_locks_compatible lm_new"
  "passes test_exclusive_conflicts_with_shared lm_new" "passes test_exclusive_conflicts_with_exclusive lm_new"
  "passes test_lock_upgrade lm_new" "passes test_lock_upgrade_conflict lm_new" "passes test_release_grants_to_waiter lm_new"
  by (simp_all add: test_basic_lock_acquire_release_def test_shared_locks_compatible_def test_exclusive_conflicts_with_shared_def
      test_exclusive_conflicts_with_exclusive_def test_lock_upgrade_def test_lock_upgrade_conflict_def test_release_grants_to_waiter_def
      passes_def bindS_def acquire_def lm_new_def is_err_def lookS_def updS_def release_all_def release_resource_def grant_waiters_def
      holds_lock_def add_lock_def lock_simps)

lemma lock_manager_tests_multiple: "passes test_multiple_resources lm_new"
  by (simp add: test_multiple_resources_def
      passes_def bindS_def acquire_def lm_new_def is_err_def lookS_def updS_def release_all_def release_resource_def grant_waiters_def
      holds_lock_def add_lock_def lock_simps num_locks_def num_transactions_def Let_def)

section \<open>Log records\<close>

definition test_serialize_deserialize_begin :: "unit res" where
  "test_serialize_deserialize_begin =
     (let record = lr_begin 1 100; bs = serialize record
      in bindE (deserialize bs) (\<lambda>(decoded, consumed).
         bindE (assertE (consumed = length bs)) (\<lambda>_.
         bindE (assertE (lr_lsn decoded = 1)) (\<lambda>_.
         bindE (assertE (lr_txn_id decoded = 100)) (\<lambda>_.
         assertE (lr_type decoded = LrBegin))))))"

definition test_serialize_deserialize_page_write :: "unit res" where
  "test_serialize_deserialize_page_write =
     (let before_img = bstr ''old data here''; after_img = bstr ''new data here!'';
          record = lr_page_write 5 200 3 42 before_img after_img; bs = serialize record
      in bindE (deserialize bs) (\<lambda>(decoded, _).
         bindE (assertE (lr_lsn decoded = 5)) (\<lambda>_.
         bindE (assertE (lr_txn_id decoded = 200)) (\<lambda>_.
         bindE (assertE (lr_prev_lsn decoded = 3)) (\<lambda>_.
         bindE (assertE (lr_page_id decoded = 42)) (\<lambda>_.
         bindE (page_write_images decoded) (\<lambda>im.
         bindE (unwrap_option im) (\<lambda>(b, a).
         bindE (assertE (b = before_img)) (\<lambda>_.
         assertE (a = after_img))))))))))"

definition test_checksum_detects_corruption :: "unit res" where
  "test_checksum_detects_corruption =
     (let bs = serialize (lr_begin 1 100)
      in if 10 < length bs then
           case deserialize (bs[10 := bs ! 10 XOR 0xFF]) of
             Inl (Err _) \<Rightarrow> Inr ()
           | Inl f \<Rightarrow> Inl f
           | Inr _ \<Rightarrow> Inl Panic
         else Inl Panic)"

definition test_checkpoint_record :: "unit res" where
  "test_checkpoint_record =
     (let record = lr_checkpoint 99 [10, 20, 30]; bs = serialize record
      in bindE (deserialize bs) (\<lambda>(decoded, _).
         bindE (assertE (lr_lsn decoded = 99)) (\<lambda>_.
         bindE (assertE (lr_type decoded = LrCheckpoint)) (\<lambda>_.
         bindE (read_le 4 (lr_data decoded) 0) (\<lambda>num.
         assertE (unat (num :: u32) = 3))))))"

lemmas codec = deserialize_serialize [where rest = "[]", simplified]

lemma log_record_tests:
  "test_serialize_deserialize_begin = Inr ()" "test_serialize_deserialize_page_write = Inr ()" "test_checkpoint_record = Inr ()"
proof -
  have "record_ok (lr_begin 1 100)" by (simp add: record_ok_def lr_begin_def)
  then show "test_serialize_deserialize_begin = Inr ()"
    by (simp add: test_serialize_deserialize_begin_def codec Let_def) (simp add: lr_begin_def)
  let ?r = "lr_page_write 5 200 3 42 (bstr ''old data here'') (bstr ''new data here!'')"
  have "record_ok ?r" by (simp add: record_ok_def lr_page_write_def)
  then show "test_serialize_deserialize_page_write = Inr ()"
    by (simp add: test_serialize_deserialize_page_write_def codec Let_def page_write_images_ok) (simp add: lr_page_write_def)
  have "record_ok (lr_checkpoint 99 [10, 20, 30])" by (simp add: record_ok_def lr_checkpoint_def)
  then show "test_checkpoint_record = Inr ()"
    by (simp add: test_checkpoint_record_def codec Let_def) (simp add: lr_checkpoint_def read_le_def slice_def)
qed

lemma corruption_test: "test_checksum_detects_corruption = Inr ()"
proof -
  let ?r = "lr_begin 1 100" and ?bs = "serialize (lr_begin 1 100)"
  have b: "body ?r = take 2 (body ?r) @ [0] @ drop 3 (body ?r)" by (simp add: body_def lr_begin_def to_le_def upt_rec)
  have "?bs ! 10 = 0" "?bs[10 := 0xFF] = take 8 ?bs @ (take 2 (body ?r) @ [0xFF] @ drop 3 (body ?r)) @ []"
    by (simp_all add: serialize_eq body_def lr_begin_def to_le_def upt_rec)
  moreover have "\<exists>a b. deserialize (take 8 ?bs @ (take 2 (body ?r) @ [0xFF] @ drop 3 (body ?r)) @ []) = Inl (Err (ChecksumMismatch a b))"
    by (rule damaged_body [OF _ b]) (simp_all add: record_ok_def lr_begin_def)
  ultimately show ?thesis by (auto simp: test_checksum_detects_corruption_def lr_begin_def)
qed

section \<open>Write-ahead log\<close>

text \<open>The end of a block that owns a log manager, and opening its file again; records that were not flushed are lost.\<close>

definition reopen_wal :: "(wal_manager, unit) op" where
  "reopen_wal w = (case wal_open (wm_path w) (wm_file w) of Inl f \<Rightarrow> (Inl f, w) | Inr w' \<Rightarrow> (Inr (), w'))"

definition wal_records :: "(wal_manager, log_record list) op" where
  "wal_records w = (read_all_records (wm_file w), w)"

definition wal_actions :: "(wal_manager, recovery_actions) op" where
  "wal_actions w = (wal_recover w, w)"

definition test_wal_basic_operations :: "(wal_manager, unit) op" where
  "test_wal_basic_operations =
     bindS (log_begin 1) (\<lambda>lsn1. bindS (assertS (lsn1 = 1)) (\<lambda>_.
     bindS (log_page_write 1 10 (bstr ''old'') (bstr ''new'')) (\<lambda>lsn2. bindS (assertS (lsn2 = 2)) (\<lambda>_.
     bindS (log_commit 1) (\<lambda>lsn3. bindS (assertS (lsn3 = 3)) (\<lambda>_.
     bindS wal_records (\<lambda>records.
     bindS (assertS (length records = 3)) (\<lambda>_.
     bindS (assertS (lr_type (records ! 0) = LrBegin)) (\<lambda>_.
     bindS (assertS (lr_type (records ! 1) = LrPageWrite)) (\<lambda>_.
     assertS (lr_type (records ! 2) = LrCommit)))))))))))"

definition test_recovery_committed_transaction :: "(wal_manager, unit) op" where
  "test_recovery_committed_transaction =
     bindS (log_begin 1) (\<lambda>_.
     bindS (log_page_write 1 10 (bstr ''before'') (bstr ''after'')) (\<lambda>_.
     bindS (log_commit 1) (\<lambda>_.
     bindS reopen_wal (\<lambda>_.
     bindS wal_actions (\<lambda>actions.
     bindS (assertS (length (ra_redo actions) = 1)) (\<lambda>_.
     bindS (assertS (fst (ra_redo actions ! 0) = 10)) (\<lambda>_.
     bindS (assertS (snd (ra_redo actions ! 0) = bstr ''after'')) (\<lambda>_.
     bindS (assertS (ra_undo actions = [])) (\<lambda>_.
     assertS (1 \<in> ra_committed_txns actions))))))))))"

definition test_recovery_uncommitted_transaction :: "(wal_manager, unit) op" where
  "test_recovery_uncommitted_transaction =
     bindS (log_begin 1) (\<lambda>_.
     bindS (log_page_write 1 10 (bstr ''original'') (bstr ''modified'')) (\<lambda>_.
     bindS wal_flush (\<lambda>_.
     bindS reopen_wal (\<lambda>_.
     bindS wal_actions (\<lambda>actions.
     bindS (assertS (ra_redo actions = [])) (\<lambda>_.
     bindS (assertS (length (ra_undo actions) = 1)) (\<lambda>_.
     bindS (assertS (fst (ra_undo actions ! 0) = 10)) (\<lambda>_.
     bindS (assertS (snd (ra_undo actions ! 0) = bstr ''original'')) (\<lambda>_.
     assertS (1 \<in> ra_aborted_txns actions))))))))))"

definition test_recovery_mixed_transactions :: "(wal_manager, unit) op" where
  "test_recovery_mixed_transactions =
     bindS (log_begin 1) (\<lambda>_.
     bindS (log_page_write 1 10 (bstr ''old1'') (bstr ''new1'')) (\<lambda>_.
     bindS (log_commit 1) (\<lambda>_.
     bindS (log_begin 2) (\<lambda>_.
     bindS (log_page_write 2 20 (bstr ''old2'') (bstr ''new2'')) (\<lambda>_.
     bindS wal_flush (\<lambda>_.
     bindS reopen_wal (\<lambda>_.
     bindS wal_actions (\<lambda>actions.
     bindS (assertS (length (ra_redo actions) = 1)) (\<lambda>_.
     bindS (assertS (fst (ra_redo actions ! 0) = 10)) (\<lambda>_.
     bindS (assertS (length (ra_undo actions) = 1)) (\<lambda>_.
     assertS (fst (ra_undo actions ! 0) = 20))))))))))))"

definition test_wal_reopen :: "(wal_manager, unit) op" where
  "test_wal_reopen =
     bindS (log_begin 1) (\<lambda>_.
     bindS (log_commit 1) (\<lambda>_.
     bindS reopen_wal (\<lambda>_.
     bindS (log_begin 2) (\<lambda>lsn. assertS (lsn = 3)))))"

definition test_wal_truncate :: "(wal_manager, unit) op" where
  "test_wal_truncate =
     bindS (log_begin 1) (\<lambda>_.
     bindS (log_commit 1) (\<lambda>_.
     bindS wal_truncate (\<lambda>_.
     bindS wal_records (\<lambda>records. assertS (records = [])))))"

lemma record_back:
  "read_all_records [] = Inr []"
  "record_ok a \<Longrightarrow> record_ok b \<Longrightarrow> read_all_records (serialize a @ serialize b) = Inr [a, b]"
  "record_ok a \<Longrightarrow> record_ok b \<Longrightarrow> record_ok c \<Longrightarrow> read_all_records (serialize a @ serialize b @ serialize c) = Inr [a, b, c]"
  "record_ok a \<Longrightarrow> record_ok b \<Longrightarrow> record_ok c \<Longrightarrow> record_ok d \<Longrightarrow> record_ok e \<Longrightarrow>
    read_all_records (serialize a @ serialize b @ serialize c @ serialize d @ serialize e) = Inr [a, b, c, d, e]"
  using read_all_log [of "[]"] read_all_log [of "[a, b]"] read_all_log [of "[a, b, c]"] read_all_log [of "[a, b, c, d, e]"] by simp_all

lemma serialize_not_Nil: "serialize r \<noteq> []"
  using length_serialize [of r] by (metis add_is_0 list.size(3) zero_neq_numeral)

lemma images_of_data:
  "unat (n :: u32) = length b \<Longrightarrow>
    page_write_images \<lparr>lr_lsn = l, lr_txn_id = t, lr_prev_lsn = p, lr_type = LrPageWrite, lr_page_id = pid, lr_data = to_le 4 n @ b @ a\<rparr>
      = Inr (Some (b, a))"
  by (simp add: page_write_images_def rd_append_here Let_def get_range_def slice_def)

lemmas wal_run = passes_def bindS_def wal_open_def max_lsn_def log_begin_def log_commit_def log_page_write_def wal_append_def wal_flush_def
  forget_txn_def wal_truncate_def reopen_wal_def wal_records_def wal_actions_def wal_recover_def recover_records_def analyse_def
  collect_def lr_begin_def lr_commit_def lr_page_write_def Let_def file_write_def record_back record_ok_def last_lsn_def images_of_data serialize_not_Nil

lemma wal_manager_tests:
  "passes_on (wal_open p []) test_wal_basic_operations" "passes_on (wal_open p []) test_wal_reopen"
  "passes_on (wal_open p []) test_wal_truncate"
  by (simp_all add: test_wal_basic_operations_def test_wal_reopen_def test_wal_truncate_def wal_run passes_on_def)

lemma wal_recovery_tests:
  "passes_on (wal_open p []) test_recovery_committed_transaction" "passes_on (wal_open p []) test_recovery_uncommitted_transaction"
  "passes_on (wal_open p []) test_recovery_mixed_transactions"
  by (simp_all add: test_recovery_committed_transaction_def test_recovery_uncommitted_transaction_def
      test_recovery_mixed_transactions_def wal_run passes_on_def)

section \<open>Transaction manager\<close>

definition new_txn_wal :: "string \<Rightarrow> txn_wal res" where
  "new_txn_wal p = bindE (wal_open p []) (\<lambda>w. Inr (tm_new, w))"

definition in_tm :: "(txn_manager, 'a) op \<Rightarrow> (txn_wal, 'a) op" where
  "in_tm m = (\<lambda>(tm, w). case m tm of (r, tm') \<Rightarrow> (r, (tm', w)))"

definition test_begin_and_commit :: "(txn_wal, unit) op" where
  "test_begin_and_commit =
     bindS tm_begin (\<lambda>txn_id.
     bindS (lookS (\<lambda>(tm, w). tm_is_active tm txn_id)) (\<lambda>a. bindS (assertS a) (\<lambda>_.
     bindS (lookS (\<lambda>(tm, w). active_count tm)) (\<lambda>n. bindS (assertS (n = 1)) (\<lambda>_.
     bindS (tm_commit txn_id) (\<lambda>_.
     bindS (lookS (\<lambda>(tm, w). tm_is_active tm txn_id)) (\<lambda>a. bindS (assertS (\<not> a)) (\<lambda>_.
     bindS (lookS (\<lambda>(tm, w). active_count tm)) (\<lambda>n. assertS (n = 0))))))))))"

definition test_begin_and_abort :: "(txn_wal, unit) op" where
  "test_begin_and_abort =
     bindS tm_begin (\<lambda>txn_id.
     bindS (in_tm (acquire_write_lock txn_id 10 (bstr ''before''))) (\<lambda>_.
     bindS (tm_abort txn_id) (\<lambda>write_set.
     bindS (assertS (write_set 10 \<noteq> None)) (\<lambda>_.
     bindS (assertS (write_set 10 = Some (bstr ''before''))) (\<lambda>_.
     bindS (lookS (\<lambda>(tm, w). tm_is_active tm txn_id)) (\<lambda>a. assertS (\<not> a)))))))"

definition test_lock_conflict_between_transactions :: "(txn_wal, unit) op" where
  "test_lock_conflict_between_transactions =
     bindS tm_begin (\<lambda>txn1.
     bindS tm_begin (\<lambda>txn2.
     bindS (in_tm (acquire_write_lock txn1 10 (bstr ''before''))) (\<lambda>_.
     bindS (is_err (in_tm (acquire_read_lock txn2 10))) assertS)))"

definition test_shared_read_locks_compatible :: "(txn_wal, unit) op" where
  "test_shared_read_locks_compatible =
     bindS tm_begin (\<lambda>txn1.
     bindS tm_begin (\<lambda>txn2.
     bindS (in_tm (acquire_read_lock txn1 10)) (\<lambda>_.
     in_tm (acquire_read_lock txn2 10))))"

definition test_wal_records_written :: "(txn_wal, unit) op" where
  "test_wal_records_written =
     bindS tm_begin (\<lambda>txn_id.
     bindS (tm_log_write txn_id 42 (bstr ''old'') (bstr ''new'')) (\<lambda>_.
     bindS (tm_commit txn_id) (\<lambda>_.
     bindS (in_wal wal_records) (\<lambda>records. assertS (length records = 3)))))"

definition test_multiple_concurrent_transactions :: "(txn_wal, unit) op" where
  "test_multiple_concurrent_transactions =
     bindS tm_begin (\<lambda>txn1.
     bindS tm_begin (\<lambda>txn2.
     bindS tm_begin (\<lambda>txn3.
     bindS (in_tm (acquire_write_lock txn1 10 (bstr ''b1''))) (\<lambda>_.
     bindS (in_tm (acquire_write_lock txn2 20 (bstr ''b2''))) (\<lambda>_.
     bindS (in_tm (acquire_write_lock txn3 30 (bstr ''b3''))) (\<lambda>_.
     bindS (lookS (\<lambda>(tm, w). active_count tm)) (\<lambda>n. bindS (assertS (n = 3)) (\<lambda>_.
     bindS (tm_commit txn1) (\<lambda>_.
     bindS (tm_commit txn2) (\<lambda>_.
     bindS (tm_abort txn3) (\<lambda>_.
     bindS (lookS (\<lambda>(tm, w). active_count tm)) (\<lambda>n. assertS (n = 0)))))))))))))"

lemmas lock_run = acquire_def lm_new_def is_err_def lookS_def updS_def release_all_def release_resource_def grant_waiters_def
  holds_lock_def add_lock_def lock_simps num_locks_def num_transactions_def

lemmas txn_run = new_txn_wal_def in_tm_def in_wal_def tm_begin_def tm_commit_def tm_abort_def tm_log_write_def acquire_read_lock_def acquire_write_lock_def
  in_locks_def update_txn_def set_txn_def transaction_new_def tm_new_def end_txn_def tm_is_active_def active_count_def log_abort_def lr_abort_def

lemma txn_manager_tests:
  "passes_on (new_txn_wal p) test_begin_and_commit" "passes_on (new_txn_wal p) test_begin_and_abort"
  "passes_on (new_txn_wal p) test_lock_conflict_between_transactions" "passes_on (new_txn_wal p) test_shared_read_locks_compatible"
  "passes_on (new_txn_wal p) test_wal_records_written" "passes_on (new_txn_wal p) test_multiple_concurrent_transactions"
  by (simp_all add: test_begin_and_commit_def test_begin_and_abort_def test_lock_conflict_between_transactions_def
      test_shared_read_locks_compatible_def test_wal_records_written_def test_multiple_concurrent_transactions_def
      wal_run lock_run txn_run passes_on_def)

end
