(* ===== verification/Demo.thy ===== *)
theory Demo
  imports Load
begin

text \<open>
  The demo program of \<^verbatim>\<open>src/src/main.rs\<close>: a walk through the engine interface on a new database, with
  10000 inserts and a transaction. Its state is the engine and the text printed so far; \<^verbatim>\<open>unwrap\<close> and
  \<^verbatim>\<open>expect\<close> on an error or on nothing are a panic. The directory of the database was removed before, so
  both files are normally empty: what the removal left of them, and the text of the elapsed time, are parameters.
\<close>

section \<open>The code\<close>

type_synonym demo_state = "storage_engine \<times> str"

definition say :: "str \<Rightarrow> (demo_state, unit) op" where
  "say t = (\<lambda>(e, out). (Inr (), (e, out @ println t)))"

definition unwrap :: "(storage_engine, 'a) op \<Rightarrow> (demo_state, 'a) op" where
  "unwrap m = (\<lambda>(e, out). case m e of
     (Inr a, e') \<Rightarrow> (Inr a, (e', out))
   | (Inl (Err _), e') \<Rightarrow> (Inl Panic, (e', out))
   | (Inl f, e') \<Rightarrow> (Inl f, (e', out)))"

definition some_unwrap :: "'a option \<Rightarrow> (demo_state, 'a) op" where
  "some_unwrap r = (case r of Some a \<Rightarrow> retS a | None \<Rightarrow> failS Panic)"

definition text_unwrap :: "bytes \<Rightarrow> (demo_state, str) op" where
  "text_unwrap b = some_unwrap (from_utf8 b)"

definition say_stats :: "str \<Rightarrow> (demo_state, unit) op" where
  "say_stats prefix = (\<lambda>(e, out). say (prefix @ show_engine_stats (engine_stats_of e)) (e, out))"

definition put_line :: "string \<times> string \<Rightarrow> (demo_state, unit) op" where
  "put_line = (\<lambda>(k, v).
     bindS (unwrap (engine_put (as_bytes (lit k)) (as_bytes (lit v)))) (\<lambda>_.
     say (lit ''  PUT '' @ lit k @ lit '' => '' @ lit v)))"

definition get_line :: "string \<Rightarrow> (demo_state, unit) op" where
  "get_line name =
     bindS (unwrap (engine_get (as_bytes (lit name)))) (\<lambda>r. case r of
       Some val \<Rightarrow> bindS (text_unwrap val) (\<lambda>v. say (lit ''  GET '' @ lit name @ lit '' => '' @ v))
     | None \<Rightarrow> say (lit ''  GET '' @ lit name @ lit '' => (not found)''))"

definition entry_line :: "entry \<Rightarrow> (demo_state, unit) op" where
  "entry_line = (\<lambda>(k, v).
     bindS (text_unwrap k) (\<lambda>ks. bindS (text_unwrap v) (\<lambda>vs. say (lit ''  '' @ ks @ lit '' => '' @ vs))))"

definition demo_entries :: "(string \<times> string) list" where
  "demo_entries = [(''alice'', ''software engineer''), (''bob'', ''data scientist''), (''charlie'', ''devops engineer''),
     (''diana'', ''product manager''), (''eve'', ''security researcher'')]"

definition demo_insert :: "(demo_state, unit) op" where
  "demo_insert =
     bindS (say []) (\<lambda>_. bindS (say (lit ''--- Inserting data ---'')) (\<lambda>_.
     foldS put_line demo_entries))"

definition demo_lookups :: "(demo_state, unit) op" where
  "demo_lookups =
     bindS (say []) (\<lambda>_. bindS (say (lit ''--- Lookups ---'')) (\<lambda>_.
     foldS get_line [''alice'', ''charlie'', ''frank'']))"

definition demo_update :: "(demo_state, unit) op" where
  "demo_update =
     bindS (say []) (\<lambda>_. bindS (say (lit ''--- Update ---'')) (\<lambda>_.
     bindS (unwrap (engine_put (as_bytes (lit ''alice'')) (as_bytes (lit ''CTO'')))) (\<lambda>_.
     bindS (unwrap (engine_get (as_bytes (lit ''alice'')))) (\<lambda>r.
     bindS (some_unwrap r) (\<lambda>val.
     bindS (text_unwrap val) (\<lambda>v.
     say (lit ''  alice is now: '' @ v)))))))"

definition demo_delete :: "(demo_state, unit) op" where
  "demo_delete =
     bindS (say []) (\<lambda>_. bindS (say (lit ''--- Delete ---'')) (\<lambda>_.
     bindS (unwrap (engine_delete (as_bytes (lit ''bob'')))) (\<lambda>old.
     bindS (some_unwrap old) (\<lambda>val.
     bindS (text_unwrap val) (\<lambda>v.
     say (lit ''  Deleted bob (was: '' @ v @ lit '')''))))))"

definition demo_scan :: "(demo_state, unit) op" where
  "demo_scan =
     bindS (say []) (\<lambda>_. bindS (say (lit ''--- Scan all (sorted) ---'')) (\<lambda>_.
     bindS (unwrap engine_scan_all) (\<lambda>all.
     foldS entry_line all)))"

definition demo_range :: "(demo_state, unit) op" where
  "demo_range =
     bindS (say []) (\<lambda>_. bindS (say (lit ''--- Range scan [c, e] ---'')) (\<lambda>_.
     bindS (unwrap (engine_range_scan (as_bytes (lit ''c'')) (as_bytes (lit ''e'')))) (\<lambda>range.
     foldS entry_line range)))"

definition demo_key :: "nat \<Rightarrow> str" where
  "demo_key i = lit ''bench_'' @ pad_zeros 6 (show_dec i)"

definition demo_val :: "nat \<Rightarrow> str" where
  "demo_val i = lit ''value_'' @ pad_zeros 6 (show_dec i)"

definition demo_benchmark :: "str \<Rightarrow> (demo_state, unit) op" where
  "demo_benchmark elapsed =
     bindS (say []) (\<lambda>_. bindS (say (lit ''--- Benchmark: 10,000 inserts ---'')) (\<lambda>_.
     bindS (foldS (\<lambda>i. unwrap (engine_put (as_bytes (demo_key i)) (as_bytes (demo_val i)))) [0..<10000]) (\<lambda>_.
     bindS (say (lit ''  Inserted 10,000 records in '' @ elapsed)) (\<lambda>_.
     bindS (unwrap (engine_get (as_bytes (lit ''bench_005000'')))) (\<lambda>r.
     bindS (some_unwrap r) (\<lambda>verify_val.
     bindS (text_unwrap verify_val) (\<lambda>v.
     say (lit ''  Verified: bench_005000 => '' @ v))))))))"

definition demo_transaction :: "(demo_state, unit) op" where
  "demo_transaction =
     bindS (say []) (\<lambda>_. bindS (say (lit ''--- Transaction demo ---'')) (\<lambda>_.
     bindS (unwrap begin_transaction) (\<lambda>txn.
     bindS (say (lit ''  BEGIN txn '' @ show_dec (unat txn))) (\<lambda>_.
     bindS (unwrap (txn_put txn (as_bytes (lit ''txn_key1'')) (as_bytes (lit ''txn_val1'')))) (\<lambda>_.
     bindS (unwrap (txn_put txn (as_bytes (lit ''txn_key2'')) (as_bytes (lit ''txn_val2'')))) (\<lambda>_.
     bindS (unwrap (commit_transaction txn)) (\<lambda>_.
     bindS (say (lit ''  COMMIT txn '' @ show_dec (unat txn))) (\<lambda>_.
     bindS (unwrap (engine_get (as_bytes (lit ''txn_key1'')))) (\<lambda>r1.
     bindS (some_unwrap r1) (\<lambda>v1.
     bindS (unwrap (engine_get (as_bytes (lit ''txn_key2'')))) (\<lambda>r2.
     bindS (some_unwrap r2) (\<lambda>v2.
     bindS (text_unwrap v1) (\<lambda>t1.
     bindS (text_unwrap v2) (\<lambda>t2.
     say (lit ''  txn_key1 => '' @ t1 @ lit '', txn_key2 => '' @ t2)))))))))))))))"

definition demo_body :: "str \<Rightarrow> (demo_state, unit) op" where
  "demo_body elapsed =
     bindS (say_stats (lit ''Database opened: '')) (\<lambda>_.
     bindS demo_insert (\<lambda>_.
     bindS demo_lookups (\<lambda>_.
     bindS demo_update (\<lambda>_.
     bindS demo_delete (\<lambda>_.
     bindS demo_scan (\<lambda>_.
     bindS demo_range (\<lambda>_.
     bindS (demo_benchmark elapsed) (\<lambda>_.
     bindS demo_transaction (\<lambda>_.
     bindS (say []) (\<lambda>_. bindS (say (lit ''--- Final stats ---'')) (\<lambda>_.
     bindS (say_stats (lit ''  '')) (\<lambda>_.
     bindS (unwrap engine_sync) (\<lambda>_.
     bindS (say []) (\<lambda>_. say (lit ''Done!'')))))))))))))))"

definition demo_main :: "string \<Rightarrow> bytes \<Rightarrow> bytes \<Rightarrow> str \<Rightarrow> fault option \<times> str" where
  "demo_main db_path data log elapsed =
     (let banner = println (lit ''=== StorageDB Demo ==='') @ println [] in
      case engine_open db_path data log of
        Inl (Err _) \<Rightarrow> (Some Panic, banner)
      | Inl f \<Rightarrow> (Some f, banner)
      | Inr engine \<Rightarrow> (case demo_body elapsed (engine, banner) of
          (Inl f, (_, out)) \<Rightarrow> (Some f, out)
        | (Inr _, (_, out)) \<Rightarrow> (None, out)))"

section \<open>Engines that store a few texts\<close>

text \<open>
  \<open>holds_text e m b e0\<close>: the engine stores the map \<open>m\<close> in at most \<open>b\<close> bytes of its root leaf, and its log and
  transactions are still those of \<open>e0\<close>.
\<close>

definition same_log :: "storage_engine \<Rightarrow> storage_engine \<Rightarrow> bool" where
  "same_log e e0 \<longleftrightarrow> se_wal e = se_wal e0 \<and> se_txn_manager e = se_txn_manager e0"

definition holds_text :: "storage_engine \<Rightarrow> text_map \<Rightarrow> nat \<Rightarrow> storage_engine \<Rightarrow> bool" where
  "holds_text e m b e0 \<longleftrightarrow> loads e (enc m) [] 0 \<and> texts m \<and> leaf_size (enc m) \<le> b \<and> same_log e e0"

lemma same_log_tree: "on_tree m e = (r, e') \<Longrightarrow> same_log e e0 \<Longrightarrow> same_log e' e0"
  by (auto simp: on_tree_def same_log_def split: prod.splits)

lemma text_put:
  assumes h: "holds_text e m b e0" and k: "text_ok k" "text_ok v" "length (as_bytes k) + length (as_bytes v) \<le> 50" and b: "b \<le> 2000"
  obtains e' where "engine_put (as_bytes k) (as_bytes v) e = (Inr (), e')" "holds_text e' (m(k \<mapsto> v)) (b + 56) e0"
proof -
  from h have l: "loads e (enc m) [] 0" "texts m" "leaf_size (enc m) \<le> b" by (simp_all add: holds_text_def)
  have idx: "tree_index (se_btree e, se_pool e) (enc m)" using tree_engine.engine_holdsD(1) [OF loads_ok [OF l(1)]] .
  then have "put_fits load_room k v e" using l(3) k(3) b unfolding put_fits_def load_room_def by (intro conjI exI [of _ "enc m"]) auto
  from loaded_engine.engine_put_ok [OF l(1,2) k(1,2) this] obtain e' where
    e': "engine_put (as_bytes k) (as_bytes v) e = (Inr (), e')" "loads e' (enc (m(k \<mapsto> v))) [] 0" "texts (m(k \<mapsto> v))" by blast
  have "leaf_size (enc (m(k \<mapsto> v))) \<le> b + 56"
    using leaf_size_kv_insert [OF sorted_enc [OF l(2)], of "as_bytes k" "as_bytes v"] l(3) k(3) by (simp add: enc_upd [OF l(2) k(1,2)])
  moreover have "same_log e' e0"
    using e'(1) h same_log_tree [of "bt_insert (as_bytes k) (as_bytes v)" e] unfolding engine_put_def holds_text_def
    by (auto simp: bindS_def split: prod.splits sum.splits)
  ultimately show thesis using that e' by (simp add: holds_text_def)
qed

lemma text_get:
  assumes h: "holds_text e m b e0" and k: "text_ok k"
  obtains e' where "engine_get (as_bytes k) e = (Inr (map_option as_bytes (m k)), e')" "holds_text e' m b e0"
proof -
  from h have l: "loads e (enc m) [] 0" "texts m" by (simp_all add: holds_text_def)
  from loaded_engine.get_ok [OF l(1), of "as_bytes k"] obtain e' where
    e': "engine_get (as_bytes k) e = (Inr (map_option as_bytes (m k)), e')" "loads e' (enc m) [] 0" by (auto simp: enc_lookup [OF l(2) k])
  from same_log_tree [OF e'(1) [unfolded engine_get_def]] h e' that show thesis by (simp add: holds_text_def)
qed

lemma leaf_size_kv_delete: "leaf_size (kv_delete k es) \<le> leaf_size es"
  by (induction es) (auto simp: kv_delete_def)

lemma text_delete:
  assumes h: "holds_text e m b e0" and k: "text_ok k"
  obtains e' where "engine_delete (as_bytes k) e = (Inr (map_option as_bytes (m k)), e')" "holds_text e' (m(k := None)) b e0"
proof -
  from h have l: "loads e (enc m) [] 0" "texts m" "leaf_size (enc m) \<le> b" by (simp_all add: holds_text_def)
  from loaded_engine.delete_ok [OF l(1), of "as_bytes k"] obtain e' where
    e': "engine_delete (as_bytes k) e = (Inr (map_option as_bytes (m k)), e')" "loads e' (enc (m(k := None))) [] 0"
    by (auto simp: engine_delete_def enc_lookup [OF l(2) k] enc_del [OF l(2) k])
  have "leaf_size (enc (m(k := None))) \<le> b" using leaf_size_kv_delete [of "as_bytes k" "enc m"] l(3) by (simp add: enc_del [OF l(2) k])
  with same_log_tree [OF e'(1) [unfolded engine_delete_def]] h e' texts_del [OF l(2)] that show thesis by (simp add: holds_text_def)
qed

lemma text_scan:
  assumes h: "holds_text e m b e0"
  obtains e' where "engine_scan_all e = (Inr (enc m), e')" "holds_text e' m b e0"
proof -
  from h have "loads e (enc m) [] 0" by (simp add: holds_text_def)
  from loaded_engine.scan_all_ok [OF this] obtain e' where e': "engine_scan_all e = (Inr (enc m), e')" "loads e' (enc m) [] 0" by blast
  from same_log_tree [OF e'(1) [unfolded engine_scan_all_def]] h e' that show thesis by (simp add: holds_text_def)
qed

lemma text_range:
  assumes h: "holds_text e m b e0" and k: "text_ok lo" "text_ok hi"
  obtains e' where "engine_range_scan (as_bytes lo) (as_bytes hi) e = (Inr (map (enc_entry m) (filter (\<lambda>k. lo \<le> k \<and> k \<le> hi) (keys_of m))), e')"
    "holds_text e' m b e0"
proof -
  from h have l: "loads e (enc m) [] 0" "texts m" by (simp_all add: holds_text_def)
  from loaded_engine.range_scan_ok [OF l(1), of "as_bytes lo" "as_bytes hi"] obtain e' where
    e': "engine_range_scan (as_bytes lo) (as_bytes hi) e = (Inr (map (enc_entry m) (filter (\<lambda>k. lo \<le> k \<and> k \<le> hi) (keys_of m))), e')"
      "loads e' (enc m) [] 0" unfolding enc_range [OF l(2) k] by blast
  from same_log_tree [OF e'(1) [unfolded engine_range_scan_def]] h e' that show thesis by (simp add: holds_text_def)
qed

section \<open>Running the sections\<close>

lemma say_run [simp]: "say t (e, out) = (Inr (), (e, out @ println t))"
  by (simp add: say_def)

lemma some_unwrap_run [simp]: "some_unwrap (Some a) s = (Inr a, s)"
  by (simp add: some_unwrap_def)

lemma text_unwrap_run: "text_ok t \<Longrightarrow> text_unwrap (as_bytes t) s = (Inr t, s)"
  by (simp add: text_unwrap_def dec_enc)

text \<open>
  A section of the program as a triple: from an engine with \<open>P\<close> it ends without a fault, prints \<open>t\<close> after
  what was printed before, and leaves an engine with \<open>Q\<close>.
\<close>

definition prints :: "(demo_state, unit) op \<Rightarrow> str \<Rightarrow> (storage_engine \<Rightarrow> bool) \<Rightarrow> (storage_engine \<Rightarrow> bool) \<Rightarrow> bool" where
  "prints m t P Q \<longleftrightarrow> (\<forall>e out. P e \<longrightarrow> (\<exists>e'. m (e, out) = (Inr (), (e', out @ t)) \<and> Q e'))"

lemma printsI: "(\<And>e out. P e \<Longrightarrow> \<exists>e'. m (e, out) = (Inr (), (e', out @ t)) \<and> Q e') \<Longrightarrow> prints m t P Q"
  by (simp add: prints_def)

lemma prints_step:
  assumes "prints m t P Q" and "P e" and "\<And>e'. Q e' \<Longrightarrow> R (k () (e', out @ t))"
  shows "R (bindS m k (e, out))"
proof -
  obtain e' where "m (e, out) = (Inr (), (e', out @ t))" "Q e'" using assms(1,2) unfolding prints_def by blast
  with assms(3) show ?thesis by (simp add: bindS_def)
qed

definition ascii :: "string \<Rightarrow> bool" where
  "ascii s \<longleftrightarrow> list_all (\<lambda>c. of_char c < (128 :: nat)) s"

lemma ascii_lit: "ascii s \<Longrightarrow> text_ok (lit s)" "ascii s \<Longrightarrow> length (as_bytes (lit s)) = length s"
  using text_ok_lit [of s] length_ascii [of "lit s"] by (auto simp: ascii_def list_all_iff lit_def)

lemma texts_lookup: "texts m \<Longrightarrow> m k = Some v \<Longrightarrow> text_ok v"
  by (simp add: texts_def)

definition upd_all :: "(string \<times> string) list \<Rightarrow> text_map \<Rightarrow> text_map" where
  "upd_all ps m = foldl (\<lambda>m (k, v). m(lit k \<mapsto> lit v)) m ps"

lemma put_lines_run:
  assumes "holds_text e m b e0" and "\<forall>(k, v) \<in> set ps. ascii k \<and> ascii v \<and> length k + length v \<le> 50" and "b + 56 * length ps \<le> 2000"
  shows "\<exists>e'. foldS put_line ps (e, out) = (Inr (), (e', out @ concat (map (\<lambda>(k, v). println (lit ''  PUT '' @ lit k @ lit '' => '' @ lit v)) ps)))
    \<and> holds_text e' (upd_all ps m) (b + 56 * length ps) e0"
  using assms
proof (induction ps arbitrary: e m b out)
  case Nil
  then show ?case by (simp add: upd_all_def)
next
  case (Cons a ps)
  obtain k v where a: "a = (k, v)" by (cases a)
  have kv: "ascii k" "ascii v" "length k + length v \<le> 50" "b \<le> 2000" using Cons.prems(2,3) a by auto
  have len: "length (as_bytes (lit k)) + length (as_bytes (lit v)) \<le> 50" using kv by (simp add: ascii_lit)
  obtain e1 where e1: "engine_put (as_bytes (lit k)) (as_bytes (lit v)) e = (Inr (), e1)" "holds_text e1 (m(lit k \<mapsto> lit v)) (b + 56) e0"
    by (rule text_put [OF Cons.prems(1) ascii_lit(1) [OF kv(1)] ascii_lit(1) [OF kv(2)] len kv(4)])
  let ?out = "out @ println (lit ''  PUT '' @ lit k @ lit '' => '' @ lit v)"
  have "put_line a (e, out) = (Inr (), (e1, ?out))"
    by (simp add: put_line_def a bindS_def unwrap_def e1(1))
  moreover have prems: "\<forall>(k, v) \<in> set ps. ascii k \<and> ascii v \<and> length k + length v \<le> 50" "b + 56 + 56 * length ps \<le> 2000"
    using Cons.prems(2,3) by simp_all
  moreover obtain e' where "foldS put_line ps (e1, ?out) = (Inr (), (e', ?out @ concat (map (\<lambda>(k, v). println (lit ''  PUT '' @ lit k @ lit '' => '' @ lit v)) ps)))"
    "holds_text e' (upd_all ps (m(lit k \<mapsto> lit v))) (b + 56 + 56 * length ps) e0"
    using Cons.IH [OF e1(2) prems, of ?out] by blast
  ultimately show ?case by (simp add: a upd_all_def bindS_def ac_simps)
qed

definition get_text :: "text_map \<Rightarrow> string \<Rightarrow> str" where
  "get_text m name = println (lit ''  GET '' @ lit name @ lit '' => '' @ (case m (lit name) of Some v \<Rightarrow> v | None \<Rightarrow> lit ''(not found)''))"

lemma lit_append: "lit a @ lit b = lit (a @ b)" "lit a @ lit b @ t = lit (a @ b) @ t"
  by (simp_all add: lit_def)

lemma get_lines_run:
  assumes "holds_text e m b e0" and "\<forall>name \<in> set names. ascii name"
  shows "\<exists>e'. foldS get_line names (e, out) = (Inr (), (e', out @ concat (map (get_text m) names))) \<and> holds_text e' m b e0"
  using assms
proof (induction names arbitrary: e out)
  case Nil
  then show ?case by simp
next
  case (Cons name names)
  have n: "text_ok (lit name)" using Cons.prems(2) by (simp add: ascii_lit)
  have m: "texts m" using Cons.prems(1) by (simp add: holds_text_def)
  obtain e1 where e1: "engine_get (as_bytes (lit name)) e = (Inr (map_option as_bytes (m (lit name))), e1)" "holds_text e1 m b e0"
    by (rule text_get [OF Cons.prems(1) n])
  have "get_line name (e, out) = (Inr (), (e1, out @ get_text m name))"
    using texts_lookup [OF m, of "lit name"]
    by (auto simp: get_line_def e1(1) unwrap_def bindS_def text_unwrap_run get_text_def lit_append split: option.split)
  with Cons.IH [OF e1(2), of "out @ get_text m name"] Cons.prems(2) show ?case by (auto simp: bindS_def)
qed

lemma entry_lines_run:
  assumes "texts m" and "set ks \<subseteq> set (keys_of m)"
  shows "foldS entry_line (map (enc_entry m) ks) (e, out) = (Inr (), (e, out @ concat (map (\<lambda>k. println (lit ''  '' @ k @ lit '' => '' @ the (m k))) ks)))"
  using assms(2)
proof (induction ks arbitrary: out)
  case (Cons k ks)
  have "text_ok k" "text_ok (the (m k))" using texts_key [OF assms(1), of k] Cons.prems by auto
  then show ?case using Cons by (simp add: entry_line_def enc_entry_def bindS_def text_unwrap_run)
qed simp

section \<open>The walk through the interface\<close>

lemma lit_inject [simp]: "lit a = lit b \<longleftrightarrow> a = b"
  unfolding lit_def by (rule inj_map_eq_map) (simp add: inj_on_def)

definition staff :: text_map where
  "staff = upd_all demo_entries Map.empty"

definition staff_end :: text_map where
  "staff_end = (staff(lit ''alice'' \<mapsto> lit ''CTO''))(lit ''bob'' := None)"

lemma staff_simps:
  "staff = [lit ''alice'' \<mapsto> lit ''software engineer'', lit ''bob'' \<mapsto> lit ''data scientist'', lit ''charlie'' \<mapsto> lit ''devops engineer'',
     lit ''diana'' \<mapsto> lit ''product manager'', lit ''eve'' \<mapsto> lit ''security researcher'']"
  by (simp add: staff_def upd_all_def demo_entries_def)

lemma staff_end_keys: "keys_of staff_end = [lit ''alice'', lit ''charlie'', lit ''diana'', lit ''eve'']"
proof -
  let ?ks = "[lit ''alice'', lit ''charlie'', lit ''diana'', lit ''eve'']"
  have "dom staff_end = set ?ks" by (auto simp: staff_end_def staff_simps)
  moreover have "sorted ?ks" "distinct ?ks" by (simp_all add: lit_def)
  ultimately show ?thesis using sorted_list_of_set.idem_if_sorted_distinct [of ?ks] by (simp only: keys_of_def)
qed

definition section_text :: "string \<Rightarrow> str" where
  "section_text t = println [] @ println (lit t)"

lemma demo_insert_run:
  assumes "holds_text e Map.empty 0 e0"
  shows "\<exists>e'. demo_insert (e, out) = (Inr (), (e', out @ section_text ''--- Inserting data ---''
      @ concat (map (\<lambda>(k, v). println (lit ''  PUT '' @ lit k @ lit '' => '' @ lit v)) demo_entries))) \<and> holds_text e' staff 280 e0"
proof -
  have "\<forall>(k, v) \<in> set demo_entries. ascii k \<and> ascii v \<and> length k + length v \<le> 50" "0 + 56 * length demo_entries \<le> 2000"
    by (simp_all add: demo_entries_def ascii_def)
  from put_lines_run [OF assms this, of "out @ section_text ''--- Inserting data ---''"] show ?thesis
    by (simp add: demo_insert_def bindS_def section_text_def staff_def demo_entries_def)
qed

lemma demo_lookups_run:
  assumes "holds_text e staff 280 e0"
  shows "\<exists>e'. demo_lookups (e, out) = (Inr (), (e', out @ section_text ''--- Lookups ---''
      @ println (lit ''  GET alice => software engineer'') @ println (lit ''  GET charlie => devops engineer'')
      @ println (lit ''  GET frank => (not found)''))) \<and> holds_text e' staff 280 e0"
proof -
  have "\<forall>name \<in> set [''alice'', ''charlie'', ''frank'']. ascii name" by (simp add: ascii_def)
  from get_lines_run [OF assms this, of "out @ section_text ''--- Lookups ---''"] show ?thesis
    by (simp add: demo_lookups_def bindS_def section_text_def get_text_def staff_simps lit_append)
qed

lemma demo_update_run:
  assumes "holds_text e staff 280 e0"
  shows "\<exists>e'. demo_update (e, out) = (Inr (), (e', out @ section_text ''--- Update ---'' @ println (lit ''  alice is now: CTO'')))
    \<and> holds_text e' (staff(lit ''alice'' \<mapsto> lit ''CTO'')) 336 e0"
proof -
  have a: "ascii ''alice''" "ascii ''CTO''" by (simp_all add: ascii_def)
  have l: "length (as_bytes (lit ''alice'')) + length (as_bytes (lit ''CTO'')) \<le> 50" using ascii_lit(2) [OF a(1)] ascii_lit(2) [OF a(2)] by simp
  obtain e1 where e1: "engine_put (as_bytes (lit ''alice'')) (as_bytes (lit ''CTO'')) e = (Inr (), e1)"
    "holds_text e1 (staff(lit ''alice'' \<mapsto> lit ''CTO'')) (280 + 56) e0"
    by (rule text_put [OF assms ascii_lit(1) [OF a(1)] ascii_lit(1) [OF a(2)] l]) simp
  obtain e2 where e2: "engine_get (as_bytes (lit ''alice'')) e1 = (Inr (Some (as_bytes (lit ''CTO''))), e2)"
    "holds_text e2 (staff(lit ''alice'' \<mapsto> lit ''CTO'')) (280 + 56) e0"
    by (rule text_get [OF e1(2) ascii_lit(1) [OF a(1)]]) simp
  from e1(1) e2 text_unwrap_run [OF ascii_lit(1) [OF a(2)]] show ?thesis
    by (simp add: demo_update_def bindS_def unwrap_def section_text_def lit_append)
qed

lemma demo_delete_run:
  assumes "holds_text e (staff(lit ''alice'' \<mapsto> lit ''CTO'')) 336 e0"
  shows "\<exists>e'. demo_delete (e, out) = (Inr (), (e', out @ section_text ''--- Delete ---'' @ println (lit ''  Deleted bob (was: data scientist)'')))
    \<and> holds_text e' staff_end 336 e0"
proof -
  have a: "ascii ''bob''" "ascii ''data scientist''" by (simp_all add: ascii_def)
  obtain e1 where e1: "engine_delete (as_bytes (lit ''bob'')) e
      = (Inr (map_option as_bytes ((staff(lit ''alice'' \<mapsto> lit ''CTO'')) (lit ''bob''))), e1)" "holds_text e1 staff_end 336 e0"
    using text_delete [OF assms ascii_lit(1) [OF a(1)]] unfolding staff_end_def by metis
  have "(staff(lit ''alice'' \<mapsto> lit ''CTO'')) (lit ''bob'') = Some (lit ''data scientist'')" by (simp add: staff_simps)
  with e1 text_unwrap_run [OF ascii_lit(1) [OF a(2)]] show ?thesis
    by (simp add: demo_delete_def bindS_def unwrap_def section_text_def lit_append)
qed

lemma demo_scan_run:
  assumes "holds_text e staff_end b e0"
  shows "\<exists>e'. demo_scan (e, out) = (Inr (), (e', out @ section_text ''--- Scan all (sorted) ---''
      @ println (lit ''  alice => CTO'') @ println (lit ''  charlie => devops engineer'') @ println (lit ''  diana => product manager'')
      @ println (lit ''  eve => security researcher''))) \<and> holds_text e' staff_end b e0"
proof -
  have t: "texts staff_end" using assms by (simp add: holds_text_def)
  obtain e1 where e1: "engine_scan_all e = (Inr (enc staff_end), e1)" "holds_text e1 staff_end b e0" by (rule text_scan [OF assms])
  from entry_lines_run [OF t, of "keys_of staff_end" e1 "out @ section_text ''--- Scan all (sorted) ---''"] e1 show ?thesis
    by (simp add: demo_scan_def bindS_def unwrap_def section_text_def enc_def staff_end_keys)
      (simp add: staff_end_def staff_simps lit_append)
qed

lemma demo_range_run:
  assumes "holds_text e staff_end b e0"
  shows "\<exists>e'. demo_range (e, out) = (Inr (), (e', out @ section_text ''--- Range scan [c, e] ---''
      @ println (lit ''  charlie => devops engineer'') @ println (lit ''  diana => product manager''))) \<and> holds_text e' staff_end b e0"
proof -
  have t: "texts staff_end" using assms by (simp add: holds_text_def)
  have a: "ascii ''c''" "ascii ''e''" by (simp_all add: ascii_def)
  let ?ks = "filter (\<lambda>k. lit ''c'' \<le> k \<and> k \<le> lit ''e'') (keys_of staff_end)"
  have ks: "?ks = [lit ''charlie'', lit ''diana'']" by (simp add: staff_end_keys lit_def)
  obtain e1 where e1: "engine_range_scan (as_bytes (lit ''c'')) (as_bytes (lit ''e'')) e = (Inr (map (enc_entry staff_end) ?ks), e1)"
    "holds_text e1 staff_end b e0" by (rule text_range [OF assms ascii_lit(1) [OF a(1)] ascii_lit(1) [OF a(2)]])
  have "set ?ks \<subseteq> set (keys_of staff_end)" by auto
  from entry_lines_run [OF t this, of e1 "out @ section_text ''--- Range scan [c, e] ---''"] e1 show ?thesis
    unfolding ks by (simp add: demo_range_def bindS_def unwrap_def section_text_def) (simp add: staff_end_def staff_simps lit_append)
qed

section \<open>The inserts\<close>

definition demo_records :: "nat \<Rightarrow> entry list" where
  "demo_records n = map (\<lambda>i. (as_bytes (demo_key i), as_bytes (demo_val i))) [0..<n]"

definition filled :: "nat \<Rightarrow> text_map \<Rightarrow> text_map" where
  "filled n m = foldl (\<lambda>m i. m(demo_key i \<mapsto> demo_val i)) m [0..<n]"

lemma text_ok_demo: "text_ok (demo_key i)" "text_ok (demo_val i)"
proof -
  have "text_ok (pad_zeros 6 (show_dec i))"
    using padded_ascii [of 6 i] by (auto simp: text_ok_def scalar_def)
  then show "text_ok (demo_key i)" "text_ok (demo_val i)" by (simp_all add: demo_key_def demo_val_def text_ok_lit)
qed

lemma demo_key_inject: "demo_key i = demo_key j \<longleftrightarrow> i = j"
  by (simp add: demo_key_def pad_zeros_inject)

lemma demo_key_less: "i < j \<Longrightarrow> j < 10 ^ 6 \<Longrightarrow> demo_key i < demo_key j"
  using padded_less [of i j 5] by (simp add: demo_key_def)

lemma demo_record_length:
  assumes "i < 10 ^ 6"
  shows "length (as_bytes (demo_key i)) + length (as_bytes (demo_val i)) = 24"
proof -
  have "length (pad_zeros 6 (show_dec i)) = 6" using length_padded [of i 5] assms by simp
  then show ?thesis using padded_ascii [of 6 i] length_ascii [of "demo_key i"] length_ascii [of "demo_val i"]
    by (auto simp: demo_key_def demo_val_def lit_def)
qed

lemma filled_Suc: "filled (Suc n) m = (filled n m)(demo_key n \<mapsto> demo_val n)"
  by (simp add: filled_def)

lemma filled_hit: "i < n \<Longrightarrow> filled n m (demo_key i) = Some (demo_val i)"
proof (induction n)
  case (Suc n)
  then show ?case by (cases "i = n") (auto simp: filled_Suc demo_key_inject)
qed simp

lemma filled_miss: "(\<And>i. demo_key i \<noteq> k) \<Longrightarrow> filled n m k = m k"
  by (induction n) (auto simp: filled_Suc filled_def)

lemma filled_dom: "k \<in> dom (filled n m) \<Longrightarrow> k \<in> dom m \<or> (\<exists>i < n. k = demo_key i)"
  by (induction n) (auto simp: filled_Suc filled_def less_Suc_eq)

lemma kv_inserts_demo:
  assumes "texts m"
  shows "kv_inserts (demo_records n) (enc m) = enc (filled n m) \<and> texts (filled n m)"
proof (induction n)
  case 0
  show ?case using assms by (simp add: kv_inserts_def demo_records_def filled_def)
next
  case (Suc n)
  have "kv_inserts (demo_records (Suc n)) (enc m) = kv_insert (as_bytes (demo_key n)) (as_bytes (demo_val n)) (kv_inserts (demo_records n) (enc m))"
    by (simp add: kv_inserts_def demo_records_def)
  with Suc enc_upd [OF _ text_ok_demo, of "filled n m" n n] texts_upd [OF _ text_ok_demo, of "filled n m" n n] show ?case
    unfolding filled_Suc by metis
qed

lemma length_enc: "texts m \<Longrightarrow> length (enc m) = card (dom m)"
  by (simp add: enc_def keys_of_def texts_def)

lemma demo_load_fits:
  assumes "texts m" and "card (dom m) \<le> 13" and "\<And>i. m (demo_key i) = None" and "n \<le> 10 ^ 6"
  shows "load_fits (enc m) [] (demo_records n)"
proof -
  have "sorted_wrt (\<lambda>i j. as_bytes (demo_key i) < as_bytes (demo_key j)) [0..<n]"
    by (rule sorted_wrt_mono_rel [OF _ sorted_wrt_upt]) (use demo_key_less enc_less text_ok_demo assms(4) in auto)
  then have "sorted_kv (demo_records n)" by (simp add: demo_records_def sorted_kv_def sorted_wrt_map comp_def)
  moreover have "over k (enc m) \<le> FEW_ABOVE" for k
    using length_filter_le [of "\<lambda>e. k < fst e" "enc m"] assms(2) length_enc [OF assms(1)] by (simp add: over_def FEW_ABOVE_def)
  moreover have "map_of (enc m) (as_bytes (demo_key i)) = None" for i using enc_lookup [OF assms(1) text_ok_demo(1)] assms(3) by simp
  moreover have "length (as_bytes (demo_key i)) + length (as_bytes (demo_val i)) \<le> 150" if "i < n" for i
    using demo_record_length [of i] that assms(4) by simp
  ultimately show ?thesis by (auto simp: load_fits_def demo_records_def)
qed

lemma demo_puts_run:
  assumes "put_all (map (\<lambda>i. (as_bytes (demo_key i), as_bytes (demo_val i))) is) e = (Inr (), e')"
  shows "foldS (\<lambda>i. unwrap (engine_put (as_bytes (demo_key i)) (as_bytes (demo_val i)))) is (e, out) = (Inr (), (e', out))"
  using assms
proof (induction "is" arbitrary: e)
  case Nil
  then show ?case by (simp add: put_all_def)
next
  case (Cons i "is")
  then obtain u e1 where "engine_put (as_bytes (demo_key i)) (as_bytes (demo_val i)) e = (Inr u, e1)"
    "put_all (map (\<lambda>i. (as_bytes (demo_key i), as_bytes (demo_val i))) is) e1 = (Inr (), e')"
    by (auto simp: put_all_def bindS_Inr_iff)
  with Cons.IH show ?case by (simp add: bindS_def unwrap_def)
qed

text \<open>Neither the names nor the keys of the transaction are keys of the benchmark.\<close>

lemma demo_key_other: "demo_key i \<noteq> lit ''alice''" "demo_key i \<noteq> lit ''bob''" "demo_key i \<noteq> lit ''charlie''" "demo_key i \<noteq> lit ''diana''"
  "demo_key i \<noteq> lit ''eve''" "demo_key i < lit ''txn_key1''" "demo_key i < lit ''txn_key2''"
  by (simp_all add: demo_key_def lit_def)

lemma demo_key_5000: "demo_key 5000 = lit ''bench_005000''" "demo_val 5000 = lit ''value_005000''"
proof -
  have "pad_zeros 6 (show_dec 5000) = lit ''005000''" by (simp add: pad_zeros_def show_dec.simps lit_def numeral_2_eq_2)
  then show "demo_key 5000 = lit ''bench_005000''" "demo_val 5000 = lit ''value_005000''" by (simp_all add: demo_key_def demo_val_def lit_def)
qed

definition bench_done :: "storage_engine \<Rightarrow> storage_engine \<Rightarrow> bool" where
  "bench_done e0 e \<longleftrightarrow> (\<exists>y. loads e (enc (filled 10000 staff_end)) y 10000 \<and> texts (filled 10000 staff_end)
     \<and> y \<le> as_bytes (lit ''txn_key1'') \<and> same_log e e0)"

lemma demo_benchmark_run:
  assumes h: "holds_text e staff_end b e0"
  shows "\<exists>e'. demo_benchmark elapsed (e, out) = (Inr (), (e', out @ section_text ''--- Benchmark: 10,000 inserts ---''
      @ println (lit ''  Inserted 10,000 records in '' @ elapsed) @ println (lit ''  Verified: bench_005000 => value_005000'')))
    \<and> bench_done e0 e'"
proof -
  from h have l: "loads e (enc staff_end) [] 0" "texts staff_end" "same_log e e0" by (simp_all add: holds_text_def)
  have "length (keys_of staff_end) = 4" by (simp add: staff_end_keys)
  then have "card (dom staff_end) \<le> 13" using length_enc [OF l(2)] by (simp add: enc_def)
  moreover have "staff_end (demo_key i) = None" for i by (simp add: staff_end_def staff_simps demo_key_other)
  ultimately have fits: "load_fits (enc staff_end) [] (demo_records 10000)" by (intro demo_load_fits [OF l(2)]) simp_all
  have "0 + length (demo_records 10000) \<le> MAX_LOAD" by (simp add: demo_records_def MAX_LOAD_def)
  from load_puts [OF l(1) fits this] kv_inserts_demo [OF l(2), of 10000] obtain e1 y where
    p: "put_all (demo_records 10000) e = (Inr (), e1)" "loads e1 (enc (filled 10000 staff_end)) y 10000" "texts (filled 10000 staff_end)"
      "\<And>k. [] \<le> k \<Longrightarrow> (\<forall>a \<in> set (demo_records 10000). fst a \<le> k) \<Longrightarrow> y \<le> k" "se_wal e1 = se_wal e" "se_txn_manager e1 = se_txn_manager e"
    by (auto simp: demo_records_def)
  have run: "foldS (\<lambda>i. unwrap (engine_put (as_bytes (demo_key i)) (as_bytes (demo_val i)))) [0..<10000] (e, o') = (Inr (), (e1, o'))" for o'
    by (rule demo_puts_run) (use p(1) in \<open>simp only: demo_records_def\<close>)
  have hit: "filled 10000 staff_end (lit ''bench_005000'') = Some (lit ''value_005000'')"
    using filled_hit [of 5000 10000 staff_end] by (simp add: demo_key_5000)
  from loaded_engine.get_ok [OF p(2), of "as_bytes (lit ''bench_005000'')"] obtain e2 where
    e2: "engine_get (as_bytes (lit ''bench_005000'')) e1 = (Inr (Some (as_bytes (lit ''value_005000''))), e2)"
      "loads e2 (enc (filled 10000 staff_end)) y 10000"
    by (auto simp: enc_lookup [OF p(3) text_ok_lit] hit)
  have "same_log e1 e0" using l(3) p(5,6) by (simp add: same_log_def)
  then have log: "same_log e2 e0" using same_log_tree [OF e2(1) [unfolded engine_get_def]] by blast
  have "y \<le> as_bytes (lit ''txn_key1'')"
    by (rule p(4)) (auto simp: demo_records_def enc_less text_ok_demo text_ok_lit demo_key_other intro: less_imp_le)
  moreover have "demo_benchmark elapsed (e, out) = (Inr (), (e2, out @ section_text ''--- Benchmark: 10,000 inserts ---''
      @ println (lit ''  Inserted 10,000 records in '' @ elapsed) @ println (lit ''  Verified: bench_005000 => value_005000'')))"
    using text_unwrap_run [OF text_ok_lit, of "''value_005000''"]
    by (simp add: demo_benchmark_def bindS_def run section_text_def lit_append del: upt_rec_numeral) (simp add: unwrap_def e2(1) lit_append)
  ultimately show ?thesis using e2(2) log p(3) unfolding bench_done_def by blast
qed

section \<open>The transaction\<close>

lemma load_txn_put:
  assumes l: "loads e es x n" and new: "map_of es k = None" "length k + length v \<le> SMALL" "x \<le> k" "over k es \<le> FEW_ABOVE" "n < MAX_LOAD"
    and lsn: "wm_next_lsn (se_wal e) \<noteq> - 1"
  obtains e' where "txn_put t k v e = (Inr (), e')" "loads e' (kv_insert k v es) k (Suc n)"
    "wm_next_lsn (se_wal e') = wm_next_lsn (se_wal e) + 1" "se_txn_manager e' = se_txn_manager e"
proof -
  let ?r = "lr_page_write 0 t (last_lsn (se_wal e) t) 0 k v"
  have reach: "txn_reach (se_txn_manager e, se_wal e)" by (rule loaded_engine.engine_holdsD [OF l])
  then obtain ds ps where h: "wal_holds (se_wal e) ds ps" using wal_reach_holds txn_reach_inv by fastforce
  have "record_ok ?r" using new(2) by (simp add: record_ok_def lr_page_write_def)
  then obtain w where w: "log_page_write t 0 k v (se_wal e) = (Inr (wm_next_lsn (se_wal e)), w)" "wm_next_lsn w = wm_next_lsn (se_wal e) + 1"
    by (rule wal_append_ok [OF h lsn]) (simp add: log_page_write_def)
  have "txn_reach (se_txn_manager e, w)" by (rule txn_reach.page_write [OF reach lsn _ w(1)]) (use new(2) in simp)
  from loaded_engine.on_wal_run [where m = "log_page_write t 0 k v", OF w(1) l this] obtain e1 where
    e1: "on_wal (log_page_write t 0 k v) e = (Inr (wm_next_lsn (se_wal e)), e1)" "loads e1 es x n" "se_wal e1 = w"
      "se_txn_manager e1 = se_txn_manager e" by blast
  from load_tree_put [OF e1(2) new] obtain e' where "on_tree (bt_insert k v) e1 = (Inr True, e')" "loads e' (kv_insert k v es) k (Suc n)"
    "se_wal e' = se_wal e1" "se_txn_manager e' = se_txn_manager e1" by blast
  with e1 w(2) that show thesis by (simp add: txn_put_def bindS_def)
qed

lemma load_begin:
  assumes l: "loads e es x n" and new: "se_txn_manager e = tm_new" "wm_next_lsn (se_wal e) = 1"
  obtains e' where "begin_transaction e = (Inr 1, e')" "loads e' es x n" "wm_next_lsn (se_wal e') = 2" "se_txn_manager e' = one_active"
proof -
  have reach: "txn_reach (tm_new, se_wal e)" using loaded_engine.engine_holdsD(2) [OF l] new(1) by simp
  then obtain ds ps where h: "wal_holds (se_wal e) ds ps" using wal_reach_holds txn_reach_inv by fastforce
  have n: "wm_next_lsn (se_wal e) \<noteq> - 1" "tm_next_txn_id tm_new \<noteq> - 1" using new(2) by (simp_all add: tm_new_def)
  obtain w where w: "wm_next_lsn w = 2" "tm_begin (tm_new, se_wal e) = (Inr 1, (one_active, w))"
    by (rule begin_run [OF h n(1), of tm_new]) (use new(2) in \<open>auto simp: tm_new_def\<close>)
  have "txn_reach (one_active, w)" by (rule txn_reach.begin_txn [OF reach n w(2)])
  from loaded_engine.on_txn_run [where m = tm_begin, OF _ l this] new(1) w that show thesis
    by (auto simp: begin_transaction_def)
qed

lemma load_commit:
  assumes l: "loads e es x n" and act: "se_txn_manager e = one_active" and lsn: "wm_next_lsn (se_wal e) \<noteq> - 1"
  obtains e' where "commit_transaction 1 e = (Inr (), e')" "loads e' es x n"
proof -
  have reach: "txn_reach (one_active, se_wal e)" using loaded_engine.engine_holdsD(2) [OF l] act by simp
  then obtain ds ps where h: "wal_holds (se_wal e) ds ps" using wal_reach_holds txn_reach_inv by fastforce
  obtain w where w: "tm_commit 1 (one_active, se_wal e) = (Inr (), (ended 1 one_active, w))"
    by (rule commit_run [OF one_active_inv h lsn])
  have "txn_reach (ended 1 one_active, w)" by (rule txn_reach.commit_txn [OF reach lsn w])
  from loaded_engine.on_txn_run [where m = "tm_commit 1", OF _ l this] act w that show thesis
    by (auto simp: commit_transaction_def)
qed

text \<open>A put of a transaction above every key of the database.\<close>

lemma over_none:
  assumes "texts m" and "text_ok k" and "\<forall>k' \<in> dom m. k' < k"
  shows "over (as_bytes k) (enc m) = 0" "map_of (enc m) (as_bytes k) = None"
proof -
  have "as_bytes k' < as_bytes k" if "k' \<in> set (keys_of m)" for k'
    using that assms texts_key [OF assms(1), of k'] by (auto simp: enc_less keys_of_def texts_def)
  then have "filter (\<lambda>e. as_bytes k < fst e) (enc m) = []" by (force simp: filter_empty_conv enc_def enc_entry_def)
  then show "over (as_bytes k) (enc m) = 0" by (simp add: over_def)
  have "m k = None" using assms(3) by (metis domIff order_less_irrefl)
  then show "map_of (enc m) (as_bytes k) = None" by (simp add: enc_lookup [OF assms(1,2)])
qed

lemma text_txn_put:
  assumes l: "loads e (enc m) x n" "texts m" and k: "text_ok k" "text_ok v" "length (as_bytes k) + length (as_bytes v) \<le> 150"
    and x: "x \<le> as_bytes k" "\<forall>k' \<in> dom m. k' < k" and n: "n < 65000" and lsn: "wm_next_lsn (se_wal e) \<noteq> - 1"
  obtains e' where "txn_put t (as_bytes k) (as_bytes v) e = (Inr (), e')" "loads e' (enc (m(k \<mapsto> v))) (as_bytes k) (Suc n)" "texts (m(k \<mapsto> v))"
    "wm_next_lsn (se_wal e') = wm_next_lsn (se_wal e) + 1" "se_txn_manager e' = se_txn_manager e"
proof -
  have few: "length (as_bytes k) + length (as_bytes v) \<le> SMALL" "over (as_bytes k) (enc m) \<le> FEW_ABOVE" "n < MAX_LOAD"
    using over_none(1) [OF l(2) k(1) x(2)] n k(3) by (simp_all add: MAX_LOAD_def)
  from load_txn_put [OF l(1) over_none(2) [OF l(2) k(1) x(2)] few(1) x(1) few(2,3) lsn, of t] that
  show thesis unfolding enc_upd [OF l(2) k(1,2)] using texts_upd [OF l(2) k(1,2)] by blast
qed

lemma load_text_get:
  assumes "loads e (enc m) x n" "texts m" and "text_ok k"
  obtains e' where "engine_get (as_bytes k) e = (Inr (map_option as_bytes (m k)), e')" "loads e' (enc m) x n"
  using loaded_engine.get_ok [OF assms(1), of "as_bytes k"] by (auto simp: enc_lookup [OF assms(2,3)])

definition txn_end :: text_map where
  "txn_end = (filled 10000 staff_end)(lit ''txn_key1'' \<mapsto> lit ''txn_val1'', lit ''txn_key2'' \<mapsto> lit ''txn_val2'')"

lemma filled_below: "k \<in> dom (filled n staff_end) \<Longrightarrow> k < lit ''txn_key1''"
proof -
  assume "k \<in> dom (filled n staff_end)"
  moreover have "k < lit ''txn_key1''" if "k \<in> dom staff_end"
    using that by (auto simp: staff_end_def staff_simps lit_def split: if_splits)
  ultimately show "k < lit ''txn_key1''" using filled_dom demo_key_other(6) by blast
qed

lemma demo_transaction_run:
  assumes b: "bench_done e0 e" and e0: "se_txn_manager e0 = tm_new" "wm_next_lsn (se_wal e0) = 1"
  shows "\<exists>e'. demo_transaction (e, out) = (Inr (), (e', out @ section_text ''--- Transaction demo ---'' @ println (lit ''  BEGIN txn 1'')
      @ println (lit ''  COMMIT txn 1'') @ println (lit ''  txn_key1 => txn_val1, txn_key2 => txn_val2''))) \<and> (\<exists>z. loads e' (enc txn_end) z 10002)"
proof -
  from b e0 obtain y where l: "loads e (enc (filled 10000 staff_end)) y 10000" "texts (filled 10000 staff_end)" "y \<le> as_bytes (lit ''txn_key1'')"
    and new: "se_txn_manager e = tm_new" "wm_next_lsn (se_wal e) = 1" by (auto simp: bench_done_def same_log_def)
  let ?m = "filled 10000 staff_end" and ?k1 = "lit ''txn_key1''" and ?v1 = "lit ''txn_val1''" and ?k2 = "lit ''txn_key2''" and ?v2 = "lit ''txn_val2''"
  have a: "ascii ''txn_key1''" "ascii ''txn_val1''" "ascii ''txn_key2''" "ascii ''txn_val2''" by (simp_all add: ascii_def)
  note t = a [THEN ascii_lit(1)]
  note len = a [THEN ascii_lit(2)]
  have less: "?k1 < ?k2" by (simp add: lit_def)
  obtain e1 where e1: "begin_transaction e = (Inr 1, e1)" "loads e1 (enc ?m) y 10000" "wm_next_lsn (se_wal e1) = 2" "se_txn_manager e1 = one_active"
    by (rule load_begin [OF l(1) new])
  obtain e2 where e2: "txn_put 1 (as_bytes ?k1) (as_bytes ?v1) e1 = (Inr (), e2)" "loads e2 (enc (?m(?k1 \<mapsto> ?v1))) (as_bytes ?k1) (Suc 10000)"
    "texts (?m(?k1 \<mapsto> ?v1))" "wm_next_lsn (se_wal e2) = 3" "se_txn_manager e2 = one_active"
    by (rule text_txn_put [where t = 1, OF e1(2) l(2) t(1,2) _ l(3)]) (use len e1(3,4) filled_below in \<open>auto simp del: fun_upd_apply\<close>)
  have below: "\<forall>k' \<in> dom (?m(?k1 \<mapsto> ?v1)). k' < ?k2" using less filled_below [of _ 10000] by (auto simp del: fun_upd_apply) (meson less_trans domI)
  have up: "as_bytes ?k1 \<le> as_bytes ?k2" using less by (simp add: enc_less t less_imp_le)
  obtain e3 where e3: "txn_put 1 (as_bytes ?k2) (as_bytes ?v2) e2 = (Inr (), e3)" "loads e3 (enc txn_end) (as_bytes ?k2) 10002"
    "texts txn_end" "wm_next_lsn (se_wal e3) = 4" "se_txn_manager e3 = one_active"
    by (rule text_txn_put [where t = 1, OF e2(2,3) t(3,4) _ up below]) (use len e2(4,5) in \<open>auto simp: txn_end_def simp del: fun_upd_apply\<close>)
  obtain e4 where e4: "commit_transaction 1 e3 = (Inr (), e4)" "loads e4 (enc txn_end) (as_bytes ?k2) 10002"
    by (rule load_commit [OF e3(2,5)]) (use e3(4) in simp)
  obtain e5 where e5: "engine_get (as_bytes ?k1) e4 = (Inr (Some (as_bytes ?v1)), e5)" "loads e5 (enc txn_end) (as_bytes ?k2) 10002"
    by (rule load_text_get [OF e4(2) e3(3) t(1)]) (simp add: txn_end_def)
  obtain e6 where e6: "engine_get (as_bytes ?k2) e5 = (Inr (Some (as_bytes ?v2)), e6)" "loads e6 (enc txn_end) (as_bytes ?k2) 10002"
    by (rule load_text_get [OF e5(2) e3(3) t(3)]) (simp add: txn_end_def)
  have one: "show_dec (Suc 0) = lit ''1''" by (simp add: show_dec.simps lit_def)
  have "demo_transaction (e, out) = (Inr (), (e6, out @ section_text ''--- Transaction demo ---'' @ println (lit ''  BEGIN txn 1'')
      @ println (lit ''  COMMIT txn 1'') @ println (lit ''  txn_key1 => txn_val1, txn_key2 => txn_val2'')))"
    by (simp add: demo_transaction_def bindS_def unwrap_def e1(1) e2(1) e3(1) e4(1) e5(1) e6(1) one text_unwrap_run t section_text_def lit_append)
  with e6(2) show ?thesis by blast
qed

section \<open>Properties\<close>

lemmas demo_sections =
  printsI [OF demo_insert_run [where ?e0.0 = start]]
  printsI [OF demo_lookups_run [where ?e0.0 = start]]
  printsI [OF demo_update_run [where ?e0.0 = start]]
  printsI [OF demo_delete_run [where ?e0.0 = start]]
  printsI [OF demo_scan_run [where ?e0.0 = start]]
  printsI [OF demo_range_run [where ?e0.0 = start]]
  printsI [OF demo_benchmark_run [where ?e0.0 = start]]
  printsI [OF demo_transaction_run [where ?e0.0 = start]]
  for start :: storage_engine

text \<open>The text of the demo, with the statistics at the start and at the end.\<close>

definition demo_text :: "str \<Rightarrow> str \<Rightarrow> str \<Rightarrow> str" where
  "demo_text opened elapsed closed =
     println (lit ''=== StorageDB Demo ==='') @ println [] @ println (lit ''Database opened: '' @ opened)
     @ section_text ''--- Inserting data ---''
     @ concat (map (\<lambda>(k, v). println (lit ''  PUT '' @ lit k @ lit '' => '' @ lit v)) demo_entries)
     @ section_text ''--- Lookups ---''
     @ println (lit ''  GET alice => software engineer'') @ println (lit ''  GET charlie => devops engineer'')
     @ println (lit ''  GET frank => (not found)'')
     @ section_text ''--- Update ---'' @ println (lit ''  alice is now: CTO'')
     @ section_text ''--- Delete ---'' @ println (lit ''  Deleted bob (was: data scientist)'')
     @ section_text ''--- Scan all (sorted) ---''
     @ println (lit ''  alice => CTO'') @ println (lit ''  charlie => devops engineer'') @ println (lit ''  diana => product manager'')
     @ println (lit ''  eve => security researcher'')
     @ section_text ''--- Range scan [c, e] ---''
     @ println (lit ''  charlie => devops engineer'') @ println (lit ''  diana => product manager'')
     @ section_text ''--- Benchmark: 10,000 inserts ---''
     @ println (lit ''  Inserted 10,000 records in '' @ elapsed) @ println (lit ''  Verified: bench_005000 => value_005000'')
     @ section_text ''--- Transaction demo ---'' @ println (lit ''  BEGIN txn 1'') @ println (lit ''  COMMIT txn 1'')
     @ println (lit ''  txn_key1 => txn_val1, txn_key2 => txn_val2'')
     @ section_text ''--- Final stats ---'' @ println (lit ''  '' @ closed)
     @ println [] @ println (lit ''Done!'')"

lemma open_holds_text:
  assumes "engine_open p [] [] = Inr e"
  shows "holds_text e Map.empty 0 e"
  using open_loads [OF assms, of "[]"] by (simp add: holds_text_def enc_def keys_of_def texts_def same_log_def)

lemma sync_stats:
  assumes "engine_sync e = (Inr (), e')" and "bp_count (se_pool e') = bp_count (se_pool e)"
  shows "engine_stats_of e' = engine_stats_of e"
proof -
  have lsn: "wm_next_lsn w' = wm_next_lsn w" if "wal_flush w = (Inr (), w')" for w w'
    using that by (auto simp: wal_flush_def bindE_def split: sum.splits if_splits)
  with assms(1) have "se_btree e' = se_btree e" "se_txn_manager e' = se_txn_manager e" "se_db_path e' = se_db_path e"
    "wm_next_lsn (se_wal e') = wm_next_lsn (se_wal e)"
    by (auto simp: engine_sync_def bindS_def on_wal_def on_pool_def split: prod.splits sum.splits)
  with assms(2) show ?thesis by (simp add: engine_stats_of_def bp_count_def current_lsn_def)
qed

lemma demo_end_run:
  assumes l: "loads e es z n"
    and t: "T (show_engine_stats (engine_stats_of e))
      = out @ section_text ''--- Final stats ---'' @ println (lit ''  '' @ show_engine_stats (engine_stats_of e)) @ println [] @ println (lit ''Done!'')"
  shows "\<exists>e'. engine_ok e' es \<and> bindS (say []) (\<lambda>_. bindS (say (lit ''--- Final stats ---'')) (\<lambda>_. bindS (say_stats (lit ''  '')) (\<lambda>_.
      bindS (unwrap engine_sync) (\<lambda>_. bindS (say []) (\<lambda>_. say (lit ''Done!'')))))) (e, out)
    = (Inr (), (e', T (show_engine_stats (engine_stats_of e'))))"
proof -
  from loaded_engine.sync_ok [OF l] obtain e' where e': "engine_sync e = (Inr (), e')" "loads e' es z n" "bp_count (se_pool e') = bp_count (se_pool e)"
    by blast
  show ?thesis by (rule exI [of _ e'])
    (simp add: loads_ok [OF e'(2)] sync_stats [OF e'(1,3)] e'(1) t bindS_def say_stats_def unwrap_def section_text_def)
qed

lemma demo_body_run:
  assumes "engine_open p [] [] = Inr e" and new: "se_txn_manager e = tm_new" "wm_next_lsn (se_wal e) = 1"
    and banner: "out = println (lit ''=== StorageDB Demo ==='') @ println []"
  shows "\<exists>e'. engine_ok e' (enc txn_end) \<and> demo_body elapsed (e, out)
    = (Inr (), (e', demo_text (show_engine_stats (engine_stats_of e)) elapsed (show_engine_stats (engine_stats_of e'))))"
proof -
  let ?R = "\<lambda>r. \<exists>e'. engine_ok e' (enc txn_end)
    \<and> r = (Inr (), (e', demo_text (show_engine_stats (engine_stats_of e)) elapsed (show_engine_stats (engine_stats_of e'))))"
  have "prints (say_stats (lit ''Database opened: '')) (println (lit ''Database opened: '' @ show_engine_stats (engine_stats_of e)))
    ((=) e) (\<lambda>e'. holds_text e' Map.empty 0 e)"
    using open_holds_text [OF assms(1)] by (auto simp: prints_def say_stats_def)
  then show ?thesis unfolding demo_body_def
    apply (rule prints_step [where R = ?R, OF _ refl])
    apply (rule prints_step [where R = ?R], rule demo_sections [where start = e], assumption, assumption)+
    apply (rule prints_step [where R = ?R], rule demo_sections(8) [where start = e], assumption, rule new(1), rule new(2), assumption)
    subgoal for e1 e2 e3 e4 e5 e6 e7 e8 e9
    proof -
      assume "\<exists>z. loads e9 (enc txn_end) z 10002"
      then obtain z where l: "loads e9 (enc txn_end) z 10002" by blast
      show ?thesis by (rule demo_end_run [OF l]) (simp add: demo_text_def banner)
    qed
    done
qed

text \<open>
  C8. The demo program on a new database runs to its end without a panic and prints exactly
  \<open>demo_text\<close>: all names are found, updated, deleted and scanned as written there, the 10000 records are
  inserted and one is verified, the transaction commits with id 1 and both its values are read back. At
  the end the database holds the four names, the 10000 records and the two entries of the transaction.
\<close>

theorem demo_prints:
  "\<exists>e e' out. engine_open p [] [] = Inr e \<and> out = demo_text (show_engine_stats (engine_stats_of e)) elapsed (show_engine_stats (engine_stats_of e'))
    \<and> demo_body elapsed (e, println (lit ''=== StorageDB Demo ==='') @ println []) = (Inr (), (e', out))
    \<and> engine_ok e' (enc txn_end) \<and> demo_main p [] [] elapsed = (None, out)"
proof (rule open_fresh [of p])
  fix e assume e: "engine_open p [] [] = Inr e" "se_txn_manager e = tm_new" "wm_next_lsn (se_wal e) = 1"
  from demo_body_run [OF this refl, of elapsed] e(1) show ?thesis by (auto simp: demo_main_def)
qed

end
