(* ===== verification/Unsaved.thy ===== *)
theory Unsaved
  imports History
begin

text \<open>
  What is on disk before anything was flushed. Creating a database extends the file by a page of zeros;
  the root leaf is only in the buffer pool until it is evicted or flushed, and so are all puts into it.
  A process that ends without \<^verbatim>\<open>sync\<close> leaves that page of zeros behind: the next open takes it for
  the root, it is not a leaf, and its leftmost child is page 0 again, so that every descent runs forever.
\<close>

section \<open>Operations on cached pages do not touch the disk\<close>

definition keeps :: "page_id \<Rightarrow> (buffer_pool, 'a) op \<Rightarrow> bool" where
  "keeps pid m \<longleftrightarrow> (\<forall>bp. bp_page_table bp pid \<noteq> None \<longrightarrow>
     bp_disk (snd (m bp)) = bp_disk bp \<and> bp_page_table (snd (m bp)) = bp_page_table bp)"

lemma keepsD: "keeps pid m \<Longrightarrow> m bp = (r, bp') \<Longrightarrow> bp_page_table bp pid \<noteq> None
    \<Longrightarrow> bp_disk bp' = bp_disk bp \<and> bp_page_table bp' = bp_page_table bp"
  unfolding keeps_def by (metis snd_conv)

lemma keeps_bindS: "keeps pid m \<Longrightarrow> (\<And>a. keeps pid (f a)) \<Longrightarrow> keeps pid (bindS m f)"
  unfolding keeps_def bindS_def by (auto split: prod.splits sum.splits)

lemma keeps_simple: "keeps pid (retS a)" "keeps pid (failS x)" "keeps pid (frame_at i)" "keeps pid (set_frame i f)"
  by (simp_all add: keeps_def frame_at_def set_frame_def)

lemma keeps_unwrap: "keeps pid (frame_unwrap i)"
  unfolding frame_unwrap_def by (rule keeps_bindS [OF keeps_simple(3)]) (simp add: keeps_simple split: option.split)

lemmas keeps_frame = keeps_bindS keeps_simple keeps_unwrap

lemma keeps_fetch: "keeps pid (bp_fetch_page pid)"
proof -
  have "keeps pid (bindS (frame_unwrap i) (\<lambda>frame. bindS (set_frame i (f frame)) (\<lambda>_. retS i)))" for i f
    by (intro keeps_frame)
  then show ?thesis by (auto simp: keeps_def bp_fetch_page_def)
qed

lemma keeps_fetch_mut: "keeps pid (bp_fetch_page_mut pid)"
proof -
  have "keeps pid (bindS (frame_unwrap i) (\<lambda>frame. bindS (set_frame i (f frame)) (\<lambda>_. retS i)))" for i f
    by (intro keeps_frame)
  then show ?thesis by (auto simp: keeps_def bp_fetch_page_mut_def bindS_def [of "\<lambda>bp. if _ bp then _ bp else _ bp"])
qed

lemma keeps_unpin: "keeps pid (bp_unpin_page pid d)"
proof -
  have "keeps pid (bindS (frame_unwrap i) (\<lambda>frame. set_frame i (f frame)))" for i f by (intro keeps_frame)
  then show ?thesis by (auto simp: keeps_def bp_unpin_page_def)
qed

lemma keeps_update: "keeps pid (bp_update_page i f)" "keeps pid (bp_page_at i)"
  unfolding bp_update_page_def bp_page_at_def by (intro keeps_frame)+

lemma keeps_read_node: "keeps pid (read_node pid)"
  unfolding read_node_def by (intro keeps_bindS keeps_fetch keeps_update keeps_unpin keeps_simple)

lemma keeps_write_node: "keeps (pg_id nd) (write_node nd)"
  unfolding write_node_def Let_def by (simp, intro keeps_bindS keeps_fetch_mut keeps_update keeps_unpin keeps_simple)

section \<open>A database that was never flushed\<close>

definition unsaved :: "storage_engine \<Rightarrow> entry list \<Rightarrow> bool" where
  "unsaved e es \<longleftrightarrow> engine_ok e es \<and> root_page_id (se_btree e) = 0 \<and> bp_count (se_pool e) = 1
     \<and> bp_page_table (se_pool e) 0 \<noteq> None \<and> dm_file (bp_disk (se_pool e)) = replicate PAGE_SIZE 0 \<and> wm_file (se_wal e) = []"

lemma file_write_extend: "file_write [] n [0] = replicate (Suc n) 0"
  by (cases n) (simp_all add: file_write_def replicate_append_same)

lemma create_unsaved:
  assumes "bp = bp_new (dm_open path []) DEFAULT_POOL_CAPACITY" and "bt_create bp = (Inr tr, bp')"
  shows "bp_page_table bp' 0 \<noteq> None" and "dm_file (bp_disk bp') = replicate PAGE_SIZE 0"
proof -
  let ?n = DEFAULT_POOL_CAPACITY
  have f: "[0..<?n] = 0 # [1..<?n]" using pool_capacity_pos by (simp add: upt_conv_Cons)
  have w: "file_write [] 4095 [0] = replicate PAGE_SIZE 0" using file_write_extend [of 4095] by simp
  obtain bp1 where n: "bp_new_page bp = (Inr 0, bp1)" "bp_page_table bp1 0 \<noteq> None" "dm_file (bp_disk bp1) = replicate PAGE_SIZE 0"
    using w pool_capacity_pos by (simp add: assms(1) f bp_new_page_def bindS_def on_disk_def dm_allocate_page_def dm_open_def bp_new_def Let_def
        get_free_frame_def install_frame_def set_frame_def)
  have k: "keeps 0 (bindS (bp_fetch_page_mut 0) (\<lambda>page. bindS (bp_update_page page f) (\<lambda>_. bindS (bp_unpin_page 0 True) (\<lambda>_.
      bindS (bp_unpin_page 0 False) (\<lambda>_. retS \<lparr>root_page_id = 0\<rparr>)))))" for f
    by (intro keeps_bindS keeps_fetch_mut keeps_update keeps_unpin keeps_simple)
  have "bt_create bp = bindS (bp_fetch_page_mut 0) (\<lambda>page. bindS (bp_update_page page (copy_node (update_checksum (new_leaf 0)))) (\<lambda>_.
      bindS (bp_unpin_page 0 True) (\<lambda>_. bindS (bp_unpin_page 0 False) (\<lambda>_. retS \<lparr>root_page_id = 0\<rparr>)))) bp1"
    using n(1) by (simp add: bt_create_def bindS_run(1) [where m = bp_new_page])
  from keepsD [OF k this [symmetric, unfolded assms(2)] n(2)] n(2,3)
  show "bp_page_table bp' 0 \<noteq> None" and "dm_file (bp_disk bp') = replicate PAGE_SIZE 0" by simp_all
qed

lemma open_unsaved:
  assumes "engine_open p [] [] = Inr e"
  shows "unsaved e []"
proof (rule open_fresh [of p])
  fix e' assume e': "engine_open p [] [] = Inr e'" "engine_ok e' []" "root_page_id (se_btree e') = 0" "wm_file (se_wal e') = []" "bp_count (se_pool e') = 1"
    "bt_create (bp_new (dm_open (p @ ''/data.db'') []) DEFAULT_POOL_CAPACITY) = (Inr (se_btree e'), se_pool e')"
  with create_unsaved [OF refl e'(6)] assms show ?thesis by (simp add: unsaved_def)
qed

text \<open>A put into the root leaf, whose page is cached.\<close>

lemma insert_keeps:
  assumes t: "tree_ok bp (BLeaf 0 es)" "root_page_id tr = 0" and pt: "bp_page_table bp 0 \<noteq> None"
    and fits: "leaf_size es + 12 + length k + length v \<le> LEAF_CAPACITY" and run: "bt_insert k v (tr, bp) = (Inr r, (tr', bp'))"
  shows "bp_disk bp' = bp_disk bp \<and> bp_page_table bp' = bp_page_table bp"
proof -
  have q: "pool_quiet bp" using t(1) by (simp add: tree_ok_def)
  from t(1) obtain sib par where at: "leaf_at (bp_view bp) 0 es sib par" by (auto simp: tree_ok_def)
  then obtain b where b: "bp_view bp 0 = Some b" by (auto simp: leaf_at_def)
  have srt: "sorted_kv es" using t(1) by (simp add: tree_ok_def)
  show "bp_disk bp' = bp_disk bp \<and> bp_page_table bp' = bp_page_table bp"
  proof (rule pool.rd_node_obtain [OF q b])
    fix nd0 bp1 assume r0: "read_node 0 bp = (Inr nd0, bp1)" "pool_quiet bp1" "bp_view bp1 = bp_view bp" "pg_data nd0 = b"
    have "is_leaf nd0" using leaf_at_node(5) [OF at] b r0(4) by simp
    then have find: "find_leaf tr k bp = (Inr 0, bp1)"
      using r0(1) t(2) by (simp add: find_leaf_def loop_fuel_def bindS_def)
    have b1: "bp_view bp1 0 = Some b" using b r0(3) by simp
    show ?thesis
    proof (rule pool.rd_node_obtain [OF r0(2) b1])
      fix nd bp2 assume r: "read_node 0 bp1 = (Inr nd, bp2)" "pg_id nd = 0" "pg_data nd = b"
      note nd = leaf_at_node [OF at, of nd]
      have wf: "leaf_wf nd" "leaf_abs nd = es" using nd(1,2) b r(3) by simp_all
      have size: "leaf_size (kv_insert k v (leaf_abs nd)) \<le> LEAF_CAPACITY" using leaf_size_kv_insert [OF srt, of k v] fits wf(2) by simp
      show ?thesis
      proof (rule leaf_insert_ok [OF wf(1) size])
        fix nd' assume i: "leaf_insert nd k v = Inr (nd', map_of (leaf_abs nd) k = None)" "node_hdr nd' = node_hdr nd"
        obtain rw bp3 where w: "write_node nd' bp2 = (rw, bp3)" by (metis surj_pair)
        have "pg_id nd' = 0" using i(2) r(2) by (simp add: node_hdr_def)
        then have k3: "keeps 0 (write_node nd')" using keeps_write_node [of nd'] by simp
        have "bp_disk bp3 = bp_disk bp \<and> bp_page_table bp3 = bp_page_table bp"
          using keepsD [OF keeps_read_node r0(1) pt] keepsD [OF keeps_read_node r(1)] keepsD [OF k3 w] pt by simp
        moreover have "bp' = bp3"
        proof (cases rule: leaf_find_slot_ok [OF wf(1), of k, case_names found absent])
          case (found j)
          with run find r(1) i(1) w show ?thesis
            by (auto simp: bt_insert_def bindS_def get_tree_def in_pool_def split: sum.splits)
        next
          case (absent j)
          have "leaf_can_fit nd k v = Inr True" using leaf_can_fit_ok [OF wf(1), of k v] fits wf(2) by simp
          with absent run find r(1) i(1) w show ?thesis
            by (auto simp: bt_insert_def bindS_def get_tree_def in_pool_def split: sum.splits)
        qed
        ultimately show ?thesis by simp
      qed
    qed
  qed
qed

lemma put_unsaved:
  assumes u: "unsaved e es" and fits: "leaf_size es + 12 + length k + length v \<le> LEAF_CAPACITY"
  shows "\<exists>e'. engine_put k v e = (Inr (), e') \<and> unsaved e' (kv_insert k v es)"
proof -
  let ?bp = "se_pool e" and ?tr = "se_btree e"
  from u have ok: "engine_ok e es" and root: "root_page_id ?tr = 0" and c: "bp_count ?bp = 1" and pt: "bp_page_table ?bp 0 \<noteq> None"
    by (simp_all add: unsaved_def)
  then obtain t where t: "tree_ok ?bp t" "root_id t = root_page_id ?tr" "entries t = es" by (auto simp: engine_ok_def index_def)
  obtain i where "t = BLeaf i (entries t)" by (rule one_page_leaf [OF t(1) c])
  with t(2,3) root have leaf: "t = BLeaf 0 es" by simp
  have "index_room ?tr ?bp k v es" by (rule small_index_room [OF _ fits]) (use ok in \<open>simp add: engine_ok_def\<close>)
  then obtain bp' where i: "bt_insert k v (?tr, ?bp) = (Inr (map_of es k = None), (?tr, bp'))"
    by (rule bt_insert_room_ok)
  note kept = insert_keeps [OF t(1) [unfolded leaf] root pt fits i]
  have "tree_room (?tr, ?bp) k v" by (rule small_room [OF ok fits])
  from tree_engine.put_ok [OF ok this] i have "engine_ok (e\<lparr>se_pool := bp'\<rparr>) (kv_insert k v es)" by (auto simp: on_tree_def)
  moreover have "engine_put k v e = (Inr (), e\<lparr>se_pool := bp'\<rparr>)" using i by (simp add: engine_put_def bindS_def on_tree_def)
  moreover have "bp_count bp' = bp_count ?bp" using kept by (simp add: bp_count_def)
  ultimately show ?thesis using u kept by (simp add: unsaved_def)
qed

lemma puts_unsaved:
  assumes "unsaved e es" and "leaf_size es + leaf_size kvs + 6 \<le> LEAF_CAPACITY"
  shows "\<exists>e' es'. put_all kvs e = (Inr (), e') \<and> unsaved e' es'"
  using assms
proof (induction kvs arbitrary: e es)
  case Nil
  then show ?case by (auto simp: put_all_def)
next
  case (Cons a kvs)
  obtain k v where a: "a = (k, v)" by (cases a)
  have "leaf_size es + 12 + length k + length v \<le> LEAF_CAPACITY" using Cons.prems(2) a by simp
  from put_unsaved [OF Cons.prems(1) this] obtain e1 where e1: "engine_put k v e = (Inr (), e1)" "unsaved e1 (kv_insert k v es)" by blast
  have "sorted_kv es" using Cons.prems(1) tree.holds_sorted by (auto simp: unsaved_def engine_holds_def)
  from leaf_size_kv_insert [OF this, of k v] Cons.prems(2) a
  have "leaf_size (kv_insert k v es) + leaf_size kvs + 6 \<le> LEAF_CAPACITY" by simp
  from Cons.IH [OF e1(2) this] e1(1) a show ?case by (auto simp: put_all_def bindS_def)
qed

section \<open>Reopening\<close>

lemma zero_rd: "rd n (replicate m 0) i = (0 :: 'a :: len word)"
proof -
  have "from_le (replicate j 0) = (0 :: 'a word)" for j by (induction j) simp_all
  then show ?thesis by (simp add: rd_def slice_def)
qed

lemma zero_page:
  assumes "pg_data nd = replicate PAGE_SIZE 0"
  shows "\<not> is_leaf nd" "internal_find_child nd k = Inr 0" "internal_child nd 0 = Inr 0"
  using assms
  by (simp_all add: is_leaf_def get_page_type_def page_type_from_def internal_find_child_def num_keys_def get_num_slots_def zero_rd
      internal_child_def get_leftmost_child_def)

lemma zero_root_loops:
  assumes "pool_quiet bp" and "bp_view bp 0 = Some (replicate PAGE_SIZE 0)"
  shows "fst (find_leaf_loop n k 0 bp) = Inl OutOfFuel"
  using assms
proof (induction n arbitrary: bp)
  case (Suc n)
  show ?case
  proof (rule pool.rd_node_obtain [OF Suc.prems])
    fix nd bp1 assume r: "read_node 0 bp = (Inr nd, bp1)" "pool_quiet bp1" "bp_view bp1 = bp_view bp" "pg_data nd = replicate PAGE_SIZE 0"
    from Suc.IH [OF r(2)] r(3) Suc.prems(2) have "fst (find_leaf_loop n k 0 bp1) = Inl OutOfFuel" by simp
    with r(1) zero_page [OF r(4)] show ?thesis by (simp add: bindS_def)
  qed
qed simp

lemma reopen_unsaved:
  assumes "unsaved e es"
  obtains e2 where "engine_open p (dm_file (bp_disk (se_pool e))) (wm_file (se_wal e)) = Inr e2" "se_btree e2 = bt_open 0"
    "pool_quiet (se_pool e2)" "bp_view (se_pool e2) 0 = Some (replicate PAGE_SIZE 0)"
proof (rule wal_open_fresh [of "p @ ''/wal.log''"])
  let ?d = "dm_open (p @ ''/data.db'') (replicate PAGE_SIZE 0)"
  let ?bp = "bp_new ?d DEFAULT_POOL_CAPACITY"
  fix w assume w: "wal_open (p @ ''/wal.log'') [] = Inr w" "wm_file w = []"
  let ?e = "\<lparr>se_btree = bt_open 0, se_pool = ?bp, se_wal = w, se_txn_manager = tm_new, se_db_path = p\<rparr>"
  have d: "dm_inv ?d" "dm_num_pages ?d = 1" "dm_pages ?d 0 = Some (replicate PAGE_SIZE 0)"
    by (simp_all add: dm_open_def dm_inv_def dm_pages_def Let_def slice_def)
  note q = new_pool_quiet [OF d(1)]
  have "engine_recover ?e = (Inr (), ?e)" using recover_empty_log [OF w(2)] recover_nothing [of ?e] by auto
  then have "engine_open p (replicate PAGE_SIZE 0) [] = Inr ?e" using w(1) d(2) by (simp add: engine_open_def engine_load_def Let_def)
  with that [of ?e] assms q d(3) show thesis by (simp add: unsaved_def)
qed

section \<open>Properties\<close>

text \<open>
  C33. Puts that were acknowledged are lost, and the database with them, when the process ends without a
  sync: after any puts that fit into the root leaf of a new database, the files can be opened
  again, but then the descent to a leaf never ends, however many steps it is given.
\<close>

theorem unsynced_database_hangs:
  assumes "engine_open p [] [] = Inr e" and "leaf_size kvs + 6 \<le> LEAF_CAPACITY"
  shows "\<exists>e1 e2. put_all kvs e = (Inr (), e1)
    \<and> engine_open p (dm_file (bp_disk (se_pool e1))) (wm_file (se_wal e1)) = Inr e2
    \<and> (\<forall>n k. fst (find_leaf_loop n k (root_page_id (se_btree e2)) (se_pool e2)) = Inl OutOfFuel)
    \<and> (\<forall>k. fst (engine_get k e2) = Inl OutOfFuel)"
proof -
  have "leaf_size [] + leaf_size kvs + 6 \<le> LEAF_CAPACITY" using assms(2) by simp
  from puts_unsaved [OF open_unsaved [OF assms(1)] this] obtain e1 es where e1: "put_all kvs e = (Inr (), e1)" "unsaved e1 es" by blast
  obtain e2 where e2: "engine_open p (dm_file (bp_disk (se_pool e1))) (wm_file (se_wal e1)) = Inr e2" "se_btree e2 = bt_open 0"
    "pool_quiet (se_pool e2)" "bp_view (se_pool e2) 0 = Some (replicate PAGE_SIZE 0)" by (rule reopen_unsaved [OF e1(2)])
  note loop = zero_root_loops [OF e2(3,4)]
  have "fst (engine_get k e2) = Inl OutOfFuel" for k
  proof -
    obtain bp1 where "find_leaf (se_btree e2) k (se_pool e2) = (Inl OutOfFuel, bp1)"
      using loop [of "loop_fuel (se_pool e2)" k] e2(2) by (simp add: find_leaf_def bt_open_def prod_eq_iff)
    then have "bt_search (se_btree e2) k (se_pool e2) = (Inl OutOfFuel, bp1)" by (simp add: bt_search_def bindS_def)
    then show ?thesis by (simp add: engine_get_def on_tree_def with_tree_run)
  qed
  with e1(1) e2(1,2) loop show ?thesis by (auto simp: bt_open_def)
qed

theorem unsynced_database_hangs_witness:
  "\<exists>e e1 e2. engine_open ''db'' [] [] = Inr e \<and> put_all [([1], [2])] e = (Inr (), e1)
    \<and> engine_open ''db'' (dm_file (bp_disk (se_pool e1))) (wm_file (se_wal e1)) = Inr e2
    \<and> fst (engine_get [1] e2) = Inl OutOfFuel"
proof (rule open_fresh [of "''db''"])
  fix e assume "engine_open ''db'' [] [] = Inr e"
  with unsynced_database_hangs [of "''db''" e "[([1], [2])]"] show ?thesis by auto
qed

end
