(* ===== verification/Sessions.thy ===== *)
theory Sessions
  imports Demo Unsaved
begin

text \<open>
  Several runs of the shell on one database. While all entries fit into the root leaf, a database that was
  left with \<^verbatim>\<open>quit\<close> is found again by the next process: the runs together print what one map from texts
  to texts prescribes.
\<close>

section \<open>Databases of one page\<close>

definition one_page :: "tree_pool \<Rightarrow> entry list \<Rightarrow> bool" where
  "one_page s es \<longleftrightarrow> (\<exists>t. tree_ok (snd s) t \<and> root_id t = root_page_id (fst s) \<and> entries t = es) \<and> bp_count (snd s) = 1"

definition one_page_room :: "tree_pool \<Rightarrow> key \<Rightarrow> bytes \<Rightarrow> bool" where
  "one_page_room s key val \<longleftrightarrow> (\<exists>es. tree_index s es \<and> leaf_size es + 12 + length key + length val \<le> LEAF_CAPACITY)"

lemma one_page_index: "one_page s es \<Longrightarrow> tree_index s es"
  by (auto simp: one_page_def tree_index_def index_def)

lemma one_page_view:
  assumes "one_page (tr, bp) es" and "pool_quiet bp'" and "bp_view bp' = bp_view bp"
  shows "one_page (tr, bp') es"
proof -
  have "pool_quiet bp" using assms(1) by (auto simp: one_page_def tree_ok_def)
  from view_count [OF this assms(2,3)] assms tree_ok_same [of bp _ bp'] show ?thesis by (auto simp: one_page_def)
qed

lemma one_page_put:
  assumes h: "one_page s es" and r: "one_page_room s key val"
  shows "\<exists>s'. bt_insert key val s = (Inr (map_of es key = None), s') \<and> one_page s' (kv_insert key val es)"
proof -
  obtain tr bp where s: "s = (tr, bp)" by (cases s)
  from h s obtain t where t: "tree_ok bp t" "root_id t = root_page_id tr" "entries t = es" "bp_count bp = 1" by (auto simp: one_page_def)
  from r obtain es' where es': "tree_index s es'" "leaf_size es' + 12 + length key + length val \<le> LEAF_CAPACITY"
    by (auto simp: one_page_room_def)
  have "es' = es" by (rule tree.holds_unique [OF es'(1) one_page_index [OF h]])
  then have "room_for t key val" using small_room_for [OF t(1)] es'(2) t(3) by blast
  then show ?thesis
    by (rule bt_insert_room_tree [OF t(1,2)]) (use t s in \<open>auto simp: one_page_def\<close>)
qed

lemma one_page_delete:
  assumes "one_page (tr, bp) es"
  shows "\<exists>s'. bt_delete key (tr, bp) = (Inr (map_of es key), s') \<and> one_page s' (kv_delete key es)"
proof -
  from assms obtain t where t: "tree_ok bp t" "root_id t = root_page_id tr" "entries t = es" "bp_count bp = 1" by (auto simp: one_page_def)
  show ?thesis by (rule bt_delete_tree [OF t(1,2), of key]) (use t in \<open>auto simp: one_page_def\<close>)
qed

interpretation single: shaped_tree one_page one_page_room
proof
  fix s :: tree_pool and es k assume "one_page s es"
  then show "\<exists>s'. bt_delete k s = (Inr (map_of es k), s') \<and> one_page s' (kv_delete k es)" using one_page_delete by (cases s) blast
qed (auto intro: one_page_index one_page_view one_page_put simp del: split_paired_Ex)

interpretation single_engine: engine_index one_page one_page_room ..

abbreviation stores :: "storage_engine \<Rightarrow> text_map \<Rightarrow> bool" where
  "stores e m \<equiv> engine_holds one_page e (enc m) \<and> texts m"

lemma one_page_root:
  assumes "one_page s es"
  shows "root_page_id (fst s) = 0"
proof -
  from assms obtain t where t: "tree_ok (snd s) t" "root_id t = root_page_id (fst s)" "bp_count (snd s) = 1" by (auto simp: one_page_def)
  have "root_page_id (fst s) < 1" using tree_ok_pages(1) [OF t(1) root_in_pages] t(2,3) by simp
  then show ?thesis by simp
qed

section \<open>The log stays empty\<close>

text \<open>
  The shell runs no transaction: in all its sessions the log is empty, no number was given out, and the
  statistics of the engine are known.
\<close>

definition idle :: "string \<Rightarrow> storage_engine \<Rightarrow> bool" where
  "idle p e \<longleftrightarrow> wm_file (se_wal e) = [] \<and> wm_write_buffer (se_wal e) = [] \<and> wm_next_lsn (se_wal e) = 1
     \<and> se_txn_manager e = tm_new \<and> se_db_path e = p"

lemma idle_tree: "idle p e \<Longrightarrow> idle p (snd (on_tree m e))"
  by (simp add: idle_def on_tree_def split: prod.split)

lemma idle_calls:
  assumes "idle p e"
  shows "idle p (snd (engine_put k v e))" "idle p (snd (engine_get k e))" "idle p (snd (engine_delete k e))"
    "idle p (snd (engine_scan_all e))" "idle p (snd (engine_range_scan lo hi e))" "idle p (snd (engine_sync e))"
proof -
  show "idle p (snd (engine_put k v e))"
    using idle_tree [OF assms, of "bt_insert k v"] by (auto simp: engine_put_def bindS_def split: prod.splits sum.splits)
  show "idle p (snd (engine_sync e))"
    using assms by (auto simp: engine_sync_def bindS_def on_wal_def on_pool_def wal_flush_def idle_def split: prod.splits)
qed (simp_all add: engine_get_def engine_delete_def engine_scan_all_def engine_range_scan_def idle_tree [OF assms])

lemma report_state [simp]: "snd (snd (report ok err x)) = snd x"
  by (cases x) (auto simp: report_def split: sum.split fault.split)

lemma idle_followed_by:
  assumes "idle p (snd (snd r))" and "\<And>e. idle p e \<Longrightarrow> idle p (snd (snd (f e)))"
  shows "idle p (snd (snd (followed_by r f)))"
proof -
  obtain out fl e where r: "r = (out, fl, e)" by (metis surj_pair)
  show ?thesis using assms(1) assms(2) [of e] by (cases fl) (auto simp: followed_by_def r split: prod.splits)
qed

lemma idle_bench: "idle p e \<Longrightarrow> idle p (snd (snd (bench_puts env k i e)))"
proof (induction k arbitrary: i e)
  case (Suc k)
  have "idle p (snd (engine_put (as_bytes (bench_key i)) (as_bytes (bench_val i)) e))" by (rule idle_calls [OF Suc.prems])
  with Suc.IH show ?case by (auto split: prod.splits sum.splits fault.splits)
qed simp

lemma idle_dispatch:
  assumes "idle p e"
  shows "idle p (snd (snd (dispatch env line_no parts e)))"
proof -
  have "idle p (snd (snd (cmd_bench env line_no parts e)))"
    unfolding cmd_bench_def Let_def using assms by (intro idle_followed_by) (simp_all add: idle_bench idle_calls)
  moreover have "idle p (snd (snd (cmd_quit e)))"
    using idle_calls(6) [OF assms] by (auto simp: cmd_quit_def split: prod.splits sum.splits fault.splits)
  ultimately show ?thesis using assms idle_calls [OF assms]
    by (simp add: dispatch_def Let_def cmd_put_def cmd_get_def cmd_del_def cmd_scan_def cmd_range_def cmd_stats_def usage_def)
qed

lemma idle_line: "idle p e \<Longrightarrow> idle p (snd (snd (cli_line env line_no line e)))"
  by (simp add: cli_line_def Let_def idle_followed_by idle_dispatch)

lemma idle_loop: "idle p e \<Longrightarrow> idle p (snd (snd (cli_loop env line_no ls e)))"
  by (induction ls arbitrary: line_no e) (auto simp: idle_followed_by idle_line split: option.split)

text \<open>What \<^verbatim>\<open>stats\<close> shows of such an engine.\<close>

definition idle_stats :: "string \<Rightarrow> str" where
  "idle_stats p = lit ''StorageEngine[path='' @ lit p @ lit '', pages=1, root=0, active_txns=0, wal_lsn=1]''"

lemma stats_idle:
  assumes "idle p e" and "one_page (se_btree e, se_pool e) es"
  shows "show_engine_stats (engine_stats_of e) = idle_stats p"
proof -
  have "root_page_id (se_btree e) = 0" "dm_num_pages (bp_disk (se_pool e)) = 1"
    using one_page_root [OF assms(2)] assms(2) by (simp_all add: one_page_def bp_count_def)
  moreover have "active_count tm_new = 0" by (simp add: active_count_def tm_new_def)
  moreover have "show_dec 0 = lit ''0''" "show_dec (Suc 0) = lit ''1''" by (simp_all add: show_dec.simps lit_def)
  ultimately show ?thesis using assms(1)
    by (simp add: idle_def show_engine_stats_def engine_stats_of_def current_lsn_def idle_stats_def lit_append)
qed

section \<open>Sessions that fit and are saved\<close>

text \<open>
  On the side of the specification: every put leaves all entries within one leaf, the session reaches
  \<^verbatim>\<open>quit\<close>, and it uses neither \<^verbatim>\<open>bench\<close> nor \<^verbatim>\<open>stats\<close>.
\<close>

definition text_fits :: "text_map \<Rightarrow> str \<Rightarrow> str \<Rightarrow> bool" where
  "text_fits m k v \<longleftrightarrow> leaf_size (enc m) + 12 + length (as_bytes k) + length (as_bytes v) \<le> LEAF_CAPACITY"

definition line_saves :: "str list \<Rightarrow> text_map \<Rightarrow> bool" where
  "line_saves parts m \<longleftrightarrow> (parts ! 0 = lit ''put'' \<and> 3 \<le> length parts \<longrightarrow> text_fits m (parts ! 1) (parts ! 2))
     \<and> parts ! 0 \<noteq> lit ''bench'' \<and> parts ! 0 \<noteq> lit ''stats''"

primrec session_saves :: "cli_env \<Rightarrow> nat \<Rightarrow> bytes list \<Rightarrow> text_map \<Rightarrow> bool" where
  "session_saves env line_no [] m \<longleftrightarrow> False"
| "session_saves env line_no (l # ls) m \<longleftrightarrow>
     (case from_utf8 l of
        None \<Rightarrow> False
      | Some line \<Rightarrow> line_saves (splitn 3 space (trim line)) m
          \<and> (case spec_line env line_no line m of
                (_, Continue, m') \<Rightarrow> session_saves env (Suc line_no) ls m' | (_, Break, _) \<Rightarrow> True | _ \<Rightarrow> False))"

definition saved :: "storage_engine \<Rightarrow> bool" where
  "saved e \<longleftrightarrow> dm_pages (bp_disk (se_pool e)) = bp_view (se_pool e)"

lemma text_fits_room:
  assumes "stores e m" and "text_fits m k v"
  shows "put_fits one_page_room k v e"
  using single.holds_index [OF single_engine.engine_holdsD(1)] assms
  by (auto simp: put_fits_def one_page_room_def text_fits_def)

lemma line_saves_fits: "stores e m \<Longrightarrow> line_saves parts m \<Longrightarrow> line_fits one_page_room parts e"
  using text_fits_room by (simp add: line_saves_def line_fits_def)

text \<open>Only \<^verbatim>\<open>quit\<close> leaves the loop, and it has written all pages.\<close>

lemma report_continues [simp]: "fst (snd (report ok err x)) \<noteq> Break"
  by (cases x) (auto simp: report_def split: sum.split fault.split)

lemma commands_continue [simp]:
  "fst (snd (cmd_put env parts e)) \<noteq> Break" "fst (snd (cmd_get env parts e)) \<noteq> Break" "fst (snd (cmd_del env parts e)) \<noteq> Break"
  "fst (snd (cmd_scan env e)) \<noteq> Break" "fst (snd (cmd_range env parts e)) \<noteq> Break"
  by (simp_all add: cmd_put_def cmd_get_def cmd_del_def cmd_scan_def cmd_range_def usage_def)

lemma quit_saves:
  assumes "engine_holds one_page e es" and "cmd_quit e = (out, Break, e')"
  shows "saved e'"
  using single_engine.sync_ok [OF assms(1)] assms(2) by (auto simp: cmd_quit_def saved_def)

lemma line_break_saves:
  assumes h: "stores e m" and l: "line_saves (splitn 3 space (trim line)) m" and run: "cli_line env line_no line e = (out, Break, e')"
  shows "saved e'"
proof -
  let ?parts = "splitn 3 space (trim line)"
  from run obtain out' where d: "dispatch env line_no ?parts e = (out', Break, e')"
    by (auto simp: cli_line_def Let_def followed_by_def split: if_splits prod.splits flow.splits)
  then have "cmd_quit e = (out', Break, e')"
    using l commands_continue(1-3,5) [of env ?parts e] commands_continue(4) [of env e]
    by (auto simp: dispatch_def Let_def line_saves_def simp del: commands_continue split: if_splits)
  from quit_saves [OF _ this] h show ?thesis by blast
qed

lemma session_run:
  assumes "stores e m" and "session_saves env line_no ls m"
  shows "\<exists>out e' m'. cli_loop env line_no ls e = (out, Break, e') \<and> session_spec env line_no ls m = (out, Break, m')
    \<and> stores e' m' \<and> saved e'"
  using assms
proof (induction ls arbitrary: line_no e m)
  case (Cons l ls)
  from Cons.prems(2) obtain line where line: "from_utf8 l = Some line" and fits: "line_saves (splitn 3 space (trim line)) m"
    by (auto split: option.splits)
  have ok: "text_ok line" using from_utf8_scalar [OF line] by (simp add: text_ok_def)
  have "agrees one_page (cli_line env line_no line e) (spec_line env line_no line m)"
    using single_engine.cli_line_ok [OF _ _ ok line_saves_fits [OF Cons.prems(1) fits]] Cons.prems(1) by blast
  then obtain out fl e1 m1 where r: "cli_line env line_no line e = (out, fl, e1)" "spec_line env line_no line m = (out, fl, m1)" "stores e1 m1"
    by (auto simp: agrees_def)
  show ?case
  proof (cases fl)
    case Continue
    with Cons.prems(2) line r(2) have "session_saves env (Suc line_no) ls m1" by simp
    from Cons.IH [OF r(3) this] Continue r line show ?thesis by (auto simp: followed_by_def)
  next
    case Break
    then have "saved e1" using line_break_saves [OF Cons.prems(1) fits] r(1) by blast
    with Break r line show ?thesis by (auto simp: followed_by_def)
  next
    case (Stopped f)
    with Cons.prems(2) line r(2) show ?thesis by simp
  qed
qed simp

section \<open>Files between the processes\<close>

definition stored :: "bytes \<Rightarrow> bytes \<Rightarrow> text_map \<Rightarrow> bool" where
  "stored d w m \<longleftrightarrow> (\<forall>p. \<exists>e. engine_open p d w = Inr e \<and> stores e m \<and> idle p e)"

lemma open_idle:
  assumes "engine_open p d [] = Inr e"
  shows "idle p e"
proof (rule wal_open_fresh [of "p @ ''/wal.log''"])
  fix w assume w: "wal_open (p @ ''/wal.log'') [] = Inr w" "wm_next_lsn w = 1" "wm_file w = []" "wm_write_buffer w = []"
  from open_ran [OF assms] obtain e0 where l: "engine_load p d [] = Inr e0" and r: "engine_recover e0 = (Inr (), e)" .
  have e0: "se_wal e0 = w" "se_txn_manager e0 = tm_new" "se_db_path e0 = p"
    using l w(1) by (auto simp: engine_load_def Let_def split: prod.splits sum.splits)
  from recover_empty_log [OF w(3)] obtain acts where "wal_recover w = Inr acts" "ra_redo acts = []" "ra_undo acts = []" by blast
  with e0(1) have "e = e0" using recover_nothing [of e0] r by simp
  with e0 w show ?thesis by (simp add: idle_def)
qed

lemma stored_new: "stored [] [] Map.empty"
  unfolding stored_def
proof
  fix p
  show "\<exists>e. engine_open p [] [] = Inr e \<and> stores e Map.empty \<and> idle p e"
  proof (rule open_fresh [of p])
    fix e assume e: "engine_open p [] [] = Inr e" "engine_ok e []" "bp_count (se_pool e) = 1"
    then have "stores e Map.empty" by (auto simp: engine_holds_def one_page_def tree_index_def index_def)
    with e(1) open_idle show ?thesis by blast
  qed
qed

lemma reopen_one_page:
  assumes h: "engine_holds one_page e es" and f: "wm_file (se_wal e) = []" and sv: "saved e"
  obtains e1 where "engine_open p (dm_file (bp_disk (se_pool e))) [] = Inr e1" "engine_holds one_page e1 es"
proof -
  have page: "one_page (se_btree e, se_pool e) es" using h by (simp add: engine_holds_def)
  have ok: "engine_ok e es" using h one_page_index by (auto simp: engine_holds_def)
  from recover_empty_log [OF f] obtain acts where "wal_recover (se_wal e) = Inr acts" "ra_redo acts = []" "ra_undo acts = []" by blast
  from reopen_clean [OF ok sv [unfolded saved_def] this, of p] f obtain e1 where e1: "reopened p e e1"
    and op: "engine_open p (dm_file (bp_disk (se_pool e))) [] = Inr e1" by auto
  have "one_page (se_btree e, se_pool e1) es" by (rule one_page_view [OF page]) (use e1 in \<open>simp_all add: reopened_def\<close>)
  moreover have "se_btree e1 = se_btree e" using one_page_root [OF page] e1 by (simp add: reopened_def bt_open_def)
  ultimately have "engine_holds one_page e1 es" using e1 by (simp add: engine_holds_def reopened_def)
  with op that show thesis by blast
qed

lemma stored_saved:
  assumes h: "stores e m" and i: "idle q e" and sv: "saved e"
  shows "stored (dm_file (bp_disk (se_pool e))) (wm_file (se_wal e)) m"
  unfolding stored_def
proof
  fix p
  have f: "wm_file (se_wal e) = []" using i by (simp add: idle_def)
  from reopen_one_page [OF conjunct1 [OF h] f sv] obtain e1 where
    "engine_open p (dm_file (bp_disk (se_pool e))) [] = Inr e1" "engine_holds one_page e1 (enc m)" .
  with open_idle h f show "\<exists>e'. engine_open p (dm_file (bp_disk (se_pool e))) (wm_file (se_wal e)) = Inr e' \<and> stores e' m \<and> idle p e'"
    by auto
qed

section \<open>Runs of the program\<close>

text \<open>Each process reads its input, and leaves the two files as they are when it ends.\<close>

primrec cli_runs :: "cli_env \<Rightarrow> string list \<Rightarrow> bytes list \<Rightarrow> bytes \<Rightarrow> bytes \<Rightarrow> cli_outcome list" where
  "cli_runs env args [] d w = []"
| "cli_runs env args (stdin # inputs) d w =
     (let r = cli_main env args d w stdin in
      r # (case co_engine r of
             Some e \<Rightarrow> cli_runs env args inputs (dm_file (bp_disk (se_pool e))) (wm_file (se_wal e))
           | None \<Rightarrow> cli_runs env args inputs d w))"

definition path_of :: "string list \<Rightarrow> string" where
  "path_of args = (case args of _ # p # _ \<Rightarrow> p | _ \<Rightarrow> ''storagedb_data'')"

definition transcript :: "string \<Rightarrow> str \<Rightarrow> str" where
  "transcript p out = println (lit ''StorageDB - A database storage engine'') @ println (lit ''Opening database at: '' @ lit p)
     @ println (idle_stats p) @ println [] @ help_text @ println [] @ prompt @ out"

text \<open>The specification: one map for all processes.\<close>

primrec runs_save :: "cli_env \<Rightarrow> bytes list \<Rightarrow> text_map \<Rightarrow> bool" where
  "runs_save env [] m \<longleftrightarrow> True"
| "runs_save env (stdin # inputs) m \<longleftrightarrow> session_saves env 0 (read_lines stdin) m
     \<and> runs_save env inputs (snd (snd (session_spec env 0 (read_lines stdin) m)))"

primrec runs_spec :: "cli_env \<Rightarrow> bytes list \<Rightarrow> text_map \<Rightarrow> str list" where
  "runs_spec env [] m = []"
| "runs_spec env (stdin # inputs) m =
     (case session_spec env 0 (read_lines stdin) m of (out, _, m') \<Rightarrow> out # runs_spec env inputs m')"

lemma run_ok:
  assumes st: "stored d w m" and sv: "session_saves env 0 (read_lines stdin) m"
  obtains out m' e where "session_spec env 0 (read_lines stdin) m = (out, Break, m')"
    "cli_main env args d w stdin = \<lparr>co_stdout = transcript (path_of args) out, co_stderr = [], co_status = Exit 0, co_engine = Some e\<rparr>"
    "stored (dm_file (bp_disk (se_pool e))) (wm_file (se_wal e)) m'"
proof -
  from st obtain e where e: "engine_open (path_of args) d w = Inr e" "stores e m" "idle (path_of args) e" by (auto simp: stored_def)
  from session_run [OF e(2) sv] obtain out e' m' where r: "cli_loop env 0 (read_lines stdin) e = (out, Break, e')"
    "session_spec env 0 (read_lines stdin) m = (out, Break, m')" "stores e' m'" "saved e'" by blast
  have "idle (path_of args) e'" using idle_loop [OF e(3), of env 0 "read_lines stdin"] r(1) by simp
  note st' = stored_saved [OF r(3) this r(4)]
  have "show_engine_stats (engine_stats_of e) = idle_stats (path_of args)"
    using stats_idle [OF e(3), of "enc m"] e(2) by (simp add: engine_holds_def)
  then show thesis using that [OF r(2) _ st'] e(1) r(1)
    by (simp add: cli_main_def path_of_def [symmetric] transcript_def status_of_def Let_def)
qed

section \<open>Properties\<close>

text \<open>
  C5. Data survive from one run of the shell to the next: started on no files, any number of runs that
  are left with \<^verbatim>\<open>quit\<close>, whose entries always fit into one leaf together, print exactly what one map
  from texts to texts prescribes for the commands of all of them, and each ends with status 0.
\<close>

theorem runs_share_database:
  assumes "runs_save env inputs Map.empty"
  shows "map (\<lambda>r. (co_stdout r, co_stderr r, co_status r)) (cli_runs env args inputs [] [])
    = map (\<lambda>out. (transcript (path_of args) out, [], Exit 0)) (runs_spec env inputs Map.empty)"
proof -
  have "map (\<lambda>r. (co_stdout r, co_stderr r, co_status r)) (cli_runs env args inputs d w)
    = map (\<lambda>out. (transcript (path_of args) out, [], Exit 0)) (runs_spec env inputs m)"
    if "stored d w m" "runs_save env inputs m" for d w m
    using that
  proof (induction inputs arbitrary: d w m)
    case (Cons stdin inputs)
    have "session_saves env 0 (read_lines stdin) m" using Cons.prems(2) by simp
    then show ?case
    proof (rule run_ok [OF Cons.prems(1), where args = args])
      fix out m' e assume r: "session_spec env 0 (read_lines stdin) m = (out, Break, m')"
        "cli_main env args d w stdin = \<lparr>co_stdout = transcript (path_of args) out, co_stderr = [], co_status = Exit 0, co_engine = Some e\<rparr>"
        "stored (dm_file (bp_disk (se_pool e))) (wm_file (se_wal e)) m'"
      from Cons.IH [OF r(3)] Cons.prems(2) r(1,2) show ?thesis by simp
    qed
  qed simp
  from this [OF stored_new assms] show ?thesis .
qed

definition first_input :: bytes where
  "first_input = as_bytes (lit ''put k v'' @ [newline] @ lit ''quit'' @ [newline])"

definition second_input :: bytes where
  "second_input = as_bytes (lit ''get k'' @ [newline] @ lit ''q'' @ [newline])"

lemma input_lines:
  "read_lines first_input = [as_bytes (lit ''put k v''), as_bytes (lit ''quit'')]"
  "read_lines second_input = [as_bytes (lit ''get k''), as_bytes (lit ''q'')]"
  by (simp_all add: first_input_def second_input_def lit_def newline_def utf8_char_def lead_def read_lines.simps strip_cr_def)

lemma input_text:
  "from_utf8 (as_bytes (lit ''put k v'')) = Some (lit ''put k v'')" "from_utf8 (as_bytes (lit ''quit'')) = Some (lit ''quit'')"
  "from_utf8 (as_bytes (lit ''get k'')) = Some (lit ''get k'')" "from_utf8 (as_bytes (lit ''q'')) = Some (lit ''q'')"
  by (rule dec_enc, simp add: text_ok_lit)+

lemma input_parts:
  "splitn 3 space (trim (lit ''put k v'')) = [lit ''put'', lit ''k'', lit ''v'']" "splitn 3 space (trim (lit ''quit'')) = [lit ''quit'']"
  "splitn 3 space (trim (lit ''get k'')) = [lit ''get'', lit ''k'']" "splitn 3 space (trim (lit ''q'')) = [lit ''q'']"
  by (simp_all add: lit_def trim_def space_def numeral_3_eq_3 white_space_def)

theorem runs_share_database_witness:
  "map co_stdout (cli_runs quiet_env [] [first_input, second_input] [] [])
    = [transcript ''storagedb_data'' (println (lit ''OK'') @ prompt @ println (lit ''Syncing...'') @ println (lit ''Goodbye!'')),
       transcript ''storagedb_data'' (println (lit ''v'') @ prompt @ println (lit ''Syncing...'') @ println (lit ''Goodbye!''))]"
proof -
  have lit: "lit ''put'' \<noteq> []" "lit ''get'' \<noteq> []" "lit ''quit'' \<noteq> []" "lit ''q'' \<noteq> []" by (simp_all add: lit_def)
  note simps = lit input_text input_parts spec_line_def shell_spec_def spec_put_def spec_get_def spec_quit_def spec_found_def followed_by_def
    Let_def line_saves_def text_fits_def
  have s1: "session_spec quiet_env 0 (read_lines first_input) Map.empty
      = (println (lit ''OK'') @ prompt @ println (lit ''Syncing...'') @ println (lit ''Goodbye!''), Break, [lit ''k'' \<mapsto> lit ''v''])"
    by (simp add: input_lines simps)
  have s2: "session_spec quiet_env 0 (read_lines second_input) [lit ''k'' \<mapsto> lit ''v'']
      = (println (lit ''v'') @ prompt @ println (lit ''Syncing...'') @ println (lit ''Goodbye!''), Break, [lit ''k'' \<mapsto> lit ''v''])"
    by (simp add: input_lines simps)
  have "length (as_bytes (lit ''k'')) = 1" "length (as_bytes (lit ''v'')) = 1" by (simp_all add: lit_def utf8_char_def)
  then have "session_saves quiet_env 0 (read_lines first_input) Map.empty"
    "session_saves quiet_env 0 (read_lines second_input) [lit ''k'' \<mapsto> lit ''v'']"
    by (simp_all add: input_lines simps)
  then have "runs_save quiet_env [first_input, second_input] Map.empty" by (simp add: s1)
  from arg_cong [where f = "map fst", OF runs_share_database [OF this, of "[]"]]
  have "map co_stdout (cli_runs quiet_env [] [first_input, second_input] [] [])
      = map (transcript (path_of [])) (runs_spec quiet_env [first_input, second_input] Map.empty)"
    by (simp only: map_map comp_def fst_conv)
  also have "runs_spec quiet_env [first_input, second_input] Map.empty
      = [println (lit ''OK'') @ prompt @ println (lit ''Syncing...'') @ println (lit ''Goodbye!''),
         println (lit ''v'') @ prompt @ println (lit ''Syncing...'') @ println (lit ''Goodbye!'')]" by (simp add: s1 s2)
  finally show ?thesis by (simp add: path_of_def)
qed

end
