(* ===== verification/Engine_Tests.thy ===== *)
theory Engine_Tests
  imports Tree_Tests Txn_Tests Sessions
begin

text \<open>
  The integration tests of \<^verbatim>\<open>src/tests/integration_test.rs\<close>, on a new database in an empty directory.
\<close>

section \<open>The tests\<close>

definition test_engine_basic_crud :: "(storage_engine, unit) op" where
  "test_engine_basic_crud =
     bindS (engine_put (bstr ''hello'') (bstr ''world'')) (\<lambda>_.
     bindS (engine_put (bstr ''foo'') (bstr ''bar'')) (\<lambda>_.
     bindS (engine_put (bstr ''rust'') (bstr ''fast'')) (\<lambda>_.
     bindS (engine_get (bstr ''hello'')) (\<lambda>v. bindS (assertS (v = Some (bstr ''world''))) (\<lambda>_.
     bindS (engine_get (bstr ''foo'')) (\<lambda>v. bindS (assertS (v = Some (bstr ''bar''))) (\<lambda>_.
     bindS (engine_get (bstr ''missing'')) (\<lambda>v. bindS (assertS (v = None)) (\<lambda>_.
     bindS (engine_put (bstr ''hello'') (bstr ''universe'')) (\<lambda>_.
     bindS (engine_get (bstr ''hello'')) (\<lambda>v. bindS (assertS (v = Some (bstr ''universe''))) (\<lambda>_.
     bindS (engine_delete (bstr ''foo'')) (\<lambda>old. bindS (assertS (old = Some (bstr ''bar''))) (\<lambda>_.
     bindS (engine_get (bstr ''foo'')) (\<lambda>v. assertS (v = None))))))))))))))))"

definition put_numbered :: "string \<Rightarrow> string \<Rightarrow> nat \<Rightarrow> nat \<Rightarrow> (storage_engine, unit) op" where
  "put_numbered s t w i = engine_put (numbered s w i) (numbered t w i)"

text \<open>The loop that compares neighbours of a scan; the length of the list was asserted before.\<close>

definition assert_sorted :: "entry list \<Rightarrow> nat \<Rightarrow> (storage_engine, unit) op" where
  "assert_sorted all n = foldS (\<lambda>i. assertS (fst (all ! i) < fst (all ! (i + 1)))) [0..<n]"

definition test_engine_scan :: "(storage_engine, unit) op" where
  "test_engine_scan =
     bindS (foldS (put_numbered ''key_'' ''val_'' 4) [0..<100]) (\<lambda>_.
     bindS engine_scan_all (\<lambda>all.
     bindS (assertS (length all = 100)) (\<lambda>_.
     bindS (assert_sorted all 99) (\<lambda>_.
     bindS (engine_range_scan (bstr ''key_0020'') (bstr ''key_0030'')) (\<lambda>rs. assertS (length rs = 11))))))"

definition test_engine_large_dataset :: "(storage_engine, unit) op" where
  "test_engine_large_dataset =
     bindS (foldS (put_numbered ''k'' ''v'' 6) [0..<5000]) (\<lambda>_.
     bindS (foldS (\<lambda>i. bindS (engine_get (numbered ''k'' 6 i)) (\<lambda>result. assertS (result = Some (numbered ''v'' 6 i)))) [0..<5000]) (\<lambda>_.
     bindS engine_scan_all (\<lambda>all.
     bindS (assertS (length all = 5000)) (\<lambda>_.
     assert_sorted all 4999))))"

text \<open>The end of a block that owns an engine, and opening the database again.\<close>

definition reopen_engine :: "(storage_engine, unit) op" where
  "reopen_engine e = (case engine_open (se_db_path e) (dm_file (bp_disk (se_pool e))) (wm_file (se_wal e)) of
     Inl f \<Rightarrow> (Inl f, e) | Inr e' \<Rightarrow> (Inr (), e'))"

definition test_engine_persistence :: "(storage_engine, unit) op" where
  "test_engine_persistence =
     bindS (engine_put (bstr ''persistent_key'') (bstr ''persistent_value'')) (\<lambda>_.
     bindS (engine_put (bstr ''another_key'') (bstr ''another_value'')) (\<lambda>_.
     bindS engine_sync (\<lambda>_.
     bindS reopen_engine (\<lambda>_.
     bindS (engine_get (bstr ''persistent_key'')) (\<lambda>v. bindS (assertS (v = Some (bstr ''persistent_value''))) (\<lambda>_.
     bindS (engine_get (bstr ''another_key'')) (\<lambda>v. assertS (v = Some (bstr ''another_value'')))))))))"

definition test_engine_transactions :: "(storage_engine, unit) op" where
  "test_engine_transactions =
     bindS begin_transaction (\<lambda>txn.
     bindS (txn_put txn (bstr ''tx_key1'') (bstr ''tx_val1'')) (\<lambda>_.
     bindS (txn_put txn (bstr ''tx_key2'') (bstr ''tx_val2'')) (\<lambda>_.
     bindS (commit_transaction txn) (\<lambda>_.
     bindS (engine_get (bstr ''tx_key1'')) (\<lambda>v. bindS (assertS (v = Some (bstr ''tx_val1''))) (\<lambda>_.
     bindS (engine_get (bstr ''tx_key2'')) (\<lambda>v. assertS (v = Some (bstr ''tx_val2'')))))))))"

definition delete_numbered_key :: "string \<Rightarrow> nat \<Rightarrow> nat \<Rightarrow> (storage_engine, unit) op" where
  "delete_numbered_key s w i = bindS (engine_delete (numbered s w i)) (\<lambda>_. retS ())"

definition test_engine_insert_delete_interleaved :: "(storage_engine, unit) op" where
  "test_engine_insert_delete_interleaved =
     bindS (foldS (put_numbered ''item_'' ''data_'' 4) [0..<100]) (\<lambda>_.
     bindS (foldS (delete_numbered_key ''item_'' 4) (filter even [0..<100])) (\<lambda>_.
     bindS (foldS (\<lambda>i. bindS (engine_get (numbered ''item_'' 4 i)) (\<lambda>result.
         if i mod 2 = 0 then assertS (result = None)
         else assertS (result = Some (numbered ''data_'' 4 i)))) [0..<100]) (\<lambda>_.
     bindS engine_scan_all (\<lambda>all. assertS (length all = 50)))))"

definition test_wal_basic_recovery :: "(wal_manager, unit) op" where
  "test_wal_basic_recovery =
     bindS (log_begin 1) (\<lambda>_.
     bindS (log_page_write 1 10 (bstr ''old_data'') (bstr ''new_data'')) (\<lambda>_.
     bindS (log_commit 1) (\<lambda>_.
     bindS (log_begin 2) (\<lambda>_.
     bindS (log_page_write 2 20 (bstr ''before'') (bstr ''after'')) (\<lambda>_.
     bindS wal_flush (\<lambda>_.
     bindS reopen_wal (\<lambda>_.
     bindS wal_actions (\<lambda>actions.
     bindS (assertS (length (ra_redo actions) = 1)) (\<lambda>_.
     bindS (assertS (fst (ra_redo actions ! 0) = 10)) (\<lambda>_.
     bindS (assertS (length (ra_undo actions) = 1)) (\<lambda>_.
     assertS (fst (ra_undo actions ! 0) = 20))))))))))))"

definition test_engine_stats :: "(storage_engine, unit) op" where
  "test_engine_stats =
     bindS (lookS engine_stats_of) (\<lambda>stats.
     bindS (assertS (es_num_pages stats \<ge> 1)) (\<lambda>_.
     bindS (assertS (es_active_transactions stats = 0)) (\<lambda>_.
     bindS (engine_put (bstr ''k'') (bstr ''v'')) (\<lambda>_.
     bindS (lookS engine_stats_of) (\<lambda>stats. assertS (es_num_pages stats \<ge> 1))))))"

section \<open>Calls in a test\<close>

lemma foldS_step: "f i s = (Inr (), s1) \<Longrightarrow> foldS f is s1 = (Inr (), s') \<Longrightarrow> foldS f (i # is) s = (Inr (), s')"
  by (simp add: bindS_def)

context engine_index
begin

lemma passes_put:
  assumes "engine_holds holds e es" and "room (se_btree e, se_pool e) k v"
    and "\<And>e'. engine_holds holds e' (kv_insert k v es) \<Longrightarrow> se_wal e' = se_wal e \<Longrightarrow> se_txn_manager e' = se_txn_manager e \<Longrightarrow> passes (f ()) e'"
  shows "passes (bindS (engine_put k v) f) e"
proof -
  from put_ok [OF assms(1,2)] obtain e' where e': "engine_put k v e = (Inr (), e')" "engine_holds holds e' (kv_insert k v es)"
    "se_wal e' = se_wal e" "se_txn_manager e' = se_txn_manager e" by (auto simp: engine_put_def bindS_def)
  from passes_run [where m = "engine_put k v" and s = e, OF e'(1)] assms(3) [OF e'(2-4)] show ?thesis by simp
qed

lemma get_run:
  assumes "engine_holds holds e es" and "f (map_of es k) = assertS True"
  shows "\<exists>e'. bindS (engine_get k) f e = (Inr (), e') \<and> engine_holds holds e' es"
  using get_ok [OF assms(1), of k] assms(2) by (auto simp: bindS_def)

lemma passes_get_then:
  assumes "engine_holds holds e es" and "\<And>e'. engine_holds holds e' es \<Longrightarrow> passes (f (map_of es k)) e'"
  shows "passes (bindS (engine_get k) f) e"
proof -
  from get_ok [OF assms(1), of k] obtain e' where e': "engine_get k e = (Inr (map_of es k), e')" "engine_holds holds e' es" by blast
  from passes_run [where m = "engine_get k" and s = e, OF e'(1)] assms(2) [OF e'(2)] show ?thesis by simp
qed

lemma delete_run:
  assumes "engine_holds holds e es"
  obtains e' where "engine_delete k e = (Inr (map_of es k), e')" "engine_holds holds e' (kv_delete k es)"
  using delete_ok [OF assms, of k] by (auto simp: engine_delete_def)

lemma passes_delete:
  assumes "engine_holds holds e es" and "\<And>e'. engine_holds holds e' (kv_delete k es) \<Longrightarrow> passes (f (map_of es k)) e'"
  shows "passes (bindS (engine_delete k) f) e"
proof (rule delete_run [OF assms(1), of k])
  fix e' assume e': "engine_delete k e = (Inr (map_of es k), e')" "engine_holds holds e' (kv_delete k es)"
  from passes_run [where m = "engine_delete k" and s = e, OF e'(1)] assms(2) [OF e'(2)] show ?thesis by simp
qed

lemma passes_scan:
  assumes "engine_holds holds e es" and "\<And>e'. engine_holds holds e' es \<Longrightarrow> passes (f es) e'"
  shows "passes (bindS engine_scan_all f) e"
proof -
  from scan_all_ok [OF assms(1)] obtain e' where e': "engine_scan_all e = (Inr es, e')" "engine_holds holds e' es" by blast
  from passes_run [where m = engine_scan_all and s = e, OF e'(1)] assms(2) [OF e'(2)] show ?thesis by simp
qed

lemma passes_range:
  assumes "engine_holds holds e es"
    and "\<And>e'. engine_holds holds e' es \<Longrightarrow> passes (f (filter (\<lambda>x. lo \<le> fst x \<and> fst x \<le> hi) es)) e'"
  shows "passes (bindS (engine_range_scan lo hi) f) e"
proof -
  from range_scan_ok [OF assms(1), of lo hi] obtain e' where
    e': "engine_range_scan lo hi e = (Inr (filter (\<lambda>x. lo \<le> fst x \<and> fst x \<le> hi) es), e')" "engine_holds holds e' es" by blast
  from passes_run [where m = "engine_range_scan lo hi" and s = e, OF e'(1)] assms(2) [OF e'(2)] show ?thesis by simp
qed

lemma gets_run:
  assumes "engine_holds holds e es" and "\<forall>i \<in> set is. g i (map_of es (k i)) = assertS True"
  shows "\<exists>e'. foldS (\<lambda>i. bindS (engine_get (k i)) (g i)) is e = (Inr (), e') \<and> engine_holds holds e' es"
  using assms
proof (induction "is" arbitrary: e)
  case (Cons i "is")
  have "g i (map_of es (k i)) = assertS True" using Cons.prems(2) by (meson list.set_intros(1))
  from get_run [where f = "g i" and k = "k i", OF Cons.prems(1) this] obtain e1 where
    e1: "bindS (engine_get (k i)) (g i) e = (Inr (), e1)" "engine_holds holds e1 es" by blast
  have "\<forall>i \<in> set is. g i (map_of es (k i)) = assertS True" using Cons.prems(2) by (meson list.set_intros(2))
  from Cons.IH [OF e1(2) this] obtain e' where
    e': "foldS (\<lambda>i. bindS (engine_get (k i)) (g i)) is e1 = (Inr (), e')" "engine_holds holds e' es" by blast
  from foldS_step [where f = "\<lambda>i. bindS (engine_get (k i)) (g i)", OF e1(1) e'(1)] e'(2) show ?case by blast
qed auto

lemma deletes_run:
  assumes "ascii_string s" and "engine_holds holds e (numbered_entries s t (Suc w) is)" and "\<forall>i \<in> set is. i < 10 ^ Suc w" and "\<forall>i \<in> set ds. i < 10 ^ Suc w"
  shows "\<exists>e'. foldS (delete_numbered_key s (Suc w)) ds e = (Inr (), e')
    \<and> engine_holds holds e' (numbered_entries s t (Suc w) (filter (\<lambda>j. j \<notin> set ds) is))"
  using assms(2-4)
proof (induction ds arbitrary: e "is")
  case (Cons d ds)
  let ?k = "numbered s (Suc w) d" and ?is = "filter (\<lambda>j. j \<noteq> d) is"
  have d: "d < 10 ^ Suc w" using Cons.prems(3) by simp
  obtain e1 where 1: "engine_delete ?k e = (Inr (map_of (numbered_entries s t (Suc w) is) ?k), e1)" "engine_holds holds e1 (numbered_entries s t (Suc w) ?is)"
    by (rule delete_run [OF Cons.prems(1), of ?k]) (simp only: delete_numbered [OF assms(1) Cons.prems(2) d])
  have "\<forall>i \<in> set ?is. i < 10 ^ Suc w" "\<forall>i \<in> set ds. i < 10 ^ Suc w" using Cons.prems(2,3) by auto
  from Cons.IH [OF 1(2) this] obtain e' where "foldS (delete_numbered_key s (Suc w)) ds e1 = (Inr (), e')"
    "engine_holds holds e' (numbered_entries s t (Suc w) (filter (\<lambda>j. j \<notin> set ds) ?is))" by blast
  moreover have "filter (\<lambda>j. j \<notin> set ds) ?is = filter (\<lambda>j. j \<notin> set (d # ds)) is" by (simp add: conj_commute)
  moreover have "delete_numbered_key s (Suc w) d e = (Inr (), e1)" using 1(1) by (simp add: delete_numbered_key_def bindS_run)
  ultimately show ?case by (auto simp: bindS_run)
qed auto

end

lemma sorted_run:
  assumes "sorted_kv es" and "n < length es"
  shows "assert_sorted es n e = (Inr (), e)"
proof -
  have "foldS (\<lambda>i. assertS (P i)) is e = (Inr (), e)" if "\<forall>i \<in> set is. P i" for P :: "nat \<Rightarrow> bool" and "is"
    using that by (induction "is") (simp_all add: bindS_def)
  moreover have "\<forall>i \<in> set [0..<n]. fst (es ! i) < fst (es ! (i + 1))" using assms by (auto simp: sorted_kv_nth)
  ultimately show ?thesis unfolding assert_sorted_def .
qed

lemma sorted_passes:
  assumes "sorted_kv es" and "n < length es"
  shows "passes (bindS (assert_sorted es n) f) e = passes (f ()) e"
  using passes_run [where m = "assert_sorted es n" and s = e, OF sorted_run [OF assms]] by simp

section \<open>The tests pass\<close>

lemma passes_new_engine:
  assumes "\<And>e. engine_holds one_page e [] \<Longrightarrow> idle p e \<Longrightarrow> passes test e"
  shows "passes_on (engine_open p [] []) test"
proof (rule open_fresh [of p])
  fix e assume e: "engine_open p [] [] = Inr e" "engine_ok e []" "bp_count (se_pool e) = 1"
  then have "engine_holds one_page e []" by (auto simp: engine_holds_def one_page_def tree_index_def index_def)
  with assms [OF this open_idle [OF e(1)]] e(1) show ?thesis by simp
qed

lemma single_room:
  assumes "engine_holds one_page e es" and "leaf_size es + 12 + length k + length v \<le> LEAF_CAPACITY"
  shows "one_page_room (se_btree e, se_pool e) k v"
  using one_page_index [OF single_engine.engine_holdsD(1) [OF assms(1)]] assms(2) by (auto simp: one_page_room_def)

lemma crud_test: "passes_on (engine_open p [] []) test_engine_basic_crud"
  unfolding test_engine_basic_crud_def
  by (rule passes_new_engine, rule single_engine.passes_put, assumption, rule single_room, assumption, simp add: small_leaf, simp add: small_leaf)
    (rule single_engine.passes_put, assumption, rule single_room, assumption, simp add: small_leaf, simp add: small_leaf,
     rule single_engine.passes_put, assumption, rule single_room, assumption, simp add: small_leaf, simp add: small_leaf,
     rule single_engine.passes_get_then, assumption, simp add: small_leaf kv_delete_def,
     rule single_engine.passes_get_then, assumption, simp add: small_leaf kv_delete_def,
     rule single_engine.passes_get_then, assumption, simp add: small_leaf kv_delete_def,
     rule single_engine.passes_put, assumption, rule single_room, assumption, simp add: small_leaf, simp add: small_leaf,
     rule single_engine.passes_get_then, assumption, simp add: small_leaf kv_delete_def,
     rule single_engine.passes_delete, assumption, simp add: small_leaf kv_delete_def,
     rule single_engine.passes_get_then, assumption, simp add: small_leaf kv_delete_def)

text \<open>Filling a new database in ascending order.\<close>

lemma put_all_numbered: "put_all (numbered_entries s t w is) = foldS (put_numbered s t w) is"
  by (simp add: put_all_def numbered_entries_def foldS_map put_numbered_def [abs_def])

lemma filled_engine:
  assumes "ascii_string s" and "ascii_string t" and "length s + length t + 2 * Suc w \<le> 150" and "n \<le> 10 ^ Suc w" "n \<le> 65000"
    and "\<And>e y. loads e (numbered_entries s t (Suc w) [0..<n]) y n \<Longrightarrow> passes (f ()) e"
  shows "passes_on (engine_open p [] []) (bindS (foldS (put_numbered s t (Suc w)) [0..<n]) f)"
proof (rule open_fresh [of p])
  let ?kvs = "numbered_entries s t (Suc w) [0..<n]"
  fix e assume e: "engine_open p [] [] = Inr e"
  have srt: "sorted_kv ?kvs" by (rule sorted_numbered [OF assms(1)]) (use assms(4) in auto)
  have "length (numbered s (Suc w) i) + length (numbered t (Suc w) i) \<le> SMALL" if "i < n" for i
    using length_numbered [OF assms(1)] length_numbered [OF assms(2)] that assms(3,4) by (simp add: SMALL_def)
  then have "load_fits [] [] ?kvs" using srt by (auto simp: load_fits_def numbered_entries_def)
  moreover have "0 + length ?kvs \<le> MAX_LOAD" using assms(5) by (simp add: MAX_LOAD_def numbered_entries_def)
  ultimately obtain e' y where e': "put_all ?kvs e = (Inr (), e')" "loads e' (kv_inserts ?kvs []) y (0 + length ?kvs)"
    using load_puts [OF open_loads [OF e, of "[]"]] by blast
  have "loads e' ?kvs y n" using e'(2) kv_inserts_append [of "[]" ?kvs] srt by (simp add: numbered_entries_def)
  with assms(6) have "passes (f ()) e'" .
  with e'(1) e show ?thesis by (simp add: put_all_numbered passes_run [where m = "foldS (put_numbered s t (Suc w)) [0..<n]"])
qed

text \<open>The range of a numbered list.\<close>

lemma range_numbered:
  assumes "ascii_string s" and "n \<le> 10 ^ Suc w" and "i \<le> j" and "j < n"
  shows "filter (\<lambda>e. numbered s (Suc w) i \<le> fst e \<and> fst e \<le> numbered s (Suc w) j) (numbered_entries s t (Suc w) [0..<n])
    = numbered_entries s t (Suc w) [i..<Suc j]"
proof -
  have le: "numbered s (Suc w) a \<le> numbered s (Suc w) b \<longleftrightarrow> a \<le> b" if "a < n" "b < n" for a b
    by (rule numbered_le [OF assms(1)]) (use that assms(2) in simp_all)
  have "[0..<n] = [0..<i] @ [i..<Suc j] @ [Suc j..<n]"
    using assms(3,4) upt_add_eq_append [of 0 i "n - i"] upt_add_eq_append [of i "Suc j" "n - Suc j"] by simp
  moreover have "filter (\<lambda>a. i \<le> a \<and> a \<le> j) ([0..<i] @ [i..<Suc j] @ [Suc j..<n]) = [i..<Suc j]"
    by (simp add: filter_empty_conv filter_id_conv del: upt_Suc)
  ultimately have "filter (\<lambda>a. i \<le> a \<and> a \<le> j) [0..<n] = [i..<Suc j]" by simp
  moreover have "filter (\<lambda>a. numbered s (Suc w) i \<le> numbered s (Suc w) a \<and> numbered s (Suc w) a \<le> numbered s (Suc w) j) [0..<n]
      = filter (\<lambda>a. i \<le> a \<and> a \<le> j) [0..<n]" by (rule filter_cong) (use le assms(3,4) in auto)
  ultimately show ?thesis by (simp add: numbered_entries_def filter_map comp_def del: upt_Suc)
qed

lemma engine_scan_test: "passes_on (engine_open p [] []) test_engine_scan"
proof -
  let ?es = "numbered_entries ''key_'' ''val_'' (Suc 3)"
  have a: "ascii_string ''key_''" "ascii_string ''val_''" and w: "(4 :: nat) = Suc 3" by (simp_all add: ascii_string_def)
  have ends: "bstr ''key_0020'' = numbered ''key_'' (Suc 3) 20" "bstr ''key_0030'' = numbered ''key_'' (Suc 3) 30"
    by (simp_all add: bstr_def numbered_def lit_def pad_zeros_def show_dec.simps utf8_char_def lead_def numeral_2_eq_2)
  have srt: "sorted_kv (?es [0..<100])" by (rule sorted_numbered [OF a(1)]) auto
  have rs: "length (filter (\<lambda>x. bstr ''key_0020'' \<le> fst x \<and> fst x \<le> bstr ''key_0030'') (?es [0..<100])) = 11"
    using range_numbered [OF a(1), of 100 3 20 30] by (simp add: ends numbered_entries_def)
  have n: "length (?es [0..<100]) = 100" by (simp add: numbered_entries_def)
  note ns = sorted_passes [OF srt, of 99, unfolded n]
  show ?thesis
    unfolding test_engine_scan_def w
  proof (rule filled_engine [OF a])
    fix e y assume h: "loads e (?es [0..<100]) y 100"
    show "passes (bindS engine_scan_all (\<lambda>all. bindS (assertS (length all = 100)) (\<lambda>_. bindS (assert_sorted all 99) (\<lambda>_.
       bindS (engine_range_scan (bstr ''key_0020'') (bstr ''key_0030'')) (\<lambda>rs. assertS (length rs = 11)))))) e"
      by (rule loaded_engine.passes_scan [OF h], simp only: n passes_assert, subst ns, simp, rule conjI [OF refl], rule loaded_engine.passes_range, assumption)
        (simp only: rs passes_assert)
  qed simp_all
qed

lemma all_below: "(\<And>i. i < n \<Longrightarrow> P i) \<Longrightarrow> \<forall>i \<in> set [0..<n]. P i"
  by simp

lemma engine_large_test: "passes_on (engine_open p [] []) test_engine_large_dataset"
proof -
  let ?es = "numbered_entries ''k'' ''v'' (Suc 5) [0..<5000]"
  let ?check = "\<lambda>i. bindS (engine_get (numbered ''k'' (Suc 5) i)) (\<lambda>result. assertS (result = Some (numbered ''v'' (Suc 5) i)))"
  have a: "ascii_string ''k''" "ascii_string ''v''" and w: "(6 :: nat) = Suc 5" by (simp_all add: ascii_string_def)
  have srt: "sorted_kv ?es" by (rule sorted_numbered [OF a(1)]) auto
  have n: "length ?es = 5000" by (simp add: numbered_entries_def)
  have lt: "4999 < length ?es" unfolding n by simp
  show ?thesis
    unfolding test_engine_large_dataset_def w
  proof (rule filled_engine [OF a])
    fix e y assume h: "loads e ?es y 5000"
    have "assertS (map_of ?es (numbered ''k'' (Suc 5) i) = Some (numbered ''v'' (Suc 5) i)) = assertS True" if "i < 5000" for i
    proof -
      have "map_of ?es (numbered ''k'' (Suc 5) i) = Some (numbered ''v'' (Suc 5) i)" using that by (subst map_of_numbered [OF a(1)]) auto
      then show ?thesis by (simp only: simp_thms)
    qed
    then have "\<forall>i \<in> set [0..<5000]. assertS (map_of ?es (numbered ''k'' (Suc 5) i) = Some (numbered ''v'' (Suc 5) i)) = assertS True"
      by (rule all_below)
    from loaded_engine.gets_run [where g = "\<lambda>i result. assertS (result = Some (numbered ''v'' (Suc 5) i))", OF h this]
    obtain e' where e': "foldS ?check [0..<5000] e = (Inr (), e')" "loads e' ?es y 5000" by blast
    have "passes (bindS engine_scan_all (\<lambda>all. bindS (assertS (length all = 5000)) (\<lambda>_. assert_sorted all 4999))) e'"
      by (rule loaded_engine.passes_scan [OF e'(2)]) (simp only: n passes_assert simp_thms, simp only: passes_def sorted_run [OF srt lt] fst_conv)
    with passes_run [where m = "foldS ?check [0..<5000]" and s = e, OF e'(1)]
    show "passes (bindS (foldS ?check [0..<5000]) (\<lambda>_. bindS engine_scan_all (\<lambda>all. bindS (assertS (length all = 5000)) (\<lambda>_. assert_sorted all 4999)))) e"
      by blast
  qed simp_all
qed

lemma engine_interleaved_test: "passes_on (engine_open p [] []) test_engine_insert_delete_interleaved"
proof -
  let ?evens = "filter even [0..<100]" and ?n = "numbered ''item_'' (Suc 3)" and ?v = "numbered ''data_'' (Suc 3)"
  let ?is = "filter (\<lambda>j. j \<notin> set ?evens) [0..<100]"
  let ?es = "numbered_entries ''item_'' ''data_'' (Suc 3) ?is"
  let ?g = "\<lambda>i result. if i mod 2 = 0 then assertS (result = None) else assertS (result = Some (?v i))"
  let ?check = "\<lambda>i. bindS (engine_get (?n i)) (?g i)"
  have a: "ascii_string ''item_''" "ascii_string ''data_''" and w: "(4 :: nat) = Suc 3" by (simp_all add: ascii_string_def)
  have n: "length ?es = 50" by (simp add: numbered_entries_def upt_rec)
  have m: "map_of ?es (?n i) = (if i mod 2 = 0 then None else Some (?v i))" if "i < 100" for i
    by (subst map_of_numbered [OF a(1)]) (use that in \<open>auto simp: even_iff_mod_2_eq_zero\<close>)
  have "?g i (map_of ?es (?n i)) = assertS True" if "i < 100" for i
    unfolding m [OF that] by (cases "i mod 2 = 0") (simp_all only: simp_thms if_True if_False)
  then have all: "\<forall>i \<in> set [0..<100]. ?g i (map_of ?es (?n i)) = assertS True"
    by (rule all_below)
  have bounds: "\<forall>i \<in> set [0..<100]. i < 10 ^ Suc 3" "\<forall>i \<in> set ?evens. i < 10 ^ Suc 3" by auto
  show ?thesis
    unfolding test_engine_insert_delete_interleaved_def w
  proof (rule filled_engine [OF a])
    fix e y assume h: "loads e (numbered_entries ''item_'' ''data_'' (Suc 3) [0..<100]) y 100"
    from loaded_engine.deletes_run [OF a(1) h bounds] obtain e1 where
      1: "foldS (delete_numbered_key ''item_'' (Suc 3)) ?evens e = (Inr (), e1)" "loads e1 ?es y 100" by blast
    from loaded_engine.gets_run [where g = ?g, OF 1(2) all] obtain e2 where
      2: "foldS ?check [0..<100] e1 = (Inr (), e2)" "loads e2 ?es y 100" by blast
    have "passes (bindS engine_scan_all (\<lambda>all. assertS (length all = 50))) e2"
      by (rule loaded_engine.passes_scan [OF 2(2)]) (simp only: n passes_assert)
    with passes_run [where m = "foldS ?check [0..<100]" and s = e1, OF 2(1)]
      passes_run [where m = "foldS (delete_numbered_key ''item_'' (Suc 3)) ?evens" and s = e, OF 1(1)]
    show "passes (bindS (foldS (delete_numbered_key ''item_'' (Suc 3)) ?evens) (\<lambda>_. bindS (foldS ?check [0..<100]) (\<lambda>_.
        bindS engine_scan_all (\<lambda>all. assertS (length all = 50))))) e" by blast
  qed simp_all
qed

lemma engine_persistence_test: "passes_on (engine_open p [] []) test_engine_persistence"
proof (rule passes_new_engine)
  let ?k = "bstr ''persistent_key''" and ?v = "bstr ''persistent_value''" and ?k' = "bstr ''another_key''" and ?v' = "bstr ''another_value''"
  fix e assume h: "engine_holds one_page e []" and i: "idle p e"
  show "passes test_engine_persistence e"
    unfolding test_engine_persistence_def
  proof (rule single_engine.passes_put [OF h single_room [OF h]], simp, rule single_engine.passes_put, assumption)
    fix e1 assume "engine_holds one_page e1 (kv_insert ?k ?v [])"
    from single_room [OF this] show "one_page_room (se_btree e1, se_pool e1) ?k' ?v'" by (simp add: small_leaf)
  next
    let ?es = "kv_insert ?k' ?v' (kv_insert ?k ?v [])"
    fix e1 e2 assume e: "se_wal e1 = se_wal e" "engine_holds one_page e2 ?es" "se_wal e2 = se_wal e1"
    from single_engine.sync_ok [OF e(2)] obtain e3 where s: "engine_sync e2 = (Inr (), e3)" "engine_holds one_page e3 ?es"
      "saved e3" "wal_flush (se_wal e2) = (Inr (), se_wal e3)" by (auto simp: saved_def)
    have "wm_file (snd (wal_flush (se_wal e2))) = []" using i e(1,3) by (simp add: idle_def wal_flush_def)
    then have f: "wm_file (se_wal e3) = []" using s(4) by simp
    from reopen_one_page [OF s(2) f s(3), of "se_db_path e3"] obtain e4 where
      o: "engine_open (se_db_path e3) (dm_file (bp_disk (se_pool e3))) [] = Inr e4" "engine_holds one_page e4 ?es" .
    then have r: "reopen_engine e3 = (Inr (), e4)" using f by (simp add: reopen_engine_def)
    have "map_of ?es ?k = Some ?v" "map_of ?es ?k' = Some ?v'" by (simp_all add: small_leaf)
    then show "passes (bindS engine_sync (\<lambda>_. bindS reopen_engine (\<lambda>_.
     bindS (engine_get ?k) (\<lambda>v. bindS (assertS (v = Some ?v)) (\<lambda>_. bindS (engine_get ?k') (\<lambda>v. assertS (v = Some ?v'))))))) e2"
      unfolding passes_run [where m = engine_sync and s = e2, OF s(1)] passes_run [where m = reopen_engine and s = e3, OF r]
      by (intro single_engine.passes_get_then [OF o(2)]) (simp add: single_engine.passes_get_then)
  qed
qed

text \<open>The first transaction of a new database.\<close>

definition in_txn :: "storage_engine \<Rightarrow> entry list \<Rightarrow> lsn \<Rightarrow> bool" where
  "in_txn e es n \<longleftrightarrow> engine_ok e es \<and> se_txn_manager e = one_active \<and> (\<exists>ds ps. wal_holds (se_wal e) ds ps) \<and> wm_next_lsn (se_wal e) = n"

lemma passes_call:
  assumes "mapS g m e = (Inr x, e')" and "\<And>a. g a = x \<Longrightarrow> passes (f a) e'"
  shows "passes (bindS m f) e"
proof -
  from assms(1) obtain a where "m e = (Inr a, e')" "g a = x" by (auto simp: mapS_def bindS_Inr_iff)
  with assms(2) show ?thesis using passes_run [where m = m and s = e] by blast
qed

lemma passes_begin:
  assumes "engine_open p [] [] = Inr e" and "\<And>e'. in_txn e' [] 2 \<Longrightarrow> passes (f 1) e'"
  shows "passes (bindS begin_transaction f) e"
proof (rule open_fresh [of p])
  fix e0 assume e0: "engine_open p [] [] = Inr e0" "engine_ok e0 []" "se_txn_manager e0 = tm_new"
    "wm_next_lsn (se_wal e0) = 1" "wal_holds (se_wal e0) [] []"
  have n: "wm_next_lsn (se_wal e0) \<noteq> - 1" using e0(4) by simp
  from begin_call [OF e0(3,5) n] obtain w where b: "call_fits e0 BeginTxn"
    "run_call BeginTxn e0 = (Inr (RTxn 1), e0\<lparr>se_txn_manager := one_active, se_wal := w\<rparr>)"
    "wal_holds w [] ([] @ [stamped (se_wal e0) (lr_begin 0 1)])" "wm_next_lsn w = wm_next_lsn (se_wal e0) + 1" .
  let ?b = "e0\<lparr>se_txn_manager := one_active, se_wal := w\<rparr>"
  have "engine_ok ?b []" using tree_engine.call_ok [OF e0(2) b(1)] b(2) by auto
  then have "in_txn ?b [] 2" using b(3,4) e0(4) by (auto simp: in_txn_def)
  moreover have "e0 = e" using e0(1) assms(1) by simp
  ultimately show ?thesis using passes_call [OF b(2) [unfolded run_call.simps]] assms(2) by auto
qed

lemma passes_txn_put:
  assumes h: "in_txn e es n" and n: "n \<noteq> - 1" and sz: "leaf_size es + 12 + length k + length v \<le> LEAF_CAPACITY"
    and f: "\<And>e'. in_txn e' (kv_insert k v es) (n + 1) \<Longrightarrow> passes (f ()) e'"
  shows "passes (bindS (txn_put 1 k v) f) e"
proof -
  from h obtain ds ps where e: "engine_ok e es" "se_txn_manager e = one_active" "wal_holds (se_wal e) ds ps" "wm_next_lsn (se_wal e) = n"
    by (auto simp: in_txn_def)
  have m: "wm_next_lsn (se_wal e) \<noteq> - 1" "tm_next_txn_id (se_txn_manager e) \<noteq> - 1" using e n by simp_all
  from txn_put_call [OF e(1) sz e(3) m, of 1] obtain w bp where c: "call_fits e (TxnPut 1 k v)"
    "run_call (TxnPut 1 k v) e = (Inr RUnit, e\<lparr>se_wal := w, se_pool := bp\<rparr>)"
    "wal_holds w ds (ps @ [stamped (se_wal e) (lr_page_write 0 1 (last_lsn (se_wal e) 1) 0 k v)])"
    "wm_next_lsn w = wm_next_lsn (se_wal e) + 1" .
  have "engine_ok (e\<lparr>se_wal := w, se_pool := bp\<rparr>) (kv_insert k v es)" using tree_engine.call_ok [OF e(1) c(1)] c(2) by auto
  then have "in_txn (e\<lparr>se_wal := w, se_pool := bp\<rparr>) (kv_insert k v es) (n + 1)" using c(3,4) e by (auto simp: in_txn_def)
  then show ?thesis using passes_call [OF c(2) [unfolded run_call.simps]] f by auto
qed

lemma passes_commit:
  assumes h: "in_txn e es n" and n: "n \<noteq> - 1" and f: "\<And>e'. engine_ok e' es \<Longrightarrow> passes (f ()) e'"
  shows "passes (bindS (commit_transaction 1) f) e"
proof -
  from h obtain ds ps where e: "engine_ok e es" "se_txn_manager e = one_active" "wal_holds (se_wal e) ds ps" "wm_next_lsn (se_wal e) = n"
    by (auto simp: in_txn_def)
  have m: "wm_next_lsn (se_wal e) \<noteq> - 1" using e n by simp
  from commit_call [OF e(2,3) m] obtain w where c: "call_fits e (CommitTxn 1)"
    "run_call (CommitTxn 1) e = (Inr RUnit, e\<lparr>se_txn_manager := ended 1 one_active, se_wal := w\<rparr>)" .
  have "engine_ok (e\<lparr>se_txn_manager := ended 1 one_active, se_wal := w\<rparr>) es" using tree_engine.call_ok [OF e(1) c(1)] c(2) by auto
  then show ?thesis using passes_call [OF c(2) [unfolded run_call.simps]] f by auto
qed

lemma engine_transactions_test: "passes_on (engine_open p [] []) test_engine_transactions"
proof (rule open_fresh [of p])
  fix e assume e: "engine_open p [] [] = Inr e"
  let ?k = "bstr ''tx_key1''" and ?v = "bstr ''tx_val1''" and ?k' = "bstr ''tx_key2''" and ?v' = "bstr ''tx_val2''"
  have m: "map_of (kv_insert ?k' ?v' (kv_insert ?k ?v [])) ?k = Some ?v" "map_of (kv_insert ?k' ?v' (kv_insert ?k ?v [])) ?k' = Some ?v'"
    "leaf_size (kv_insert ?k ?v []) + 12 + length ?k' + length ?v' \<le> LEAF_CAPACITY" by (simp_all add: small_leaf)
  have "passes test_engine_transactions e"
    unfolding test_engine_transactions_def
    by (rule passes_begin [OF e], rule passes_txn_put, assumption, simp, simp, rule passes_txn_put, assumption, simp, rule m(3),
        rule passes_commit, assumption, simp, rule tree_engine.passes_get_then, assumption, unfold m(1), simp,
        rule tree_engine.passes_get_then, assumption, unfold m(2), simp)
  with e show ?thesis by simp
qed

lemma stats_pages: "engine_holds one_page e es \<Longrightarrow> es_num_pages (engine_stats_of e) = 1"
  by (auto simp: engine_stats_of_def engine_holds_def one_page_def bp_count_def)

lemma engine_stats_test: "passes_on (engine_open p [] []) test_engine_stats"
proof (rule passes_new_engine)
  fix e assume h: "engine_holds one_page e []" and i: "idle p e"
  have "passes (bindS (engine_put (bstr ''k'') (bstr ''v'')) (\<lambda>_. bindS (lookS engine_stats_of) (\<lambda>stats. assertS (es_num_pages stats \<ge> 1)))) e"
    by (rule single_engine.passes_put [OF h single_room [OF h]]) (simp_all add: stats_pages)
  moreover have "es_active_transactions (engine_stats_of e) = 0" using i by (simp add: idle_def engine_stats_of_def active_count_def tm_new_def)
  ultimately show "passes test_engine_stats e" using stats_pages [OF h] by (simp add: test_engine_stats_def)
qed

lemma wal_basic_test: "passes_on (wal_open p []) test_wal_basic_recovery"
  by (simp add: test_wal_basic_recovery_def wal_run passes_on_def)

end
