(* ===== verification/Page_Tests.thy ===== *)
theory Page_Tests
  imports Testing Pool Text
begin

text \<open>
  The unit tests of pages, the disk manager, the buffer pool and the nodes of the tree. A database file
  of a test is new: its temporary directory was emptied before.
\<close>

section \<open>Pages\<close>

text \<open>\<^verbatim>\<open>page.data_region_mut()[off..off + bs.len()].copy_from_slice(bs)\<close>\<close>

definition data_region_mut :: "nat \<Rightarrow> bytes \<Rightarrow> page \<Rightarrow> page res" where
  "data_region_mut off bs p = bindE (copy_from_slice (pg_data p) (HEADER_SIZE + off) bs) (\<lambda>d. Inr (p\<lparr>pg_data := d\<rparr>))"

definition test_page_creation :: "unit res" where
  "test_page_creation =
     (let page = page_new 42
      in bindE (assertE (get_page_id page = 42)) (\<lambda>_.
         bindE (assertE (get_page_type page = PtInvalid)) (\<lambda>_.
         bindE (assertE (get_num_slots page = 0)) (\<lambda>_.
         assertE (get_free_offset page = of_nat HEADER_SIZE)))))"

definition test_page_type_roundtrip :: "unit res" where
  "test_page_type_roundtrip =
     (let page = page_new 0;
          page1 = set_page_type PtLeaf page;
          page2 = set_page_type PtInternal page1
      in bindE (assertE (get_page_type page1 = PtLeaf)) (\<lambda>_.
         assertE (get_page_type page2 = PtInternal)))"

definition test_checksum :: "unit res" where
  "test_checksum =
     bindE (data_region_mut 0 (bstr ''hello'') (page_new 1)) (\<lambda>p.
     let page = update_checksum p
     in bindE (assertE (verify_checksum page)) (\<lambda>_.
        bindE (data_region_mut 0 [0xFF] page) (\<lambda>page2.
        assertE (\<not> verify_checksum page2))))"

definition test_from_bytes :: "unit res" where
  "test_from_bytes =
     bindE (data_region_mut 0 [1, 2, 3, 4] (set_num_slots 3 (set_page_type PtLeaf (page_new 7)))) (\<lambda>p.
     let original = update_checksum p;
         restored = page_from_bytes 7 (pg_data original)
     in bindE (assertE (get_page_id restored = 7)) (\<lambda>_.
        bindE (assertE (get_page_type restored = PtLeaf)) (\<lambda>_.
        bindE (assertE (get_num_slots restored = 3)) (\<lambda>_.
        assertE (verify_checksum restored)))))"

definition test_crc32_known_value :: "unit res" where
  "test_crc32_known_value = assertE (crc32 (bstr ''123456789'') = 0xCBF43926)"

definition with_region :: "nat \<Rightarrow> bytes \<Rightarrow> page \<Rightarrow> page" where
  "with_region off bs p = p\<lparr>pg_data := wr (pg_data p) (16 + off) bs\<rparr>"

lemma data_region_mut_ok: "page_wf p \<Longrightarrow> off + length bs \<le> 4080 \<Longrightarrow> data_region_mut off bs p = Inr (with_region off bs p)"
  by (simp add: data_region_mut_def page_wf_def with_region_def)

lemma with_region_simps:
  assumes "page_wf p" and "off + length bs \<le> 4080"
  shows "page_wf (with_region off bs p)" "get_page_id (with_region off bs p) = get_page_id p"
    "get_page_type (with_region off bs p) = get_page_type p" "get_num_slots (with_region off bs p) = get_num_slots p"
    "get_checksum (with_region off bs p) = get_checksum p" "data_region (with_region off bs p) = wr (data_region p) off bs"
    "pg_id (with_region off bs p) = pg_id p"
  using assms by (simp_all add: with_region_def page_wf_def page_defs rd_wr_other nth_wr data_region_def) (simp add: wr_def drop_append drop_take ac_simps)

lemma new_page_fields:
  "get_page_id (page_new i) = i" "get_page_type (page_new i) = PtInvalid" "get_num_slots (page_new i) = 0" "get_free_offset (page_new i) = 16"
  using page_wf_blank by (simp_all add: page_new_def)

lemma verify_updated: "page_wf p \<Longrightarrow> verify_checksum (update_checksum p)"
  by (simp add: verify_checksum_def update_checksum_def)

lemma from_bytes_fields:
  "get_page_id (page_from_bytes i (pg_data p)) = get_page_id p" "get_page_type (page_from_bytes i (pg_data p)) = get_page_type p"
  "get_num_slots (page_from_bytes i (pg_data p)) = get_num_slots p" "verify_checksum (page_from_bytes i (pg_data p)) = verify_checksum p"
  "data_region (page_from_bytes i (pg_data p)) = data_region p"
  by (simp_all add: page_defs page_from_bytes_def verify_checksum_def compute_checksum_def data_region_def)

lemma updated_fields:
  assumes "page_wf p"
  shows "get_page_id (update_checksum p) = get_page_id p" "get_page_type (update_checksum p) = get_page_type p"
    "get_num_slots (update_checksum p) = get_num_slots p" "data_region (update_checksum p) = data_region p"
  using assms by (simp_all add: update_checksum_def)

lemmas page_test_simps = data_region_mut_ok with_region_simps new_page_fields verify_updated from_bytes_fields updated_fields

lemma crc_known: "test_crc32_known_value = Inr ()"
proof -
  have eight: "(crc_bit ^^ 8) x = crc_bit (crc_bit (crc_bit (crc_bit (crc_bit (crc_bit (crc_bit (crc_bit x)))))))" for x
    by (simp add: numeral_eq_Suc)
  show ?thesis
    by (simp add: test_crc32_known_value_def crc32_eq_spec bstr_def crc32_spec_def crc_byte_spec_def eight crc_bit_def)
qed

lemma page_tests:
  "test_page_creation = Inr ()" "test_page_type_roundtrip = Inr ()" "test_from_bytes = Inr ()"
  by (simp_all add: test_page_creation_def test_page_type_roundtrip_def test_from_bytes_def Let_def page_test_simps)

lemma damaged_page:
  assumes "page_wf p" and "data_region p = x # ds" and "x \<noteq> y"
  shows "\<not> verify_checksum (with_region 0 [y] (update_checksum p))"
proof -
  have "crc32 (x # ds) \<noteq> crc32 (y # ds)" using crc32_burst [of "[x]" "[y]" "[]" ds] assms(3) by simp
  moreover have "get_checksum (update_checksum p) = crc32 (x # ds)"
    using assms(1,2) by (simp add: update_checksum_def compute_checksum_def)
  ultimately show ?thesis
    using assms(1,2) by (simp add: verify_checksum_def compute_checksum_def page_test_simps wr_def)
qed

lemma checksum_test: "test_checksum = Inr ()"
proof -
  let ?p = "with_region 0 (bstr ''hello'') (page_new 1)"
  have wf: "page_wf ?p" by (simp add: page_test_simps)
  have "data_region ?p = 104 # drop 1 (data_region ?p)" by (simp add: page_test_simps wr_def bstr_def)
  from damaged_page [OF wf this, of 255] wf show ?thesis by (simp add: test_checksum_def page_test_simps Let_def)
qed

section \<open>Disk manager\<close>

definition test_disk_manager_read_write :: "(disk_manager, unit) op" where
  "test_disk_manager_read_write =
     bindS dm_allocate_page (\<lambda>pid. bindS (assertS (pid = 0)) (\<lambda>_.
     bindS (liftE (data_region_mut 0 (bstr ''foobar'') (set_page_type PtLeaf (page_new pid)))) (\<lambda>p.
     bindS (dm_write_page (update_checksum p)) (\<lambda>_.
     bindS (dm_read_page pid) (\<lambda>read_page.
     bindS (assertS (get_page_type read_page = PtLeaf)) (\<lambda>_.
     bindS (liftE (get_range (data_region read_page) 0 6)) (\<lambda>bs. bindS (assertS (bs = bstr ''foobar'')) (\<lambda>_.
     assertS (verify_checksum read_page)))))))))"

definition page_text :: "nat \<Rightarrow> bytes" where
  "page_text i = as_bytes (lit ''page-'' @ show_dec i)"

definition write_one :: "nat \<Rightarrow> (disk_manager, unit) op" where
  "write_one i =
     bindS dm_allocate_page (\<lambda>pid. bindS (assertS (pid = of_nat i)) (\<lambda>_.
     bindS (liftE (data_region_mut 0 (page_text i) (set_page_type PtLeaf (page_new pid)))) (\<lambda>p.
     dm_write_page (update_checksum p))))"

definition verify_one :: "nat \<Rightarrow> (disk_manager, unit) op" where
  "verify_one i =
     bindS (dm_read_page (of_nat i)) (\<lambda>page.
     bindS (liftE (get_range (data_region page) 0 (length (page_text i)))) (\<lambda>bs. bindS (assertS (bs = page_text i)) (\<lambda>_.
     assertS (verify_checksum page))))"

definition test_multiple_pages :: "(disk_manager, unit) op" where
  "test_multiple_pages =
     bindS (foldS write_one [0..<10]) (\<lambda>_.
     bindS (lookS dm_num_pages) (\<lambda>n. bindS (assertS (n = 10)) (\<lambda>_.
     foldS verify_one [0..<10])))"

text \<open>A page with a text, as the two tests write it.\<close>

abbreviation text_page :: "page_id \<Rightarrow> bytes \<Rightarrow> page" where
  "text_page i bs \<equiv> update_checksum (with_region 0 bs (set_page_type PtLeaf (page_new i)))"

lemma text_page_fields:
  assumes "length bs \<le> 4080"
  shows "page_wf (text_page i bs)" "pg_id (text_page i bs) = i" "get_page_type (text_page i bs) = PtLeaf"
    "get_range (data_region (text_page i bs)) 0 (length bs) = Inr bs" "verify_checksum (text_page i bs)"
  using assms by (simp_all add: page_test_simps) (simp add: get_range_def slice_def wr_def data_region_new)

lemma write_text_page:
  assumes "dm_inv dm" and "dm_num_pages dm \<noteq> 0xFFFFFFFF" and "length bs \<le> 4080"
  obtains dm1 dm2 where "dm_allocate_page dm = (Inr (dm_num_pages dm), dm1)" "dm_write_page (text_page (dm_num_pages dm) bs) dm1 = (Inr (), dm2)"
    "dm_inv dm2" "dm_num_pages dm2 = dm_num_pages dm + 1"
    "dm_pages dm2 = (dm_pages dm)(dm_num_pages dm \<mapsto> pg_data (text_page (dm_num_pages dm) bs))"
proof -
  let ?i = "dm_num_pages dm"
  from dm_allocate_ok [OF assms(1,2)] obtain dm1 where 1: "dm_allocate_page dm = (Inr ?i, dm1)" "dm_inv dm1"
    "dm_num_pages dm1 = ?i + 1" "dm_pages dm1 = (dm_pages dm)(?i \<mapsto> replicate PAGE_SIZE 0)" by blast
  have "?i < dm_num_pages dm1" using disk.pages_dom [OF 1(2), of ?i] 1(4) by simp
  then have "pg_id (text_page ?i bs) < dm_num_pages dm1" using text_page_fields(2) [OF assms(3)] by simp
  from dm_write_ok [OF 1(2) text_page_fields(1) [OF assms(3)] this] obtain dm2 where
    "dm_write_page (text_page ?i bs) dm1 = (Inr (), dm2)" "dm_inv dm2" "dm_num_pages dm2 = dm_num_pages dm1"
    "dm_pages dm2 = (dm_pages dm1)(pg_id (text_page ?i bs) \<mapsto> pg_data (text_page ?i bs))" by blast
  with 1 that show thesis using text_page_fields(2) [OF assms(3)] by simp
qed

lemma read_text_page:
  assumes "dm_pages dm i = Some (pg_data (text_page i bs))" and "length bs \<le> 4080"
  obtains p where "dm_read_page i dm = (Inr p, dm)" "get_page_type p = PtLeaf" "verify_checksum p"
    "get_range (data_region p) 0 (length bs) = Inr bs"
  using that dm_read_hit [OF assms(1)] text_page_fields [OF assms(2), of i] by (simp only: from_bytes_fields)

lemma disk_read_write_test: "passes test_disk_manager_read_write (dm_open p [])"
proof -
  let ?bs = "bstr ''foobar''"
  have n: "dm_num_pages (dm_open p []) \<noteq> 0xFFFFFFFF" and len: "length ?bs \<le> 4080" by simp_all
  show ?thesis
  proof (rule write_text_page [OF dm_inv_open_empty(1) n len])
    fix dm1 dm2 assume w: "dm_allocate_page (dm_open p []) = (Inr (dm_num_pages (dm_open p [])), dm1)"
      "dm_write_page (text_page (dm_num_pages (dm_open p [])) ?bs) dm1 = (Inr (), dm2)"
      "dm_pages dm2 = (dm_pages (dm_open p []))(dm_num_pages (dm_open p []) \<mapsto> pg_data (text_page (dm_num_pages (dm_open p [])) ?bs))"
    then have "dm_pages dm2 0 = Some (pg_data (text_page 0 ?bs))" by simp
    then show ?thesis
    proof (rule read_text_page [OF _ len])
      fix q assume "dm_read_page 0 dm2 = (Inr q, dm2)" "get_page_type q = PtLeaf" "verify_checksum q"
        "get_range (data_region q) 0 (length ?bs) = Inr ?bs"
      moreover from this(4) have "get_range (data_region q) 0 6 = Inr ?bs" by (simp add: numeral_eq_Suc)
      ultimately show ?thesis using w(1,2)
        by (simp add: test_disk_manager_read_write_def passes_run passes_lift data_region_mut_ok)
    qed
  qed
qed

lemma length_page_text: "i < 10 \<Longrightarrow> length (page_text i) \<le> 4080"
  by (simp add: page_text_def show_dec.simps lit_def utf8_char_def)

lemma write_pages:
  assumes "n \<le> 10"
  shows "\<exists>dm. foldS write_one [0..<n] (dm_open path []) = (Inr (), dm) \<and> dm_inv dm \<and> dm_num_pages dm = of_nat n
    \<and> (\<forall>i < n. dm_pages dm (of_nat i) = Some (pg_data (text_page (of_nat i) (page_text i))))"
  using assms
proof (induction n)
  case (Suc n)
  then obtain dm where dm: "foldS write_one [0..<n] (dm_open path []) = (Inr (), dm)" "dm_inv dm" "dm_num_pages dm = of_nat n"
    "\<forall>i < n. dm_pages dm (of_nat i) = Some (pg_data (text_page (of_nat i) (page_text i)))" by auto
  have u: "unat (of_nat i :: u32) = i" if "i \<le> 10" for i using that by (simp add: unat_of_nat)
  have n: "dm_num_pages dm \<noteq> 0xFFFFFFFF" using u [of n] Suc.prems dm(3) by auto
  have len: "length (page_text n) \<le> 4080" using length_page_text [of n] Suc.prems by simp
  have new: "of_nat i \<noteq> (of_nat n :: u32)" if "i < n" for i using u [of i] u [of n] that Suc.prems by auto
  show ?case
  proof (rule write_text_page [OF dm(2) n len])
    fix dm1 dm2 assume w: "dm_allocate_page dm = (Inr (dm_num_pages dm), dm1)" "dm_write_page (text_page (dm_num_pages dm) (page_text n)) dm1 = (Inr (), dm2)"
      "dm_inv dm2" "dm_num_pages dm2 = dm_num_pages dm + 1"
      "dm_pages dm2 = (dm_pages dm)(dm_num_pages dm \<mapsto> pg_data (text_page (dm_num_pages dm) (page_text n)))"
    have "write_one n dm = (Inr (), dm2)" using w(1,2) len dm(3) by (simp add: write_one_def bindS_run data_region_mut_ok)
    with dm(1) have "foldS write_one [0..<Suc n] (dm_open path []) = (Inr (), dm2)" by (simp add: foldS_append bindS_run)
    moreover have "dm_num_pages dm2 = of_nat (Suc n)" using w(4) dm(3) by (simp add: add.commute)
    moreover have "dm_pages dm2 (of_nat i) = Some (pg_data (text_page (of_nat i) (page_text i)))" if "i < Suc n" for i
      using that dm(3,4) new [of i] w(5) by (cases "i = n") simp_all
    ultimately show ?thesis using w(3) by blast
  qed
qed simp

lemma verify_pages:
  assumes "\<forall>i \<in> set is. i < 10 \<and> dm_pages dm (of_nat i) = Some (pg_data (text_page (of_nat i) (page_text i)))"
  shows "foldS verify_one is dm = (Inr (), dm)"
  using assms
proof (induction "is")
  case (Cons i "is")
  then have i: "dm_pages dm (of_nat i) = Some (pg_data (text_page (of_nat i) (page_text i)))" "length (page_text i) \<le> 4080"
    using length_page_text [of i] by simp_all
  have "verify_one i dm = (Inr (), dm)"
    by (rule read_text_page [OF i]) (simp add: verify_one_def bindS_run)
  with Cons show ?case by (simp add: bindS_run)
qed simp

lemma multiple_pages_test: "passes test_multiple_pages (dm_open p [])"
proof -
  from write_pages [of 10 p] obtain dm where "foldS write_one [0..<10] (dm_open p []) = (Inr (), dm)" "dm_num_pages dm = 10"
    "\<forall>i < 10. dm_pages dm (of_nat i) = Some (pg_data (text_page (of_nat i) (page_text i)))" by auto
  moreover from this(3) verify_pages [of "[0..<10]" dm] have "foldS verify_one [0..<10] dm = (Inr (), dm)" by simp
  ultimately show ?thesis by (simp add: test_multiple_pages_def passes_run) (simp add: passes_def)
qed

section \<open>Buffer pool\<close>

definition create_pool :: "string \<Rightarrow> nat \<Rightarrow> buffer_pool" where
  "create_pool path capacity = bp_new (dm_open path []) capacity"

text \<open>Writing to the page behind the reference that a fetch returned.\<close>

definition edit_page :: "nat \<Rightarrow> (page \<Rightarrow> page res) \<Rightarrow> (buffer_pool, unit) op" where
  "edit_page idx f = bindS (bp_page_at idx) (\<lambda>page. bindS (liftE (f page)) (\<lambda>page'. bp_update_page idx (\<lambda>_. page')))"

definition test_new_page_and_fetch :: "(buffer_pool, unit) op" where
  "test_new_page_and_fetch =
     bindS bp_new_page (\<lambda>pid.
     bindS (bp_fetch_page_mut pid) (\<lambda>page.
     bindS (edit_page page (\<lambda>p. data_region_mut 0 (bstr ''hello'') (set_page_type PtLeaf p))) (\<lambda>_.
     bindS (bp_unpin_page pid True) (\<lambda>_.
     bindS (bp_unpin_page pid False) (\<lambda>_.
     bindS (bp_flush_page pid) (\<lambda>_.
     bindS (bp_fetch_page pid) (\<lambda>idx. bindS (bp_page_at idx) (\<lambda>page.
     bindS (assertS (get_page_type page = PtLeaf)) (\<lambda>_.
     bindS (liftE (get_range (data_region page) 0 5)) (\<lambda>bs. assertS (bs = bstr ''hello'')))))))))))"

definition test_eviction :: "(buffer_pool, unit) op" where
  "test_eviction =
     bindS bp_new_page (\<lambda>p0.
     bindS bp_new_page (\<lambda>p1.
     bindS bp_new_page (\<lambda>p2.
     bindS (bp_unpin_page p0 False) (\<lambda>_.
     bindS (bp_unpin_page p1 False) (\<lambda>_.
     bindS (bp_unpin_page p2 False) (\<lambda>_.
     bindS bp_new_page (\<lambda>p3.
     bindS (bp_unpin_page p3 False) (\<lambda>_.
     bindS (lookS bp_stats) (\<lambda>stats. assertS (bs_occupied stats = 3))))))))))"

definition dirty_one :: "nat \<Rightarrow> (buffer_pool, unit) op" where
  "dirty_one _ =
     bindS bp_new_page (\<lambda>pid.
     bindS (bp_fetch_page_mut pid) (\<lambda>page.
     bindS (edit_page page (data_region_mut 0 [0xAA])) (\<lambda>_.
     bindS (bp_unpin_page pid True) (\<lambda>_.
     bp_unpin_page pid False))))"

definition test_flush_all :: "(buffer_pool, unit) op" where
  "test_flush_all =
     bindS (foldS dirty_one [0..<5]) (\<lambda>_.
     bindS (lookS bp_stats) (\<lambda>stats. bindS (assertS (bs_dirty stats = 5)) (\<lambda>_.
     bindS bp_flush_all (\<lambda>_.
     bindS (lookS bp_stats) (\<lambda>stats. assertS (bs_dirty stats = 0))))))"

definition test_pinned_page_not_evicted :: "(buffer_pool, unit) op" where
  "test_pinned_page_not_evicted =
     bindS bp_new_page (\<lambda>_.
     bindS bp_new_page (\<lambda>p1.
     bindS (bp_unpin_page p1 False) (\<lambda>_.
     bindS bp_new_page (\<lambda>p2.
     bindS (bp_unpin_page p2 False) (\<lambda>_.
     bindS (lookS bp_stats) (\<lambda>stats. assertS (bs_pinned stats = 1)))))))"

lemma pool_start:
  "create_pool p 10 = bp_new (dm_open p []) (Suc (Suc (Suc (Suc (Suc (Suc (Suc (Suc (Suc (Suc 0))))))))))"
  "create_pool p 5 = bp_new (dm_open p []) (Suc (Suc (Suc (Suc (Suc 0)))))"
  "create_pool p 2 = bp_new (dm_open p []) (Suc (Suc 0))" "create_pool p 3 = bp_new (dm_open p []) (Suc (Suc (Suc 0)))"
  by (simp_all add: create_pool_def eval_nat_numeral)

lemmas pool_run = passes_def bindS_def bp_new_def on_disk_def frame_at_def frame_unwrap_def set_frame_def advance_hand_def evict_frame_def
  get_free_frame_def install_frame_def bp_fetch_page_def bp_fetch_page_mut_def bp_page_at_def bp_update_page_def bp_unpin_page_def bp_new_page_def
  bp_flush_page_def flush_frame_def bp_flush_all_def flush_steps_def runS_def bp_stats_def edit_page_def dm_allocate_page_def dm_write_page_def dm_sync_def
  dm_open_def Let_def lookS_def List.map_filter_def clock_loop.simps final_pass.simps

lemma eviction_tests: "passes test_eviction (create_pool p 3)" "passes test_pinned_page_not_evicted (create_pool p 2)"
  by (simp_all add: test_eviction_def test_pinned_page_not_evicted_def pool_start pool_run)

lemma five_rounds: "[0..<5] = [0, 1, 2, 3, 4 :: nat]"
  by (simp add: upt_rec)

lemma flush_all_test: "passes test_flush_all (create_pool p 5)"
  by (simp add: test_flush_all_def dirty_one_def five_rounds pool_start pool_run data_region_mut_ok)

lemma fetch_test: "passes test_new_page_and_fetch (create_pool p 10)"
  by (simp add: test_new_page_and_fetch_def pool_start pool_run page_test_simps data_region_new get_range_def slice_def wr_def)

end
