(* ===== verification/All_Tests.thy ===== *)
theory All_Tests
  imports Engine_Tests Page_Tests
begin

text \<open>The unit tests of all source files and the integration tests together.\<close>

section \<open>Property\<close>

text \<open>
  C40. Every unit test of the source files and every integration test passes: run on a new node, file, pool,
  tree, log, manager or database, it ends without an error and without a failed assertion.
\<close>

theorem all_tests_pass:
  "test_page_creation = Inr () \<and> test_page_type_roundtrip = Inr () \<and> test_checksum = Inr () \<and> test_from_bytes = Inr ()
    \<and> test_crc32_known_value = Inr ()
    \<and> passes test_disk_manager_read_write (dm_open p []) \<and> passes test_multiple_pages (dm_open p [])
    \<and> passes test_new_page_and_fetch (create_pool p 10) \<and> passes test_eviction (create_pool p 3)
    \<and> passes test_flush_all (create_pool p 5) \<and> passes test_pinned_page_not_evicted (create_pool p 2)
    \<and> passes test_leaf_insert_and_search (new_leaf 0) \<and> passes test_leaf_update (new_leaf 0) \<and> passes test_leaf_delete (new_leaf 0)
    \<and> passes test_internal_node (new_internal 0) \<and> passes test_leaf_capacity (new_leaf 0)
    \<and> passes_on (create_tree p) test_insert_and_search \<and> passes_on (create_tree p) test_update \<and> passes_on (create_tree p) test_delete
    \<and> passes_on (create_tree p) test_leaf_split \<and> passes_on (create_tree p) test_scan_all \<and> passes_on (create_tree p) test_range_scan
    \<and> passes_on (create_tree p) test_large_insert_and_delete
    \<and> test_serialize_deserialize_begin = Inr () \<and> test_serialize_deserialize_page_write = Inr ()
    \<and> test_checksum_detects_corruption = Inr () \<and> test_checkpoint_record = Inr ()
    \<and> passes_on (wal_open p []) test_wal_basic_operations \<and> passes_on (wal_open p []) test_recovery_committed_transaction
    \<and> passes_on (wal_open p []) test_recovery_uncommitted_transaction \<and> passes_on (wal_open p []) test_recovery_mixed_transactions
    \<and> passes_on (wal_open p []) test_wal_reopen \<and> passes_on (wal_open p []) test_wal_truncate
    \<and> passes test_basic_lock_acquire_release lm_new \<and> passes test_shared_locks_compatible lm_new
    \<and> passes test_exclusive_conflicts_with_shared lm_new \<and> passes test_exclusive_conflicts_with_exclusive lm_new
    \<and> passes test_lock_upgrade lm_new \<and> passes test_lock_upgrade_conflict lm_new \<and> passes test_release_grants_to_waiter lm_new
    \<and> passes test_multiple_resources lm_new
    \<and> passes_on (new_txn_wal p) test_begin_and_commit \<and> passes_on (new_txn_wal p) test_begin_and_abort
    \<and> passes_on (new_txn_wal p) test_lock_conflict_between_transactions \<and> passes_on (new_txn_wal p) test_shared_read_locks_compatible
    \<and> passes_on (new_txn_wal p) test_wal_records_written \<and> passes_on (new_txn_wal p) test_multiple_concurrent_transactions
    \<and> passes_on (engine_open p [] []) test_engine_basic_crud \<and> passes_on (engine_open p [] []) test_engine_scan
    \<and> passes_on (engine_open p [] []) test_engine_large_dataset \<and> passes_on (engine_open p [] []) test_engine_persistence
    \<and> passes_on (engine_open p [] []) test_engine_transactions \<and> passes_on (engine_open p [] []) test_engine_insert_delete_interleaved
    \<and> passes_on (wal_open p []) test_wal_basic_recovery \<and> passes_on (engine_open p [] []) test_engine_stats"
  by (intro conjI page_tests checksum_test crc_known disk_read_write_test multiple_pages_test fetch_test eviction_tests flush_all_test
      leaf_search_test leaf_update_test leaf_delete_test internal_node_test capacity_test search_test update_test delete_test leaf_split_test
      scan_test range_test large_test log_record_tests corruption_test wal_manager_tests wal_recovery_tests lock_manager_tests
      lock_manager_tests_multiple txn_manager_tests
      crud_test engine_scan_test engine_large_test engine_persistence_test engine_transactions_test engine_interleaved_test
      wal_basic_test engine_stats_test)

end
