(* ===== verification/Spec2Isabelle.thy ===== *)
theory Spec2Isabelle
  imports Replay Crash All_Tests
begin

text \<open>
  Verification of the storage engine \<^verbatim>\<open>storagedb\<close>: a persistent key-value store in Rust, with a B+ tree
  in 4 KB pages, a buffer pool, a write-ahead log, locks and transactions.

  \<^bold>\<open>The program.\<close> \<^verbatim>\<open>engine.rs\<close> ties the parts together. A database is two files. The data file is a
  sequence of pages, read and written by \<^verbatim>\<open>disk/disk_manager.rs\<close> with the page layout and the CRC-32 of
  \<^verbatim>\<open>disk/page.rs\<close>. \<^verbatim>\<open>buffer/pool.rs\<close> caches pages in frames (pins, dirty flags, CLOCK eviction), and
  \<^verbatim>\<open>btree/tree.rs\<close> keeps a B+ tree in the pages of the pool, whose nodes are slotted pages
  (\<^verbatim>\<open>btree/node.rs\<close>). The log file is a sequence of checksummed records (\<^verbatim>\<open>wal/log_record.rs\<close>) that
  \<^verbatim>\<open>wal/wal_manager.rs\<close> buffers, appends, reads back and analyses for recovery. \<^verbatim>\<open>txn/txn_manager.rs\<close>
  runs transactions over the log and the lock table of \<^verbatim>\<open>txn/lock_manager.rs\<close>. \<^verbatim>\<open>bin/cli.rs\<close> is a
  command line shell on the engine, \<^verbatim>\<open>main.rs\<close> a demo that walks through its interface.

  \<^bold>\<open>Theories and sources.\<close> The code is translated function by function, with the names of the source
  where possible; a struct is a record, a method with \<^verbatim>\<open>&mut self\<close> an operation \<open>(state, result) op\<close>
  that returns its result or fault and the state left behind, also when it fails.
    \<^item> \<open>Prelude\<close>: machine integers as words, the errors of \<^verbatim>\<open>error.rs\<close> together with panics, the result and
      state monads, byte slices and little-endian codecs.
    \<^item> \<open>Crc32\<close>, \<open>Page\<close>: \<^verbatim>\<open>disk/page.rs\<close>. The table-driven CRC equals the bitwise definition; burst errors of
      up to 32 bits are detected; header fields do not disturb each other.
    \<^item> \<open>Disk\<close>: \<^verbatim>\<open>disk/disk_manager.rs\<close>, the file as its bytes. Locale \<open>block_store\<close> is its contract.
    \<^item> \<open>Kv\<close>: sorted lists of entries, the abstract data type that pages, trees and the engine implement.
    \<^item> \<open>Slotted\<close>, \<open>Node\<close>, \<open>Leaf\<close>, \<open>Internal\<close>: \<^verbatim>\<open>btree/node.rs\<close>. \<open>Node\<close> holds the code; \<open>Leaf\<close> and \<open>Internal\<close>
      show that it acts on the bytes of a page as \<open>Kv\<close> operations on the entries. The slot directory is
      treated once in the locales \<open>slot_dir\<close> and \<open>data_dir\<close>, interpreted for both kinds of node.
    \<^item> \<open>Pool\<close>: \<^verbatim>\<open>buffer/pool.rs\<close>. \<open>bp_view\<close> is what the pool promises: the current content of each page,
      in a frame or on disk.
    \<^item> \<open>Tree\<close>: the code of \<^verbatim>\<open>btree/tree.rs\<close>. \<open>Store\<close>: the contract \<open>page_store\<close> that the tree needs, and
      that the pool fulfils it. \<open>Rep\<close>: trees as a datatype and their representation in pages.
      \<open>Index\<close>: the invariant \<open>tree_ok\<close>, balance included; search, scans and deletion; the depth is
      logarithmic in the number of pages. The contract \<open>kv_index\<close> of an index follows (\<open>sublocale\<close>) from the
      contract \<open>shaped_tree\<close> of an insert that keeps one more condition on the shape of the tree.
      \<open>Grow\<close>, \<open>Split\<close>, \<open>Climb\<close>, \<open>Insert\<close>: insertion with splits of leaves, internal nodes and the root;
      \<open>shaped_tree\<close> is interpreted for each of the conditions on the room for inserts below. \<open>Orphan\<close>: how a
      split can lose a parent pointer.
    \<^item> \<open>Log_Record\<close>, \<open>Wal\<close>: \<^verbatim>\<open>wal/\<close>. Round trip and corruption of records, torn logs, durability of
      commits, the recovery plan.
    \<^item> \<open>Lock_Manager\<close>, \<open>Txn_Manager\<close>: \<^verbatim>\<open>txn/\<close>. Lock compatibility (contract \<open>lock_service\<close>), isolation of
      the write sets of active transactions as an invariant of a step relation.
    \<^item> \<open>Engine\<close>, \<open>Recovery\<close>, \<open>History\<close>: \<^verbatim>\<open>engine.rs\<close>. Locale \<open>engine_index\<close> shows every call of the engine
      correct from the contract of the tree; \<open>Recovery\<close> treats opening and redo and undo, with recovery as
      the list of its steps; \<open>Crash\<close> stops it between any two of them, again and again, and shows that
      this makes no difference in the end. \<open>History\<close> relates sequences of calls to a map from keys to values. \<open>Unsaved\<close>: what the next process finds
      when the last one ended without a sync. \<open>Stale\<close>: the numbers of transactions across two processes.
      \<open>Replay\<close>: the log of one committed put, and what recovery makes of it.
    \<^item> \<open>Ascend\<close>, \<open>Load\<close>: databases that are filled in ascending order of the keys, tree and engine.
    \<^item> \<open>Text\<close>: what the two programs use of the standard library: UTF-8, lines, trimming and splitting,
      decimal numbers and padding. \<open>Cli\<close>: \<^verbatim>\<open>bin/cli.rs\<close> from its arguments and standard input to its output
      and exit status, with the \<^verbatim>\<open>Display\<close> texts; the texts of the operating system's errors and of elapsed
      times are the parameters \<open>cli_env\<close>. \<open>Shell\<close>: a session prints what a map from texts to texts
      prescribes. \<open>Sessions\<close>: so do runs one after the other on one database that stays within one page and
      is left with \<^verbatim>\<open>quit\<close>. \<open>Demo\<close>: \<^verbatim>\<open>main.rs\<close> and the text it prints, section by section with a triple \<open>prints\<close>.
    \<^item> \<open>Testing\<close>, \<open>Page_Tests\<close>, \<open>Node_Tests\<close>, \<open>Tree_Tests\<close>, \<open>Txn_Tests\<close>, \<open>Engine_Tests\<close>, \<open>All_Tests\<close>: the unit
      tests at the end of the source files and the integration tests as operations on the model; a failed assertion is a panic, and all of them pass. They
      test the translation against the expectations that the authors wrote down.
  The properties of one part are at the end of its theory, those of the whole in this one.

  \<^bold>\<open>Bounds.\<close> Loops that follow page numbers run with fuel \<open>loop_fuel\<close>, one more than there are pages: on
  well-formed trees the results are proved without a bound on the fuel that is left, and a run that
  uses it up has visited a page twice and would not end. Splitting by the number of entries makes
  both halves fit when an entry has at most \<open>SMALL\<close> = 150 bytes: a half that does not fit into the 4070
  bytes of a leaf has at least 27 entries, so the other half takes at least 26 slots of 6 bytes, which is
  more than what one new entry can add to a leaf that was not over full. Longer entries are covered as long as no leaf
  overflows. While a tree has at most \<open>FEW_PAGES\<close> = 26 pages no internal node is split, so that the defect
  of \<open>Orphan\<close> cannot occur and parent pointers stay right; this is the interpretation
  \<open>linked\<close> (and \<open>linked_engine\<close> for the engine). Beyond that, an insert is correct in any tree with right parent pointers (\<open>index_split\<close>), and
  keeps them right if every internal node on its path has room or the key belongs into its last child
  (\<open>tame\<close>). This is so when keys arrive in ascending order above all but \<open>FEW_ABOVE\<close> = 13 keys of the
  database, fewer than half the entries of a leaf that is split: the leaf of such an insert may split, but
  every internal node that takes a new separator is split at its end.
  The third interpretation \<open>loaded\<close> (\<open>loaded_engine\<close>) covers up to \<open>MAX_LOAD\<close> = 65000 of these inserts: the
  \<open>n\<close>-th adds at most \<open>n + 3\<close> pages, so the tree has at most \<open>1 + n (n + 3)\<close> pages and page numbers do not run
  out. Inserts into internal nodes outside these cases are where the code goes wrong. Page numbers, log sequence numbers and transaction numbers are words;
  the theorems assume that these counters have not reached their end.

  \<^bold>\<open>Defects.\<close> Theorems of kind error state what the code does where it fails: reopening a database
  takes page 0 for the root even after the root was split; recovery overwrites the root page with logged
  values; an aborted transaction keeps its writes; a child loses its parent pointer; a replaced value
  that does not fit panics; a failing fetch leaks a frame; a zero-filled log tail panics; commits behind a
  torn record are lost; a transaction left open is redone when a later process commits one with the same
  number; a process that ends without a sync leaves pages in the file that the next one
  searches forever.

  \<^bold>\<open>Not modelled.\<close> The module roots (declarations only), the benchmarks, the \<^verbatim>\<open>Debug\<close> format of a
  page, the temporary directories of the tests, and the message that recovery prints on standard error. Operating system errors other
  than a short read: the two files behave as byte arrays that hold what was written, \<^verbatim>\<open>sync_data\<close> has no
  further effect, the write of a page or the truncation of the log happens whole or not at all, and what a
  crash leaves are the two files. Threads: the
  engine is used through \<^verbatim>\<open>&mut self\<close> by one caller.
\<close>

section \<open>Properties\<close>

text \<open>
  C1. The engine is a key-value map: after any sequence of calls on a new database, transactional or
  not, every call is answered as by the map that the puts and deletes so far describe (lookups and
  deletes return the last value put under the key, scans list the map in key order), provided
  that each insert finds room in its leaf, or splits nodes of a tree with right parent pointers and
  small entries, and that the counters have not run out.
\<close>

theorem engine_refines_map:
  assumes "engine_reach e cs" and "call_fits e c" and "run_call c e = (r, e')"
  shows "reply_ok c (map_after cs) r \<and> engine_ok e' (call_effect c (entries_after cs))"
proof -
  note es = entries_after_map [of cs]
  from tree_engine.call_ok [OF engine_reach_ok [OF assms(1)] assms(2)] assms(3) have
    ok: "engine_ok e' (call_effect c (entries_after cs))" and
    rep: "\<And>rep. call_reply c (entries_after cs) = Some rep \<Longrightarrow> r = Inr rep" by auto
  have "reply_ok c (map_after cs) r" using es rep
    by (cases c) (auto simp: map_of_range sorted_kv_filter)
  with ok show ?thesis by blast
qed

theorem engine_refines_map_witness:
  "\<exists>e e'. engine_reach e [Put [1] [2]] \<and> run_call (Get [1]) e = (Inr (RValue (Some [2])), e')"
proof (rule put_history)
  fix e assume e: "engine_reach e [Put [1] [2]]" "call_fits e (Get [1])"
  obtain r e' where run: "run_call (Get [1]) e = (r, e')" by (metis surj_pair)
  from engine_refines_map [OF e run] run e(1) show ?thesis by (auto simp: map_after_def)
qed

text \<open>
  C3. Splits do not lose entries: on a new database with keys and values of at most 150 bytes together,
  where no value is replaced by a longer one, every call is answered as by the map as long as an
  insert meets at most 26 pages, whatever nodes are split; parent pointers stay right.
\<close>

theorem small_history_refines_map:
  assumes "reach_within linked_room e cs" and "call_within linked_room e c" and "run_call c e = (r, e')"
  shows "reply_ok c (map_after cs) r \<and> engine_holds linked_index e' (call_effect c (entries_after cs))"
proof -
  note es = entries_after_map [of cs]
  from linked_engine.call_ok [OF linked_reach_ok [OF assms(1)] assms(2)] assms(3) have
    ok: "engine_holds linked_index e' (call_effect c (entries_after cs))" and
    rep: "\<And>rep. call_reply c (entries_after cs) = Some rep \<Longrightarrow> r = Inr rep" by auto
  have "reply_ok c (map_after cs) r" using es rep
    by (cases c) (auto simp: map_of_range sorted_kv_filter)
  with ok show ?thesis by blast
qed

theorem small_history_refines_map_witness:
  "\<exists>e e'. reach_within linked_room e (puts 26) \<and> run_call (Put [26] (replicate 149 0)) e = (Inr RUnit, e')
    \<and> engine_holds linked_index e' (sample 27)"
proof (rule puts_history [of 26])
  fix e assume e: "reach_within linked_room e (puts 26)" "bp_count (se_pool e) = 1" "wm_next_lsn (se_wal e) = 1"
    "tm_next_txn_id (se_txn_manager e) = 1"
  have fits: "call_within linked_room e (Put [26] (replicate 149 0))" using put_linked [OF e(1) _ e(2-4)] by simp
  obtain r e' where run: "run_call (Put [26] (replicate 149 0)) e = (r, e')" by (metis surj_pair)
  have "call_effect (Put [26] (replicate 149 0)) (entries_after (puts 26)) = sample 27"
    using sample_Suc [of 26] by (simp add: entries_after_puts)
  with small_history_refines_map [OF e(1) fits run] run e(1) show ?thesis by auto
qed simp

text \<open>
  C2. Durability of sync: after a successful sync, opening the two files again gives an engine with
  the same entries, if the root of the tree is page 0 and the log holds no transactional write.
\<close>

theorem sync_then_reopen:
  assumes "engine_ok e es" and "root_page_id (se_btree e) = 0" and "engine_sync e = (r, e')"
    and "wal_recover (se_wal e') = Inr acts" and "ra_redo acts = []" and "ra_undo acts = []"
  shows "r = Inr () \<and> (\<exists>e2. engine_open p (dm_file (bp_disk (se_pool e'))) (wm_file (se_wal e')) = Inr e2
    \<and> engine_ok e2 es)"
proof -
  from tree_engine.sync_ok [OF assms(1)] assms(3) have s: "r = Inr ()" "engine_ok e' es"
    "dm_pages (bp_disk (se_pool e')) = bp_view (se_pool e')" "se_btree e' = se_btree e" by auto
  show ?thesis
  proof (rule reopen_clean [OF s(2,3) assms(4-6), of p])
    fix e1 assume "reopened p e' e1" and "engine_open p (dm_file (bp_disk (se_pool e'))) (wm_file (se_wal e')) = Inr e1"
    with reopened_engine_ok [OF _ s(2)] s(1,4) assms(2) show ?thesis by auto
  qed
qed

theorem sync_then_reopen_witness:
  "\<exists>e d e2. engine_reach e [Put [1] [2]] \<and> engine_open ''db'' d [] = Inr e2 \<and> engine_ok e2 [([1], [2])]"
proof (rule put_history)
  fix e assume e: "engine_reach e [Put [1] [2]]" "root_page_id (se_btree e) = 0"
    "wm_file (se_wal e) = []" "wm_write_buffer (se_wal e) = []"
  have ok: "engine_ok e [([1], [2])]" using engine_reach_ok [OF e(1)] by (simp add: entries_after_def kv_insert_def)
  from tree_engine.sync_ok [OF ok] obtain e' where e': "engine_sync e = (Inr (), e')" "wal_flush (se_wal e) = (Inr (), se_wal e')" by blast
  have "wm_file (snd (wal_flush (se_wal e))) = []" using e(3,4) by (simp add: wal_flush_def)
  then have f: "wm_file (se_wal e') = []" using e'(2) by simp
  from recover_empty_log [OF f] obtain acts where
    "wal_recover (se_wal e') = Inr acts" "ra_redo acts = []" "ra_undo acts = []" by blast
  from sync_then_reopen [OF ok e(2) e'(1) this, of "''db''"] e(1) f show ?thesis by auto
qed

text \<open>
  C31. Transactional puts log key and value as if they were images of page 0. A process on a database
  with an empty log, all entries in the root leaf, puts an entry in its first transaction, commits and syncs. When
  the files it leaves are opened, recovery copies the value over the start of page 0, which
  still is the root of the tree: a value of five bytes or more whose fifth byte is not the tag of a
  leaf page turns the root into something else.
\<close>

theorem committed_put_overwrites_root:
  assumes "engine_ok e es" and "root_page_id (se_btree e) = 0" and "se_txn_manager e = tm_new"
    and "wal_holds (se_wal e) [] []" and "wm_next_lsn (se_wal e) < - 3"
    and "leaf_size es + 12 + length k + length v \<le> LEAF_CAPACITY"
    and "run_calls [BeginTxn, TxnPut 1 k v, CommitTxn 1, Sync] e = (rs, e')"
  shows "rs = [Inr (RTxn 1), Inr RUnit, Inr RUnit, Inr RUnit] \<and> engine_ok e' (kv_insert k v es)
    \<and> (\<exists>e2 b. bp_view (se_pool e') 0 = Some b
      \<and> engine_open p (dm_file (bp_disk (se_pool e'))) (wm_file (se_wal e')) = Inr e2
      \<and> root_page_id (se_btree e2) = 0 \<and> bp_view (se_pool e2) 0 = Some (wr b 0 (take PAGE_SIZE v))
      \<and> (5 \<le> length v \<and> v ! 4 \<noteq> 3 \<longrightarrow> (\<forall>nd. bp_view (se_pool e2) 0 = Some (pg_data nd) \<longrightarrow> \<not> is_leaf nd)))"
proof (rule committed_put_synced [OF assms(1,3-6)])
  fix e1 acts
  assume run: "run_calls [BeginTxn, TxnPut 1 k v, CommitTxn 1, Sync] e = ([Inr (RTxn 1), Inr RUnit, Inr RUnit, Inr RUnit], e1)"
    and s: "engine_ok e1 (kv_insert k v es)" "dm_pages (bp_disk (se_pool e1)) = bp_view (se_pool e1)" "se_btree e1 = se_btree e"
    and acts: "wal_recover (se_wal e1) = Inr acts" "ra_redo acts = [(0, v)]" "ra_undo acts = []"
  have e': "e' = e1" "rs = [Inr (RTxn 1), Inr RUnit, Inr RUnit, Inr RUnit]" using run assms(7) by simp_all
  have "root_page_id (se_btree e1) = 0" using s(3) assms(2) by simp
  from redo_overwrites_root [OF s(1,2) this acts, of p] e' s(1) show ?thesis by blast
qed

theorem committed_put_overwrites_root_witness:
  "\<exists>e rs e' e2. engine_open ''db'' [] [] = Inr e
    \<and> run_calls [BeginTxn, TxnPut 1 [9] [0, 0, 0, 0, 0], CommitTxn 1, Sync] e = (rs, e') \<and> engine_ok e' [([9], [0, 0, 0, 0, 0])]
    \<and> engine_open ''db'' (dm_file (bp_disk (se_pool e'))) (wm_file (se_wal e')) = Inr e2
    \<and> root_page_id (se_btree e2) = 0 \<and> (\<forall>nd. bp_view (se_pool e2) 0 = Some (pg_data nd) \<longrightarrow> \<not> is_leaf nd)"
proof (rule open_fresh [of "''db''"])
  fix e assume e: "engine_open ''db'' [] [] = Inr e" "engine_ok e []" "se_txn_manager e = tm_new"
    "wm_next_lsn (se_wal e) = 1" "root_page_id (se_btree e) = 0" "wal_holds (se_wal e) [] []"
  obtain rs e' where run: "run_calls [BeginTxn, TxnPut 1 [9] [0, 0, 0, 0, 0], CommitTxn 1, Sync] e = (rs, e')" by (metis surj_pair)
  have "wm_next_lsn (se_wal e) < - 3" "leaf_size [] + 12 + length [9 :: u8] + length [0, 0, 0, 0, 0 :: u8] \<le> LEAF_CAPACITY"
    using e(4) by (simp_all add: word_less_nat_alt)
  from committed_put_overwrites_root [OF e(2,5,3,6) this run, of "''db''"] e(1) run show ?thesis by (auto simp: kv_insert_def)
qed

text \<open>
  C37. Aborting a transaction does not undo its puts: a value put inside a transaction is still read
  after the transaction was aborted.
\<close>

theorem aborted_put_stays:
  assumes "engine_reach e cs" and "call_fits e (TxnPut t k v)" and "run_call (TxnPut t k v) e = (r1, e1)"
    and "call_fits e1 (AbortTxn t)" and "run_call (AbortTxn t) e1 = (r2, e2)"
    and "call_fits e2 (Get k)" and "run_call (Get k) e2 = (r3, e3)"
  shows "r3 = Inr (RValue (Some v))"
proof -
  have "engine_reach e2 ((cs @ [TxnPut t k v]) @ [AbortTxn t])"
    using assms(1-5) by (intro reach_within.call)
  from tree_engine.call_ok [OF engine_reach_ok [OF this] assms(6)] assms(7) entries_after_map [of "(cs @ [TxnPut t k v]) @ [AbortTxn t]"]
  show ?thesis by (auto simp: map_after_def)
qed

theorem aborted_put_stays_witness:
  "\<exists>e2 e3 e4. engine_reach e2 [BeginTxn, TxnPut 1 [9] [7]] \<and> run_call (AbortTxn 1) e2 = (Inr RUnit, e3)
    \<and> run_call (Get [9]) e3 = (Inr (RValue (Some [7])), e4)"
proof (rule begun_put [of "[9]" "[7]"])
  fix e1 e2 w0 w1 c
  assume p: "engine_reach e1 [BeginTxn]" "call_fits e1 (TxnPut 1 [9] [7])" "run_call (TxnPut 1 [9] [7]) e1 = (Inr RUnit, e2)"
    "se_txn_manager e2 = one_active"
    "wal_holds (se_wal e2) [] [stamped w0 (lr_begin 0 1), stamped w1 (lr_page_write 0 1 c 0 [9] [7])]"
    "wm_next_lsn (se_wal e2) = 3"
  have n: "wm_next_lsn (se_wal e2) \<noteq> - 1" using p(6) by simp
  obtain w3 where a: "log_abort 1 (se_wal e2) = (Inr (wm_next_lsn (se_wal e2)), w3)"
    "tm_abort 1 (one_active, se_wal e2) = (Inr (tx_write_set (transaction_new 1)), (ended 1 one_active, w3))"
    by (rule abort_run [OF one_active_inv p(5) n])
  have n3: "wm_next_lsn w3 = 4" by (rule log_abort_ok [OF p(5) n, of 1]) (use a(1) p(6) in simp)
  let ?e3 = "e2\<lparr>se_txn_manager := ended 1 one_active, se_wal := w3\<rparr>"
  have run: "run_call (AbortTxn 1) e2 = (Inr RUnit, ?e3)"
    using a(2) p(4) by (simp add: abort_transaction_def on_txn_def mapS_def bindS_def)
  have fits: "call_fits e2 (AbortTxn 1)" "call_fits ?e3 (Get [9])" using n n3 p(4) by (simp_all add: call_within_def)
  obtain r e4 where get: "run_call (Get [9]) ?e3 = (r, e4)" by (metis surj_pair)
  have "engine_reach e2 [BeginTxn, TxnPut 1 [9] [7]]" using reach_within.call [OF p(1-3)] by simp
  with aborted_put_stays [OF p(1-3) fits(1) run fits(2) get] run get show ?thesis by blast
qed simp

text \<open>
  C34. Opening a database takes page 0 for the root of the tree. Once the root was split, page 0 is one
  leaf of several: after a successful sync and a restart, a lookup finds the entries of that
  leaf only, and all other entries are lost. The log holds no transactional write.
\<close>

theorem reopen_forgets_root:
  assumes "engine_ok e es" and "leaf_at (bp_view (se_pool e)) 0 es0 sib par" and "engine_sync e = (r, e')"
    and "wal_recover (se_wal e') = Inr acts" and "ra_redo acts = []" and "ra_undo acts = []"
  shows "\<exists>e2. engine_open p (dm_file (bp_disk (se_pool e'))) (wm_file (se_wal e')) = Inr e2
    \<and> fst (engine_get k e2) = Inr (map_of es0 k)"
proof -
  from tree_engine.sync_ok [OF assms(1)] assms(3) have s: "engine_ok e' es"
    "dm_pages (bp_disk (se_pool e')) = bp_view (se_pool e')" "bp_view (se_pool e') = bp_view (se_pool e)" by auto
  from reopen_clean [OF s(1,2) assms(4-6), of p] obtain e1 where e1: "reopened p e' e1"
    and op: "engine_open p (dm_file (bp_disk (se_pool e'))) (wm_file (se_wal e')) = Inr e1" .
  have q: "pool_quiet (se_pool e1)" "bp_view (se_pool e1) = bp_view (se_pool e)" "root_id (BLeaf 0 es0) = root_page_id (se_btree e1)"
    using e1 s(3) by (simp_all add: reopened_def bt_open_def)
  have "rep (bp_view (se_pool e1)) (BLeaf 0 es0)" "ord None None (BLeaf 0 es0)"
    using assms(2) q(2) by (auto simp: leaf_at_def leaf_wf_def)
  then obtain bp where "bt_search (se_btree e1) k (se_pool e1) = (Inr (map_of es0 k), bp)"
    using bt_search_rep [where key = k, OF q(1) _ _ q(3)] by (auto simp: loop_fuel_def)
  then have "fst (engine_get k e1) = Inr (map_of es0 k)" by (simp add: engine_get_def on_tree_def with_tree_run)
  with op show ?thesis by blast
qed

theorem reopen_forgets_root_witness:
  "\<exists>e e' d e2. engine_ok e (sample 27) \<and> engine_sync e = (Inr (), e') \<and> engine_open ''db'' d [] = Inr e2
    \<and> map_of (sample 27) [26] = Some (replicate 149 0) \<and> fst (engine_get [26] e2) = Inr None"
proof (rule split_history)
  fix e sib par assume e: "engine_ok e (sample 27)" "leaf_at (bp_view (se_pool e)) 0 (take 13 (sample 27)) sib par"
    "wm_file (se_wal e) = []" "wm_write_buffer (se_wal e) = []"
  from tree_engine.sync_ok [OF e(1)] obtain e' where e': "engine_sync e = (Inr (), e')" "wal_flush (se_wal e) = (Inr (), se_wal e')" by blast
  have "wm_file (snd (wal_flush (se_wal e))) = []" using e(3,4) by (simp add: wal_flush_def)
  then have f: "wm_file (se_wal e') = []" using e'(2) by simp
  from recover_empty_log [OF f] obtain acts where "wal_recover (se_wal e') = Inr acts" "ra_redo acts = []" "ra_undo acts = []" by blast
  from reopen_forgets_root [OF e(1,2) e'(1) this, of "''db''" "[26]"] f obtain d e2 where
    o: "engine_open ''db'' d [] = Inr e2" "fst (engine_get [26] e2) = Inr (map_of (take 13 (sample 27)) [26])" by auto
  have srt: "sorted_kv (sample 27)" using engine_ok_def e(1) index_sorted by auto
  have nth: "sample 27 ! 26 = ([26], replicate 149 0)" "26 < length (sample 27)" by (simp_all add: sample_def)
  have "map_of (sample 27) [26] = Some (replicate 149 0)" using kv_found_lookup [OF srt nth(2)] nth(1) by simp
  moreover have "map_of (take 13 (sample 27)) [26] = None"
    by (auto simp: map_of_eq_None_iff sample_def take_map word_unat_eq_iff unat_of_nat)
  ultimately show ?thesis using e(1) e'(1) o by auto
qed

end
